(* ===== verification/Prelude.thy ===== *)
theory Prelude
  imports Main "HOL-Library.Word"
begin

text \<open>
  Shared vocabulary of the development: the machine integer types of the kernel, Rust's
  checked and saturating arithmetic on them, Rust strings as lists of Unicode code points,
  result types, and the generic list lemmas the component theories use.

  \<^item> An \<open>isize\<close> error number is an \<open>int\<close>; a \<open>Result<T, isize>\<close> is \<open>int + 'a\<close>.
  \<^item> Lengths and indices of in-memory collections are \<open>nat\<close>; values that user space or the
    hardware supplies and whose overflow the code checks are 64-bit words.
\<close>

unbundle bit_operations_syntax

section \<open>Machine integers\<close>

type_synonym u8 = "8 word"
type_synonym u16 = "16 word"
type_synonym u32 = "32 word"
type_synonym u64 = "64 word"
type_synonym usize = "64 word"
type_synonym pid = u64
type_synonym 'a errno_result = "int + 'a"

named_theorems rust_arith \<open>readings of Rust's checked and saturating operations as natural numbers\<close>

definition checked_add :: "'n::len word \<Rightarrow> 'n word \<Rightarrow> 'n word option" where
  "checked_add a b = (if unat a + unat b < 2 ^ LENGTH('n) then Some (a + b) else None)"

definition checked_sub :: "'n::len word \<Rightarrow> 'n word \<Rightarrow> 'n word option" where
  "checked_sub a b = (if b \<le> a then Some (a - b) else None)"

definition checked_mul :: "'n::len word \<Rightarrow> 'n word \<Rightarrow> 'n word option" where
  "checked_mul a b = (if unat a * unat b < 2 ^ LENGTH('n) then Some (a * b) else None)"

definition saturating_add :: "'n::len word \<Rightarrow> 'n word \<Rightarrow> 'n word" where
  "saturating_add a b = (if unat a + unat b < 2 ^ LENGTH('n) then a + b else - 1)"

definition saturating_sub :: "'n::len word \<Rightarrow> 'n word \<Rightarrow> 'n word" where
  "saturating_sub a b = (if b \<le> a then a - b else 0)"

lemma checked_add_Some [rust_arith]:
  "checked_add a b = Some c \<longleftrightarrow> unat a + unat b < 2 ^ LENGTH('n) \<and> c = a + b"
  for a b c :: "'n::len word"
  by (auto simp: checked_add_def)

lemma checked_add_None [rust_arith]:
  "checked_add a b = None \<longleftrightarrow> 2 ^ LENGTH('n) \<le> unat a + unat b"
  for a b :: "'n::len word"
  by (auto simp: checked_add_def)

lemma unat_add_nowrap [rust_arith]:
  "unat a + unat b < 2 ^ LENGTH('n) \<Longrightarrow> unat (a + b) = unat a + unat b"
  for a b :: "'n::len word"
  by (simp add: unat_word_ariths)

lemma unat_less_2p: "unat w < 2 ^ LENGTH('n)" for w :: "'n::len word"
  by (rule unsigned_less)

lemma unat_saturating_add [rust_arith]:
  "unat (saturating_add a b) = min (unat a + unat b) (2 ^ LENGTH('n) - 1)"
  for a b :: "'n::len word"
proof (cases "unat a + unat b < 2 ^ LENGTH('n)")
  case True
  then show ?thesis by (simp add: saturating_add_def unat_add_nowrap)
next
  case False
  then have "2 ^ LENGTH('n) - 1 \<le> unat a + unat b" by linarith
  with False show ?thesis
    by (simp add: saturating_add_def unsigned_minus_1_eq_mask mask_eq_exp_minus_1)
qed

lemma unat_saturating_sub [rust_arith]:
  "unat (saturating_sub a b) = unat a - unat b"
  for a b :: "'n::len word"
  by (simp add: saturating_sub_def unat_sub word_le_nat_alt)

section \<open>Lists\<close>

text \<open>\<open>Vec::remove(index)\<close> and \<open>Iterator::position\<close>.\<close>

definition remove_nth :: "nat \<Rightarrow> 'a list \<Rightarrow> 'a list" where
  "remove_nth i xs = take i xs @ drop (Suc i) xs"

primrec position :: "('a \<Rightarrow> bool) \<Rightarrow> 'a list \<Rightarrow> nat option" where
  "position P [] = None"
| "position P (x # xs) = (if P x then Some 0 else map_option Suc (position P xs))"

lemma position_None [simp]: "position P xs = None \<longleftrightarrow> (\<forall>x \<in> set xs. \<not> P x)"
  by (induction xs) auto

lemma position_Some:
  "position P xs = Some i \<longleftrightarrow> i < length xs \<and> P (xs ! i) \<and> (\<forall>j < i. \<not> P (xs ! j))"
proof (induction xs arbitrary: i)
  case Nil
  then show ?case by simp
next
  case (Cons x xs)
  show ?case
  proof (cases i)
    case 0
    then show ?thesis by auto
  next
    case (Suc k)
    with Cons.IH [of k] show ?thesis
      by (auto simp: All_less_Suc2)
  qed
qed

lemma position_SomeD:
  assumes "position P xs = Some i"
  shows "i < length xs" "P (xs ! i)" "\<And>j. j < i \<Longrightarrow> \<not> P (xs ! j)"
  using assms by (auto simp: position_Some)

lemma length_remove_nth [simp]:
  "i < length xs \<Longrightarrow> length (remove_nth i xs) = length xs - 1"
  by (auto simp: remove_nth_def)

lemma nth_remove_nth:
  "i < length xs \<Longrightarrow> j < length xs - 1 \<Longrightarrow>
     remove_nth i xs ! j = (if j < i then xs ! j else xs ! Suc j)"
  by (auto simp: remove_nth_def nth_append min_def)

lemma set_remove_nth_subset: "set (remove_nth i xs) \<subseteq> set xs"
  by (auto simp: remove_nth_def dest: in_set_takeD in_set_dropD)

lemma set_remove_nth_distinct:
  assumes "k < length xs" "distinct (map f xs)"
  shows "set (remove_nth k xs) = {x \<in> set xs. f x \<noteq> f (xs ! k)}"
proof -
  have xs: "xs = take k xs @ xs ! k # drop (Suc k) xs" using id_take_nth_drop [OF assms(1)] .
  then have "distinct (map f (take k xs @ xs ! k # drop (Suc k) xs))" using assms(2) by simp
  then have "f (xs ! k) \<notin> f ` set (remove_nth k xs)" by (auto simp: remove_nth_def)
  then have "f x \<noteq> f (xs ! k)" if "x \<in> set (remove_nth k xs)" for x
    using that by (metis imageI)
  moreover have "set xs = insert (xs ! k) (set (remove_nth k xs))"
    using arg_cong [OF xs, of set] by (simp add: remove_nth_def)
  ultimately show ?thesis by auto
qed

lemma map_remove_nth: "map f (remove_nth i xs) = remove_nth i (map f xs)"
  by (simp add: remove_nth_def take_map drop_map)

lemma distinct_remove_nth: "distinct xs \<Longrightarrow> distinct (remove_nth i xs)"
  unfolding remove_nth_def
  by (subst distinct_append)
     (auto dest: set_take_disj_set_drop_if_distinct [where i = i and j = "Suc i"])

lemma map_by_index: "map f xs = map (\<lambda>i. f (xs ! i)) [0..<length xs]"
  by (rule nth_equalityI) auto

lemma find_upt_Some:
  "List.find P [m..<n] = Some k \<longleftrightarrow> m \<le> k \<and> k < n \<and> P k \<and> (\<forall>j. m \<le> j \<and> j < k \<longrightarrow> \<not> P j)"
proof (induction "n - m" arbitrary: m)
  case 0
  then show ?case by simp
next
  case (Suc d)
  then have lt: "m < n" and upt: "[m..<n] = m # [Suc m..<n]" by (simp_all add: upt_conv_Cons)
  from Suc have IH: "List.find P [Suc m..<n] = Some k \<longleftrightarrow>
      Suc m \<le> k \<and> k < n \<and> P k \<and> (\<forall>j. Suc m \<le> j \<and> j < k \<longrightarrow> \<not> P j)"
    by simp
  show ?case
  proof (cases "P m")
    case True
    with upt lt show ?thesis by (auto simp: not_less_eq_eq le_less)
  next
    case False
    with upt IH show ?thesis by (auto simp: Suc_le_eq) (metis le_neq_implies_less)+
  qed
qed

lemma find_upt_None: "List.find P [m..<n] = None \<longleftrightarrow> (\<forall>j. m \<le> j \<and> j < n \<longrightarrow> \<not> P j)"
  by (auto simp: find_None_iff)

end
