(* ===== verification/Cpu_Context.thy ===== *)
theory Cpu_Context
  imports Prelude
begin

text \<open>
  The saved processor state of a task (\<open>arch/x86_64/context.rs\<close>): its accessors, saving and
  loading the eight registers of a kernel continuation, and the switch between two tasks. Memory is a
  function from the addresses of aligned words to words.
\<close>

record cpu_context =
  rsp :: u64
  rbp :: u64
  rbx :: u64
  r12 :: u64
  r13 :: u64
  r14 :: u64
  r15 :: u64
  rip :: u64
  user_rip :: u64
  user_rsp :: u64
  kernel_rsp :: u64
  rflags :: u64
  cr3 :: u64
  rax :: u64
  fs_base :: u64
  gs_base :: u64

definition context_new :: cpu_context where
  "context_new = \<lparr>rsp = 0, rbp = 0, rbx = 0, r12 = 0, r13 = 0, r14 = 0, r15 = 0, rip = 0, user_rip = 0, user_rsp = 0,
     kernel_rsp = 0, rflags = 0, cr3 = 0, rax = 0, fs_base = 0, gs_base = 0\<rparr>"

section \<open>Accessors\<close>

definition address_space_root :: "cpu_context \<Rightarrow> u64" where "address_space_root c = cr3 c"
definition set_address_space_root :: "cpu_context \<Rightarrow> u64 \<Rightarrow> cpu_context" where "set_address_space_root c v = c\<lparr>cr3 := v\<rparr>"
definition kernel_stack_pointer :: "cpu_context \<Rightarrow> u64" where "kernel_stack_pointer c = rsp c"
definition set_kernel_stack_pointer :: "cpu_context \<Rightarrow> u64 \<Rightarrow> cpu_context" where "set_kernel_stack_pointer c v = c\<lparr>rsp := v\<rparr>"
definition frame_pointer :: "cpu_context \<Rightarrow> u64" where "frame_pointer c = rbp c"
definition set_frame_pointer :: "cpu_context \<Rightarrow> u64 \<Rightarrow> cpu_context" where "set_frame_pointer c v = c\<lparr>rbp := v\<rparr>"
definition kernel_entry_point :: "cpu_context \<Rightarrow> u64" where "kernel_entry_point c = rip c"
definition set_kernel_entry_point :: "cpu_context \<Rightarrow> u64 \<Rightarrow> cpu_context" where "set_kernel_entry_point c v = c\<lparr>rip := v\<rparr>"
definition control_flags :: "cpu_context \<Rightarrow> u64" where "control_flags c = rflags c"
definition set_control_flags :: "cpu_context \<Rightarrow> u64 \<Rightarrow> cpu_context" where "set_control_flags c v = c\<lparr>rflags := v\<rparr>"
definition return_value :: "cpu_context \<Rightarrow> u64" where "return_value c = rax c"
definition set_return_value :: "cpu_context \<Rightarrow> u64 \<Rightarrow> cpu_context" where "set_return_value c v = c\<lparr>rax := v\<rparr>"
definition user_entry_point :: "cpu_context \<Rightarrow> u64" where "user_entry_point c = user_rip c"
definition set_user_entry_point :: "cpu_context \<Rightarrow> u64 \<Rightarrow> cpu_context" where "set_user_entry_point c v = c\<lparr>user_rip := v\<rparr>"
definition user_stack_pointer :: "cpu_context \<Rightarrow> u64" where "user_stack_pointer c = user_rsp c"
definition set_user_stack_pointer :: "cpu_context \<Rightarrow> u64 \<Rightarrow> cpu_context" where "set_user_stack_pointer c v = c\<lparr>user_rsp := v\<rparr>"
definition context_stack_top :: "cpu_context \<Rightarrow> u64" where "context_stack_top c = kernel_rsp c"
definition set_context_stack_top :: "cpu_context \<Rightarrow> u64 \<Rightarrow> cpu_context" where "set_context_stack_top c v = c\<lparr>kernel_rsp := v\<rparr>"

definition thread_local_base :: "cpu_context \<Rightarrow> bool \<Rightarrow> u64" where
  "thread_local_base c is_fs = (if is_fs then fs_base c else gs_base c)"

definition set_thread_local_base :: "cpu_context \<Rightarrow> u64 \<Rightarrow> bool \<Rightarrow> cpu_context" where
  "set_thread_local_base c v is_fs = (if is_fs then c\<lparr>fs_base := v\<rparr> else c\<lparr>gs_base := v\<rparr>)"

lemmas context_defs = address_space_root_def set_address_space_root_def kernel_stack_pointer_def set_kernel_stack_pointer_def
  frame_pointer_def set_frame_pointer_def kernel_entry_point_def set_kernel_entry_point_def control_flags_def set_control_flags_def
  return_value_def set_return_value_def user_entry_point_def set_user_entry_point_def user_stack_pointer_def set_user_stack_pointer_def
  context_stack_top_def set_context_stack_top_def thread_local_base_def set_thread_local_base_def

section \<open>Saving and loading\<close>

type_synonym kernel_memory = "u64 \<Rightarrow> u64"

definition save_to :: "cpu_context \<Rightarrow> kernel_memory \<Rightarrow> u64 \<Rightarrow> kernel_memory" where
  "save_to c mem a = mem(a := rsp c, a + 8 := rbp c, a + 16 := rbx c, a + 24 := r12 c, a + 32 := r13 c, a + 40 := r14 c,
     a + 48 := r15 c, a + 56 := rip c)"

definition load_from :: "cpu_context \<Rightarrow> kernel_memory \<Rightarrow> u64 \<Rightarrow> cpu_context" where
  "load_from c mem a = c\<lparr>rsp := mem a, rbp := mem (a + 8), rbx := mem (a + 16), r12 := mem (a + 24), r13 := mem (a + 32),
     r14 := mem (a + 40), r15 := mem (a + 48), rip := mem (a + 56)\<rparr>"

text \<open>The subtraction and the addition panic when they overflow.\<close>

definition save_to_stack :: "cpu_context \<Rightarrow> kernel_memory \<Rightarrow> (cpu_context \<times> kernel_memory \<times> u64) option" where
  "save_to_stack c mem =
     (case checked_sub (kernel_stack_pointer c) 56 of
        None \<Rightarrow> None
      | Some sp \<Rightarrow> Some (set_kernel_stack_pointer c sp, save_to c mem sp, sp))"

definition load_from_stack :: "cpu_context \<Rightarrow> kernel_memory \<Rightarrow> cpu_context option" where
  "load_from_stack c mem =
     (let sp = kernel_stack_pointer c
      in case checked_add sp 56 of
           None \<Rightarrow> None
         | Some up \<Rightarrow> Some (set_kernel_stack_pointer (load_from c mem sp) up))"

section \<open>Switching\<close>

text \<open>The registers of the processor that a switch saves and loads; \<open>resume\<close> is the address behind the switch.\<close>

definition switch_context :: "cpu_context \<Rightarrow> u64 \<Rightarrow> cpu_context \<Rightarrow> cpu_context \<Rightarrow> cpu_context \<times> cpu_context" where
  "switch_context cpu resume old new =
     (old\<lparr>rsp := rsp cpu, rbp := rbp cpu, rbx := rbx cpu, r12 := r12 cpu, r13 := r13 cpu, r14 := r14 cpu, r15 := r15 cpu, rip := resume\<rparr>,
      cpu\<lparr>rsp := rsp new, rbp := rbp new, rbx := rbx new, r12 := r12 new, r13 := r13 new, r14 := r14 new, r15 := r15 new, rip := rip new\<rparr>)"

definition capture_current :: "cpu_context \<Rightarrow> u64 \<Rightarrow> cpu_context \<Rightarrow> cpu_context" where
  "capture_current cpu resume ctx =
     ctx\<lparr>rsp := rsp cpu, rbp := rbp cpu, rbx := rbx cpu, r12 := r12 cpu, r13 := r13 cpu, r14 := r14 cpu, r15 := r15 cpu, rip := resume\<rparr>"

text \<open>What a kernel continuation is made of.\<close>

definition same_continuation :: "cpu_context \<Rightarrow> cpu_context \<Rightarrow> bool" where
  "same_continuation c d \<longleftrightarrow> rsp c = rsp d \<and> rbp c = rbp d \<and> rbx c = rbx d \<and> r12 c = r12 d \<and> r13 c = r13 d \<and> r14 c = r14 d
     \<and> r15 c = r15 d \<and> rip c = rip d"

lemma load_after_save: "same_continuation (load_from d (save_to c mem a) a) c"
  by (simp add: same_continuation_def load_from_def save_to_def)

text \<open>Saving on the stack and loading from it gives the registers back, but the frame of 56 bytes is one word too small for
  the eight registers: the word at the old stack pointer is overwritten.\<close>

lemma stack_roundtrip:
  assumes "56 \<le> unat (rsp c)"
  shows "\<exists>c' mem' sp d. save_to_stack c mem = Some (c', mem', sp) \<and> load_from_stack c' mem' = Some d
    \<and> same_continuation d c \<and> mem' (rsp c) = rip c"
proof -
  have sub: "checked_sub (rsp c) 56 = Some (rsp c - 56)" using assms by (simp add: checked_sub_def word_le_nat_alt)
  have "unat (rsp c - 56) = unat (rsp c) - 56" using assms by (simp add: unat_sub word_le_nat_alt)
  then have add: "checked_add (rsp c - 56) 56 = Some (rsp c)" using unat_less_2p [of "rsp c"] assms by (simp add: checked_add_def)
  have "same_continuation (load_from (set_kernel_stack_pointer c (rsp c - 56)) (save_to c mem (rsp c - 56)) (rsp c - 56)) c"
    by (rule load_after_save)
  then show ?thesis
    using sub add by (simp add: save_to_stack_def load_from_stack_def context_defs Let_def same_continuation_def save_to_def)
qed

end
