(* ===== verification/Cpu_Accounting.thy ===== *)
theory Cpu_Accounting
  imports Prelude
begin

text \<open>
  CPU time accounting of \<^verbatim>\<open>kernel/src/process/accounting.rs\<close>: per-task user and kernel
  nanoseconds, the mode that is being charged, and the start of the running interval, if the
  task is running. All sums saturate at \<open>u64::MAX\<close>.
\<close>

section \<open>Data and operations\<close>

datatype task_mode = Kernel | User

definition NS_PER_USER_TICK :: u64 where "NS_PER_USER_TICK = 10000000"

record cpu_usage =
  user_ns :: u64
  kernel_ns :: u64

definition usage_default :: cpu_usage where
  "usage_default = \<lparr>user_ns = 0, kernel_ns = 0\<rparr>"

definition usage_add :: "cpu_usage \<Rightarrow> cpu_usage \<Rightarrow> cpu_usage" where
  "usage_add u other = \<lparr>user_ns = saturating_add (user_ns u) (user_ns other),
                        kernel_ns = saturating_add (kernel_ns u) (kernel_ns other)\<rparr>"

record cpu_accounting =
  usage :: cpu_usage
  children :: cpu_usage
  acct_mode :: task_mode
  running_since :: "u64 option"

definition acct_new :: cpu_accounting where
  "acct_new = \<lparr>usage = usage_default, children = usage_default, acct_mode = Kernel,
               running_since = None\<rparr>"

definition snapshot :: "cpu_accounting \<Rightarrow> u64 \<Rightarrow> cpu_usage" where
  "snapshot a now =
     (case running_since a of
        None \<Rightarrow> usage a
      | Some start \<Rightarrow>
          (let elapsed = saturating_sub now start
           in case acct_mode a of
                User \<Rightarrow> (usage a)\<lparr>user_ns := saturating_add (user_ns (usage a)) elapsed\<rparr>
              | Kernel \<Rightarrow> (usage a)\<lparr>kernel_ns := saturating_add (kernel_ns (usage a)) elapsed\<rparr>))"

definition pause :: "cpu_accounting \<Rightarrow> u64 \<Rightarrow> cpu_accounting" where
  "pause a now = a\<lparr>usage := snapshot a now, running_since := None\<rparr>"

definition resume :: "cpu_accounting \<Rightarrow> u64 \<Rightarrow> cpu_accounting" where
  "resume a now = (if running_since a = None then a\<lparr>running_since := Some now\<rparr> else a)"

definition set_mode :: "cpu_accounting \<Rightarrow> task_mode \<Rightarrow> u64 \<Rightarrow> cpu_accounting" where
  "set_mode a m now =
     a\<lparr>usage := snapshot a now,
       running_since := (if running_since a \<noteq> None then Some now else None),
       acct_mode := m\<rparr>"

definition reap :: "cpu_accounting \<Rightarrow> cpu_accounting \<Rightarrow> u64 \<Rightarrow> cpu_accounting" where
  "reap a child now =
     a\<lparr>children := usage_add (usage_add (children a) (snapshot child now)) (children child)\<rparr>"

section \<open>What is charged\<close>

text \<open>
  The specification: a history of timed operations charges, to the mode in force, the length
  of every interval between two operations during which the task was running. The state of the
  specification is the last time, whether the task runs and in which mode.
\<close>

datatype acct_op = Pause | Resume | SetMode task_mode

fun apply_op :: "acct_op \<Rightarrow> u64 \<Rightarrow> cpu_accounting \<Rightarrow> cpu_accounting" where
  "apply_op Pause now a = pause a now"
| "apply_op Resume now a = resume a now"
| "apply_op (SetMode m) now a = set_mode a m now"

fun run_ops :: "cpu_accounting \<Rightarrow> (u64 \<times> acct_op) list \<Rightarrow> cpu_accounting" where
  "run_ops a [] = a"
| "run_ops a ((now, x) # xs) = run_ops (apply_op x now a) xs"

fun running_after :: "acct_op \<Rightarrow> bool \<Rightarrow> bool" where
  "running_after Pause r = False"
| "running_after Resume r = True"
| "running_after (SetMode m) r = r"

fun mode_after :: "acct_op \<Rightarrow> task_mode \<Rightarrow> task_mode" where
  "mode_after (SetMode m) old = m"
| "mode_after x old = old"

text \<open>\<open>charged m\<close> sums the running time spent in mode \<open>m\<close> up to \<open>fin\<close>, as natural numbers.\<close>

fun charged :: "task_mode \<Rightarrow> nat \<Rightarrow> bool \<Rightarrow> task_mode \<Rightarrow> (u64 \<times> acct_op) list \<Rightarrow> nat \<Rightarrow> nat" where
  "charged m prev r cur [] fin = (if r \<and> cur = m then fin - prev else 0)"
| "charged m prev r cur ((now, x) # xs) fin =
     (if r \<and> cur = m then unat now - prev else 0)
     + charged m (unat now) (running_after x r) (mode_after x cur) xs fin"

fun time_ordered :: "nat \<Rightarrow> (u64 \<times> acct_op) list \<Rightarrow> nat \<Rightarrow> bool" where
  "time_ordered prev [] fin = (prev \<le> fin)"
| "time_ordered prev ((now, x) # xs) fin = (prev \<le> unat now \<and> time_ordered (unat now) xs fin)"

definition mode_ns :: "task_mode \<Rightarrow> cpu_usage \<Rightarrow> nat" where
  "mode_ns m u = (case m of User \<Rightarrow> unat (user_ns u) | Kernel \<Rightarrow> unat (kernel_ns u))"

definition u64_cap :: "nat \<Rightarrow> nat" where
  "u64_cap n = min n (2 ^ 64 - 1)"

lemma u64_cap_add [simp]: "u64_cap (u64_cap a + b) = u64_cap (a + b)"
  by (simp add: u64_cap_def)

lemma u64_cap_unat [simp]: "u64_cap (unat (w :: u64)) = unat w"
  using unat_less_2p [of w] by (simp add: u64_cap_def)

text \<open>A snapshot adds the open interval to the mode in force and nothing to the other.\<close>

lemma mode_ns_snapshot:
  "mode_ns m (snapshot a now) =
     u64_cap (mode_ns m (usage a) +
       (case running_since a of
          Some start \<Rightarrow> (if acct_mode a = m then unat now - unat start else 0)
        | None \<Rightarrow> 0))"
proof -
  have "unat (w :: u64) \<le> 18446744073709551615" for w
    using unat_less_2p [of w] by simp
  then show ?thesis
    by (auto simp: snapshot_def mode_ns_def Let_def unat_saturating_add unat_saturating_sub
          u64_cap_def min_def split: option.splits task_mode.splits)
qed

lemma snapshot_pause: "snapshot (pause a t) now = snapshot a t"
  by (simp add: pause_def snapshot_def)

lemma snapshot_reap: "snapshot (reap a c t) now = snapshot a now"
  unfolding reap_def by (simp add: snapshot_def Let_def split: option.split task_mode.split)

lemma children_pause [simp]: "children (pause a t) = children a"
  by (simp add: pause_def)

lemma cpu_usage_eqI:
  "mode_ns User u = unat a \<Longrightarrow> mode_ns Kernel u = unat b \<Longrightarrow> u = \<lparr>user_ns = a, kernel_ns = b\<rparr>"
  by (simp add: mode_ns_def word_unat_eq_iff)

text \<open>
  Agreement of an accounting state with the specification's state (\<open>prev\<close>, \<open>r\<close>, \<open>cur\<close>)
  and the amounts \<open>base\<close> charged up to \<open>prev\<close>: the open interval, if any, started at or
  before \<open>prev\<close>, and its part up to \<open>prev\<close> together with the settled usage is \<open>base\<close>.
\<close>

definition agrees :: "cpu_accounting \<Rightarrow> nat \<Rightarrow> bool \<Rightarrow> task_mode \<Rightarrow> (task_mode \<Rightarrow> nat) \<Rightarrow> bool" where
  "agrees a prev r cur base \<longleftrightarrow>
     acct_mode a = cur \<and> (running_since a \<noteq> None) = r
     \<and> (\<forall>s. running_since a = Some s \<longrightarrow> unat s \<le> prev)
     \<and> (\<forall>m. u64_cap (mode_ns m (usage a) +
            (case running_since a of
               Some s \<Rightarrow> (if cur = m then prev - unat s else 0) | None \<Rightarrow> 0)) = u64_cap (base m))"

lemma u64_cap_cong_add: "u64_cap a = u64_cap b \<Longrightarrow> u64_cap (a + c) = u64_cap (b + c)"
  by (metis u64_cap_add)

lemma agrees_snapshot:
  assumes "agrees a prev r cur base" "prev \<le> unat now"
  shows "mode_ns m (snapshot a now) =
     u64_cap (base m + (if r \<and> cur = m then unat now - prev else 0))"
proof (cases "running_since a")
  case None
  with assms show ?thesis by (auto simp: agrees_def mode_ns_snapshot)
next
  case (Some s)
  with assms have "unat s \<le> prev" and base: "u64_cap (mode_ns m (usage a) +
      (if cur = m then prev - unat s else 0)) = u64_cap (base m)"
    by (auto simp: agrees_def)
  moreover from this(1) assms(2) have "unat now - unat s = (prev - unat s) + (unat now - prev)"
    by simp
  ultimately show ?thesis
    using assms Some u64_cap_cong_add [OF base, of "if cur = m then unat now - prev else 0"]
    by (auto simp: agrees_def mode_ns_snapshot add.assoc)
qed

lemma agrees_settled:
  assumes "agrees a prev r cur base" "prev \<le> unat t"
    and "usage b = snapshot a t" "acct_mode b = cur'"
    and "running_since b = (if r' then Some t else None)"
  shows "agrees b (unat t) r' cur' (\<lambda>m. base m + (if r \<and> cur = m then unat t - prev else 0))"
  using assms by (simp add: agrees_def agrees_snapshot [OF assms(1,2)] split: option.splits)

lemma agrees_step:
  assumes "agrees a prev r cur base" "prev \<le> unat t"
  shows "agrees (apply_op x t a) (unat t) (running_after x r) (mode_after x cur)
           (\<lambda>m. base m + (if r \<and> cur = m then unat t - prev else 0))"
proof (cases x)
  case Pause
  have "agrees (pause a t) (unat t) False cur
          (\<lambda>m. base m + (if r \<and> cur = m then unat t - prev else 0))"
    by (rule agrees_settled [OF assms]) (use assms in \<open>auto simp: pause_def agrees_def\<close>)
  with Pause show ?thesis by simp
next
  case (SetMode k)
  have "agrees (set_mode a k t) (unat t) r k
          (\<lambda>m. base m + (if r \<and> cur = m then unat t - prev else 0))"
    by (rule agrees_settled [OF assms]) (use assms in \<open>auto simp: set_mode_def agrees_def\<close>)
  with SetMode show ?thesis by simp
next
  case Resume
  show ?thesis
  proof (cases "running_since a")
    case None
    with assms Resume show ?thesis by (auto simp: agrees_def resume_def)
  next
    case (Some s)
    with assms have "unat s \<le> prev" and mode: "acct_mode a = cur" and r: r
      and base: "\<And>m. u64_cap (mode_ns m (usage a) + (if cur = m then prev - unat s else 0))
                    = u64_cap (base m)"
      by (auto simp: agrees_def)
    then have "u64_cap (mode_ns m (usage a) + (if cur = m then unat t - unat s else 0))
        = u64_cap (base m + (if cur = m then unat t - prev else 0))" for m
      using u64_cap_cong_add [OF base, of m "if cur = m then unat t - prev else 0"] assms(2)
      by (cases "cur = m") (simp_all add: add.assoc)
    with Some mode r \<open>unat s \<le> prev\<close> assms(2) Resume show ?thesis
      by (simp add: agrees_def resume_def)
  qed
qed

lemma agrees_run:
  assumes "agrees a prev r cur base" "time_ordered prev xs (unat now)"
  shows "mode_ns m (snapshot (run_ops a xs) now) = u64_cap (base m + charged m prev r cur xs (unat now))"
  using assms
proof (induction xs arbitrary: a prev r cur base)
  case Nil
  then show ?case using agrees_snapshot [of a prev r cur base now m] by simp
next
  case (Cons y ys)
  obtain t x where y: "y = (t, x)" by fastforce
  from Cons.prems y have le: "prev \<le> unat t" and rest: "time_ordered (unat t) ys (unat now)"
    by simp_all
  from Cons.IH [OF agrees_step [OF Cons.prems(1) le] rest] y show ?case
    by (simp add: add.assoc)
qed

section \<open>Properties\<close>

text \<open>C21: for every history of pause, resume and mode switches with non-decreasing times, a
  snapshot reports for each mode exactly the time during which the task was running in that mode,
  counted once and capped at \<open>u64::MAX\<close>.\<close>

theorem accounting_charges_running_time:
  assumes "time_ordered 0 xs (unat now)"
  shows "mode_ns m (snapshot (run_ops acct_new xs) now) =
           u64_cap (charged m 0 False Kernel xs (unat now))"
proof -
  have "agrees acct_new 0 False Kernel (\<lambda>_. 0)"
    by (simp add: agrees_def acct_new_def usage_default_def mode_ns_def split: task_mode.split)
  from agrees_run [OF this assms] show ?thesis by simp
qed

theorem accounting_charges_running_time_witness:
  "snapshot (run_ops acct_new [(10, Resume), (30, SetMode User), (35, Resume), (70, Pause)]) 900
     = \<lparr>user_ns = 40, kernel_ns = 20\<rparr>"
proof -
  let ?xs = "[(10, Resume), (30, SetMode User), (35, Resume), (70, Pause)] :: (u64 \<times> acct_op) list"
  have t: "time_ordered 0 ?xs (unat (900 :: u64))" by simp
  show ?thesis
    by (rule cpu_usage_eqI)
       (simp_all only: accounting_charges_running_time [OF t], simp_all add: u64_cap_def)
qed

text \<open>A paused task is not charged: after \<open>pause\<close> every later snapshot is the usage at the
  time of the pause, and reaping it adds that usage and the usage of its already reaped
  descendants to the parent's child totals, capped, leaving the parent's own usage alone.\<close>

lemma reap_collects_paused_child:
  "snapshot (pause child t) now = snapshot child t
   \<and> snapshot (reap parent (pause child t) now) later = snapshot parent later
   \<and> mode_ns m (children (reap parent (pause child t) now)) =
       u64_cap (mode_ns m (children parent) + mode_ns m (snapshot child t) + mode_ns m (children child))"
proof -
  have add: "mode_ns m (usage_add u v) = u64_cap (mode_ns m u + mode_ns m v)" for u v
    by (cases m) (simp_all add: mode_ns_def usage_add_def unat_saturating_add u64_cap_def)
  show ?thesis
    by (simp add: snapshot_reap snapshot_pause) (simp add: reap_def snapshot_pause add add.assoc)
qed

end
