(* ===== verification/Fd_Table.thy ===== *)
theory Fd_Table
  imports Prelude
begin

text \<open>
  The per-task descriptor table of \<^verbatim>\<open>kernel/src/process/fd_table.rs\<close>. A table is a vector
  of slots; a free slot is \<open>None\<close>, a used one carries the value (an open file
  description) and the slot's own \<open>FD_CLOEXEC\<close> flag. The abstract view of a table is a
  partial map from descriptor numbers to a value and a close-on-exec bit.
\<close>

section \<open>Data and operations\<close>

definition FD_CLOEXEC :: usize where "FD_CLOEXEC = 1"
definition O_CLOEXEC :: usize where "O_CLOEXEC = 0x80000"

record 'a fd_entry =
  fe_value :: 'a
  fe_flags :: usize

record 'a fd_table =
  slots :: "'a fd_entry option list"

definition fd_new :: "'a fd_table" where
  "fd_new = \<lparr>slots = []\<rparr>"

text \<open>\<open>insert_at\<close>: the vector grows with free slots up to \<open>fd\<close>; only the
  close-on-exec bit of the caller's flags is kept.\<close>

definition insert_at :: "'a fd_table \<Rightarrow> nat \<Rightarrow> 'a \<Rightarrow> usize \<Rightarrow> 'a fd_table" where
  "insert_at t fd v fl =
     (let s = (if length (slots t) \<le> fd
               then slots t @ replicate (fd + 1 - length (slots t)) None else slots t)
      in t\<lparr>slots := s[fd := Some \<lparr>fe_value = v, fe_flags = fl AND FD_CLOEXEC\<rparr>]\<rparr>)"

definition insert_from :: "'a fd_table \<Rightarrow> nat \<Rightarrow> 'a \<Rightarrow> usize \<Rightarrow> 'a fd_table \<times> nat" where
  "insert_from t mn v fl =
     (let fd = (case List.find (\<lambda>fd. Option.is_none (slots t ! fd)) [mn..<length (slots t)] of
                  Some fd \<Rightarrow> fd
                | None \<Rightarrow> max (length (slots t)) mn)
      in (insert_at t fd v fl, fd))"

definition fd_insert :: "'a fd_table \<Rightarrow> 'a \<Rightarrow> usize \<Rightarrow> 'a fd_table \<times> nat" where
  "fd_insert t v fl = insert_from t 0 v fl"

text \<open>\<open>self.slots.get(fd)\<close> followed by \<open>Option::as_ref\<close>: out of range and free
  slots are both absent.\<close>

definition fd_slot :: "'a fd_table \<Rightarrow> nat \<Rightarrow> 'a fd_entry option" where
  "fd_slot t fd = (if fd < length (slots t) then slots t ! fd else None)"

definition fd_get :: "'a fd_table \<Rightarrow> nat \<Rightarrow> 'a option" where
  "fd_get t fd = map_option fe_value (fd_slot t fd)"

definition fd_flags :: "'a fd_table \<Rightarrow> nat \<Rightarrow> usize errno_result" where
  "fd_flags t fd = (case fd_slot t fd of Some e \<Rightarrow> Inr (fe_flags e) | None \<Rightarrow> Inl (- 9))"

definition set_flags :: "'a fd_table \<Rightarrow> nat \<Rightarrow> usize \<Rightarrow> ('a fd_table) errno_result" where
  "set_flags t fd fl =
     (case fd_slot t fd of
        Some e \<Rightarrow> Inr (t\<lparr>slots := (slots t)[fd := Some (e\<lparr>fe_flags := fl AND FD_CLOEXEC\<rparr>)]\<rparr>)
      | None \<Rightarrow> Inl (- 9))"

definition fd_remove :: "'a fd_table \<Rightarrow> nat \<Rightarrow> 'a fd_table \<times> 'a option" where
  "fd_remove t fd =
     (if fd < length (slots t)
      then (t\<lparr>slots := (slots t)[fd := None]\<rparr>, map_option fe_value (slots t ! fd))
      else (t, None))"

definition fd_iter :: "'a fd_table \<Rightarrow> (nat \<times> 'a) list" where
  "fd_iter t = List.map_filter (\<lambda>(fd, s). map_option (\<lambda>e. (fd, fe_value e)) s)
                 (enumerate 0 (slots t))"

fun close_on_exec_slots ::
    "'a fd_entry option list \<Rightarrow> 'a fd_entry option list \<times> 'a list" where
  "close_on_exec_slots [] = ([], [])"
| "close_on_exec_slots (s # ss) =
     (let (ss', closed) = close_on_exec_slots ss
      in case s of
           None \<Rightarrow> (None # ss', closed)
         | Some e \<Rightarrow> (if fe_flags e AND FD_CLOEXEC \<noteq> 0 then (None # ss', fe_value e # closed)
                      else (Some e # ss', closed)))"

definition close_on_exec :: "'a fd_table \<Rightarrow> 'a fd_table \<times> 'a list" where
  "close_on_exec t =
     (let (ss, closed) = close_on_exec_slots (slots t) in (t\<lparr>slots := ss\<rparr>, closed))"

text \<open>\<open>duplicate\<close> checks the source descriptor before the lower bound: a bad descriptor is
  EBADF (-9) even when \<open>min\<close> is out of range (EINVAL, -22).\<close>

definition i32_max :: nat where "i32_max = 2147483647"

definition duplicate ::
    "'a fd_table \<Rightarrow> nat \<Rightarrow> nat \<Rightarrow> bool \<Rightarrow> ('a fd_table \<times> nat) errno_result" where
  "duplicate t fd mn cloexec =
     (case fd_get t fd of
        None \<Rightarrow> Inl (- 9)
      | Some v \<Rightarrow> (if i32_max < mn then Inl (- 22)
                   else Inr (insert_from t mn v (if cloexec then FD_CLOEXEC else 0))))"

section \<open>The abstract view\<close>

text \<open>A slot seen by its users: the value and whether exec closes it.\<close>

definition fd_view :: "'a fd_table \<Rightarrow> nat \<Rightarrow> ('a \<times> bool) option" where
  "fd_view t fd = map_option (\<lambda>e. (fe_value e, fe_flags e AND FD_CLOEXEC \<noteq> 0)) (fd_slot t fd)"

definition fd_wf :: "'a fd_table \<Rightarrow> bool" where
  "fd_wf t \<longleftrightarrow> (\<forall>e. Some e \<in> set (slots t) \<longrightarrow> fe_flags e = 0 \<or> fe_flags e = FD_CLOEXEC)"

lemma and_FD_CLOEXEC_cases: "fl AND FD_CLOEXEC = 0 \<or> fl AND FD_CLOEXEC = FD_CLOEXEC"
  by (simp add: FD_CLOEXEC_def and_one_eq mod2_eq_if)

lemma and_FD_CLOEXEC_idem [simp]: "(fl AND FD_CLOEXEC) AND FD_CLOEXEC = fl AND FD_CLOEXEC"
  by (simp add: and.assoc)

lemma FD_CLOEXEC_neq [simp]: "FD_CLOEXEC \<noteq> 0" "FD_CLOEXEC AND FD_CLOEXEC = FD_CLOEXEC"
  by (simp_all add: FD_CLOEXEC_def)

lemma fd_slot_insert_at:
  "fd_slot (insert_at t fd v fl) =
     (fd_slot t)(fd \<mapsto> \<lparr>fe_value = v, fe_flags = fl AND FD_CLOEXEC\<rparr>)"
  by (rule ext) (auto simp: fd_slot_def insert_at_def Let_def nth_append nth_list_update)

lemma fd_slot_remove: "fd_slot (fst (fd_remove t fd)) = (fd_slot t)(fd := None)"
  by (rule ext) (auto simp: fd_slot_def fd_remove_def nth_list_update)

lemma fd_view_insert_at:
  "fd_view (insert_at t fd v fl) = (fd_view t)(fd \<mapsto> (v, fl AND FD_CLOEXEC \<noteq> 0))"
  by (rule ext) (simp add: fd_view_def fd_slot_insert_at)

lemma fd_view_remove: "fd_view (fst (fd_remove t fd)) = (fd_view t)(fd := None)"
  by (rule ext) (simp add: fd_view_def fd_slot_remove)

lemma fd_view_get: "fd_get t fd = map_option fst (fd_view t fd)"
  by (simp add: fd_get_def fd_view_def option.map_comp comp_def)

lemma fd_view_None: "fd_view t fd = None \<longleftrightarrow> fd_slot t fd = None"
  by (simp add: fd_view_def)

section \<open>Allocation is lowest-first\<close>

lemma insert_from_lowest:
  assumes "insert_from t mn v fl = (t', fd)"
  shows "mn \<le> fd" "fd_slot t fd = None" "\<And>j. mn \<le> j \<Longrightarrow> j < fd \<Longrightarrow> fd_slot t j \<noteq> None"
    and "t' = insert_at t fd v fl"
proof -
  let ?free = "\<lambda>fd. Option.is_none (slots t ! fd)"
  have "mn \<le> fd \<and> fd_slot t fd = None \<and> (\<forall>j. mn \<le> j \<and> j < fd \<longrightarrow> fd_slot t j \<noteq> None)
        \<and> t' = insert_at t fd v fl"
  proof (cases "List.find ?free [mn..<length (slots t)]")
    case None
    with assms have fd: "fd = max (length (slots t)) mn" and t': "t' = insert_at t fd v fl"
      by (auto simp: insert_from_def Let_def)
    from None have "\<forall>j. mn \<le> j \<and> j < length (slots t) \<longrightarrow> slots t ! j \<noteq> None"
      by (auto simp: find_upt_None Option.is_none_def)
    with fd t' show ?thesis by (auto simp: fd_slot_def)
  next
    case (Some k)
    with assms have "fd = k" and "t' = insert_at t fd v fl"
      by (auto simp: insert_from_def Let_def)
    with Some show ?thesis
      by (auto simp: find_upt_Some fd_slot_def Option.is_none_def)
  qed
  then show "mn \<le> fd" "fd_slot t fd = None"
    "\<And>j. mn \<le> j \<Longrightarrow> j < fd \<Longrightarrow> fd_slot t j \<noteq> None" "t' = insert_at t fd v fl"
    by blast+
qed

section \<open>Well-formedness\<close>

lemma fd_wf_new: "fd_wf fd_new"
  by (simp add: fd_wf_def fd_new_def)

lemma fd_wf_insert_at: "fd_wf t \<Longrightarrow> fd_wf (insert_at t fd v fl)"
  using and_FD_CLOEXEC_cases [of fl]
  by (auto simp: fd_wf_def insert_at_def Let_def split: if_splits dest!: set_update_subset_insert [THEN subsetD])

lemma fd_wf_insert_from: "fd_wf t \<Longrightarrow> fd_wf (fst (insert_from t mn v fl))"
  by (simp add: insert_from_def Let_def fd_wf_insert_at)

lemma fd_wf_remove: "fd_wf t \<Longrightarrow> fd_wf (fst (fd_remove t fd))"
  by (auto simp: fd_wf_def fd_remove_def dest!: set_update_subset_insert [THEN subsetD])

lemma fd_wf_set_flags: "fd_wf t \<Longrightarrow> set_flags t fd fl = Inr t' \<Longrightarrow> fd_wf t'"
  using and_FD_CLOEXEC_cases [of fl]
  by (auto simp: fd_wf_def set_flags_def split: option.splits
           dest!: set_update_subset_insert [THEN subsetD])

lemma fd_wf_duplicate: "fd_wf t \<Longrightarrow> duplicate t fd mn ce = Inr (t', k) \<Longrightarrow> fd_wf t'"
  using fd_wf_insert_from [of t mn _ "if ce then FD_CLOEXEC else 0"]
  by (fastforce simp: duplicate_def split: option.splits if_splits dest: arg_cong [where f = fst])

section \<open>Exec closes exactly the marked descriptors\<close>

definition surviving :: "('a \<times> bool) option \<Rightarrow> ('a \<times> bool) option" where
  "surviving x = (case x of Some (v, ce) \<Rightarrow> if ce then None else Some (v, ce) | None \<Rightarrow> None)"

lemma close_on_exec_slots_length [simp]:
  "length (fst (close_on_exec_slots ss)) = length ss"
  by (induction ss) (auto simp: Let_def split: option.splits prod.splits)

lemma close_on_exec_slots_nth:
  "i < length ss \<Longrightarrow> fst (close_on_exec_slots ss) ! i =
     (case ss ! i of None \<Rightarrow> None
      | Some e \<Rightarrow> if fe_flags e AND FD_CLOEXEC \<noteq> 0 then None else Some e)"
  by (induction ss arbitrary: i)
     (auto simp: Let_def nth_Cons' split: option.splits prod.splits nat.splits)

lemma close_on_exec_slots_closed:
  "snd (close_on_exec_slots ss) =
     [fe_value e. Some e \<leftarrow> ss, fe_flags e AND FD_CLOEXEC \<noteq> 0]"
  by (induction ss) (auto simp: Let_def split: option.splits prod.splits)

lemma close_on_exec_parts:
  "slots (fst (close_on_exec t)) = fst (close_on_exec_slots (slots t))"
  "snd (close_on_exec t) = snd (close_on_exec_slots (slots t))"
  by (simp_all add: close_on_exec_def case_prod_beta)

lemma fd_view_close_on_exec: "fd_view (fst (close_on_exec t)) fd = surviving (fd_view t fd)"
  by (auto simp: fd_view_def fd_slot_def surviving_def close_on_exec_parts close_on_exec_slots_nth
           split: option.splits)

lemma closed_by_slot:
  "snd (close_on_exec t) =
     [v. fd \<leftarrow> [0..<length (slots t)], Some (v, ce) \<leftarrow> [fd_view t fd], ce]"
proof -
  have "snd (close_on_exec t) = concat (map (\<lambda>s. case s of Some e \<Rightarrow>
          (if fe_flags e AND FD_CLOEXEC \<noteq> 0 then [fe_value e] else []) | None \<Rightarrow> []) (slots t))"
    by (simp add: close_on_exec_parts close_on_exec_slots_closed)
  also have "\<dots> = concat (map (\<lambda>fd. case slots t ! fd of Some e \<Rightarrow>
          (if fe_flags e AND FD_CLOEXEC \<noteq> 0 then [fe_value e] else []) | None \<Rightarrow> [])
          [0..<length (slots t)])"
    by (subst map_by_index) simp
  also have "\<dots> = [v. fd \<leftarrow> [0..<length (slots t)], Some (v, ce) \<leftarrow> [fd_view t fd], ce]"
    by (rule arg_cong [where f = concat], rule map_cong)
       (auto simp: fd_view_def fd_slot_def split: option.splits)
  finally show ?thesis .
qed

section \<open>The contract the tasks rely on\<close>

text \<open>
  What a task (\<^verbatim>\<open>kernel/src/process/task.rs\<close>: \<open>open_fd\<close>, \<open>close_fd\<close>, \<open>dup_fd\<close>) relies
  on: allocation takes the lowest free number from a bound and touches nothing else;
  releasing frees one number.
\<close>

locale descriptor_alloc =
  fixes view :: "'tab \<Rightarrow> nat \<Rightarrow> ('v \<times> bool) option"
    and alloc :: "'tab \<Rightarrow> nat \<Rightarrow> 'v \<Rightarrow> bool \<Rightarrow> 'tab \<times> nat"
    and release :: "'tab \<Rightarrow> nat \<Rightarrow> 'tab"
  assumes alloc_bound: "alloc t mn v c = (t', fd) \<Longrightarrow> mn \<le> fd"
    and alloc_free: "alloc t mn v c = (t', fd) \<Longrightarrow> view t fd = None"
    and alloc_least: "alloc t mn v c = (t', fd) \<Longrightarrow> mn \<le> j \<Longrightarrow> j < fd \<Longrightarrow> view t j \<noteq> None"
    and alloc_view: "alloc t mn v c = (t', fd) \<Longrightarrow> view t' = (view t)(fd \<mapsto> (v, c))"
    and release_view: "view (release t fd) = (view t)(fd := None)"
begin

lemma alloc_le_free:
  assumes "alloc t mn v c = (t', fd)" and "mn \<le> k" and "view t k = None"
  shows "fd \<le> k"
  using alloc_least [OF assms(1,2)] assms(3) by (metis not_le)

lemma reopen_same:
  assumes used: "\<And>j. j < fd \<Longrightarrow> view t j \<noteq> None"
  shows "snd (alloc (release t fd) 0 v c) = fd"
proof -
  obtain t' k where a: "alloc (release t fd) 0 v c = (t', k)" by fastforce
  have "k \<le> fd" using alloc_le_free [OF a, of fd] by (simp add: release_view)
  moreover have "view (release t fd) k = None" using alloc_free [OF a] .
  ultimately show ?thesis
    using used [of k] a by (cases "k = fd") (auto simp: release_view)
qed

lemma dup_then_close:
  assumes "alloc t mn v c = (t', k)"
  shows "view (release t' k) = view t"
  using alloc_view [OF assms] alloc_free [OF assms] by (auto simp: release_view)

end

interpretation fdt: descriptor_alloc fd_view
  "\<lambda>t mn v c. insert_from t mn v (if c then FD_CLOEXEC else 0)"
  "\<lambda>t fd. fst (fd_remove t fd)"
proof unfold_locales
  fix t :: "'a fd_table" and mn v c t' fd
  assume a: "insert_from t mn v (if c then FD_CLOEXEC else 0) = (t', fd)"
  show "mn \<le> fd" "fd_view t fd = None"
    using insert_from_lowest [OF a] by (simp_all add: fd_view_None)
  show "fd_view t' = (fd_view t)(fd \<mapsto> (v, c))"
    using insert_from_lowest(4) [OF a] by (simp add: fd_view_insert_at)
  show "fd_view t j \<noteq> None" if "mn \<le> j" "j < fd" for j
    using insert_from_lowest(3) [OF a that] by (simp add: fd_view_None)
qed (simp add: fd_view_remove)

section \<open>Properties\<close>

text \<open>C31: allocating a descriptor (\<open>insert_from\<close>, used by open and dup) gives the lowest free
  number that is at least the bound, fills that slot with the value and the close-on-exec bit of
  the flags, and changes no other slot.\<close>

theorem insert_from_takes_lowest_free:
  assumes "insert_from t mn v fl = (t', fd)"
  shows "mn \<le> fd \<and> fd_view t fd = None \<and> {mn..<fd} \<subseteq> dom (fd_view t)
         \<and> fd_view t' = (fd_view t)(fd \<mapsto> (v, fl AND FD_CLOEXEC \<noteq> 0))"
proof -
  have "{mn..<fd} \<subseteq> dom (fd_view t)"
    by (rule subsetI) (use insert_from_lowest(3) [OF assms] in \<open>simp add: domIff fd_view_None\<close>)
  then show ?thesis
    using insert_from_lowest [OF assms] by (simp add: fd_view_insert_at fd_view_None)
qed

theorem insert_from_takes_lowest_free_witness:
  "let t = \<lparr>slots = [Some \<lparr>fe_value = (7::nat), fe_flags = 0\<rparr>, None]\<rparr>;
       r = insert_from t 0 9 O_CLOEXEC
   in snd r = 1 \<and> fd_view (fst r) = (fd_view t)(1 \<mapsto> (9, False))"
proof -
  let ?t = "\<lparr>slots = [Some \<lparr>fe_value = (7::nat), fe_flags = 0\<rparr>, None]\<rparr> :: nat fd_table"
  have r: "insert_from ?t 0 9 O_CLOEXEC = (insert_at ?t 1 9 O_CLOEXEC, 1)"
    by (simp add: insert_from_def upt_rec Option.is_none_def)
  show ?thesis
    unfolding Let_def r
    using insert_from_takes_lowest_free [OF r] by (simp add: O_CLOEXEC_def FD_CLOEXEC_def)
qed

text \<open>C32: exec (\<open>close_on_exec\<close>) frees exactly the descriptors whose slot is marked
  close-on-exec, keeps every other descriptor as it was, and hands back the closed values in
  descriptor order.\<close>

theorem close_on_exec_exact:
  "fd_view (fst (close_on_exec t)) = (\<lambda>fd. surviving (fd_view t fd))
   \<and> snd (close_on_exec t) =
       [v. fd \<leftarrow> [0..<length (slots t)], Some (v, ce) \<leftarrow> [fd_view t fd], ce]"
  using closed_by_slot [of t] by (auto simp: fd_view_close_on_exec)

text \<open>\<open>duplicate\<close> on every branch: EBADF for a free or out-of-range source, whatever the
  bound; EINVAL for a bound above \<open>i32::MAX\<close>; otherwise the lowest free number from the bound
  shares the source's value with only the requested close-on-exec bit, and closing the new number
  gives the table's original view back.\<close>

lemma duplicate_branches:
  "case duplicate t fd mn ce of
     Inl e \<Rightarrow> (if fd_view t fd = None then e = - 9 else i32_max < mn \<and> e = - 22)
   | Inr (t', k) \<Rightarrow> mn \<le> i32_max \<and> mn \<le> k \<and> fd_view t k = None \<and> {mn..<k} \<subseteq> dom (fd_view t)
       \<and> fd_view t' k = Some (the (fd_get t fd), ce) \<and> fd_get t fd \<noteq> None
       \<and> fd_view (fst (fd_remove t' k)) = fd_view t"
proof (cases "duplicate t fd mn ce")
  case (Inl e)
  then show ?thesis
    by (auto simp: duplicate_def fd_view_get split: option.splits if_splits)
next
  case (Inr r)
  obtain t' k where r: "r = (t', k)" by fastforce
  from Inr r obtain v where v: "fd_get t fd = Some v" and mn: "mn \<le> i32_max"
    and a: "insert_from t mn v (if ce then FD_CLOEXEC else 0) = (t', k)"
    by (auto simp: duplicate_def split: option.splits if_splits)
  show ?thesis
    using fdt.alloc_bound [OF a] fdt.alloc_free [OF a] fdt.alloc_least [OF a]
      fdt.alloc_view [OF a] fdt.dup_then_close [OF a] v mn
    by (auto simp: Inr r domIff)
qed

text \<open>Closing a descriptor below which every number is in use and opening again gives the
  same number back.\<close>

lemma reopen_gives_same_descriptor:
  assumes "{..<fd} \<subseteq> dom (fd_view t)"
  shows "snd (fd_insert (fst (fd_remove t fd)) v 0) = fd"
  unfolding fd_insert_def using assms
  by (intro fdt.reopen_same [of fd t v False, simplified]) (auto simp: domIff subset_iff)

end
