(* ===== verification/Frame_Alloc.thy ===== *)
theory Frame_Alloc
  imports Prelude
begin

text \<open>
  Physical frames: the boot frame allocator \<^verbatim>\<open>kernel/src/mm/frame_allocator.rs\<close>, the
  global allocator of \<^verbatim>\<open>kernel/src/mm/mod.rs\<close>, the owned pages of
  \<^verbatim>\<open>kernel/src/mm/page.rs\<close> and the memory totals of \<^verbatim>\<open>kernel/src/mm/stats.rs\<close>.

  A frame is its start address. The memory map comes from the boot loader. The alignment functions
  of the \<open>x86_64\<close> crate are the parameters \<open>up\<close> and \<open>down\<close>; whether \<open>try_reserve\<close> succeeds
  and what the direct mapping answers are arguments. The locale \<open>frame_source\<close> is the contract
  that users of the allocator rely on.
\<close>

section \<open>Memory map\<close>

datatype region_kind = Usable | OtherKind

record memory_region =
  mr_start :: nat
  mr_end :: nat
  mr_kind :: region_kind

abbreviation frame_size :: nat where "frame_size \<equiv> 4096"

text \<open>\<open>(start..end).step_by(4096)\<close>.\<close>

fun step_range :: "nat \<Rightarrow> nat \<Rightarrow> nat list" where
  "step_range n 0 = []"
| "step_range a (Suc k) = a # step_range (a + frame_size) k"

definition region_frames :: "(nat \<Rightarrow> nat) \<Rightarrow> (nat \<Rightarrow> nat) \<Rightarrow> memory_region \<Rightarrow> nat list" where
  "region_frames up down r =
     (let s = up (mr_start r); e = down (mr_end r)
      in step_range s ((e - s + (frame_size - 1)) div frame_size))"

definition usable_frames :: "(nat \<Rightarrow> nat) \<Rightarrow> (nat \<Rightarrow> nat) \<Rightarrow> memory_region list \<Rightarrow> nat list" where
  "usable_frames up down regions =
     concat (map (region_frames up down) (filter (\<lambda>r. mr_kind r = Usable) regions))"

section \<open>The allocator\<close>

text \<open>The memory map is fixed; the model keeps the list of its usable frames.\<close>

record frame_allocator =
  fa_frames :: "nat list"
  fa_next :: nat
  fa_recycled :: "nat list"
  fa_ready :: bool

definition fa_init :: "(nat \<Rightarrow> nat) \<Rightarrow> (nat \<Rightarrow> nat) \<Rightarrow> memory_region list \<Rightarrow> frame_allocator" where
  "fa_init up down regions =
     \<lparr>fa_frames = usable_frames up down regions, fa_next = 0, fa_recycled = [], fa_ready = False\<rparr>"

text \<open>The vector \<open>recycled\<close> is used as a stack: its last element is the head here.\<close>

definition allocate_frame :: "bool \<Rightarrow> frame_allocator \<Rightarrow> nat option \<times> frame_allocator" where
  "allocate_frame reserve_ok fa =
     (case fa_recycled fa of
        f # rest \<Rightarrow> (Some f, fa\<lparr>fa_recycled := rest\<rparr>)
      | [] \<Rightarrow>
          if fa_ready fa \<and> \<not> reserve_ok then (None, fa)
          else if fa_next fa < length (fa_frames fa)
          then (Some (fa_frames fa ! fa_next fa), fa\<lparr>fa_next := fa_next fa + 1\<rparr>)
          else (None, fa))"

definition deallocate_frame :: "frame_allocator \<Rightarrow> nat \<Rightarrow> frame_allocator" where
  "deallocate_frame fa f = fa\<lparr>fa_recycled := f # fa_recycled fa\<rparr>"

definition enable_recycling :: "frame_allocator \<Rightarrow> frame_allocator" where
  "enable_recycling fa = fa\<lparr>fa_ready := True\<rparr>"

section \<open>The global allocator\<close>

type_synonym global_allocator = "frame_allocator option"

definition mm_allocate_frame :: "bool \<Rightarrow> global_allocator \<Rightarrow> nat option \<times> global_allocator" where
  "mm_allocate_frame reserve_ok g =
     (case g of
        None \<Rightarrow> (None, None)
      | Some fa \<Rightarrow> let (r, fa') = allocate_frame reserve_ok fa in (r, Some fa'))"

definition mm_deallocate_frame :: "global_allocator \<Rightarrow> nat \<Rightarrow> global_allocator" where
  "mm_deallocate_frame g f = map_option (\<lambda>fa. deallocate_frame fa f) g"

text \<open>\<open>OwnedPage::new\<close>: the frame, the address of its direct mapping, the cleared page. A frame
  whose mapping is missing or null is given back.\<close>

record owned_page =
  op_frame :: nat
  op_pointer :: nat
  op_bytes :: "u8 list"

definition owned_page_new ::
    "(nat \<Rightarrow> nat option) \<Rightarrow> bool \<Rightarrow> global_allocator \<Rightarrow> owned_page option \<times> global_allocator" where
  "owned_page_new phys_to_virt reserve_ok g =
     (case mm_allocate_frame reserve_ok g of
        (None, g') \<Rightarrow> (None, g')
      | (Some f, g') \<Rightarrow>
          (case phys_to_virt f of
             None \<Rightarrow> (None, mm_deallocate_frame g' f)
           | Some a \<Rightarrow>
               if a = 0 then (None, mm_deallocate_frame g' f)
               else (Some \<lparr>op_frame = f, op_pointer = a, op_bytes = replicate frame_size 0\<rparr>, g')))"

definition owned_page_drop :: "global_allocator \<Rightarrow> owned_page \<Rightarrow> global_allocator" where
  "owned_page_drop g p = mm_deallocate_frame g (op_frame p)"

section \<open>Memory totals\<close>

record memory_stats =
  ms_total :: nat
  ms_usable :: nat

text \<open>\<open>sum\<close> on \<open>u64\<close> is modelled on unbounded numbers; a map of the 52-bit physical address
  space cannot overflow it.\<close>

definition stats_init :: "memory_region list \<Rightarrow> memory_stats" where
  "stats_init regions =
     \<lparr>ms_total = sum_list (map (\<lambda>r. mr_end r - mr_start r) regions),
      ms_usable = sum_list (map (\<lambda>r. mr_end r - mr_start r) (filter (\<lambda>r. mr_kind r = Usable) regions))\<rparr>"

section \<open>The contract of a frame source\<close>

text \<open>A run of requests: an allocation (with the answer of the reservation) or the release of the
  \<open>i\<close>th frame that is out. The frames that are out are kept in a list.\<close>

fun frame_run ::
    "(bool \<Rightarrow> 'a \<Rightarrow> nat option \<times> 'a) \<Rightarrow> ('a \<Rightarrow> nat \<Rightarrow> 'a) \<Rightarrow> (bool + nat) list \<Rightarrow> 'a \<times> nat list \<Rightarrow> 'a \<times> nat list" where
  "frame_run alloc free [] s = s"
| "frame_run alloc free (Inl b # rs) (a, out) =
     (case alloc b a of
        (Some f, a') \<Rightarrow> frame_run alloc free rs (a', f # out)
      | (None, a') \<Rightarrow> frame_run alloc free rs (a', out))"
| "frame_run alloc free (Inr i # rs) (a, out) =
     (if i < length out then frame_run alloc free rs (free a (out ! i), remove_nth i out)
      else frame_run alloc free rs (a, out))"

text \<open>A frame source tracks which frames are out: what it hands out was not out before and comes
  from its pool, and a frame that is given back can be handed out again.\<close>

locale frame_source =
  fixes ok :: "'a \<Rightarrow> nat set \<Rightarrow> bool"
    and alloc :: "bool \<Rightarrow> 'a \<Rightarrow> nat option \<times> 'a"
    and free :: "'a \<Rightarrow> nat \<Rightarrow> 'a"
  assumes alloc_some: "ok a out \<Longrightarrow> alloc b a = (Some f, a') \<Longrightarrow> f \<notin> out \<and> ok a' (insert f out)"
    and alloc_none: "ok a out \<Longrightarrow> alloc b a = (None, a') \<Longrightarrow> ok a' out"
    and free_ok: "ok a out \<Longrightarrow> f \<in> out \<Longrightarrow> ok (free a f) (out - {f})"
begin

lemma run_exclusive:
  assumes "ok a (set out)" "distinct out"
  shows "distinct (snd (frame_run alloc free rs (a, out)))
     \<and> ok (fst (frame_run alloc free rs (a, out))) (set (snd (frame_run alloc free rs (a, out))))"
  using assms
proof (induction rs arbitrary: a out)
  case (Cons r rs)
  show ?case
  proof (cases r)
    case (Inl b)
    obtain q a' where q: "alloc b a = (q, a')" by fastforce
    show ?thesis
    proof (cases q)
      case None
      with q Inl Cons alloc_none [of a "set out" b a'] show ?thesis by simp
    next
      case (Some f)
      with q Inl Cons.prems alloc_some [of a "set out" b f a'] Cons.IH [of a' "f # out"] show ?thesis by simp
    qed
  next
    case (Inr i)
    show ?thesis
    proof (cases "i < length out")
      case True
      have "set (remove_nth i out) = set out - {out ! i}"
        using set_remove_nth_distinct [of i out "\<lambda>x. x"] True Cons.prems(2) by auto
      with True Inr Cons.prems free_ok [of a "set out" "out ! i"] distinct_remove_nth [of out i]
        Cons.IH [of "free a (out ! i)" "remove_nth i out"]
      show ?thesis by simp
    qed (use Inr Cons in simp)
  qed
qed simp

end

section \<open>The boot allocator is a frame source\<close>

text \<open>The frames that are out and the recycled ones are the frames issued so far.\<close>

definition fa_ok :: "frame_allocator \<Rightarrow> nat set \<Rightarrow> bool" where
  "fa_ok fa out \<longleftrightarrow> distinct (fa_frames fa) \<and> distinct (fa_recycled fa) \<and> fa_next fa \<le> length (fa_frames fa)
     \<and> out \<inter> set (fa_recycled fa) = {} \<and> out \<union> set (fa_recycled fa) = set (take (fa_next fa) (fa_frames fa))"

lemma take_Suc_frames:
  "n < length xs \<Longrightarrow> distinct xs \<Longrightarrow> set (take (Suc n) xs) = insert (xs ! n) (set (take n xs)) \<and> xs ! n \<notin> set (take n xs)"
  by (auto simp: take_Suc_conv_app_nth in_set_conv_nth distinct_conv_nth)

interpretation boot: frame_source fa_ok allocate_frame deallocate_frame
proof unfold_locales
  fix a out b f a' assume ok: "fa_ok a out" and r: "allocate_frame b a = (Some f, a')"
  show "f \<notin> out \<and> fa_ok a' (insert f out)"
  proof (cases "fa_recycled a")
    case Nil
    with r have n: "fa_next a < length (fa_frames a)" "f = fa_frames a ! fa_next a" "a' = a\<lparr>fa_next := fa_next a + 1\<rparr>"
      by (auto simp: allocate_frame_def split: if_splits)
    with take_Suc_frames [of "fa_next a" "fa_frames a"] ok Nil show ?thesis by (auto simp: fa_ok_def)
  next
    case (Cons g rest)
    with r have "f = g" "a' = a\<lparr>fa_recycled := rest\<rparr>" by (auto simp: allocate_frame_def)
    with ok Cons show ?thesis by (auto simp: fa_ok_def)
  qed
next
  fix a out b a' assume "fa_ok a out" "allocate_frame b a = (None, a')"
  then show "fa_ok a' out" by (auto simp: allocate_frame_def split: list.splits if_splits)
next
  fix a out f assume "fa_ok a out" "f \<in> out"
  then show "fa_ok (deallocate_frame a f) (out - {f})" by (auto simp: fa_ok_def deallocate_frame_def)
qed

section \<open>Properties\<close>

lemma step_range_set: "set (step_range a k) = (\<lambda>i. a + frame_size * i) ` {..<k}"
proof (induction k arbitrary: a)
  case (Suc k)
  have "(\<lambda>i. a + frame_size * i) ` {..<Suc k} = insert a ((\<lambda>i. a + frame_size + frame_size * i) ` {..<k})"
    unfolding lessThan_Suc_eq_insert_0 by (simp add: image_image algebra_simps)
  then show ?case using Suc [of "a + frame_size"] by simp
qed simp

lemma step_range_distinct: "distinct (step_range a k)"
  by (induction k arbitrary: a) (auto simp: step_range_set)

text \<open>What the crate documents of its alignment functions.\<close>

definition aligns :: "(nat \<Rightarrow> nat) \<Rightarrow> (nat \<Rightarrow> nat) \<Rightarrow> bool" where
  "aligns up down \<longleftrightarrow> (\<forall>a. up a mod frame_size = 0 \<and> a \<le> up a \<and> down a mod frame_size = 0 \<and> down a \<le> a)"

lemma region_frame:
  assumes al: "aligns up down" and f: "f \<in> set (region_frames up down r)"
  shows "f mod frame_size = 0" "mr_start r \<le> f" "f + frame_size \<le> mr_end r"
proof -
  have "frame_size dvd up (mr_start r)" "frame_size dvd down (mr_end r)"
    using al by (simp_all add: aligns_def mod_eq_0_iff_dvd)
  then obtain s e where s: "up (mr_start r) = frame_size * s" and e: "down (mr_end r) = frame_size * e"
    by (elim dvdE)
  from f obtain i where i: "f = frame_size * s + frame_size * i" "i < (frame_size * e - frame_size * s + (frame_size - 1)) div frame_size"
    by (auto simp: region_frames_def Let_def step_range_set s e)
  moreover have "(frame_size * e - frame_size * s + (frame_size - 1)) div frame_size = e - s"
    by (simp add: diff_mult_distrib2 [symmetric] del: diff_mult_distrib2)
  ultimately have "i < e - s" by simp
  then have "f + frame_size \<le> frame_size * e" using i(1) by simp
  moreover have "mr_start r \<le> frame_size * s" "frame_size * e \<le> mr_end r"
    using al s e by (metis aligns_def)+
  ultimately show "f mod frame_size = 0" "mr_start r \<le> f" "f + frame_size \<le> mr_end r" using i(1) by simp_all
qed

lemma usable_frames_distinct:
  assumes al: "aligns up down" and dis: "sorted_wrt (\<lambda>r s. mr_end r \<le> mr_start s \<or> mr_end s \<le> mr_start r) regions"
  shows "distinct (usable_frames up down regions)"
  using dis
proof (induction regions)
  case (Cons r rs)
  have "set (region_frames up down r) \<inter> set (usable_frames up down rs) = {}"
  proof (rule ccontr)
    assume "\<not> ?thesis"
    then obtain f s where "f \<in> set (region_frames up down r)" "s \<in> set rs" "f \<in> set (region_frames up down s)"
      by (auto simp: usable_frames_def)
    moreover from this Cons.prems have "mr_end r \<le> mr_start s \<or> mr_end s \<le> mr_start r" by simp
    ultimately show False using region_frame(2,3) [OF al, of f r] region_frame(2,3) [OF al, of f s] by linarith
  qed
  with Cons show ?case
    by (auto simp: usable_frames_def region_frames_def Let_def step_range_distinct)
qed (simp add: usable_frames_def)

text \<open>C12: Frames are exclusive: whatever sequence of allocations and releases the kernel makes, no
  frame is handed out while it is out, and every frame handed out is a page-aligned frame that
  lies entirely in a usable region of the memory map. The regions of the map are disjoint.\<close>

theorem frames_exclusive:
  assumes "aligns up down" "sorted_wrt (\<lambda>r s. mr_end r \<le> mr_start s \<or> mr_end s \<le> mr_start r) regions"
    and "frame_run allocate_frame deallocate_frame rs (fa\<lparr>fa_ready := b\<rparr>, []) = (fa', out)" "fa = fa_init up down regions"
  shows "distinct out \<and> (\<forall>f. f \<in> set out \<longrightarrow> f mod frame_size = 0
     \<and> (\<exists>r. r \<in> set regions \<and> mr_kind r = Usable \<and> mr_start r \<le> f \<and> f + frame_size \<le> mr_end r))"
proof -
  have "fa_ok (fa\<lparr>fa_ready := b\<rparr>) (set [])"
    using usable_frames_distinct [OF assms(1,2)] assms(4) by (simp add: fa_ok_def fa_init_def)
  from boot.run_exclusive [OF this, of rs] assms(3)
  have out: "distinct out" "fa_ok fa' (set out)" by simp_all
  have "fa_frames (fst (frame_run allocate_frame deallocate_frame rs (a, xs))) = fa_frames a" for rs a xs
  proof (induction rs arbitrary: a xs)
    case (Cons r rs)
    show ?case
    proof (cases r)
      case (Inl b)
      have "fa_frames (snd (allocate_frame b a)) = fa_frames a"
        by (simp add: allocate_frame_def split: list.split)
      with Inl Cons show ?thesis by (auto split: prod.split option.split)
    qed (use Cons in \<open>simp add: deallocate_frame_def\<close>)
  qed simp
  from this [of rs "fa\<lparr>fa_ready := b\<rparr>" "[]"] assms(3,4) have "fa_frames fa' = usable_frames up down regions"
    by (simp add: fa_init_def)
  then have "set out \<subseteq> set (usable_frames up down regions)"
    using out(2) by (auto simp: fa_ok_def dest: in_set_takeD)
  then have "\<exists>r. r \<in> set regions \<and> mr_kind r = Usable \<and> f \<in> set (region_frames up down r)" if "f \<in> set out" for f
    using that by (auto simp: usable_frames_def)
  then show ?thesis using out(1) region_frame [OF assms(1)] by blast
qed

lemma step_range_numeral:
  "step_range a (numeral k) = a # step_range (a + frame_size) (pred_numeral k)"
  by (simp add: numeral_eq_Suc)

definition align_up :: "nat \<Rightarrow> nat" where "align_up a = (a + (frame_size - 1)) div frame_size * frame_size"
definition align_down :: "nat \<Rightarrow> nat" where "align_down a = a div frame_size * frame_size"

lemma aligns_example: "aligns align_up align_down"
  by (auto simp: aligns_def align_up_def align_down_def)

theorem frames_exclusive_witness:
  "frame_run allocate_frame deallocate_frame [Inl True, Inl True, Inr 0, Inl True]
     (fa_init align_up align_down [\<lparr>mr_start = 5000, mr_end = 20481, mr_kind = Usable\<rparr>]\<lparr>fa_ready := True\<rparr>, [])
   = (\<lparr>fa_frames = [8192, 12288, 16384], fa_next = 2, fa_recycled = [], fa_ready = True\<rparr>, [12288, 8192])
   \<and> distinct [12288, 8192 :: nat] \<and> (12288 :: nat) mod frame_size = 0"
proof -
  let ?regions = "[\<lparr>mr_start = 5000, mr_end = 20481, mr_kind = Usable\<rparr>]"
  have run: "frame_run allocate_frame deallocate_frame [Inl True, Inl True, Inr 0, Inl True]
      (fa_init align_up align_down ?regions\<lparr>fa_ready := True\<rparr>, [])
    = (\<lparr>fa_frames = [8192, 12288, 16384], fa_next = 2, fa_recycled = [], fa_ready = True\<rparr>, [12288, 8192])"
    by (simp add: fa_init_def usable_frames_def region_frames_def align_up_def align_down_def step_range_numeral
        allocate_frame_def deallocate_frame_def remove_nth_def)
  show ?thesis
    using frames_exclusive [OF aligns_example _ run refl] run by simp
qed

text \<open>C35: Making an owned page neither leaks nor shares a frame: on success the page is cleared and
  its frame was not in use, on every failure path the frames in use are the same as before, and
  dropping the page gives its frame back.\<close>

theorem owned_page_no_leak:
  assumes ok: "fa_ok fa out" and r: "owned_page_new phys_to_virt b (Some fa) = (r, g')"
  shows "\<exists>fa'. g' = Some fa' \<and>
     (case r of
        None \<Rightarrow> fa_ok fa' out
      | Some p \<Rightarrow> op_frame p \<notin> out \<and> fa_ok fa' (insert (op_frame p) out) \<and> op_bytes p = replicate frame_size 0
          \<and> phys_to_virt (op_frame p) = Some (op_pointer p) \<and> op_pointer p \<noteq> 0
          \<and> (\<exists>fa''. owned_page_drop g' p = Some fa'' \<and> fa_ok fa'' out))"
proof -
  obtain q fa1 where q: "allocate_frame b fa = (q, fa1)" by fastforce
  show ?thesis
  proof (cases q)
    case None
    with q r boot.alloc_none [OF ok, of b fa1] show ?thesis
      by (auto simp: owned_page_new_def mm_allocate_frame_def)
  next
    case (Some f)
    with q boot.alloc_some [OF ok, of b f fa1] have f: "f \<notin> out" "fa_ok fa1 (insert f out)" by simp_all
    from boot.free_ok [OF f(2), of f] f(1) have free: "fa_ok (deallocate_frame fa1 f) out" by simp
    from r Some q f free show ?thesis
      by (auto simp: owned_page_new_def mm_allocate_frame_def mm_deallocate_frame_def owned_page_drop_def
          split: option.splits if_splits)
  qed
qed

theorem owned_page_no_leak_witness:
  "\<exists>fa'. owned_page_new (\<lambda>_. None) True (Some \<lparr>fa_frames = [8192, 12288], fa_next = 1, fa_recycled = [], fa_ready = True\<rparr>) = (None, Some fa')
     \<and> fa_ok fa' {8192}"
proof -
  have ok: "fa_ok \<lparr>fa_frames = [8192, 12288], fa_next = 1, fa_recycled = [], fa_ready = True\<rparr> {8192}"
    by (simp add: fa_ok_def)
  have r: "owned_page_new (\<lambda>_. None) True (Some \<lparr>fa_frames = [8192, 12288], fa_next = 1, fa_recycled = [], fa_ready = True\<rparr>)
      = (None, Some \<lparr>fa_frames = [8192, 12288], fa_next = 2, fa_recycled = [12288], fa_ready = True\<rparr>)"
    by (simp add: owned_page_new_def mm_allocate_frame_def mm_deallocate_frame_def allocate_frame_def deallocate_frame_def)
  show ?thesis using owned_page_no_leak [OF ok r] r by simp
qed

end
