(* ===== verification/User_Paging.thy ===== *)
theory User_Paging
  imports Prelude
begin

text \<open>
  User address-space arithmetic and page-table policy: the user layout constants
  (\<^verbatim>\<open>kernel/src/arch/x86_64/user_layout.rs\<close>), the preflight of \<open>mmap\<close> ranges
  (\<^verbatim>\<open>kernel/src/syscall/mmap.rs\<close>), the translation of mmap protections to page-table
  bits (\<^verbatim>\<open>user_protection.rs\<close>) and the range walk that refuses to map user pages over
  supervisor pages (\<^verbatim>\<open>supervisor_overlap.rs\<close>).
\<close>

section \<open>Layout\<close>

definition PAGE_SIZE :: nat where "PAGE_SIZE = 4096"
definition USER_ADDRESS_END :: nat where "USER_ADDRESS_END = 2 ^ 47"
definition USER_STACK_TOP :: nat where "USER_STACK_TOP = USER_ADDRESS_END - PAGE_SIZE"

section \<open>Ranges of mmap\<close>

record mmap_range =
  mr_base :: usize
  mr_len :: usize
  mr_end :: usize

text \<open>The closure \<open>align\<close> of \<open>checked_mmap_range\<close>: round up to a multiple of the page size,
  \<open>None\<close> on overflow.\<close>

definition align_page :: "usize \<Rightarrow> usize \<Rightarrow> usize option" where
  "align_page page_size value =
     map_option (\<lambda>v. v AND NOT (page_size - 1)) (checked_add value (page_size - 1))"

definition checked_mmap_range ::
    "usize \<Rightarrow> usize \<Rightarrow> usize \<Rightarrow> usize \<Rightarrow> mmap_range errno_result" where
  "checked_mmap_range base len page_size user_end =
     (if len = 0 then Inl (- 22)
      else case align_page page_size len of
        None \<Rightarrow> Inl (- 12)
      | Some len' \<Rightarrow> (case align_page page_size base of
          None \<Rightarrow> Inl (- 12)
        | Some base' \<Rightarrow> (case checked_add base' len' of
            None \<Rightarrow> Inl (- 12)
          | Some e \<Rightarrow> (if user_end \<le> base' \<or> user_end < e then Inl (- 12)
                        else Inr \<lparr>mr_base = base', mr_len = len', mr_end = e\<rparr>))))"

text \<open>Rounding up on natural numbers, the reference for \<open>align_page\<close>.\<close>

definition round_up :: "nat \<Rightarrow> nat \<Rightarrow> nat" where
  "round_up p n = (n + p - 1) div p * p"

lemma and_not_mask_push: "w AND NOT (2 ^ k - 1) = push_bit k (drop_bit k w)" for w :: usize
  by (rule bit_eqI) (auto simp: bit_simps mask_eq_exp_minus_1 [symmetric])

lemma unat_and_not_mask:
  fixes w :: usize
  assumes "k < 64"
  shows "unat (w AND NOT (2 ^ k - 1)) = unat w div 2 ^ k * 2 ^ k"
proof -
  have "unat w div 2 ^ k * 2 ^ k < 2 ^ 64"
    using unat_less_2p [of w] by (simp add: order.strict_trans1 [OF div_times_less_eq_dividend])
  moreover have "take_bit 64 (unat w) = unat w"
    using unat_less_2p [of w] by (simp add: take_bit_nat_eq_self)
  ultimately show ?thesis
    unfolding and_not_mask_push unsigned_push_bit_eq unsigned_drop_bit_eq
    by (simp add: take_bit_nat_eq_self push_bit_eq_mult drop_bit_eq_div)
qed

lemma unat_of_nat_usize: "n < 2 ^ 64 \<Longrightarrow> unat (of_nat n :: usize) = n"
  by (simp add: unat_of_nat take_bit_nat_eq_self unsigned_of_nat)

lemma unat_exp_minus_1:
  assumes "k < 64"
  shows "unat (2 ^ k - 1 :: usize) = 2 ^ k - 1"
proof -
  have "(2::nat) ^ k < 2 ^ 64" using assms by (rule power_strict_increasing) simp
  moreover have "(2 ^ k - 1 :: usize) = of_nat (2 ^ k - 1)" by (simp add: of_nat_diff)
  ultimately show ?thesis by (simp only: unat_of_nat_usize)
qed

lemma align_page_cases:
  fixes v :: usize
  assumes k: "k < 64"
  shows "align_page (2 ^ k) v =
     (if round_up (2 ^ k) (unat v) < 2 ^ 64 then Some (of_nat (round_up (2 ^ k) (unat v))) else None)"
proof -
  let ?p = "2 ^ k :: nat" and ?n = "unat v"
  have p: "0 < ?p" by simp
  have eq: "?n + ?p - 1 = ?n + (?p - 1)" by simp
  have dvd: "?p * 2 ^ (64 - k) = 2 ^ 64"
    using k by (simp flip: power_add)
  have small: "round_up ?p ?n < 2 ^ 64 \<longleftrightarrow> ?n + (?p - 1) < 2 ^ 64"
  proof -
    have "(?n + (?p - 1)) div ?p * ?p < 2 ^ (64 - k) * ?p \<longleftrightarrow> (?n + (?p - 1)) div ?p < 2 ^ (64 - k)"
      using p by simp
    also have "\<dots> \<longleftrightarrow> ?n + (?p - 1) < 2 ^ (64 - k) * ?p"
      by (rule div_less_iff_less_mult [OF p])
    finally show ?thesis using dvd unfolding round_up_def eq by (simp add: mult.commute)
  qed
  show ?thesis
  proof (cases "?n + (?p - 1) < 2 ^ 64")
    case True
    then have "unat (v + (2 ^ k - 1)) = ?n + (?p - 1)"
      using k by (simp add: unat_add_nowrap unat_exp_minus_1)
    then have "unat ((v + (2 ^ k - 1)) AND NOT (2 ^ k - 1)) = round_up ?p ?n"
      using k unfolding round_up_def eq by (simp add: unat_and_not_mask)
    then have "(v + (2 ^ k - 1)) AND NOT (2 ^ k - 1) = of_nat (round_up ?p ?n)"
      using True small by (simp only: word_unat_eq_iff unat_of_nat_usize)
    with True small k show ?thesis
      by (simp add: align_page_def checked_add_def unat_exp_minus_1)
  next
    case False
    with small k show ?thesis
      by (simp add: align_page_def checked_add_def unat_exp_minus_1)
  qed
qed

lemma checked_mmap_range_cases:
  assumes k: "k < 64"
  shows "checked_mmap_range base len (2 ^ k) user_end =
     (let b = round_up (2 ^ k) (unat base); l = round_up (2 ^ k) (unat len)
      in if len = 0 then Inl (- 22)
         else if b + l \<le> unat user_end
         then Inr \<lparr>mr_base = of_nat b, mr_len = of_nat l, mr_end = of_nat (b + l)\<rparr>
         else Inl (- 12))"
proof -
  let ?b = "round_up (2 ^ k) (unat base)" and ?l = "round_up (2 ^ k) (unat len)"
  have ue: "unat user_end < 2 ^ 64" using unat_less_2p [of user_end] by simp
  have l0: "len \<noteq> 0 \<Longrightarrow> 0 < ?l"
  proof -
    assume "len \<noteq> 0"
    then have "1 \<le> unat len" by (simp add: unat_gt_0 Suc_le_eq)
    then have "2 ^ k \<le> unat len + 2 ^ k - 1" by simp
    then have "0 < (unat len + 2 ^ k - 1) div 2 ^ k" by (simp add: div_greater_zero_iff)
    then show "0 < ?l" by (simp add: round_up_def)
  qed
  show ?thesis
  proof (cases "len = 0")
    case True
    then show ?thesis by (simp add: checked_mmap_range_def Let_def)
  next
    case False
    with l0 have "0 < ?l" .
    with False ue show ?thesis
      by (auto simp: checked_mmap_range_def align_page_cases [OF k] checked_add_def Let_def
            unat_of_nat_usize word_le_nat_alt word_less_nat_alt unat_add_nowrap split: if_splits)
  qed
qed

section \<open>Protections\<close>

definition NO_ACCESS :: u64 where "NO_ACCESS = 512"

definition mmap_page_flags :: "usize \<Rightarrow> u64 errno_result" where
  "mmap_page_flags prot =
     (if prot AND NOT 7 \<noteq> 0 then Inl (- 22)
      else let flags = 4;
               flags = (if prot = 0 then flags OR NO_ACCESS else flags OR 1);
               flags = (if prot AND 2 \<noteq> 0 then flags OR 2 else flags);
               flags = (if prot AND 4 = 0 then flags OR push_bit 63 1 else flags)
           in Inr flags)"

lemma and_not_7_cases:
  fixes prot :: usize
  assumes "prot AND NOT 7 = 0"
  shows "prot \<in> {0, 1, 2, 3, 4, 5, 6, 7}"
proof -
  have "unat (prot AND NOT (2 ^ 3 - 1)) = unat prot div 8 * 8"
    using unat_and_not_mask [of 3 prot] by simp
  with assms have "unat prot < 8" by simp
  then have "unat prot \<in> {0, 1, 2, 3, 4, 5, 6, 7}" by auto
  then show ?thesis by (auto simp: word_unat_eq_iff)
qed

section \<open>The supervisor-overlap walk\<close>

definition PRESENT :: u64 where "PRESENT = 1"
definition USER :: u64 where "USER = 4"
definition HUGE :: u64 where "HUGE = 128"
definition TABLE_ADDRESS :: u64 where "TABLE_ADDRESS = 0x000ffffffffff000"

text \<open>The \<open>for index in first..=last\<close> loop: \<open>None\<close> is the early return of \<open>?\<close>,
  \<open>Some True\<close> the early return of a hit, \<open>Some False\<close> a \<open>continue\<close>.\<close>

fun scan :: "(nat \<Rightarrow> bool option) \<Rightarrow> nat list \<Rightarrow> bool option" where
  "scan f [] = Some False"
| "scan f (i # is) =
     (case f i of None \<Rightarrow> None | Some b \<Rightarrow> (if b then Some True else scan f is))"

definition is_leaf :: "nat \<Rightarrow> u64 \<Rightarrow> bool" where
  "is_leaf level entry \<longleftrightarrow> level = 1 \<or> (level = 2 \<or> level = 3) \<and> entry AND HUGE \<noteq> 0"

definition level_span :: "nat \<Rightarrow> nat" where
  "level_span level = 2 ^ (12 + 9 * (level - 1))"

text \<open>
  \<open>walk\<close> recurses on the level, 4 at the root. The source never reaches level 0 (a level-1
  entry is always a leaf); the equation for it is there for totality. Addresses are natural
  numbers: all of them stay below \<open>2 ^ 48\<close>, so the \<open>usize\<close> arithmetic does not wrap, and
  \<open>table_start \<le> start < end\<close> holds at every call, so no subtraction is negative.
\<close>

fun walk :: "(u64 \<Rightarrow> nat \<Rightarrow> u64 option) \<Rightarrow> u64 \<Rightarrow> nat \<Rightarrow> nat \<Rightarrow> nat \<Rightarrow> nat \<Rightarrow> bool \<Rightarrow> bool option" where
  "walk read_entry table 0 table_start start end parent_user = None"
| "walk read_entry table (Suc n) table_start start end parent_user =
     (let span = level_span (Suc n);
          first = (start - table_start) div span;
          last = (end - 1 - table_start) div span
      in scan (\<lambda>index.
           case read_entry table index of
             None \<Rightarrow> None
           | Some entry \<Rightarrow>
               if entry AND PRESENT = 0 then Some False
               else let user = (parent_user \<and> entry AND USER \<noteq> 0)
                    in if is_leaf (Suc n) entry then Some (\<not> user)
                       else let entry_start = table_start + index * span
                            in walk read_entry (entry AND TABLE_ADDRESS) n entry_start
                                 (max start entry_start) (min end (entry_start + span)) user)
           [first..<Suc last])"

definition range_overlaps_supervisor ::
    "(u64 \<Rightarrow> nat \<Rightarrow> u64 option) \<Rightarrow> u64 \<Rightarrow> nat \<Rightarrow> nat \<Rightarrow> bool option" where
  "range_overlaps_supervisor read_entry root start end =
     (if end \<le> start \<or> USER_ADDRESS_END < end then None
      else walk read_entry root 4 0 start end True)"

text \<open>
  The reference: the hardware's walk for one address. \<open>Some True\<close> is a present leaf that user
  mode may not access, \<open>Some False\<close> a user leaf or a hole, \<open>None\<close> a failed table read.
\<close>

fun supervisor_at :: "(u64 \<Rightarrow> nat \<Rightarrow> u64 option) \<Rightarrow> u64 \<Rightarrow> nat \<Rightarrow> nat \<Rightarrow> bool \<Rightarrow> nat \<Rightarrow> bool option" where
  "supervisor_at read_entry table 0 table_start parent_user va = None"
| "supervisor_at read_entry table (Suc n) table_start parent_user va =
     (let span = level_span (Suc n); index = (va - table_start) div span
      in case read_entry table index of
           None \<Rightarrow> None
         | Some entry \<Rightarrow>
             if entry AND PRESENT = 0 then Some False
             else let user = (parent_user \<and> entry AND USER \<noteq> 0)
                  in if is_leaf (Suc n) entry then Some (\<not> user)
                     else supervisor_at read_entry (entry AND TABLE_ADDRESS) n
                            (table_start + index * span) user va)"

lemma scan_False: "scan f is = Some False \<longleftrightarrow> (\<forall>i \<in> set is. f i = Some False)"
  by (induction "is") (auto split: option.splits if_splits)

lemma scan_True: "scan f is = Some True \<Longrightarrow> \<exists>i \<in> set is. f i = Some True"
  by (induction "is") (auto split: option.splits if_splits)

lemma level_span_pos [simp]: "0 < level_span n"
  by (simp add: level_span_def)

lemma div_eq_chunk:
  fixes x c i :: nat
  assumes "0 < c"
  shows "x div c = i \<longleftrightarrow> i * c \<le> x \<and> x < i * c + c"
proof
  assume "x div c = i"
  then show "i * c \<le> x \<and> x < i * c + c"
    using div_mult_mod_eq [of x c] mod_less_divisor [OF assms, of x] by auto
next
  assume "i * c \<le> x \<and> x < i * c + c"
  then show "x div c = i" by (intro div_nat_eqI) (auto simp: mult.commute)
qed

text \<open>The slice of an address range that one table entry covers.\<close>

definition slice :: "nat \<Rightarrow> nat \<Rightarrow> nat \<Rightarrow> nat \<Rightarrow> nat \<Rightarrow> nat set" where
  "slice span ts s e i = {max s (ts + i * span)..<min e (ts + i * span + span)}"

lemma slice_index:
  assumes "0 < span" "ts \<le> s"
  shows "va \<in> slice span ts s e i \<longleftrightarrow> s \<le> va \<and> va < e \<and> (va - ts) div span = i"
  using assms by (auto simp: slice_def div_eq_chunk)

lemma slices_cover:
  assumes "0 < span" "ts \<le> s" "s < e" "i \<in> set [(s - ts) div span..<Suc ((e - 1 - ts) div span)]"
  shows "max s (ts + i * span) < min e (ts + i * span + span)"
proof -
  let ?a = "(s - ts) div span" and ?b = "(e - 1 - ts) div span"
  have i: "?a \<le> i" "i \<le> ?b" using assms(4) by auto
  have "s - ts < ?a * span + span" and "?b * span \<le> e - 1 - ts"
    using div_eq_chunk [OF assms(1), of "s - ts" ?a] div_eq_chunk [OF assms(1), of "e - 1 - ts" ?b] by auto
  moreover have "?a * span \<le> i * span" "i * span \<le> ?b * span" using i by simp_all
  ultimately have "s < ts + i * span + span" "ts + i * span < e"
    using assms(2,3) by linarith+
  then show ?thesis using assms(1,3) by simp
qed

lemma slice_hit:
  assumes "0 < span" "ts \<le> s" "s \<le> va" "va < e"
  shows "(va - ts) div span \<in> set [(s - ts) div span..<Suc ((e - 1 - ts) div span)]"
proof -
  have "(va - ts) div span \<le> (e - 1 - ts) div span" using assms(4) by (intro div_le_mono) simp
  moreover have "(s - ts) div span \<le> (va - ts) div span" using assms(3) by (intro div_le_mono) simp
  ultimately show ?thesis by (simp only: set_upt atLeastLessThan_iff less_Suc_eq_le)
qed

lemma walk_range:
  assumes "ts \<le> s" "s < e"
  shows "(walk rd table n ts s e pu = Some False \<longleftrightarrow>
            (\<forall>va \<in> {s..<e}. supervisor_at rd table n ts pu va = Some False))
         \<and> (walk rd table n ts s e pu = Some True \<longrightarrow>
            (\<exists>va \<in> {s..<e}. supervisor_at rd table n ts pu va = Some True))"
  using assms
proof (induction n arbitrary: table ts s e pu)
  case 0
  then show ?case by auto
next
  case (Suc n)
  define span where "span = level_span (Suc n)"
  define f where "f = (\<lambda>index. case rd table index of None \<Rightarrow> None
     | Some entry \<Rightarrow> if entry AND PRESENT = 0 then Some False
         else let user = (pu \<and> entry AND USER \<noteq> 0)
              in if is_leaf (Suc n) entry then Some (\<not> user)
                 else let entry_start = ts + index * span
                      in walk rd (entry AND TABLE_ADDRESS) n entry_start
                           (max s entry_start) (min e (entry_start + span)) user)"
  define g where "g = supervisor_at rd table (Suc n) ts pu"
  let ?is = "[(s - ts) div span..<Suc ((e - 1 - ts) div span)]"
  have span: "0 < span" by (simp add: span_def)
  have w: "walk rd table (Suc n) ts s e pu = scan f ?is"
    by (simp only: walk.simps f_def span_def Let_def)
  have entry: "(f i = Some False \<longleftrightarrow> (\<forall>va \<in> slice span ts s e i. g va = Some False))
      \<and> (f i = Some True \<longrightarrow> (\<exists>va \<in> slice span ts s e i. g va = Some True))"
    if "i \<in> set ?is" for i
  proof -
    have lt: "max s (ts + i * span) < min e (ts + i * span + span)"
      by (rule slices_cover [OF span Suc.prems that])
    then have v: "max s (ts + i * span) \<in> slice span ts s e i" by (simp add: slice_def)
    have g: "g va = (case rd table i of None \<Rightarrow> None
        | Some entry \<Rightarrow> if entry AND PRESENT = 0 then Some False
            else if is_leaf (Suc n) entry then Some (\<not> (pu \<and> entry AND USER \<noteq> 0))
            else supervisor_at rd (entry AND TABLE_ADDRESS) n (ts + i * span)
                   (pu \<and> entry AND USER \<noteq> 0) va)"
      if "va \<in> slice span ts s e i" for va
      using that slice_index [OF span Suc.prems(1)]
      by (simp add: g_def Let_def span_def split: option.split)
    show ?thesis
    proof (cases "rd table i")
      case None
      then show ?thesis using v g by (auto simp: f_def)
    next
      case (Some entry)
      show ?thesis
      proof (cases "entry AND PRESENT = 0 \<or> is_leaf (Suc n) entry")
        case True
        with Some show ?thesis using v g by (auto simp: f_def Let_def)
      next
        case False
        let ?sub = "supervisor_at rd (entry AND TABLE_ADDRESS) n (ts + i * span) (pu \<and> entry AND USER \<noteq> 0)"
        from False Some have "f i = walk rd (entry AND TABLE_ADDRESS) n (ts + i * span)
            (max s (ts + i * span)) (min e (ts + i * span + span)) (pu \<and> entry AND USER \<noteq> 0)"
          by (simp add: f_def Let_def)
        moreover from False Some have "\<forall>va \<in> slice span ts s e i. g va = ?sub va"
          using g by simp
        ultimately show ?thesis
          using Suc.IH [OF max.cobounded2 lt, of "entry AND TABLE_ADDRESS" "pu \<and> entry AND USER \<noteq> 0"]
          by (simp add: slice_def)
      qed
    qed
  qed
  have cover: "va \<in> slice span ts s e ((va - ts) div span) \<and> (va - ts) div span \<in> set ?is"
    if "va \<in> {s..<e}" for va
    using that slice_hit [OF span Suc.prems(1), of va e] slice_index [OF span Suc.prems(1)] by auto
  have sub: "slice span ts s e i \<subseteq> {s..<e}" for i by (auto simp: slice_def)
  show ?case
    unfolding w g_def [symmetric]
    using entry cover sub scan_False [of f ?is] scan_True [of f ?is] by (meson subsetD)
qed

section \<open>Properties\<close>

text \<open>C30: for every power-of-two page size, \<open>checked_mmap_range\<close> accepts a non-empty request
  exactly when the base and the length, both rounded up to pages as unbounded integers, end at or
  below the user limit; it then returns those rounded values, which are page aligned and do not
  wrap. A zero length is EINVAL, everything else ENOMEM.\<close>

theorem checked_mmap_range_exact:
  assumes "k < 64"
  shows "checked_mmap_range base len (2 ^ k) user_end =
     (let b = round_up (2 ^ k) (unat base); l = round_up (2 ^ k) (unat len)
      in if len = 0 then Inl (- 22)
         else if b + l \<le> unat user_end
         then Inr \<lparr>mr_base = of_nat b, mr_len = of_nat l, mr_end = of_nat (b + l)\<rparr>
         else Inl (- 12))"
  using assms by (rule checked_mmap_range_cases)

theorem checked_mmap_range_exact_witness:
  "checked_mmap_range 0x600000000001 4097 4096 (2 ^ 47) =
     Inr \<lparr>mr_base = 0x600000001000, mr_len = 8192, mr_end = 0x600000003000\<rparr>"
  using checked_mmap_range_exact [of 12 "0x600000000001" 4097 "2 ^ 47"]
  by (simp add: round_up_def)

text \<open>An accepted protection sets the user bit always, the present bit exactly for a
  protection other than PROT_NONE, the owned-but-inaccessible marker exactly for PROT_NONE, the
  write bit exactly for PROT_WRITE and the no-execute bit exactly without PROT_EXEC, and no other
  bit; anything outside the three protection bits is EINVAL.\<close>

lemma mmap_page_flags_exact:
  "mmap_page_flags prot =
     (if prot \<in> {0, 1, 2, 3, 4, 5, 6, 7}
      then Inr (4 + (if prot = 0 then 512 else 1) + (if bit prot 1 then 2 else 0)
                + (if bit prot 2 then 0 else 2 ^ 63))
      else Inl (- 22))"
proof (cases "prot AND NOT 7 = 0")
  case True
  then have "prot \<in> {0, 1, 2, 3, 4, 5, 6, 7}" by (rule and_not_7_cases)
  then show ?thesis
    by (elim insertE emptyE) (simp_all add: mmap_page_flags_def NO_ACCESS_def)
next
  case False
  then have "prot \<notin> {0, 1, 2, 3, 4, 5, 6, 7}" by auto
  with False show ?thesis by (simp add: mmap_page_flags_def)
qed

text \<open>C15: the range walk agrees with the hardware's walk of every single address: it reports no
  overlap exactly when every address of the range translates, with every table read succeeding,
  to a hole or a user-accessible leaf (the user bit being required at every level), and it reports
  an overlap only when some address of the range is a present supervisor leaf. A failed read of a
  table that matters is never reported as free.\<close>

theorem range_overlaps_supervisor_sound:
  assumes "start < end" "end \<le> USER_ADDRESS_END"
  shows "(range_overlaps_supervisor read_entry root start end = Some False \<longleftrightarrow>
            (\<forall>va \<in> {start..<end}. supervisor_at read_entry root 4 0 True va = Some False))
         \<and> (range_overlaps_supervisor read_entry root start end = Some True \<longrightarrow>
            (\<exists>va \<in> {start..<end}. supervisor_at read_entry root 4 0 True va = Some True))"
  using walk_range [of 0 start "end" read_entry root 4 True] assms
  by (simp add: range_overlaps_supervisor_def)

text \<open>The page tables of the source's own test: three levels of user tables over one leaf.\<close>

definition sample_tables :: "u64 \<Rightarrow> u64 \<Rightarrow> nat \<Rightarrow> u64 option" where
  "sample_tables leaf table index =
     (if table = 0x3000 then Some (if index = 1 then leaf else 0)
      else Some (if index = 0 then (table + 0x1000) OR 5 else 0))"

lemma sample_walks:
  "range_overlaps_supervisor (sample_tables 0x10005) 0 4096 8192 = Some False"
  "range_overlaps_supervisor (sample_tables 0x10001) 0 0 8192 = Some True"
proof -
  have four: "(4 :: nat) = Suc (Suc (Suc (Suc 0)))" by simp
  show "range_overlaps_supervisor (sample_tables 0x10005) 0 4096 8192 = Some False"
    "range_overlaps_supervisor (sample_tables 0x10001) 0 0 8192 = Some True"
    unfolding range_overlaps_supervisor_def four
    by (simp_all add: USER_ADDRESS_END_def level_span_def sample_tables_def is_leaf_def PRESENT_def
          USER_def HUGE_def TABLE_ADDRESS_def Let_def upt_rec)
qed

theorem range_overlaps_supervisor_sound_witness:
  "supervisor_at (sample_tables 0x10005) 0 4 0 True 5000 = Some False
   \<and> (\<exists>va. va < 8192 \<and> supervisor_at (sample_tables 0x10001) 0 4 0 True va = Some True)"
proof -
  have "4096 < (8192::nat)" "8192 \<le> USER_ADDRESS_END" "0 < (8192::nat)"
    by (simp_all add: USER_ADDRESS_END_def)
  moreover have "(5000::nat) \<in> {4096..<8192}" by simp
  ultimately show ?thesis
    using range_overlaps_supervisor_sound [of 4096 8192 "sample_tables 0x10005" 0]
      range_overlaps_supervisor_sound [of 0 8192 "sample_tables 0x10001" 0] sample_walks
    by (meson atLeastLessThan_iff)
qed

end
