(* ===== verification/Utf8.thy ===== *)
theory Utf8
  imports Rust_Str
begin

text \<open>
  UTF-8 as the standard library reads and writes it: \<open>str::as_bytes\<close> and \<open>from_utf8\<close>, which
  rejects overlong forms, surrogates and values above \<open>0x10FFFF\<close>. The two are inverse to each other.
\<close>

definition is_scalar :: "nat \<Rightarrow> bool" where
  "is_scalar c \<longleftrightarrow> c < 0xD800 \<or> 0xE000 \<le> c \<and> c < 0x110000"

definition utf8_char :: "nat \<Rightarrow> nat list" where
  "utf8_char c =
     (if c < 128 then [c]
      else if c < 2048 then [192 + c div 64, 128 + c mod 64]
      else if c < 65536 then [224 + c div 4096, 128 + c div 64 mod 64, 128 + c mod 64]
      else [240 + c div 262144, 128 + c div 4096 mod 64, 128 + c div 64 mod 64, 128 + c mod 64])"

definition as_bytes :: "rstr \<Rightarrow> u8 list" where
  "as_bytes s = map of_nat (concat (map utf8_char s))"

definition continues :: "nat \<Rightarrow> bool" where
  "continues b \<longleftrightarrow> 128 \<le> b \<and> b < 192"

text \<open>The second byte decides on overlong forms, surrogates and the upper limit.\<close>

definition second_ok :: "nat \<Rightarrow> nat \<Rightarrow> bool" where
  "second_ok b c \<longleftrightarrow> continues c \<and> (b = 224 \<longrightarrow> 160 \<le> c) \<and> (b = 237 \<longrightarrow> c < 160)
     \<and> (b = 240 \<longrightarrow> 144 \<le> c) \<and> (b = 244 \<longrightarrow> c < 144)"

fun utf8_decode :: "nat list \<Rightarrow> rstr option" where
  "utf8_decode [] = Some []"
| "utf8_decode (b # bs) =
     (if b < 128 then map_option (Cons b) (utf8_decode bs)
      else case bs of
        [] \<Rightarrow> None
      | c1 # r1 \<Rightarrow>
          if 194 \<le> b \<and> b < 224
          then (if continues c1 then map_option (Cons ((b - 192) * 64 + (c1 - 128))) (utf8_decode r1) else None)
          else case r1 of
            [] \<Rightarrow> None
          | c2 # r2 \<Rightarrow>
              if 224 \<le> b \<and> b < 240
              then (if second_ok b c1 \<and> continues c2
                    then map_option (Cons ((b - 224) * 4096 + (c1 - 128) * 64 + (c2 - 128))) (utf8_decode r2) else None)
              else case r2 of
                [] \<Rightarrow> None
              | c3 # r3 \<Rightarrow>
                  if 240 \<le> b \<and> b < 245 \<and> second_ok b c1 \<and> continues c2 \<and> continues c3
                  then map_option (Cons ((b - 240) * 262144 + (c1 - 128) * 4096 + (c2 - 128) * 64 + (c3 - 128))) (utf8_decode r3)
                  else None)"

definition from_utf8 :: "u8 list \<Rightarrow> rstr option" where
  "from_utf8 bs = utf8_decode (map unat bs)"

section \<open>Round trips\<close>

lemma length_utf8_char: "length (utf8_char c) = utf8_width c"
  by (simp add: utf8_char_def utf8_width_def)

lemma length_as_bytes: "length (as_bytes s) = str_len s"
  by (induction s) (simp_all add: as_bytes_def str_len_def length_utf8_char)

lemma digits64: "(c :: nat) = c div 4096 * 4096 + c div 64 mod 64 * 64 + c mod 64"
proof -
  have "c div 64 = c div 4096 * 64 + c div 64 mod 64"
    using div_mult_mod_eq [of "c div 64" 64] div_mult2_eq [of c 64 64] by simp
  then show ?thesis using div_mult_mod_eq [of c 64] by linarith
qed

lemma digits64': "(c :: nat) = c div 262144 * 262144 + c div 4096 mod 64 * 4096 + c div 64 mod 64 * 64 + c mod 64"
proof -
  have "c div 4096 = c div 262144 * 64 + c div 4096 mod 64"
    using div_mult_mod_eq [of "c div 4096" 64] div_mult2_eq [of c 4096 64] by simp
  then show ?thesis using digits64 [of c] by linarith
qed

lemma utf8_decode_char:
  assumes "is_scalar c" shows "utf8_decode (utf8_char c @ bs) = map_option (Cons c) (utf8_decode bs)"
proof -
  define x y z where "x = c mod 64" and "y = c div 64 mod 64" and "z = c div 4096 mod 64"
  have lt: "x < 64" "y < 64" "z < 64" by (simp_all add: x_def y_def z_def)
  consider "c < 128" | "128 \<le> c" "c < 2048" | "2048 \<le> c" "c < 65536" | "65536 \<le> c" by linarith
  then show ?thesis
  proof cases
    case 2
    define w where "w = c div 64"
    have c: "c = w * 64 + x" by (simp add: w_def x_def)
    have u: "utf8_char c = [192 + w, 128 + x]" using 2 by (simp add: utf8_char_def w_def x_def)
    have "2 \<le> w" "w < 32" using 2 c lt by linarith+
    then show ?thesis unfolding u using lt by (simp add: continues_def c)
  next
    case 3
    define w where "w = c div 4096"
    have c: "c = w * 4096 + y * 64 + x" using digits64 [of c] by (simp add: w_def x_def y_def)
    have u: "utf8_char c = [224 + w, 128 + y, 128 + x]" using 3 by (simp add: utf8_char_def w_def x_def y_def)
    have "w < 16" "w = 0 \<longrightarrow> 32 \<le> y" using 3 c lt by linarith+
    moreover have "w = 13 \<longrightarrow> y < 32" using assms c lt unfolding is_scalar_def by linarith
    ultimately show ?thesis unfolding u using lt by (simp add: continues_def second_ok_def c)
  next
    case 4
    define w where "w = c div 262144"
    have c: "c = w * 262144 + z * 4096 + y * 64 + x" using digits64' [of c] by (simp add: w_def x_def y_def z_def)
    have u: "utf8_char c = [240 + w, 128 + z, 128 + y, 128 + x]" using 4 by (simp add: utf8_char_def w_def x_def y_def z_def)
    have "c < 1114112" using assms 4 by (simp add: is_scalar_def)
    then have "w < 5" "w = 0 \<longrightarrow> 16 \<le> z" "w = 4 \<longrightarrow> z < 16" using 4 c lt by linarith+
    then show ?thesis unfolding u using lt by (simp add: continues_def second_ok_def c)
  qed (simp add: utf8_char_def)
qed

lemma utf8_char_byte: "is_scalar c \<Longrightarrow> b \<in> set (utf8_char c) \<Longrightarrow> b < 256"
  by (auto simp: utf8_char_def is_scalar_def div_less_iff_less_mult split: if_splits)

lemma map_unat_of_nat: "(\<And>b. b \<in> set xs \<Longrightarrow> b < 256) \<Longrightarrow> map (unat \<circ> (of_nat :: nat \<Rightarrow> u8)) xs = xs"
  by (induction xs) (auto simp: unat_of_nat)

lemma utf8_decode_concat: "(\<And>c. c \<in> set s \<Longrightarrow> is_scalar c) \<Longrightarrow> utf8_decode (concat (map utf8_char s)) = Some s"
  by (induction s) (simp_all add: utf8_decode_char)

lemma from_utf8_as_bytes:
  assumes "\<And>c. c \<in> set s \<Longrightarrow> is_scalar c" shows "from_utf8 (as_bytes s) = Some s"
proof -
  have "map (unat \<circ> (of_nat :: nat \<Rightarrow> u8)) (concat (map utf8_char s)) = concat (map utf8_char s)"
    using assms by (intro map_unat_of_nat) (auto dest: utf8_char_byte)
  then show ?thesis using utf8_decode_concat [of s] assms by (simp add: from_utf8_def as_bytes_def)
qed

end
