(* ===== verification/Binfmt.thy ===== *)
theory Binfmt
  imports Utf8
begin

text \<open>
  Binary formats of \<^verbatim>\<open>kernel/src/process/binfmt.rs\<close>: the registry of handlers, the
  \<open>#!\<close> handler, the ELF handler, and the interpreter redirection loop of \<open>execve_with_args\<close> in
  \<^verbatim>\<open>kernel/src/syscall/impls.rs\<close>.

  What the \<open>xmas_elf\<close> crate parses is the parameter \<open>elf_new\<close>. The first bytes of a file
  and the resolution of symbolic links are parameters of the functions that use them. An inspection
  that panics (an addition that overflows) is \<open>None\<close>.
\<close>

unbundle bit_operations_syntax

section \<open>Data\<close>

definition PROBE_READ_LIMIT :: nat where "PROBE_READ_LIMIT = 2 * 1024"

record exec_request =
  er_path :: rstr
  er_argv :: "rstr list"
  er_envp :: "rstr list"

definition from_path :: "rstr \<Rightarrow> exec_request" where
  "from_path path = \<lparr>er_path = path, er_argv = [path], er_envp = []\<rparr>"

definition PERM_READ :: u32 where "PERM_READ = 1"
definition PERM_WRITE :: u32 where "PERM_WRITE = 2"
definition PERM_EXECUTE :: u32 where "PERM_EXECUTE = 4"

record load_segment =
  virtual_address :: nat
  memory_size :: nat
  file_offset :: nat
  file_size :: nat
  seg_flags :: u32

record load_plan =
  plan_format :: rstr
  entry_point :: nat
  segments :: "load_segment list"
  phdr_addr :: nat
  phent_size :: nat
  phnum :: nat
  interpreter :: "rstr option"

datatype binary_format_action = Load load_plan | Redirect exec_request

datatype binfmt_error = AlreadyRegistered | HandlerNotFound | NotExecutableFormat | InvalidFormat | BinfmtIo int

type_synonym inspect_result = "(binfmt_error + binary_format_action option) option"

record handler =
  h_name :: rstr
  h_inspect :: "exec_request \<Rightarrow> u8 list \<Rightarrow> inspect_result"

section \<open>The registry\<close>

type_synonym handler_registry = "handler list"

definition register :: "handler_registry \<Rightarrow> handler \<Rightarrow> binfmt_error + handler_registry" where
  "register hs h =
     (if \<exists>x \<in> set hs. h_name x = h_name h then Inl AlreadyRegistered else Inr (hs @ [h]))"

definition unregister :: "handler_registry \<Rightarrow> rstr \<Rightarrow> binfmt_error + handler_registry" where
  "unregister hs name =
     (case position (\<lambda>h. h_name h = name) hs of
        None \<Rightarrow> Inl HandlerNotFound
      | Some index \<Rightarrow> Inr (remove_nth index hs))"

definition SHEBANG :: rstr where "SHEBANG = lit ''shebang''"
definition ELF :: rstr where "ELF = lit ''elf''"

definition clear_dynamic :: "handler_registry \<Rightarrow> handler_registry" where
  "clear_dynamic hs = filter (\<lambda>h. h_name h = ELF \<or> h_name h = SHEBANG) hs"

section \<open>Scripts\<close>

text \<open>\<open>35\<close>, \<open>33\<close> and \<open>10\<close> are the bytes of \<open>#\<close>, \<open>!\<close> and the newline.\<close>

definition shebang_inspect :: "exec_request \<Rightarrow> u8 list \<Rightarrow> inspect_result" where
  "shebang_inspect request data =
     Some (if length data < 2 \<or> data ! 0 \<noteq> 35 \<or> data ! 1 \<noteq> 33 then Inr None
       else let line_end = (case position (\<lambda>b. b = 10) data of None \<Rightarrow> length data | Some i \<Rightarrow> i)
            in case from_utf8 (drop 2 (take line_end data)) of
                 None \<Rightarrow> Inl InvalidFormat
               | Some text \<Rightarrow>
                   (let line = str_trim text
                    in if line = [] then Inl InvalidFormat
                       else case split_whitespace line of
                              [] \<Rightarrow> Inl InvalidFormat
                            | interp # parts \<Rightarrow>
                                Inr (Some (Redirect \<lparr>er_path = interp,
                                  er_argv = [interp] @ (case parts of [] \<Rightarrow> [] | arg # _ \<Rightarrow> [arg]) @ [er_path request]
                                            @ (if length (er_argv request) > 1 then drop 1 (er_argv request) else []),
                                  er_envp = er_envp request\<rparr>))))"

section \<open>ELF files\<close>

text \<open>What the crate reads: the fields of the header and of the program headers. The data of an
  interpreter header is an error (\<open>None\<close>), plain bytes, or another kind of data (\<open>Some None\<close>).\<close>

datatype program_type = PtLoad | PtInterp | PtPhdr | PtOther

record program_header =
  ph_type :: "program_type option"
  ph_virtual_addr :: nat
  ph_mem_size :: nat
  ph_file_off :: nat
  ph_file_size :: nat
  ph_read :: bool
  ph_write :: bool
  ph_execute :: bool
  ph_data :: "u8 list option option"

record elf_file =
  elf_ph_offset :: nat
  elf_ph_entry_size :: nat
  elf_ph_count :: nat
  elf_entry_point :: nat
  elf_headers :: "program_header list"

definition permissions_from_program_header :: "program_header \<Rightarrow> u32" where
  "permissions_from_program_header ph =
     (if ph_read ph then PERM_READ else 0) OR (if ph_write ph then PERM_WRITE else 0)
       OR (if ph_execute ph then PERM_EXECUTE else 0)"

record elf_scan =
  es_segments :: "load_segment list"
  es_interpreter :: "rstr option"
  es_phdr :: "nat option"

fun scan_headers :: "program_header list \<Rightarrow> elf_scan \<Rightarrow> binfmt_error + elf_scan" where
  "scan_headers [] acc = Inr acc"
| "scan_headers (ph # rest) acc =
     (case ph_type ph of
        Some PtLoad \<Rightarrow>
          scan_headers rest (acc\<lparr>es_segments := es_segments acc @
            [\<lparr>virtual_address = ph_virtual_addr ph, memory_size = ph_mem_size ph, file_offset = ph_file_off ph,
              file_size = ph_file_size ph, seg_flags = permissions_from_program_header ph\<rparr>]\<rparr>)
      | Some PtInterp \<Rightarrow>
          (case ph_data ph of
             None \<Rightarrow> Inl InvalidFormat
           | Some (Some bytes) \<Rightarrow>
               scan_headers rest (acc\<lparr>es_interpreter := map_option (trim_end (\<lambda>c. c = 0)) (from_utf8 bytes)\<rparr>)
           | Some None \<Rightarrow> scan_headers rest (acc\<lparr>es_interpreter := None\<rparr>))
      | Some PtPhdr \<Rightarrow> scan_headers rest (acc\<lparr>es_phdr := Some (ph_virtual_addr ph)\<rparr>)
      | _ \<Rightarrow> scan_headers rest acc)"

text \<open>The second loop: the address of the program headers from the segment that holds them. The
  result is \<open>None\<close> when the addition overflows.\<close>

fun find_phdr :: "nat \<Rightarrow> program_header list \<Rightarrow> nat option option" where
  "find_phdr ph_offset [] = Some None"
| "find_phdr ph_offset (ph # rest) =
     (if ph_type ph \<noteq> Some PtLoad then find_phdr ph_offset rest
      else let seg_file_end = min (ph_file_off ph + ph_file_size ph) (2 ^ 64 - 1)
           in if ph_file_off ph \<le> ph_offset \<and> ph_offset < seg_file_end
              then (let a = ph_virtual_addr ph + (ph_offset - ph_file_off ph) in if a < 2 ^ 64 then Some (Some a) else None)
              else find_phdr ph_offset rest)"

definition elf_inspect :: "(u8 list \<Rightarrow> elf_file option) \<Rightarrow> exec_request \<Rightarrow> u8 list \<Rightarrow> inspect_result" where
  "elf_inspect elf_new request data =
     (case elf_new data of
        None \<Rightarrow> Some (Inr None)
      | Some elf \<Rightarrow>
          if elf_ph_entry_size elf = 0 \<and> elf_ph_count elf > 0 then Some (Inl InvalidFormat)
          else let ph_table_size = elf_ph_entry_size elf * elf_ph_count elf;
                   ph_end = elf_ph_offset elf + ph_table_size
               in if ph_table_size \<ge> 2 ^ 64 \<or> ph_end \<ge> 2 ^ 64 then Some (Inl InvalidFormat)
                  else if ph_end > length data then Some (Inl InvalidFormat)
                  else case scan_headers (elf_headers elf) \<lparr>es_segments = [], es_interpreter = None, es_phdr = None\<rparr> of
                         Inl e \<Rightarrow> Some (Inl e)
                       | Inr acc \<Rightarrow>
                           (case (if es_phdr acc = None then find_phdr (elf_ph_offset elf) (elf_headers elf) else Some (es_phdr acc)) of
                              None \<Rightarrow> None
                            | Some phdr \<Rightarrow>
                                Some (Inr (Some (Load \<lparr>plan_format = ELF, entry_point = elf_entry_point elf,
                                  segments = es_segments acc, phdr_addr = (case phdr of None \<Rightarrow> 0 | Some a \<Rightarrow> a),
                                  phent_size = elf_ph_entry_size elf, phnum = elf_ph_count elf,
                                  interpreter = es_interpreter acc\<rparr>)))))"

definition binfmt_init :: "(u8 list \<Rightarrow> elf_file option) \<Rightarrow> handler_registry" where
  "binfmt_init elf_new =
     (let r1 = (case register [] \<lparr>h_name = SHEBANG, h_inspect = shebang_inspect\<rparr> of Inl _ \<Rightarrow> [] | Inr hs \<Rightarrow> hs)
      in case register r1 \<lparr>h_name = ELF, h_inspect = elf_inspect elf_new\<rparr> of Inl _ \<Rightarrow> r1 | Inr hs \<Rightarrow> hs)"

section \<open>Probing a file\<close>

fun probe_handlers :: "handler_registry \<Rightarrow> exec_request \<Rightarrow> u8 list \<Rightarrow> (binfmt_error + binary_format_action) option" where
  "probe_handlers [] request bytes = Some (Inl NotExecutableFormat)"
| "probe_handlers (h # hs) request bytes =
     (case h_inspect h request bytes of
        None \<Rightarrow> None
      | Some (Inl e) \<Rightarrow> Some (Inl e)
      | Some (Inr (Some action)) \<Rightarrow> Some (Inr action)
      | Some (Inr None) \<Rightarrow> probe_handlers hs request bytes)"

text \<open>\<open>head path n\<close> opens the file, reads at most \<open>n\<close> bytes and closes it.\<close>

definition probe_path ::
    "(rstr \<Rightarrow> nat \<Rightarrow> int + u8 list) \<Rightarrow> handler_registry \<Rightarrow> exec_request \<Rightarrow> (binfmt_error + binary_format_action) option" where
  "probe_path head hs request =
     (case head (er_path request) PROBE_READ_LIMIT of
        Inl errno \<Rightarrow> Some (Inl (BinfmtIo errno))
      | Inr bytes \<Rightarrow> probe_handlers hs request bytes)"

section \<open>Interpreter redirection\<close>

definition MAX_INTERPRETER_REDIRECTS :: nat where "MAX_INTERPRETER_REDIRECTS = 4"

fun exec_errno :: "binfmt_error \<Rightarrow> int" where
  "exec_errno (BinfmtIo errno) = errno"
| "exec_errno NotExecutableFormat = -8"
| "exec_errno AlreadyRegistered = -38"
| "exec_errno HandlerNotFound = -38"
| "exec_errno InvalidFormat = -8"

text \<open>The loop of \<open>execve_with_args\<close> up to the load plan, with the number of files that are
  probed: \<open>None\<close> for a panic, else an error number or the plan and the request that loads it.\<close>

function exec_redirect ::
    "(exec_request \<Rightarrow> (binfmt_error + binary_format_action) option) \<Rightarrow> (rstr \<Rightarrow> rstr option) \<Rightarrow> nat \<Rightarrow> exec_request
      \<Rightarrow> (int + load_plan \<times> exec_request) option \<times> nat" where
  "exec_redirect probe resolve redirects request =
     (case probe request of
        None \<Rightarrow> (None, 1)
      | Some (Inl e) \<Rightarrow> (Some (Inl (exec_errno e)), 1)
      | Some (Inr (Load plan)) \<Rightarrow>
          (if interpreter plan \<noteq> None then (Some (Inl (-8)), 1) else (Some (Inr (plan, request)), 1))
      | Some (Inr (Redirect next_request)) \<Rightarrow>
          (if MAX_INTERPRETER_REDIRECTS \<le> redirects then (Some (Inl (-40)), 1)
           else let resolved = (case resolve (er_path next_request) of None \<Rightarrow> er_path next_request | Some p \<Rightarrow> p);
                    (r, n) = exec_redirect probe resolve (redirects + 1) (next_request\<lparr>er_path := resolved\<rparr>)
                in (r, Suc n)))"
  by pat_completeness auto
termination
  by (relation "measure (\<lambda>(_, _, redirects, _). MAX_INTERPRETER_REDIRECTS - redirects)") auto

section \<open>Properties\<close>

declare exec_redirect.simps [simp del]

lemma register_names:
  "register hs h = Inr hs' \<Longrightarrow> distinct (map h_name hs) \<Longrightarrow> distinct (map h_name hs') \<and> set hs' = insert h (set hs)"
  by (fastforce simp: register_def split: if_splits)

lemma unregister_names:
  "unregister hs n = Inr hs' \<Longrightarrow> distinct (map h_name hs)
    \<Longrightarrow> distinct (map h_name hs') \<and> n \<notin> h_name ` set hs' \<and> (\<forall>h \<in> set hs. h_name h \<noteq> n \<longrightarrow> h \<in> set hs')"
proof -
  assume u: "unregister hs n = Inr hs'" and d: "distinct (map h_name hs)"
  then obtain i where i: "position (\<lambda>h. h_name h = n) hs = Some i" "hs' = remove_nth i hs"
    by (auto simp: unregister_def simp del: position_None split: option.splits)
  then have "i < length hs" "h_name (hs ! i) = n" by (auto simp: position_Some)
  with d have "set hs' = {h \<in> set hs. h_name h \<noteq> n}"
    unfolding i(2) using set_remove_nth_distinct [of i hs h_name] by simp
  moreover have "distinct (map h_name hs')"
    unfolding i(2) map_remove_nth using d by (rule distinct_remove_nth)
  ultimately show ?thesis by auto
qed

lemma binfmt_init_handlers:
  "binfmt_init elf_new = [\<lparr>h_name = SHEBANG, h_inspect = shebang_inspect\<rparr>, \<lparr>h_name = ELF, h_inspect = elf_inspect elf_new\<rparr>]"
  by (simp add: binfmt_init_def register_def SHEBANG_def ELF_def lit_def)

lemma shebang_redirects:
  assumes "shebang_inspect req data = Some (Inr (Some action))"
  shows "\<exists>nx pre. action = Redirect nx \<and> pre \<noteq> []
     \<and> er_argv nx = pre @ er_path req # drop 1 (er_argv req) \<and> er_envp nx = er_envp req"
proof -
  define line_end where "line_end = (case position (\<lambda>b. b = 10) data of None \<Rightarrow> length data | Some i \<Rightarrow> i)"
  from assms obtain line interp parts where
    t: "from_utf8 (drop 2 (take line_end data)) = Some line" "split_whitespace (str_trim line) = interp # parts"
      "\<not> (length data < 2 \<or> data ! 0 \<noteq> 35 \<or> data ! 1 \<noteq> 33)" "str_trim line \<noteq> []"
    unfolding shebang_inspect_def Let_def line_end_def [symmetric]
    by (cases "from_utf8 (drop 2 (take line_end data))"; cases "split_whitespace (str_trim (the (from_utf8 (drop 2 (take line_end data)))))")
      (simp_all split: if_splits)
  with assms have "action = Redirect \<lparr>er_path = interp, er_argv = [interp] @ (case parts of [] \<Rightarrow> [] | arg # _ \<Rightarrow> [arg]) @ [er_path req]
       @ (if length (er_argv req) > 1 then drop 1 (er_argv req) else []), er_envp = er_envp req\<rparr>"
    unfolding shebang_inspect_def Let_def line_end_def [symmetric] by simp
  then show ?thesis
    by (intro exI [of _ "interp # (case parts of [] \<Rightarrow> [] | arg # _ \<Rightarrow> [arg])"] exI conjI, assumption) auto
qed

lemma elf_never_redirects: "elf_inspect elf_new req data \<noteq> Some (Inr (Some (Redirect next)))"
  by (auto simp: elf_inspect_def Let_def split: option.splits sum.splits)

lemma builtin_redirect:
  assumes "probe_path head (binfmt_init elf_new) req = Some (Inr (Redirect next))"
  shows "\<exists>pre. pre \<noteq> [] \<and> er_argv next = pre @ er_path req # drop 1 (er_argv req) \<and> er_envp next = er_envp req"
proof -
  from assms obtain bytes where "shebang_inspect req bytes = Some (Inr (Some (Redirect next)))"
    using elf_never_redirects
    by (auto simp: probe_path_def binfmt_init_handlers split: sum.splits option.splits)
  from shebang_redirects [OF this] show ?thesis by auto
qed

lemma exec_redirect_stop:
  assumes "exec_redirect p resolve redirects req = (r, n)"
    and "\<not> (\<exists>nx. p req = Some (Inr (Redirect nx)) \<and> redirects < MAX_INTERPRETER_REDIRECTS)"
  shows "n = 1 \<and> (\<forall>plan req'. r = Some (Inr (plan, req')) \<longrightarrow> interpreter plan = None \<and> req' = req)"
  using assms(1) unfolding exec_redirect.simps [of p resolve redirects req]
proof (cases "p req")
  case (Some x)
  with assms show ?thesis unfolding exec_redirect.simps [of p resolve redirects req]
    by (cases x; cases "projr x") (auto split: if_splits)
qed auto

lemma exec_redirect_step:
  assumes "p req = Some (Inr (Redirect nx))" "redirects < MAX_INTERPRETER_REDIRECTS"
    and "exec_redirect p resolve (redirects + 1) (nx\<lparr>er_path := (case resolve (er_path nx) of None \<Rightarrow> er_path nx | Some p \<Rightarrow> p)\<rparr>) = (r, n)"
  shows "exec_redirect p resolve redirects req = (r, Suc n)"
  using assms by (simp add: exec_redirect.simps [of p resolve redirects req] Let_def)

lemma exec_redirect_run:
  assumes "exec_redirect (probe_path head (binfmt_init elf_new)) resolve redirects req = (r, n)"
  shows "1 \<le> n \<and> n \<le> Suc (MAX_INTERPRETER_REDIRECTS - redirects)
    \<and> (\<forall>plan req'. r = Some (Inr (plan, req')) \<longrightarrow> interpreter plan = None \<and> er_envp req' = er_envp req
         \<and> (if n = 1 then req' = req else suffix (er_path req # drop 1 (er_argv req)) (er_argv req')))"
  using assms
proof (induction redirects arbitrary: req r n rule: measure_induct_rule [of "\<lambda>k. MAX_INTERPRETER_REDIRECTS - k"])
  case (less redirects)
  let ?p = "probe_path head (binfmt_init elf_new)"
  show ?case
  proof (cases "\<exists>next. ?p req = Some (Inr (Redirect next)) \<and> redirects < MAX_INTERPRETER_REDIRECTS")
    case False
    with exec_redirect_stop [OF less.prems] show ?thesis by simp
  next
    case True
    then obtain nx where nx: "?p req = Some (Inr (Redirect nx))" "redirects < MAX_INTERPRETER_REDIRECTS" by blast
    define req1 where "req1 = nx\<lparr>er_path := (case resolve (er_path nx) of None \<Rightarrow> er_path nx | Some p \<Rightarrow> p)\<rparr>"
    obtain r1 n1 where s: "exec_redirect ?p resolve (redirects + 1) req1 = (r1, n1)" by fastforce
    from exec_redirect_step [of ?p, OF nx s [unfolded req1_def]] less.prems have r: "r = r1" "n = Suc n1" by simp_all
    from builtin_redirect [OF nx(1)] obtain pre where pre: "pre \<noteq> []" "er_envp req1 = er_envp req"
      "er_argv req1 = pre @ er_path req # drop 1 (er_argv req)" by (auto simp: req1_def)
    have "suffix (er_path req # drop 1 (er_argv req)) (drop 1 (er_argv req1))"
      unfolding pre(3) using pre(1) by (cases pre) (auto simp: suffix_def)
    moreover have "suffix (drop 1 (er_argv req1)) (er_argv req')"
      if "if n1 = 1 then req' = req1 else suffix (er_path req1 # drop 1 (er_argv req1)) (er_argv req')" for req'
      using that suffix_drop [of 1 "er_argv req1"] suffix_ConsD [of "er_path req1" "drop 1 (er_argv req1)" "er_argv req'"]
      by (cases "n1 = 1") simp_all
    ultimately have suf: "suffix (er_path req # drop 1 (er_argv req)) (er_argv req')"
      if "if n1 = 1 then req' = req1 else suffix (er_path req1 # drop 1 (er_argv req1)) (er_argv req')" for req'
      using that suffix_order.trans by blast
    from less.IH [OF _ s] nx(2) have IH: "1 \<le> n1" "n1 \<le> Suc (MAX_INTERPRETER_REDIRECTS - (redirects + 1))"
      "\<And>plan req'. r1 = Some (Inr (plan, req')) \<Longrightarrow> interpreter plan = None \<and> er_envp req' = er_envp req1
         \<and> (if n1 = 1 then req' = req1 else suffix (er_path req1 # drop 1 (er_argv req1)) (er_argv req'))" by auto
    show ?thesis
    proof (intro conjI allI impI)
      fix plan req' assume "r = Some (Inr (plan, req'))"
      with r have "r1 = Some (Inr (plan, req'))" by simp
      from IH(3) [OF this] have
        *: "interpreter plan = None" "er_envp req' = er_envp req"
          "if n1 = 1 then req' = req1 else suffix (er_path req1 # drop 1 (er_argv req1)) (er_argv req')"
        unfolding pre(2) by blast+
      from * show "interpreter plan = None" "er_envp req' = er_envp req" by simp_all
      from suf [OF *(3)] IH(1) r show "if n = 1 then req' = req else suffix (er_path req # drop 1 (er_argv req)) (er_argv req')" by simp
    qed (use IH(1,2) r nx(2) in auto)
  qed
qed

text \<open>C29: Interpreter redirection with the built-in handlers: whatever the files contain, at most five
  files are probed; a successful resolution yields a plan without an interpreter, keeps the environment, and the
  arguments of the script are passed on: after a redirection the final argument vector ends with the
  path of the script followed by its own arguments.\<close>

theorem exec_redirect_bounded:
  "case exec_redirect (probe_path head (binfmt_init elf_new)) resolve 0 req of
     (r, n) \<Rightarrow> n \<le> 5 \<and> (\<forall>plan req'. r = Some (Inr (plan, req')) \<longrightarrow>
        interpreter plan = None \<and> er_envp req' = er_envp req
        \<and> (if n = 1 then req' = req else suffix (er_path req # drop 1 (er_argv req)) (er_argv req')))"
proof -
  obtain r n where e: "exec_redirect (probe_path head (binfmt_init elf_new)) resolve 0 req = (r, n)" by fastforce
  note run = exec_redirect_run [OF e]
  then have "n \<le> Suc (MAX_INTERPRETER_REDIRECTS - 0)" by blast
  then have "n \<le> 5" by (simp add: MAX_INTERPRETER_REDIRECTS_def)
  with run show ?thesis unfolding e prod.case by blast
qed

text \<open>A script \<open>s\<close> with the first line \<open>#!i x\<close>, and the program \<open>i\<close>.\<close>

definition demo_head :: "rstr \<Rightarrow> nat \<Rightarrow> int + u8 list" where
  "demo_head p n = (if p = [115] then Inr [35, 33, 105, 32, 120, 10] else if p = [105] then Inr [127] else Inl (-2))"

definition demo_elf :: "u8 list \<Rightarrow> elf_file option" where
  "demo_elf b = (if b = [127] then Some \<lparr>elf_ph_offset = 0, elf_ph_entry_size = 0, elf_ph_count = 0,
     elf_entry_point = 64, elf_headers = []\<rparr> else None)"

definition demo_plan :: load_plan where
  "demo_plan = \<lparr>plan_format = ELF, entry_point = 64, segments = [], phdr_addr = 0, phent_size = 0, phnum = 0, interpreter = None\<rparr>"

lemmas demo_exec_defs = demo_head_def demo_elf_def demo_plan_def binfmt_init_handlers probe_path_def shebang_inspect_def
  elf_inspect_def from_utf8_def str_trim_def trim_start_def trim_end_def is_whitespace_def split_whitespace_def

lemma demo_probe_script:
  "probe_path demo_head (binfmt_init demo_elf) \<lparr>er_path = [115], er_argv = [[115], [97]], er_envp = []\<rparr>
   = Some (Inr (Redirect \<lparr>er_path = [105], er_argv = [[105], [120], [115], [97]], er_envp = []\<rparr>))"
  by (simp add: demo_exec_defs)

lemma demo_probe_program:
  "probe_path demo_head (binfmt_init demo_elf) \<lparr>er_path = [105], er_argv = as, er_envp = []\<rparr> = Some (Inr (Load demo_plan))"
  by (simp add: demo_exec_defs)

theorem exec_redirect_bounded_witness:
  "exec_redirect (probe_path demo_head (binfmt_init demo_elf)) (\<lambda>_. None) 0 \<lparr>er_path = [115], er_argv = [[115], [97]], er_envp = []\<rparr>
     = (Some (Inr (demo_plan, \<lparr>er_path = [105], er_argv = [[105], [120], [115], [97]], er_envp = []\<rparr>)), 2)
   \<and> suffix [[115], [97]] [[105], [120], [115], [97 :: nat]]"
proof -
  have "exec_redirect (probe_path demo_head (binfmt_init demo_elf)) (\<lambda>_. None) 0 \<lparr>er_path = [115], er_argv = [[115], [97]], er_envp = []\<rparr>
     = (Some (Inr (demo_plan, \<lparr>er_path = [105], er_argv = [[105], [120], [115], [97]], er_envp = []\<rparr>)), Suc 1)"
    by (rule exec_redirect_step [where p = "probe_path demo_head (binfmt_init demo_elf)", OF demo_probe_script])
      (simp_all add: MAX_INTERPRETER_REDIRECTS_def demo_probe_program demo_plan_def exec_redirect.simps
        [of _ _ _ "\<lparr>er_path = [105], er_argv = [[105], [120], [115], [97]], er_envp = []\<rparr>"])
  with exec_redirect_bounded [where head = demo_head and elf_new = demo_elf and resolve = "\<lambda>_. None" and req = "\<lparr>er_path = [115], er_argv = [[115], [97]], er_envp = []\<rparr>"]
  show ?thesis by simp
qed

end
