(* ===== verification/Le_Bytes.thy ===== *)
theory Le_Bytes
  imports Prelude
begin

text \<open>
  Machine words as little-endian byte lists: \<open>to_ne_bytes\<close>, \<open>to_le_bytes\<close>, \<open>from_ne_bytes\<close>
  and \<open>from_le_bytes\<close> of the integer types.
\<close>

unbundle bit_operations_syntax

fun le_word :: "u8 list \<Rightarrow> 'n::len word" where
  "le_word [] = 0"
| "le_word (b # bs) = ucast b OR push_bit 8 (le_word bs)"

definition le_bytes :: "nat \<Rightarrow> 'n::len word \<Rightarrow> u8 list" where
  "le_bytes n w = map (\<lambda>i. ucast (drop_bit (8 * i) w)) [0..<n]"

lemma length_le_bytes [simp]: "length (le_bytes n w) = n"
  by (simp add: le_bytes_def)

lemma bit_le_word:
  "bit (le_word bs :: 'n::len word) k \<longleftrightarrow> k < LENGTH('n) \<and> k div 8 < length bs \<and> bit (bs ! (k div 8)) (k mod 8)"
proof (induction bs arbitrary: k)
  case (Cons b bs)
  show ?case
  proof (cases "k < 8")
    case True
    then show ?thesis by (auto simp: bit_simps)
  next
    case False
    then obtain j where j: "k = j + 8" by (metis add.commute le_Suc_ex not_less)
    have "(j + 8) div 8 = Suc (j div 8)" by simp
    with j show ?thesis using Cons [of j] by (auto simp: bit_simps dest: bit_imp_le_length)
  qed
qed simp

lemma le_word_bytes:
  assumes "LENGTH('n) \<le> 8 * n" shows "le_word (le_bytes n w) = (w :: 'n::len word)"
proof (rule bit_word_eqI)
  fix k assume k: "k < LENGTH('n)"
  have e: "8 * (k div 8) + k mod 8 = k" by simp
  from k assms have "k div 8 < n" by (simp add: div_less_iff_less_mult)
  then have "bit (le_bytes n w ! (k div 8)) (k mod 8) \<longleftrightarrow> bit w (8 * (k div 8) + k mod 8)"
    by (simp add: le_bytes_def bit_simps)
  with k \<open>k div 8 < n\<close> show "bit (le_word (le_bytes n w) :: 'n word) k \<longleftrightarrow> bit w k"
    unfolding bit_le_word e by simp
qed

lemma le_bytes_word:
  assumes "length bs = n" "8 * n \<le> LENGTH('n)" shows "le_bytes n (le_word bs :: 'n::len word) = bs"
proof (rule nth_equalityI)
  fix i assume i: "i < length (le_bytes n (le_word bs :: 'n word))"
  show "le_bytes n (le_word bs :: 'n word) ! i = bs ! i"
  proof (rule bit_word_eqI)
    fix k assume "k < LENGTH(8)"
    with i assms show "bit (le_bytes n (le_word bs :: 'n word) ! i) k \<longleftrightarrow> bit (bs ! i) k"
      by (auto simp: le_bytes_def bit_simps bit_le_word)
  qed
qed (use assms in simp)

end
