(* ===== verification/Address_Space.thy ===== *)
theory Address_Space
  imports Frame_Alloc User_Paging Binfmt Le_Bytes
begin

text \<open>
  Address spaces of \<^verbatim>\<open>kernel/src/mm/address_space.rs\<close>: a root page table, the list of user
  mappings and the page tables that belong to this address space alone.

  The machine state holds the frame allocator and the bytes of physical memory. The kernel reaches
  physical memory through the direct mapping at \<open>phys_offset\<close>; the model accesses the bytes by
  physical address. The page-table entries and the mapper of the \<open>x86_64\<close> crate are the
  parameters \<open>paging_crate\<close>; what the kernel relies on is \<open>crate_ok\<close>. Addresses are natural
  numbers below \<open>2 ^ 64\<close>.
\<close>

unbundle bit_operations_syntax

section \<open>Machine state\<close>

text \<open>\<open>m_answers\<close> says for every request to the allocator whether its reservation succeeds.\<close>

record machine =
  m_alloc :: global_allocator
  m_answers :: "nat \<Rightarrow> bool"
  m_asked :: nat
  pmem :: "nat \<Rightarrow> u8"
  phys_offset :: "nat option"
  kernel_root_frame :: "nat option"

definition new_frame :: "machine \<Rightarrow> nat option \<times> machine" where
  "new_frame m =
     (let (r, g) = mm_allocate_frame (m_answers m (m_asked m)) (m_alloc m)
      in (r, m\<lparr>m_alloc := g, m_asked := m_asked m + 1\<rparr>))"

definition release_frame :: "machine \<Rightarrow> nat \<Rightarrow> machine" where
  "release_frame m f = m\<lparr>m_alloc := mm_deallocate_frame (m_alloc m) f\<rparr>"

datatype mm_error = OutOfFrames | MapFailed | InvalidAddress | IoFailed

section \<open>Frame contents\<close>

definition in_frame :: "nat \<Rightarrow> nat \<Rightarrow> bool" where
  "in_frame f a \<longleftrightarrow> f \<le> a \<and> a < f + frame_size"

definition zero_frame :: "machine \<Rightarrow> nat \<Rightarrow> machine" where
  "zero_frame m f =
     (case phys_offset m of
        None \<Rightarrow> m
      | Some _ \<Rightarrow> m\<lparr>pmem := \<lambda>a. if in_frame f a then 0 else pmem m a\<rparr>)"

definition copy_bytes :: "machine \<Rightarrow> nat \<Rightarrow> nat \<Rightarrow> nat \<Rightarrow> machine" where
  "copy_bytes m src dst n =
     m\<lparr>pmem := \<lambda>a. if dst \<le> a \<and> a < dst + n then pmem m (src + (a - dst)) else pmem m a\<rparr>"

definition copy_frame_contents :: "machine \<Rightarrow> nat \<Rightarrow> nat \<Rightarrow> mm_error + machine" where
  "copy_frame_contents m src dst =
     (case phys_offset m of
        None \<Rightarrow> Inl InvalidAddress
      | Some _ \<Rightarrow> Inr (copy_bytes m src dst frame_size))"

definition copy_kernel_root_entries :: "machine \<Rightarrow> nat \<Rightarrow> nat \<Rightarrow> machine" where
  "copy_kernel_root_entries m dst kroot = copy_bytes m kroot dst (512 * 8)"

definition write_frame_bytes :: "machine \<Rightarrow> nat \<Rightarrow> nat \<Rightarrow> u8 list \<Rightarrow> mm_error + machine" where
  "write_frame_bytes m f offset bytes =
     (case phys_offset m of
        None \<Rightarrow> Inl InvalidAddress
      | Some _ \<Rightarrow> Inr (m\<lparr>pmem := \<lambda>a. if f + offset \<le> a \<and> a < f + offset + length bytes
                                    then bytes ! (a - (f + offset)) else pmem m a\<rparr>))"

text \<open>The entry \<open>i\<close> of the table in frame \<open>t\<close>: eight bytes, the least significant one first.\<close>

definition get_entry :: "machine \<Rightarrow> nat \<Rightarrow> nat \<Rightarrow> u64" where
  "get_entry m t i = le_word (map (\<lambda>k. pmem m (t + 8 * i + k)) [0..<8])"

definition set_entry :: "machine \<Rightarrow> nat \<Rightarrow> nat \<Rightarrow> u64 \<Rightarrow> machine" where
  "set_entry m t i e =
     m\<lparr>pmem := \<lambda>a. if t + 8 * i \<le> a \<and> a < t + 8 * i + 8
                   then le_bytes 8 e ! (a - (t + 8 * i)) else pmem m a\<rparr>"

section \<open>The page tables of the crate\<close>

text \<open>\<open>pc_frame\<close> is \<open>PageTableEntry::frame\<close>, \<open>pc_make f fl\<close> is the entry after
  \<open>set_frame\<close>. \<open>pc_map_to m root page frame flags parent_flags\<close> and \<open>pc_unmap m root page\<close> are
  the mapper of a root table; they answer whether they succeed.\<close>

record paging_crate =
  pc_unused :: "u64 \<Rightarrow> bool"
  pc_flags :: "u64 \<Rightarrow> u64"
  pc_frame :: "u64 \<Rightarrow> nat option"
  pc_make :: "nat \<Rightarrow> u64 \<Rightarrow> u64"
  pc_map_to :: "machine \<Rightarrow> nat \<Rightarrow> nat \<Rightarrow> nat \<Rightarrow> u64 \<Rightarrow> u64 \<Rightarrow> machine \<times> bool"
  pc_unmap :: "machine \<Rightarrow> nat \<Rightarrow> nat \<Rightarrow> machine \<times> bool"

definition WRITABLE :: u64 where "WRITABLE = 2"

definition p4_index :: "nat \<Rightarrow> nat" where "p4_index pg = pg div 2 ^ 39 mod 512"
definition p3_index :: "nat \<Rightarrow> nat" where "p3_index pg = pg div 2 ^ 30 mod 512"
definition p2_index :: "nat \<Rightarrow> nat" where "p2_index pg = pg div 2 ^ 21 mod 512"
definition p1_index :: "nat \<Rightarrow> nat" where "p1_index pg = pg div 2 ^ 12 mod 512"

section \<open>Address spaces\<close>

record mapping =
  mp_page :: nat
  mp_frame :: nat
  mp_flags :: u64

record address_space =
  root_frame :: nat
  mappings :: "mapping list"
  private_tables :: "nat list"

definition release_frames :: "machine \<Rightarrow> nat list \<Rightarrow> machine" where
  "release_frames m fs = foldl release_frame m fs"

definition space_drop :: "machine \<Rightarrow> address_space \<Rightarrow> machine" where
  "space_drop m s =
     release_frame (release_frames (release_frames m (map mp_frame (mappings s))) (private_tables s)) (root_frame s)"

definition space_kernel :: "machine \<Rightarrow> machine \<times> (mm_error + address_space)" where
  "space_kernel m =
     (case new_frame m of
        (None, m1) \<Rightarrow> (m1, Inl OutOfFrames)
      | (Some new_root, m1) \<Rightarrow>
          (let m2 = zero_frame m1 new_root
           in case phys_offset m2 of
                None \<Rightarrow> (m2, Inl InvalidAddress)
              | Some _ \<Rightarrow>
                  (case kernel_root_frame m2 of
                     None \<Rightarrow> (m2, Inl InvalidAddress)
                   | Some kroot \<Rightarrow>
                       (copy_kernel_root_entries m2 new_root kroot,
                        Inr \<lparr>root_frame = new_root, mappings = [], private_tables = []\<rparr>))))"

definition root_paddr :: "address_space \<Rightarrow> nat" where
  "root_paddr s = root_frame s"

definition space_clear :: "machine \<Rightarrow> address_space \<Rightarrow> machine \<times> address_space \<times> mm_error option" where
  "space_clear m s =
     (let s' = s\<lparr>mappings := []\<rparr>;
          m1 = zero_frame (release_frames m (map mp_frame (mappings s))) (root_frame s)
      in case phys_offset m1 of
           None \<Rightarrow> (m1, s', Some InvalidAddress)
         | Some _ \<Rightarrow>
             (case kernel_root_frame m1 of
                None \<Rightarrow> (m1, s', Some InvalidAddress)
              | Some kroot \<Rightarrow> (copy_kernel_root_entries m1 (root_frame s) kroot, s', None)))"

text \<open>The loop of \<open>make_user_path_private\<close> over the indices that are left.\<close>

fun private_path ::
    "paging_crate \<Rightarrow> machine \<Rightarrow> address_space \<Rightarrow> nat \<Rightarrow> nat list \<Rightarrow> machine \<times> address_space \<times> mm_error option" where
  "private_path pc m s table_frame [] = (m, s, None)"
| "private_path pc m s table_frame (index # rest) =
     (let entry = get_entry m table_frame index
      in if pc_flags pc entry AND HUGE \<noteq> 0 then (m, s, Some InvalidAddress)
         else if \<not> pc_unused pc entry \<and> pc_frame pc entry = None then (m, s, Some InvalidAddress)
         else let old = (if pc_unused pc entry then None else pc_frame pc entry)
              in if old \<noteq> None \<and> the old \<in> set (private_tables s)
                 then private_path pc m s (the old) rest
                 else case new_frame m of
                        (None, m1) \<Rightarrow> (m1, s, Some OutOfFrames)
                      | (Some private, m1) \<Rightarrow>
                          (let m2 = zero_frame m1 private
                           in case (case old of None \<Rightarrow> Inr m2 | Some f \<Rightarrow> copy_frame_contents m2 f private) of
                                Inl error \<Rightarrow> (release_frame m2 private, s, Some error)
                              | Inr m3 \<Rightarrow>
                                  let flags = pc_flags pc entry OR PRESENT OR WRITABLE OR USER;
                                      m4 = set_entry m3 table_frame index (pc_make pc private flags);
                                      s' = s\<lparr>private_tables := private_tables s @ [private]\<rparr>
                                  in private_path pc m4 s' private rest))"

definition make_user_path_private ::
    "paging_crate \<Rightarrow> machine \<Rightarrow> address_space \<Rightarrow> nat \<Rightarrow> machine \<times> address_space \<times> mm_error option" where
  "make_user_path_private pc m s page =
     (case phys_offset m of
        None \<Rightarrow> (m, s, Some InvalidAddress)
      | Some _ \<Rightarrow> private_path pc m s (root_frame s) [p4_index page, p3_index page, p2_index page])"

definition leaf_flags :: "u64 \<Rightarrow> u64" where
  "leaf_flags flags =
     (let fl = flags OR USER in if fl AND NO_ACCESS = 0 then fl OR PRESENT else fl)"

text \<open>The two attempts of the mapper: an old leaf is taken out before the second one.\<close>

definition map_leaf :: "paging_crate \<Rightarrow> machine \<Rightarrow> nat \<Rightarrow> nat \<Rightarrow> nat \<Rightarrow> u64 \<Rightarrow> machine \<times> bool" where
  "map_leaf pc m root page frame fl =
     (let parent_flags = PRESENT OR WRITABLE OR USER;
          (m1, ok) = pc_map_to pc m root page frame fl parent_flags
      in if ok then (m1, True)
         else let (m2, unmapped) = pc_unmap pc m1 root page
              in if unmapped then pc_map_to pc m2 root page frame fl parent_flags else (m2, False))"

definition map_page ::
    "paging_crate \<Rightarrow> machine \<Rightarrow> address_space \<Rightarrow> nat \<Rightarrow> u64 \<Rightarrow> machine \<times> address_space \<times> (mm_error + nat)" where
  "map_page pc m s page flags =
     (case make_user_path_private pc m s page of
        (m1, s1, Some e) \<Rightarrow> (m1, s1, Inl e)
      | (m1, s1, None) \<Rightarrow>
          (case new_frame m1 of
             (None, m2) \<Rightarrow> (m2, s1, Inl OutOfFrames)
           | (Some frame, m2) \<Rightarrow>
               (let m3 = zero_frame m2 frame; fl = leaf_flags flags
                in case m_alloc m3 of
                     None \<Rightarrow> (m3, s1, Inl OutOfFrames)
                   | Some _ \<Rightarrow>
                       (case map_leaf pc m3 (root_frame s1) page frame fl of
                          (m4, True) \<Rightarrow>
                            (m4, s1\<lparr>mappings := mappings s1 @ [\<lparr>mp_page = page, mp_frame = frame, mp_flags = fl\<rparr>]\<rparr>,
                             Inr frame)
                        | (m4, False) \<Rightarrow> (release_frame m4 frame, s1, Inl MapFailed)))))"

text \<open>\<open>clone_for_fork\<close>: on an error the half-built address space is dropped.\<close>

fun clone_mappings ::
    "paging_crate \<Rightarrow> machine \<Rightarrow> address_space \<Rightarrow> mapping list \<Rightarrow> machine \<times> (mm_error + address_space)" where
  "clone_mappings pc m cloned [] = (m, Inr cloned)"
| "clone_mappings pc m cloned (mp # rest) =
     (case map_page pc m cloned (mp_page mp) (mp_flags mp) of
        (m1, c1, Inl e) \<Rightarrow> (space_drop m1 c1, Inl e)
      | (m1, c1, Inr frame) \<Rightarrow>
          (case copy_frame_contents m1 (mp_frame mp) frame of
             Inl e \<Rightarrow> (space_drop m1 c1, Inl e)
           | Inr m2 \<Rightarrow> clone_mappings pc m2 c1 rest))"

definition clone_for_fork ::
    "paging_crate \<Rightarrow> machine \<Rightarrow> address_space \<Rightarrow> machine \<times> (mm_error + address_space)" where
  "clone_for_fork pc m s =
     (case space_kernel m of
        (m1, Inl e) \<Rightarrow> (m1, Inl e)
      | (m1, Inr cloned) \<Rightarrow> clone_mappings pc m1 cloned (mappings s))"

text \<open>\<open>VirtAddr::new\<close> panics on an address that is not canonical.\<close>

definition canonical :: "nat \<Rightarrow> bool" where
  "canonical a \<longleftrightarrow> a < 2 ^ 47 \<or> 2 ^ 64 - 2 ^ 47 \<le> a \<and> a < 2 ^ 64"

definition space_write_bytes :: "machine \<Rightarrow> address_space \<Rightarrow> nat \<Rightarrow> u8 list \<Rightarrow> (mm_error + machine) option" where
  "space_write_bytes m s vaddr bytes =
     (if \<not> canonical vaddr then None
      else let page = vaddr div frame_size * frame_size
           in Some (case List.find (\<lambda>mp. mp_page mp = page) (mappings s) of
                      None \<Rightarrow> Inl InvalidAddress
                    | Some mp \<Rightarrow> write_frame_bytes m (mp_frame mp) (vaddr - page) bytes))"

definition space_mappings :: "address_space \<Rightarrow> (nat \<times> nat \<times> u64) list" where
  "space_mappings s = map (\<lambda>mp. (mp_page mp, mp_frame mp, mp_flags mp)) (mappings s)"

section \<open>Segments and zeroed regions\<close>

definition page_flags_from_segment :: "u32 \<Rightarrow> u64" where
  "page_flags_from_segment flags =
     (if flags AND PERM_WRITE = PERM_WRITE then PRESENT OR USER OR WRITABLE else PRESENT OR USER)"

text \<open>The buffer of one page: zeros with the file bytes at their offset.\<close>

definition page_buffer :: "nat \<Rightarrow> u8 list \<Rightarrow> u8 list" where
  "page_buffer offset bytes =
     replicate offset 0 @ bytes @ replicate (frame_size - (offset + length bytes)) 0"

text \<open>\<open>read_chunk offset n\<close> is an error or the bytes that were read. A panic is \<open>None\<close>.\<close>

function map_segment_loop ::
    "paging_crate \<Rightarrow> (nat \<Rightarrow> nat \<Rightarrow> mm_error + u8 list) \<Rightarrow> load_segment \<Rightarrow> nat \<Rightarrow> machine \<Rightarrow> address_space \<Rightarrow> nat
      \<Rightarrow> (machine \<times> address_space \<times> mm_error option) option" where
  "map_segment_loop pc read_chunk seg end_addr m s cursor =
     (if \<not> cursor < end_addr then Some (m, s, None)
      else if \<not> canonical cursor then None
      else let page = cursor div frame_size * frame_size
           in case map_page pc m s page (page_flags_from_segment (seg_flags seg)) of
                (m1, s1, Inl e) \<Rightarrow> Some (m1, s1, Some e)
              | (m1, s1, Inr frame) \<Rightarrow>
                  (let page_offset = cursor - page;
                       chunk_len = min (frame_size - page_offset) (end_addr - cursor);
                       file_off = min (cursor - virtual_address seg) (file_size seg);
                       file_len = min chunk_len (file_size seg - file_off);
                       content = (if file_len > 0
                                  then (case read_chunk (min (file_offset seg + file_off) (2 ^ 64 - 1)) file_len of
                                          Inl e \<Rightarrow> Inl e
                                        | Inr bytes \<Rightarrow> if length bytes \<noteq> file_len then Inl IoFailed
                                                      else Inr (page_buffer page_offset bytes))
                                  else Inr (page_buffer 0 []))
                   in case content of
                        Inl e \<Rightarrow> Some (m1, s1, Some e)
                      | Inr buf \<Rightarrow>
                          (case write_frame_bytes m1 frame 0 buf of
                             Inl e \<Rightarrow> Some (m1, s1, Some e)
                           | Inr m2 \<Rightarrow> map_segment_loop pc read_chunk seg end_addr m2 s1 (cursor + chunk_len))))"
  by pat_completeness auto
termination
  by (relation "measure (\<lambda>(_, _, _, end_addr, _, _, cursor). end_addr - cursor)")
    (auto simp: Let_def min_def minus_div_mult_eq_mod diff_less_mono2)

definition map_segment ::
    "paging_crate \<Rightarrow> (nat \<Rightarrow> nat \<Rightarrow> mm_error + u8 list) \<Rightarrow> machine \<Rightarrow> address_space \<Rightarrow> load_segment
      \<Rightarrow> (machine \<times> address_space \<times> mm_error option) option" where
  "map_segment pc read_chunk m s seg =
     (let end_addr = virtual_address seg + memory_size seg
      in if end_addr \<ge> 2 ^ 64 then Some (m, s, Some InvalidAddress)
         else map_segment_loop pc read_chunk seg end_addr m s (virtual_address seg))"

text \<open>An overflow of the cursor is a panic as well.\<close>

function map_zeroed_loop ::
    "paging_crate \<Rightarrow> u64 \<Rightarrow> nat \<Rightarrow> machine \<Rightarrow> address_space \<Rightarrow> nat
      \<Rightarrow> (machine \<times> address_space \<times> mm_error option) option" where
  "map_zeroed_loop pc flags end_addr m s cursor =
     (if \<not> cursor < end_addr then Some (m, s, None)
      else if \<not> canonical cursor then None
      else let page = cursor div frame_size * frame_size
           in case map_page pc m s page flags of
                (m1, s1, Inl e) \<Rightarrow> Some (m1, s1, Some e)
              | (m1, s1, Inr _) \<Rightarrow>
                  if page + frame_size \<ge> 2 ^ 64 then None
                  else map_zeroed_loop pc flags end_addr m1 s1 (page + frame_size))"
  by pat_completeness auto
termination
proof (relation "measure (\<lambda>(_, _, end_addr, _, _, cursor). end_addr - cursor)", goal_cases)
  case (2 pc flags end_addr m s cursor page)
  have "cursor < cursor div frame_size * frame_size + frame_size"
    using dividend_less_div_times [of frame_size cursor] by simp
  with 2 show ?case by auto
qed auto

definition map_zeroed_region ::
    "paging_crate \<Rightarrow> machine \<Rightarrow> address_space \<Rightarrow> nat \<Rightarrow> nat \<Rightarrow> u64
      \<Rightarrow> (machine \<times> address_space \<times> (mm_error + nat)) option" where
  "map_zeroed_region pc m s start len flags =
     (let end_addr = start + len
      in if end_addr \<ge> 2 ^ 64 then Some (m, s, Inl InvalidAddress)
         else case map_zeroed_loop pc flags end_addr m s start of
                None \<Rightarrow> None
              | Some (m', s', Some e) \<Rightarrow> Some (m', s', Inl e)
              | Some (m', s', None) \<Rightarrow>
                  Some (m', s', Inr (if start < end_addr then start div frame_size * frame_size else start)))"

end
