(* ===== verification/Space_Inv.thy ===== *)
theory Space_Inv
  imports Address_Space
begin

text \<open>
  Ownership of frames by address spaces. The invariant: an address space owns its root table, the
  frames of its mappings and its private page tables, each once; the page tables form a tree whose
  inner nodes are private or belong to the kernel. Making a path private never writes to a table of
  the kernel or of another address space, a fork copies every page into a frame of its own, and
  dropping an address space returns exactly its frames.
\<close>

unbundle bit_operations_syntax

section \<open>Frames of memory\<close>

lemma in_frame_unique:
  assumes "f mod frame_size = 0" "g mod frame_size = 0" "in_frame f a" "in_frame g a" shows "f = g"
proof -
  have "a div frame_size * frame_size = f" if "f mod frame_size = 0" "in_frame f a" for f
  proof -
    from that(1) obtain k where k: "f = k * frame_size" by (metis mod_0_imp_dvd dvd_def mult.commute)
    with that(2) have "a div frame_size = k" by (intro div_nat_eqI) (auto simp: in_frame_def)
    with k show ?thesis by simp
  qed
  with assms show ?thesis by metis
qed

definition same_frame :: "machine \<Rightarrow> machine \<Rightarrow> nat \<Rightarrow> bool" where
  "same_frame m m' f \<longleftrightarrow> (\<forall>a. in_frame f a \<longrightarrow> pmem m' a = pmem m a)"

lemma same_frame_refl [simp]: "same_frame m m f"
  by (simp add: same_frame_def)

lemma same_frame_trans: "same_frame m m' f \<Longrightarrow> same_frame m' m'' f \<Longrightarrow> same_frame m m'' f"
  by (simp add: same_frame_def)

lemma get_entry_cong: "same_frame m m' t \<Longrightarrow> i < 512 \<Longrightarrow> get_entry m' t i = get_entry m t i"
  unfolding get_entry_def same_frame_def in_frame_def
  by (intro arg_cong [of _ _ le_word] map_cong) auto

lemma get_set_entry_same: "get_entry (set_entry m t i e) t i = e"
proof -
  have "map (\<lambda>k. pmem (set_entry m t i e) (t + 8 * i + k)) [0..<8] = le_bytes 8 e"
    by (rule nth_equalityI) (simp_all add: set_entry_def)
  then show ?thesis by (simp add: get_entry_def le_word_bytes)
qed

lemma get_set_entry_other: "i \<noteq> j \<Longrightarrow> get_entry (set_entry m t i e) t j = get_entry m t j"
  unfolding get_entry_def set_entry_def by (intro arg_cong [of _ _ le_word] map_cong) auto

lemma same_frame_set_entry:
  "t mod frame_size = 0 \<Longrightarrow> f mod frame_size = 0 \<Longrightarrow> f \<noteq> t \<Longrightarrow> i < 512 \<Longrightarrow> same_frame m (set_entry m t i e) f"
  unfolding same_frame_def
proof (intro allI impI)
  fix a assume "t mod frame_size = 0" "f mod frame_size = 0" "f \<noteq> t" "i < 512" "in_frame f a"
  then have "\<not> in_frame t a" using in_frame_unique [of f t a] by auto
  then have "\<not> (t + 8 * i \<le> a \<and> a < t + 8 * i + 8)" using \<open>i < 512\<close> by (auto simp: in_frame_def)
  then show "pmem (set_entry m t i e) a = pmem m a" by (auto simp: set_entry_def)
qed

lemma same_frame_zero:
  "t mod frame_size = 0 \<Longrightarrow> f mod frame_size = 0 \<Longrightarrow> f \<noteq> t \<Longrightarrow> same_frame m (zero_frame m t) f"
  using in_frame_unique [of f t] by (auto simp: same_frame_def zero_frame_def split: option.split)

lemma same_frame_copy:
  "t mod frame_size = 0 \<Longrightarrow> f mod frame_size = 0 \<Longrightarrow> f \<noteq> t \<Longrightarrow> same_frame m (copy_bytes m g t frame_size) f"
  using in_frame_unique [of f t] by (auto simp: same_frame_def copy_bytes_def in_frame_def)

lemma get_entry_zero: "phys_offset m \<noteq> None \<Longrightarrow> i < 512 \<Longrightarrow> get_entry (zero_frame m t) t i = 0"
proof -
  assume "phys_offset m \<noteq> None" "i < 512"
  then have "map (\<lambda>k. pmem (zero_frame m t) (t + 8 * i + k)) [0..<8] = replicate 8 0"
    by (intro nth_equalityI) (auto simp: zero_frame_def in_frame_def)
  then show ?thesis unfolding get_entry_def by (simp add: numeral_eq_Suc)
qed

lemma get_entry_copy: "i < 512 \<Longrightarrow> get_entry (copy_bytes m g t frame_size) t i = get_entry m g i"
  unfolding get_entry_def copy_bytes_def by (intro arg_cong [of _ _ le_word] map_cong) (auto simp: algebra_simps)

lemma machine_fields [simp]:
  "m_alloc (zero_frame m t) = m_alloc m" "phys_offset (zero_frame m t) = phys_offset m"
  "kernel_root_frame (zero_frame m t) = kernel_root_frame m"
  "m_alloc (copy_bytes m g t n) = m_alloc m" "phys_offset (copy_bytes m g t n) = phys_offset m"
  "kernel_root_frame (copy_bytes m g t n) = kernel_root_frame m"
  "m_alloc (set_entry m t i e) = m_alloc m" "phys_offset (set_entry m t i e) = phys_offset m"
  "kernel_root_frame (set_entry m t i e) = kernel_root_frame m"
  "pmem (release_frame m f) = pmem m" "phys_offset (release_frame m f) = phys_offset m"
  "kernel_root_frame (release_frame m f) = kernel_root_frame m"
  by (auto simp: zero_frame_def copy_bytes_def set_entry_def release_frame_def split: option.split)

section \<open>The allocator behind the machine\<close>

text \<open>\<open>out\<close> are the frames in use; the page tables \<open>KT\<close> of the kernel are never free.\<close>

definition machine_ok :: "machine \<Rightarrow> nat set \<Rightarrow> nat set \<Rightarrow> bool" where
  "machine_ok m KT out \<longleftrightarrow> phys_offset m \<noteq> None \<and> (\<forall>t \<in> KT. t mod frame_size = 0) \<and>
     (\<exists>fa. m_alloc m = Some fa \<and> fa_ok fa out \<and> KT \<inter> set (fa_frames fa) \<subseteq> out
        \<and> (\<forall>f \<in> set (fa_frames fa). f mod frame_size = 0 \<and> f < 2 ^ 52))"

lemma machine_ok_cong: "m_alloc m' = m_alloc m \<Longrightarrow> phys_offset m' = phys_offset m \<Longrightarrow> machine_ok m' KT out = machine_ok m KT out"
  by (simp add: machine_ok_def)

lemma machine_ok_aligned: "machine_ok m KT out \<Longrightarrow> f \<in> out \<union> KT \<Longrightarrow> f mod frame_size = 0"
proof -
  assume ok: "machine_ok m KT out" and f: "f \<in> out \<union> KT"
  from ok obtain fa where fa: "fa_ok fa out" "\<forall>f \<in> set (fa_frames fa). f mod frame_size = 0" "\<forall>t \<in> KT. t mod frame_size = 0"
    by (auto simp: machine_ok_def)
  from fa(1) have "out \<subseteq> set (fa_frames fa)" unfolding fa_ok_def by (metis Un_upper1 set_take_subset subset_trans)
  with fa(2,3) f show ?thesis by blast
qed

lemma new_frame_Some:
  assumes "machine_ok m KT out" "new_frame m = (Some f, m')"
  shows "f \<notin> out \<and> f \<notin> KT \<and> f mod frame_size = 0 \<and> f < 2 ^ 52 \<and> machine_ok m' KT (insert f out)
    \<and> pmem m' = pmem m \<and> phys_offset m' = phys_offset m \<and> kernel_root_frame m' = kernel_root_frame m"
proof -
  from assms(1) obtain fa where fa: "m_alloc m = Some fa" "fa_ok fa out" "KT \<inter> set (fa_frames fa) \<subseteq> out"
    "\<forall>f \<in> set (fa_frames fa). f mod frame_size = 0 \<and> f < 2 ^ 52" "phys_offset m \<noteq> None" "\<forall>t \<in> KT. t mod frame_size = 0"
    by (auto simp: machine_ok_def)
  from assms(2) fa(1) obtain fa' where fa': "allocate_frame (m_answers m (m_asked m)) fa = (Some f, fa')"
    "m' = m\<lparr>m_alloc := Some fa', m_asked := m_asked m + 1\<rparr>"
    by (auto simp: new_frame_def mm_allocate_frame_def split: prod.splits)
  have fr: "fa_frames fa' = fa_frames fa"
    using fa'(1) by (auto simp: allocate_frame_def split: list.splits if_splits)
  from boot.alloc_some [OF fa(2) fa'(1)] have f: "f \<notin> out" "fa_ok fa' (insert f out)" by simp_all
  then have "f \<in> set (fa_frames fa)" unfolding fa_ok_def fr by (metis UnI1 in_set_takeD insertI1)
  with f fa fa'(2) fr show ?thesis by (auto simp: machine_ok_def)
qed

lemma new_frame_None:
  assumes "machine_ok m KT out" "new_frame m = (None, m')"
  shows "machine_ok m' KT out \<and> pmem m' = pmem m \<and> phys_offset m' = phys_offset m \<and> kernel_root_frame m' = kernel_root_frame m"
proof -
  from assms(1) obtain fa where fa: "m_alloc m = Some fa" by (auto simp: machine_ok_def)
  then have "m' = m\<lparr>m_asked := m_asked m + 1\<rparr>"
    using assms(2) by (auto simp: new_frame_def mm_allocate_frame_def allocate_frame_def split: list.splits if_splits)
  with assms(1) show ?thesis by (simp add: machine_ok_def)
qed

lemma release_frame_ok:
  assumes "machine_ok m KT out" "f \<in> out" "f \<notin> KT" shows "machine_ok (release_frame m f) KT (out - {f})"
proof -
  from assms(1) obtain fa where "m_alloc m = Some fa" "fa_ok fa out" by (auto simp: machine_ok_def)
  with assms boot.free_ok [of fa out f] show ?thesis
    by (auto simp: machine_ok_def release_frame_def mm_deallocate_frame_def deallocate_frame_def)
qed

lemma release_frames_ok:
  assumes "machine_ok m KT out" "distinct fs" "set fs \<subseteq> out - KT"
  shows "machine_ok (release_frames m fs) KT (out - set fs) \<and> pmem (release_frames m fs) = pmem m
    \<and> phys_offset (release_frames m fs) = phys_offset m \<and> kernel_root_frame (release_frames m fs) = kernel_root_frame m"
  using assms
proof (induction fs arbitrary: m out)
  case (Cons f fs)
  then have "machine_ok (release_frame m f) KT (out - {f})" by (intro release_frame_ok) auto
  moreover have "out - set (f # fs) = out - {f} - set fs" by auto
  ultimately show ?case using Cons.IH [of "release_frame m f" "out - {f}"] Cons.prems
    by (auto simp: release_frames_def)
qed (simp add: release_frames_def)

section \<open>Page tables as a tree\<close>

fun table_walk :: "paging_crate \<Rightarrow> machine \<Rightarrow> nat \<Rightarrow> nat list \<Rightarrow> nat option" where
  "table_walk pc m t [] = Some t"
| "table_walk pc m t (i # is) =
     (let e = get_entry m t i
      in if pc_unused pc e \<or> pc_flags pc e AND HUGE \<noteq> 0 then None
         else case pc_frame pc e of None \<Rightarrow> None | Some t' \<Rightarrow> table_walk pc m t' is)"

definition path_indices :: "nat \<Rightarrow> nat list" where
  "path_indices page = [p4_index page, p3_index page, p2_index page]"

text \<open>The table below an entry, and whether all entries on a path carry the flags \<open>fl\<close>.\<close>

definition branch :: "paging_crate \<Rightarrow> machine \<Rightarrow> nat \<Rightarrow> nat \<Rightarrow> nat option" where
  "branch pc m t i =
     (let e = get_entry m t i in if pc_unused pc e \<or> pc_flags pc e AND HUGE \<noteq> 0 then None else pc_frame pc e)"

fun path_has :: "paging_crate \<Rightarrow> machine \<Rightarrow> u64 \<Rightarrow> nat \<Rightarrow> nat list \<Rightarrow> bool" where
  "path_has pc m fl t [] \<longleftrightarrow> True"
| "path_has pc m fl t (i # is) \<longleftrightarrow> pc_flags pc (get_entry m t i) AND fl = fl
     \<and> (case branch pc m t i of None \<Rightarrow> True | Some t' \<Rightarrow> path_has pc m fl t' is)"

lemma table_walk_branch: "table_walk pc m t (i # is) = (case branch pc m t i of None \<Rightarrow> None | Some t' \<Rightarrow> table_walk pc m t' is)"
  by (simp add: branch_def Let_def)

lemma branch_cong: "get_entry m' t i = get_entry m t i \<Longrightarrow> branch pc m' t i = branch pc m t i"
  by (simp add: branch_def)

text \<open>What the kernel relies on in the crate: an empty entry is unused, an entry reads back what was
  set, and on a path whose tables are present the mapper works on the entry of the page in the last table.
  \<open>map_to_with_table_flags\<close> adds the parent flags to entries on the path that lack them and refuses a page whose entry is
  in use; the clause is about paths that have the flags. \<open>unmap\<close> empties the entry, and refuses one that is not present.\<close>

definition only_table :: "machine \<Rightarrow> machine \<Rightarrow> nat \<Rightarrow> bool" where
  "only_table m m' t \<longleftrightarrow> (\<exists>mem. m' = m\<lparr>pmem := mem\<rparr>) \<and> (\<forall>a. \<not> in_frame t a \<longrightarrow> pmem m' a = pmem m a)"

definition crate_ok :: "paging_crate \<Rightarrow> bool" where
  "crate_ok pc \<longleftrightarrow> pc_unused pc 0
     \<and> (\<forall>e. pc_flags pc e AND TABLE_ADDRESS = 0)
     \<and> (\<forall>f fl. f mod frame_size = 0 \<and> f < 2 ^ 52 \<and> fl AND TABLE_ADDRESS = 0 \<and> fl AND PRESENT \<noteq> 0 \<and> fl AND HUGE = 0
          \<longrightarrow> \<not> pc_unused pc (pc_make pc f fl) \<and> pc_flags pc (pc_make pc f fl) = fl \<and> pc_frame pc (pc_make pc f fl) = Some f)
     \<and> (\<forall>m root page f fl pfl t. table_walk pc m root (path_indices page) = Some t \<and> path_has pc m pfl root (path_indices page)
          \<longrightarrow> pc_map_to pc m root page f fl pfl =
                (if pc_unused pc (get_entry m t (p1_index page)) then (set_entry m t (p1_index page) (pc_make pc f fl), True) else (m, False)))
     \<and> (\<forall>m root page t. table_walk pc m root (path_indices page) = Some t
          \<longrightarrow> pc_unmap pc m root page =
                (if pc_frame pc (get_entry m t (p1_index page)) = None then (m, False) else (set_entry m t (p1_index page) 0, True)))"

definition owned :: "address_space \<Rightarrow> nat list" where
  "owned s = root_frame s # map mp_frame (mappings s) @ private_tables s"

definition tables :: "address_space \<Rightarrow> nat set" where
  "tables s = insert (root_frame s) (set (private_tables s))"

text \<open>\<open>lv\<close> gives the level of a table: entries point one level down, into \<open>S\<close>.\<close>

definition points :: "paging_crate \<Rightarrow> machine \<Rightarrow> (nat \<Rightarrow> nat) \<Rightarrow> nat set \<Rightarrow> nat \<Rightarrow> nat \<Rightarrow> bool" where
  "points pc m lv S t i \<longleftrightarrow>
     (let e = get_entry m t i
      in \<not> pc_unused pc e \<longrightarrow> pc_flags pc e AND HUGE = 0 \<longrightarrow> (\<forall>f. pc_frame pc e = Some f \<longrightarrow> f \<in> S \<and> Suc (lv f) = lv t))"

definition kernel_ok :: "paging_crate \<Rightarrow> machine \<Rightarrow> nat set \<Rightarrow> (nat \<Rightarrow> nat) \<Rightarrow> bool" where
  "kernel_ok pc m KT lv \<longleftrightarrow> (\<forall>t \<in> KT. lv t > 1 \<longrightarrow> (\<forall>i < 512. points pc m lv KT t i))"

definition space_ok :: "paging_crate \<Rightarrow> machine \<Rightarrow> nat set \<Rightarrow> (nat \<Rightarrow> nat) \<Rightarrow> nat set \<Rightarrow> address_space \<Rightarrow> bool" where
  "space_ok pc m KT lv out s \<longleftrightarrow> distinct (owned s) \<and> set (owned s) \<subseteq> out - KT
     \<and> lv (root_frame s) = 4 \<and> (\<forall>t \<in> set (private_tables s). 1 \<le> lv t \<and> lv t \<le> 3)
     \<and> (\<forall>t \<in> tables s. lv t > 1 \<longrightarrow> (\<forall>i < 512. points pc m lv (KT \<union> set (private_tables s)) t i))
     \<and> (\<forall>mp \<in> set (mappings s). leaf_flags (mp_flags mp) = mp_flags mp)"

lemma points_cong:
  assumes "same_frame m m' t" "i < 512" "S \<subseteq> S'" "\<And>f. f \<in> S \<Longrightarrow> lv' f = lv f" "lv' t = lv t" "points pc m lv S t i"
  shows "points pc m' lv' S' t i"
  using assms(3-6) unfolding points_def Let_def get_entry_cong [OF assms(1,2)] by auto

lemma kernel_ok_cong:
  assumes "kernel_ok pc m KT lv" "\<And>t. t \<in> KT \<Longrightarrow> same_frame m m' t" "\<And>t. t \<in> KT \<Longrightarrow> lv' t = lv t"
  shows "kernel_ok pc m' KT lv'"
  using assms points_cong [of m m' _ _ KT KT lv' lv pc] by (auto simp: kernel_ok_def)

lemma space_ok_mem:
  "space_ok pc m KT lv out s \<Longrightarrow> (\<And>t. t \<in> tables s \<Longrightarrow> lv t > 1 \<Longrightarrow> same_frame m m' t) \<Longrightarrow> space_ok pc m' KT lv out s"
  unfolding space_ok_def using points_cong [of m m' _ _ "KT \<union> set (private_tables s)" "KT \<union> set (private_tables s)" lv lv pc]
  by blast

lemma tables_owned: "tables s \<subseteq> set (owned s)"
  by (auto simp: tables_def owned_def)

text \<open>The tables on the path are private at every level.\<close>

lemma table_walk_prefix:
  assumes "space_ok pc m KT lv out s" "kernel_ok pc m KT lv" "tbl \<in> tables s \<union> KT" "lv tbl = Suc (length idxs)" "\<forall>i \<in> set idxs. i < 512"
    and "table_walk pc m tbl idxs = Some t" "t \<in> tables s" "n \<le> length idxs"
  shows "\<exists>u \<in> tables s. table_walk pc m tbl (take n idxs) = Some u \<and> lv u + n = lv tbl"
  using assms(3-8)
proof (induction idxs arbitrary: tbl n)
  case (Cons i rest)
  let ?e = "get_entry m tbl i"
  from Cons.prems(4) obtain f where f: "\<not> pc_unused pc ?e" "pc_flags pc ?e AND HUGE = 0" "pc_frame pc ?e = Some f" "table_walk pc m f rest = Some t"
    by (auto simp: Let_def split: if_splits option.splits)
  have closed: "set (private_tables s) \<inter> KT = {}" "root_frame s \<notin> KT" using assms(1) by (auto simp: space_ok_def owned_def)
  have kt: "t' \<in> KT" if "table_walk pc m x is = Some t'" "x \<in> KT" "lv x = Suc (length is)" "\<forall>i \<in> set is. i < 512" for x t' "is"
    using that
  proof (induction "is" arbitrary: x)
    case (Cons j js)
    then have "points pc m lv KT x j" using assms(2) by (simp add: kernel_ok_def)
    with Cons show ?case by (auto simp: points_def Let_def split: if_splits option.splits)
  qed simp
  have "tbl \<notin> KT" using kt [OF Cons.prems(4) _ Cons.prems(2,3)] Cons.prems(5) closed by (auto simp: tables_def)
  with Cons.prems(1) have tbl: "tbl \<in> tables s" by auto
  then have "points pc m lv (KT \<union> set (private_tables s)) tbl i" using assms(1) Cons.prems(2,3) by (simp add: space_ok_def)
  with f Cons.prems(2) have lf: "f \<in> tables s \<union> KT" "lv f = Suc (length rest)" by (auto simp: points_def Let_def tables_def)
  show ?case
  proof (cases n)
    case (Suc n')
    from Cons.IH [OF lf _ f(4) Cons.prems(5), of n'] Cons.prems(3,6) Suc f lf Cons.prems(2) show ?thesis by (auto simp: Let_def)
  qed (use tbl in simp)
qed auto

section \<open>Private tables\<close>

text \<open>Every private table hangs below one entry, which lets the user read and write; what lies in a leaf decides.\<close>

definition user_branch :: u64 where "user_branch = PRESENT OR WRITABLE OR USER"

definition tree_ok :: "paging_crate \<Rightarrow> machine \<Rightarrow> (nat \<Rightarrow> nat) \<Rightarrow> address_space \<Rightarrow> bool" where
  "tree_ok pc m lv s \<longleftrightarrow> (\<forall>t \<in> tables s. \<forall>i < 512. \<forall>f \<in> set (private_tables s). lv t > 1 \<longrightarrow> branch pc m t i = Some f \<longrightarrow>
     pc_flags pc (get_entry m t i) AND user_branch = user_branch
     \<and> (\<forall>u \<in> tables s. \<forall>j < 512. lv u > 1 \<longrightarrow> branch pc m u j = Some f \<longrightarrow> u = t \<and> j = i))"

lemma tree_ok_mem:
  assumes "tree_ok pc m lv s" "\<And>t. t \<in> tables s \<Longrightarrow> lv t > 1 \<Longrightarrow> same_frame m m' t" shows "tree_ok pc m' lv s"
proof -
  have "get_entry m' t i = get_entry m t i" "branch pc m' t i = branch pc m t i" if "t \<in> tables s" "lv t > 1" "i < 512" for t i
    using get_entry_cong [OF assms(2) [OF that(1,2)] that(3)] by (simp_all add: branch_def)
  with assms(1) show ?thesis unfolding tree_ok_def by metis
qed

lemma points_branch: "points pc m lv S t i \<Longrightarrow> branch pc m t i = Some f \<Longrightarrow> f \<in> S \<and> Suc (lv f) = lv t"
  by (auto simp: points_def branch_def Let_def split: if_splits)

lemma walk_step:
  assumes "space_ok pc m KT lv out s" "kernel_ok pc m KT lv" "tbl \<in> tables s" "lv tbl = Suc (length (i # rest))" "\<forall>j \<in> set (i # rest). j < 512"
    and "table_walk pc m tbl (i # rest) = Some t" "t \<in> tables s"
  shows "\<exists>f \<in> set (private_tables s). branch pc m tbl i = Some f \<and> lv f = Suc (length rest) \<and> table_walk pc m f rest = Some t"
proof -
  obtain f where f: "branch pc m tbl i = Some f" "table_walk pc m f rest = Some t"
    using assms(6) by (auto simp: table_walk_branch simp del: table_walk.simps split: option.splits)
  have "table_walk pc m tbl [i] = Some f" using f(1) by (simp add: table_walk_branch del: table_walk.simps(2))
  moreover obtain u where "u \<in> tables s" "table_walk pc m tbl [i] = Some u" "lv u + 1 = lv tbl"
    using table_walk_prefix [OF assms(1,2) _ assms(4-7), of 1] assms(3) by auto
  ultimately have "f \<in> tables s" "lv f = Suc (length rest)" using assms(4) by simp_all
  moreover have "lv tbl \<le> 4" "lv (root_frame s) = 4" using assms(1,3) by (auto simp: space_ok_def tables_def)
  ultimately show ?thesis using f assms(4) by (auto simp: tables_def)
qed

lemma tree_path:
  assumes "space_ok pc m KT lv out s" "kernel_ok pc m KT lv" "tree_ok pc m lv s" "tbl \<in> tables s" "lv tbl = Suc (length idxs)"
    and "\<forall>j \<in> set idxs. j < 512" "table_walk pc m tbl idxs = Some t" "t \<in> tables s"
  shows "path_has pc m user_branch tbl idxs"
  using assms(4-8)
proof (induction idxs arbitrary: tbl)
  case (Cons i rest)
  from walk_step [OF assms(1,2) Cons.prems] obtain f where f: "f \<in> set (private_tables s)" "branch pc m tbl i = Some f"
    "lv f = Suc (length rest)" "table_walk pc m f rest = Some t" by blast
  have "path_has pc m user_branch f rest" using Cons.IH [OF _ f(3) _ f(4) Cons.prems(5)] f(1) Cons.prems(3) by (simp add: tables_def)
  moreover have "pc_flags pc (get_entry m tbl i) AND user_branch = user_branch"
    using assms(3) f(1,2) Cons.prems(1-3) unfolding tree_ok_def by auto
  ultimately show ?case using f(2) by simp
qed simp

text \<open>A table is on one path only.\<close>

lemma walk_inj:
  assumes "space_ok pc m KT lv out s" "kernel_ok pc m KT lv" "tree_ok pc m lv s" "t \<in> tables s" "length xs = length ys"
    and "x \<in> tables s" "lv x = Suc (length xs)" "\<forall>i \<in> set xs. i < 512" "table_walk pc m x xs = Some t"
    and "y \<in> tables s" "lv y = Suc (length ys)" "\<forall>j \<in> set ys. j < 512" "table_walk pc m y ys = Some t"
  shows "x = y \<and> xs = ys"
  using assms(5-13)
proof (induction xs ys arbitrary: x y rule: list_induct2)
  case (Cons i xs j ys)
  from walk_step [OF assms(1,2) Cons.prems(1-4) assms(4)] obtain f where f: "f \<in> set (private_tables s)" "branch pc m x i = Some f"
    "lv f = Suc (length xs)" "table_walk pc m f xs = Some t" by blast
  from walk_step [OF assms(1,2) Cons.prems(5-8) assms(4)] obtain g where g: "g \<in> set (private_tables s)" "branch pc m y j = Some g"
    "lv g = Suc (length ys)" "table_walk pc m g ys = Some t" by blast
  have "f = g \<and> xs = ys"
    using Cons.IH [OF _ f(3) _ f(4) _ g(3) _ g(4)] f(1) g(1) Cons.prems(3,7) by (simp add: tables_def)
  then show ?case using assms(3) f(1,2) g(2) Cons.prems(1,2,3,5,6,7) unfolding tree_ok_def by (metis length_Cons list.set_intros(1) One_nat_def Suc_less_eq zero_less_Suc)
qed simp

text \<open>What no step may change: entries that lead to private tables, and the leaves.\<close>

definition private_kept :: "paging_crate \<Rightarrow> (nat \<Rightarrow> nat) \<Rightarrow> address_space \<Rightarrow> machine \<Rightarrow> machine \<Rightarrow> bool" where
  "private_kept pc lv s m m' \<longleftrightarrow> (\<forall>t \<in> tables s. \<forall>i < 512.
     lv t = 1 \<or> (\<exists>f \<in> set (private_tables s). branch pc m t i = Some f) \<longrightarrow> get_entry m' t i = get_entry m t i)"

lemma walk_kept:
  assumes "space_ok pc m KT lv out s" "kernel_ok pc m KT lv" "private_kept pc lv s m m'" "tbl \<in> tables s" "lv tbl = Suc (length idxs)"
    and "\<forall>j \<in> set idxs. j < 512" "table_walk pc m tbl idxs = Some t" "t \<in> tables s"
  shows "table_walk pc m' tbl idxs = Some t \<and> (path_has pc m fl tbl idxs \<longrightarrow> path_has pc m' fl tbl idxs)"
  using assms(4-8)
proof (induction idxs arbitrary: tbl)
  case (Cons i rest)
  from walk_step [OF assms(1,2) Cons.prems] obtain f where f: "f \<in> set (private_tables s)" "branch pc m tbl i = Some f"
    "lv f = Suc (length rest)" "table_walk pc m f rest = Some t" by blast
  have e: "get_entry m' tbl i = get_entry m tbl i" using assms(3) Cons.prems(1,3) f(1,2) by (auto simp: private_kept_def)
  with f(2) have b: "branch pc m' tbl i = Some f" by (simp add: branch_cong [OF e])
  have "table_walk pc m' f rest = Some t \<and> (path_has pc m fl f rest \<longrightarrow> path_has pc m' fl f rest)"
    using Cons.IH [OF _ f(3) _ f(4) Cons.prems(5)] f(1) Cons.prems(3) by (simp add: tables_def)
  with e b f(2) show ?case by (simp add: table_walk_branch del: table_walk.simps(2))
qed simp

text \<open>What the processor finds for a page with the root table of the address space: the path through private tables admits the
  user, and the entry of the page is the one for the frame \<open>f\<close> with the flags \<open>fl\<close>.\<close>

definition shows_page :: "paging_crate \<Rightarrow> machine \<Rightarrow> address_space \<Rightarrow> nat \<Rightarrow> nat \<Rightarrow> u64 \<Rightarrow> bool" where
  "shows_page pc m s pg f fl \<longleftrightarrow> (\<exists>t \<in> set (private_tables s).
     table_walk pc m (root_frame s) (path_indices pg) = Some t \<and> path_has pc m user_branch (root_frame s) (path_indices pg)
     \<and> get_entry m t (p1_index pg) = pc_make pc f fl)"

section \<open>Making a path private\<close>

lemma branch_flags:
  assumes "crate_ok pc" "p mod frame_size = 0" "p < 2 ^ 52" "pc_flags pc e AND HUGE = 0"
  defines "e' \<equiv> pc_make pc p (pc_flags pc e OR PRESENT OR WRITABLE OR USER)"
  shows "\<not> pc_unused pc e' \<and> pc_flags pc e' AND HUGE = 0 \<and> pc_frame pc e' = Some p \<and> pc_flags pc e' AND user_branch = user_branch"
proof -
  let ?fl = "pc_flags pc e OR PRESENT OR WRITABLE OR USER"
  have "(PRESENT OR WRITABLE OR USER) AND TABLE_ADDRESS = 0" "(PRESENT OR WRITABLE OR USER) AND HUGE = 0"
    by (simp_all add: PRESENT_def WRITABLE_def USER_def TABLE_ADDRESS_def HUGE_def)
  moreover have "pc_flags pc e AND TABLE_ADDRESS = 0" using assms(1) by (simp add: crate_ok_def)
  ultimately have a: "?fl AND TABLE_ADDRESS = 0" "?fl AND HUGE = 0"
    using assms(4) by (simp_all add: bit.conj_disj_distrib2)
  have "bit ?fl 0" by (simp add: bit_or_iff PRESENT_def)
  then have "?fl AND PRESENT \<noteq> 0"
    unfolding PRESENT_def by (metis and_one_eq bit_0 odd_iff_mod_2_eq_one zero_neq_one)
  moreover have "(x OR y) AND y = y" for x y :: u64 by (rule bit_word_eqI) (auto simp: bit_simps)
  then have "?fl AND user_branch = user_branch" by (simp add: user_branch_def)
  ultimately show ?thesis using assms(1-3) a unfolding e'_def crate_ok_def by auto
qed

lemma private_step:
  assumes ok: "crate_ok pc" "machine_ok m KT out" "kernel_ok pc m KT lv" "space_ok pc m KT lv out s"
    and tbl: "tbl \<in> tables s" "lv tbl = Suc n" "1 \<le> n" "i < 512"
    and e: "e = get_entry m tbl i" "pc_flags pc e AND HUGE = 0"
    and old: "old = (if pc_unused pc e then None else pc_frame pc e)" "\<not> pc_unused pc e \<Longrightarrow> pc_frame pc e \<noteq> None"
      "\<And>f. old = Some f \<Longrightarrow> f \<notin> set (private_tables s)"
    and p: "new_frame m = (Some p, m1)"
    and m3: "m3 = (case old of None \<Rightarrow> zero_frame m1 p | Some f \<Rightarrow> copy_bytes (zero_frame m1 p) f p frame_size)"
    and m4: "m4 = set_entry m3 tbl i (pc_make pc p (pc_flags pc e OR PRESENT OR WRITABLE OR USER))"
  shows "machine_ok m4 KT (insert p out)" "kernel_ok pc m4 KT (lv(p := n))"
    "space_ok pc m4 KT (lv(p := n)) (insert p out) (s\<lparr>private_tables := private_tables s @ [p]\<rparr>)"
    "\<And>g. g \<in> out \<union> KT \<Longrightarrow> g \<noteq> tbl \<Longrightarrow> same_frame m m4 g"
    "get_entry m4 tbl i = pc_make pc p (pc_flags pc e OR PRESENT OR WRITABLE OR USER)"
    "phys_offset m4 = phys_offset m \<and> kernel_root_frame m4 = kernel_root_frame m"
    "\<And>j. j < 512 \<Longrightarrow> j \<noteq> i \<Longrightarrow> get_entry m4 tbl j = get_entry m tbl j"
    "\<And>j. j < 512 \<Longrightarrow> n > 1 \<Longrightarrow> points pc m4 (lv(p := n)) KT p j"
proof -
  note new = new_frame_Some [OF ok(2) p]
  have out: "set (owned s) \<subseteq> out - KT" "distinct (owned s)" using ok(4) by (simp_all add: space_ok_def)
  then have tout: "tables s \<subseteq> out" "tables s \<inter> KT = {}" "set (private_tables s) \<subseteq> out" by (auto simp: owned_def tables_def)
  have al: "g mod frame_size = 0" if "g \<in> insert p (out \<union> KT)" for g
    using that new machine_ok_aligned [OF ok(2)] by auto
  have fields: "m_alloc m4 = m_alloc m1" "phys_offset m4 = phys_offset m1" "kernel_root_frame m4 = kernel_root_frame m1"
    unfolding m4 m3 by (simp_all split: option.split)
  show mok: "machine_ok m4 KT (insert p out)" using new machine_ok_cong [OF fields(1,2)] by blast
  show "phys_offset m4 = phys_offset m \<and> kernel_root_frame m4 = kernel_root_frame m" using fields new by simp
  have same3: "same_frame m m3 g" if "g \<in> out \<union> KT" for g
  proof -
    have neq: "g \<noteq> p" using that new by auto
    have "same_frame m1 (zero_frame m1 p) g" using neq al [of g] al [of p] that by (intro same_frame_zero) auto
    moreover have "same_frame (zero_frame m1 p) (copy_bytes (zero_frame m1 p) f p frame_size) g" for f
      using neq al [of g] al [of p] that by (intro same_frame_copy) auto
    moreover have "same_frame m m1 g" using new by (simp add: same_frame_def)
    ultimately show ?thesis unfolding m3 by (auto split: option.split intro: same_frame_trans)
  qed
  have same34: "same_frame m3 m4 g" if "g \<in> insert p (out \<union> KT)" "g \<noteq> tbl" for g
    unfolding m4 using that al [of g] al [of tbl] tbl(1,4) tout(1) by (intro same_frame_set_entry) auto
  show same: "same_frame m m4 g" if "g \<in> out \<union> KT" "g \<noteq> tbl" for g
    using same_frame_trans [OF same3 [OF that(1)] same34] that by blast
  show ent: "get_entry m4 tbl i = pc_make pc p (pc_flags pc e OR PRESENT OR WRITABLE OR USER)"
    unfolding m4 by (rule get_set_entry_same)
  have kt: "tbl \<notin> KT" using tout tbl(1) by auto
  show "kernel_ok pc m4 KT (lv(p := n))"
    by (rule kernel_ok_cong [OF ok(3)]) (use same kt new in auto)
  let ?s = "s\<lparr>private_tables := private_tables s @ [p]\<rparr>" and ?lv = "lv(p := n)"
  let ?S = "KT \<union> set (private_tables s)" and ?S' = "KT \<union> set (private_tables ?s)"
  have lvS: "?lv f = lv f" if "f \<in> ?S" for f using that new tout by auto
  have pts: "points pc m lv ?S t j" if "t \<in> tables s" "lv t > 1" "j < 512" for t j
    using ok(4) that by (auto simp: space_ok_def)
  have branch: "\<not> pc_unused pc (get_entry m4 tbl i) \<and> pc_frame pc (get_entry m4 tbl i) = Some p"
    unfolding ent using branch_flags [OF ok(1) _ _ e(2), of p] new by auto
  show other: "get_entry m4 tbl j = get_entry m tbl j" if "j < 512" "j \<noteq> i" for j
  proof -
    have "get_entry m4 tbl j = get_entry m3 tbl j" unfolding m4 using that by (intro get_set_entry_other) simp
    also have "\<dots> = get_entry m tbl j" using same3 [of tbl] tbl(1) tout(1) that by (intro get_entry_cong) auto
    finally show ?thesis .
  qed
  have pt_tbl: "points pc m4 ?lv ?S' tbl j" if j: "j < 512" for j
  proof (cases "j = i")
    case True
    with branch tbl(2) kt new tout tbl(1) show ?thesis by (auto simp: points_def Let_def)
  next
    case False
    note other [OF j False]
    moreover have "?lv tbl = lv tbl" using new tbl(1) tout by auto
    ultimately show ?thesis using pts [OF tbl(1) _ j] tbl(2,3) lvS by (auto simp: points_def Let_def)
  qed
  show pt_p: "points pc m4 ?lv KT p j" if j: "j < 512" and n: "n > 1" for j
  proof -
    have "p \<noteq> tbl" using new tbl(1) tout by auto
    then have "get_entry m4 p j = get_entry m3 p j" using same34 [of p] j by (intro get_entry_cong) auto
    moreover have "get_entry m3 p j = 0" if "old = None"
      using that get_entry_zero [of m1 j p] j new ok(2) by (simp add: m3 machine_ok_def)
    moreover have "points pc m4 ?lv KT p j" if f: "old = Some f" and eq: "get_entry m4 p j = get_entry m3 p j" for f
    proof -
      have fr: "\<not> pc_unused pc e" "pc_frame pc e = Some f" using f old(1) by (auto split: if_splits)
      then have fk: "f \<in> KT" "Suc (lv f) = Suc n"
        using pts [OF tbl(1) _ tbl(4)] tbl(2,3) e old(3) [OF f] by (auto simp: points_def Let_def)
      have "get_entry m3 p j = get_entry (zero_frame m1 p) f j" using f j by (simp add: m3 get_entry_copy)
      also have "same_frame m (zero_frame m1 p) f"
      proof -
        have "same_frame m1 (zero_frame m1 p) f" using fk new al [of f] al [of p] by (intro same_frame_zero) auto
        then show ?thesis using new by (simp add: same_frame_def)
      qed
      then have "get_entry (zero_frame m1 p) f j = get_entry m f j" using j by (rule get_entry_cong)
      finally have "get_entry m4 p j = get_entry m f j" using eq by simp
      moreover have "points pc m lv KT f j" using ok(3) fk n j by (auto simp: kernel_ok_def)
      ultimately show ?thesis using fk new by (auto simp: points_def Let_def)
    qed
    ultimately show ?thesis using ok(1) by (cases old) (auto simp: points_def Let_def crate_ok_def)
  qed
  have "points pc m4 ?lv ?S' t j" if t: "t \<in> tables ?s" "?lv t > 1" and j: "j < 512" for t j
  proof -
    consider "t = p" | "t = tbl" | "t \<in> tables s" "t \<noteq> tbl" "t \<noteq> p" using t(1) by (auto simp: tables_def)
    then show ?thesis
    proof cases
      case 3
      then show ?thesis using t(2) pts [of t j] same [of t] tout j lvS
        by (intro points_cong [of m m4 t j ?S ?S' ?lv lv]) auto
    next
      case 1
      then show ?thesis using t(2) pt_p [OF j] points_cong [OF same_frame_refl j, of KT ?S' ?lv ?lv] by auto
    qed (use t(2) pt_tbl j in auto)
  qed
  moreover have "distinct (owned ?s)" "set (owned ?s) \<subseteq> insert p out - KT" using out new by (auto simp: owned_def)
  moreover have "?lv (root_frame s) = 4" "\<forall>t \<in> set (private_tables ?s). 1 \<le> ?lv t \<and> ?lv t \<le> 3"
    using ok(4) new tbl(1-3) tout by (auto simp: space_ok_def tables_def)
  ultimately show "space_ok pc m4 KT ?lv (insert p out) ?s"
    using ok(4) by (auto simp: space_ok_def)
qed

lemma private_step_tree:
  assumes s: "space_ok pc m KT lv out s" and p: "p \<notin> out \<union> KT"
    and tbl: "tbl \<in> tables s" "lv tbl = Suc n" "1 \<le> n" "i < 512" "\<And>f. branch pc m tbl i = Some f \<Longrightarrow> f \<notin> set (private_tables s)"
    and same: "\<And>g. g \<in> tables s \<Longrightarrow> g \<noteq> tbl \<Longrightarrow> same_frame m m4 g" "\<And>j. j < 512 \<Longrightarrow> j \<noteq> i \<Longrightarrow> get_entry m4 tbl j = get_entry m tbl j"
    and e: "branch pc m4 tbl i = Some p" "pc_flags pc (get_entry m4 tbl i) AND user_branch = user_branch"
    and pts: "\<And>j. j < 512 \<Longrightarrow> n > 1 \<Longrightarrow> points pc m4 (lv(p := n)) KT p j"
  shows "private_kept pc lv s m m4"
    "tree_ok pc m lv s \<Longrightarrow> tree_ok pc m4 (lv(p := n)) (s\<lparr>private_tables := private_tables s @ [p]\<rparr>)"
proof -
  have out: "tables s \<subseteq> out" "set (private_tables s) \<inter> KT = {}" using s by (auto simp: space_ok_def tables_def owned_def)
  have ent: "get_entry m4 t j = get_entry m t j" if "t \<in> tables s" "j < 512" "t \<noteq> tbl \<or> j \<noteq> i" for t j
    using that same(2) get_entry_cong [OF same(1)] by (cases "t = tbl") auto
  show "private_kept pc lv s m m4"
    unfolding private_kept_def using ent tbl(2,3,5) by fastforce
  let ?s = "s\<lparr>private_tables := private_tables s @ [p]\<rparr>" and ?lv = "lv(p := n)"
  have cls: "t = tbl \<and> j = i \<and> f = p \<or> t \<in> tables s \<and> f \<in> set (private_tables s) \<and> lv t > 1 \<and> branch pc m t j = Some f \<and> get_entry m4 t j = get_entry m t j"
    if t: "t \<in> tables ?s" "?lv t > 1" "j < 512" "f \<in> set (private_tables ?s)" "branch pc m4 t j = Some f" for t j f
  proof -
    consider "t = p" | "t = tbl \<and> j = i" | "t \<in> tables s" "t \<noteq> p" "t \<noteq> tbl \<or> j \<noteq> i" using t(1) by (auto simp: tables_def)
    then show ?thesis
    proof cases
      case 1
      then have "f \<in> KT" using points_branch [OF pts t(5) [unfolded 1]] t(2,3) by simp
      then show ?thesis using t(4) p out(2) by auto
    next
      case 2
      then show ?thesis using e(1) t(5) by simp
    next
      case 3
      then have en: "get_entry m4 t j = get_entry m t j" using ent t(3) by blast
      then have b: "branch pc m t j = Some f" using t(5) branch_cong [OF en] by metis
      have l: "lv t > 1" using t(2) 3(2) by simp
      then have "points pc m lv (KT \<union> set (private_tables s)) t j" using s 3(1) t(3) by (auto simp: space_ok_def)
      from points_branch [OF this b] have "f \<noteq> p" using p out by (auto simp: tables_def)
      then show ?thesis using t(4) 3(1) l b en by simp
    qed
  qed
  assume tr: "tree_ok pc m lv s"
  have pp: "p \<notin> set (private_tables s)" using p out(1) by (auto simp: tables_def)
  show "tree_ok pc m4 ?lv ?s"
    unfolding tree_ok_def
  proof (intro ballI allI impI conjI)
    fix t j f assume t: "t \<in> tables ?s" "j < (512 :: nat)" "f \<in> set (private_tables ?s)" "1 < ?lv t" "branch pc m4 t j = Some f"
    note c = cls [OF t(1,4,2,3,5)]
    show "pc_flags pc (get_entry m4 t j) AND user_branch = user_branch"
      using c e(2) tr t(2) unfolding tree_ok_def by metis
    fix u k assume u: "u \<in> tables ?s" "k < (512 :: nat)" "1 < ?lv u" "branch pc m4 u k = Some f"
    note d = cls [OF u(1,3,2) t(3) u(4)]
    show "u = t" "k = j" using c d pp tr t(2) u(2) unfolding tree_ok_def by metis+
  qed
qed

lemma private_kept_refl [simp]: "private_kept pc lv s m m"
  by (simp add: private_kept_def)

lemma private_kept_mem: "(\<And>t. t \<in> tables s \<Longrightarrow> same_frame m m' t) \<Longrightarrow> private_kept pc lv s m m'"
  unfolding private_kept_def using get_entry_cong by blast

lemma private_kept_trans:
  assumes "private_kept pc lv s m m1" "private_kept pc lv1 s1 m1 m2"
    and "set (private_tables s) \<subseteq> set (private_tables s1)" "root_frame s1 = root_frame s" "\<And>t. t \<in> tables s \<Longrightarrow> lv1 t = lv t"
  shows "private_kept pc lv s m m2"
  unfolding private_kept_def
proof (intro ballI allI impI)
  fix t i assume t: "t \<in> tables s" "i < (512 :: nat)" and c: "lv t = 1 \<or> (\<exists>f \<in> set (private_tables s). branch pc m t i = Some f)"
  from assms(1) t c have e: "get_entry m1 t i = get_entry m t i" unfolding private_kept_def by blast
  have "lv1 t = 1 \<or> (\<exists>f \<in> set (private_tables s1). branch pc m1 t i = Some f)" using c branch_cong [OF e] assms(3,5) t(1) by auto
  moreover have "t \<in> tables s1" using t(1) assms(3,4) by (auto simp: tables_def)
  ultimately have "get_entry m2 t i = get_entry m1 t i" using assms(2) t(2) unfolding private_kept_def by blast
  with e show "get_entry m2 t i = get_entry m t i" by simp
qed

text \<open>After the loop: the tables \<open>new\<close> were added, every other frame in use keeps its contents,
  except the tables of this address space at the level of \<open>tbl\<close> or below.\<close>

definition path_post ::
    "paging_crate \<Rightarrow> nat set \<Rightarrow> machine \<Rightarrow> address_space \<Rightarrow> nat set \<Rightarrow> (nat \<Rightarrow> nat) \<Rightarrow> nat
      \<Rightarrow> machine \<Rightarrow> address_space \<Rightarrow> nat list \<Rightarrow> (nat \<Rightarrow> nat) \<Rightarrow> bool" where
  "path_post pc KT m s out lv level m' s' new lv' \<longleftrightarrow>
     s' = s\<lparr>private_tables := private_tables s @ new\<rparr> \<and> set new \<inter> (out \<union> KT) = {}
     \<and> machine_ok m' KT (out \<union> set new) \<and> kernel_ok pc m' KT lv' \<and> space_ok pc m' KT lv' (out \<union> set new) s'
     \<and> (\<forall>g \<in> out \<union> KT. lv' g = lv g \<and> (g \<notin> tables s \<or> lv g > level \<longrightarrow> same_frame m m' g))
     \<and> phys_offset m' = phys_offset m \<and> kernel_root_frame m' = kernel_root_frame m"

lemma path_post_refl:
  "machine_ok m KT out \<Longrightarrow> kernel_ok pc m KT lv \<Longrightarrow> space_ok pc m KT lv out s \<Longrightarrow> path_post pc KT m s out lv k m s [] lv"
  by (simp add: path_post_def)

lemma path_post_level:
  "path_post pc KT m s out lv k m' s' new lv' \<Longrightarrow> k \<le> k' \<Longrightarrow> path_post pc KT m s out lv k' m' s' new lv'"
  by (auto simp: path_post_def)

lemma private_path_ok:
  assumes "crate_ok pc" "machine_ok m KT out" "kernel_ok pc m KT lv" "space_ok pc m KT lv out s"
    and "tbl \<in> tables s" "lv tbl = Suc (length idxs)" "\<forall>i \<in> set idxs. i < 512"
    and "private_path pc m s tbl idxs = (m', s', r)"
  shows "\<exists>new lv'. path_post pc KT m s out lv (lv tbl) m' s' new lv' \<and> private_kept pc lv s m m'
    \<and> (tree_ok pc m lv s \<longrightarrow> tree_ok pc m' lv' s')
    \<and> (r = None \<longrightarrow> (\<exists>t. table_walk pc m' tbl idxs = Some t \<and> t \<in> tables s' \<and> lv' t = 1))"
  using assms(2-8)
proof (induction idxs arbitrary: m s tbl out lv)
  case Nil
  then show ?case using path_post_refl [OF Nil.prems(1-3), of "lv tbl"] by auto
next
  case (Cons i rest)
  define e where "e = get_entry m tbl i"
  define old where "old = (if pc_unused pc e then None else pc_frame pc e)"
  have tout: "tables s \<subseteq> out" using Cons.prems(3) by (auto simp: space_ok_def tables_def owned_def)
  note stop = path_post_refl [OF Cons.prems(1-3), of "lv tbl"]
  show ?case
  proof (cases "pc_flags pc e AND HUGE \<noteq> 0 \<or> \<not> pc_unused pc e \<and> pc_frame pc e = None")
    case True
    then have "m' = m \<and> s' = s \<and> r = Some InvalidAddress"
      using Cons.prems(7) by (auto simp: Let_def e_def split: if_splits)
    with stop show ?thesis by auto
  next
    case False
    then have e: "pc_flags pc e AND HUGE = 0" "\<not> pc_unused pc e \<Longrightarrow> pc_frame pc e \<noteq> None" by auto
    show ?thesis
    proof (cases "old \<noteq> None \<and> the old \<in> set (private_tables s)")
      case True
      then obtain f where f: "old = Some f" "f \<in> set (private_tables s)" "\<not> pc_unused pc e" "pc_frame pc e = Some f"
        by (auto simp: old_def split: if_splits)
      have run: "private_path pc m s f rest = (m', s', r)"
        using Cons.prems(7) f e by (simp add: Let_def e_def [symmetric])
      have "points pc m lv (KT \<union> set (private_tables s)) tbl i"
        using Cons.prems(3,4,5,6) by (auto simp: space_ok_def)
      with f e(1) Cons.prems(5) have lf: "lv f = Suc (length rest)" by (simp add: points_def Let_def e_def [symmetric])
      from f have "f \<in> tables s" by (simp add: tables_def)
      from Cons.IH [OF Cons.prems(1-3) this lf _ run] Cons.prems(6) obtain new lv' where
        post: "path_post pc KT m s out lv (lv f) m' s' new lv'" "private_kept pc lv s m m'" "tree_ok pc m lv s \<longrightarrow> tree_ok pc m' lv' s'"
          "r = None \<Longrightarrow> \<exists>t. table_walk pc m' f rest = Some t \<and> t \<in> tables s' \<and> lv' t = 1" by auto
      have "same_frame m m' tbl" using post(1) Cons.prems(4,5) tout lf by (auto simp: path_post_def)
      then have "get_entry m' tbl i = e" unfolding e_def using Cons.prems(6) by (intro get_entry_cong) auto
      then have walk: "table_walk pc m' tbl (i # rest) = table_walk pc m' f rest" using f(3,4) e(1) by simp
      from path_post_level [OF post(1), of "lv tbl"] lf Cons.prems(5)
      have "path_post pc KT m s out lv (lv tbl) m' s' new lv'" by simp
      with post(2-4) show ?thesis unfolding walk by blast
    next
      case np: False
      from e have c: "(pc_flags pc e AND HUGE \<noteq> 0) = False" "(\<not> pc_unused pc e \<and> pc_frame pc e = None) = False" by auto
      from np have c3: "(old \<noteq> None \<and> the old \<in> set (private_tables s)) = False" by blast
      note run = Cons.prems(7) [unfolded private_path.simps Let_def e_def [symmetric] c if_False old_def [symmetric] c3]
      show ?thesis
      proof (cases "new_frame m")
        case (Pair q m1)
        show ?thesis
        proof (cases q)
          case None
          then have "m' = m1 \<and> s' = s \<and> r = Some OutOfFrames" using run Pair by auto
          moreover note new_frame_None [OF Cons.prems(1) Pair [unfolded None]]
          ultimately show ?thesis using stop unfolding path_post_def
            by (intro exI [of _ "[]"] exI [of _ lv])
              (auto simp: same_frame_def intro: kernel_ok_cong space_ok_mem private_kept_mem tree_ok_mem)
        next
          case (Some p)
          define m3 where "m3 = (case old of None \<Rightarrow> zero_frame m1 p | Some f \<Rightarrow> copy_bytes (zero_frame m1 p) f p frame_size)"
          define m4 where "m4 = set_entry m3 tbl i (pc_make pc p (pc_flags pc e OR PRESENT OR WRITABLE OR USER))"
          let ?s = "s\<lparr>private_tables := private_tables s @ [p]\<rparr>" and ?lv = "lv(p := Suc (length rest))"
          note new = new_frame_Some [OF Cons.prems(1) Pair [unfolded Some]]
          have i: "i < 512" "lv tbl = Suc (Suc (length rest))" "1 \<le> Suc (length rest)" using Cons.prems(5,6) by auto
          have nf: "\<And>f. old = Some f \<Longrightarrow> f \<notin> set (private_tables s)" using np by auto
          note step = private_step [OF assms(1) Cons.prems(1-4) i(2,3,1) e_def e(1) old_def e(2) nf Pair [unfolded Some] m3_def m4_def]
          have "phys_offset (zero_frame m1 p) \<noteq> None" using new Cons.prems(1) by (auto simp: machine_ok_def)
          then have run: "private_path pc m4 ?s p rest = (m', s', r)"
            using run Pair Some by (cases old) (auto simp: m4_def m3_def copy_frame_contents_def)
          have "p \<in> tables ?s" "?lv p = Suc (length rest)" by (simp_all add: tables_def)
          moreover have "\<forall>i \<in> set rest. i < 512" using Cons.prems(6) by simp
          ultimately obtain new1 lv' where
            post: "path_post pc KT m4 ?s (insert p out) ?lv (?lv p) m' s' new1 lv'" "private_kept pc ?lv ?s m4 m'"
              "tree_ok pc m4 ?lv ?s \<longrightarrow> tree_ok pc m' lv' s'"
              "r = None \<Longrightarrow> \<exists>t. table_walk pc m' p rest = Some t \<and> t \<in> tables s' \<and> lv' t = 1"
            using Cons.IH [OF step(1-3) _ _ _ run] by blast
          have neq: "p \<noteq> tbl" "p \<notin> out" "p \<notin> KT" using new Cons.prems(4) tout by auto
          have br: "branch pc m4 tbl i = Some p" "pc_flags pc (get_entry m4 tbl i) AND user_branch = user_branch"
            using branch_flags [OF assms(1) _ _ e(1), of p] new step(5) by (auto simp: branch_def Let_def)
          have nb: "f \<notin> set (private_tables s)" if "branch pc m tbl i = Some f" for f
            using that nf by (auto simp: branch_def Let_def old_def e_def split: if_splits)
          have po: "p \<notin> out \<union> KT" and sm: "\<And>g. g \<in> tables s \<Longrightarrow> g \<noteq> tbl \<Longrightarrow> same_frame m m4 g" using neq step(4) tout by auto
          have oe: "\<And>j. j < 512 \<Longrightarrow> j \<noteq> i \<Longrightarrow> get_entry m4 tbl j = get_entry m tbl j"
            and pk: "\<And>j. j < 512 \<Longrightarrow> Suc (length rest) > 1 \<Longrightarrow> points pc m4 ?lv KT p j" using step(7,8) by blast+
          note st = private_step_tree [of pc m KT lv out s p tbl "Suc (length rest)" i m4, OF Cons.prems(3) po Cons.prems(4) i(2,3,1) nb sm oe br pk]
          have "same_frame m4 m' tbl" using post(1) Cons.prems(4) i(2) tout neq by (auto simp: path_post_def)
          then have "get_entry m' tbl i = get_entry m4 tbl i" using i(1) by (rule get_entry_cong)
          then have walk: "table_walk pc m' tbl (i # rest) = table_walk pc m' p rest"
            using step(5) branch_flags [OF assms(1) _ _ e(1), of p] new by auto
          have "same_frame m m' g" if g: "g \<in> out \<union> KT" "g \<notin> tables s \<or> lv g > lv tbl" for g
          proof -
            have "g \<noteq> tbl" "g \<noteq> p" using g neq Cons.prems(4) by auto
            moreover from this g i(2) have "g \<notin> tables ?s \<or> ?lv g > ?lv p" by (auto simp: tables_def)
            ultimately have "same_frame m m4 g" "same_frame m4 m' g"
              using g(1) step(4) [of g] post(1) unfolding path_post_def by blast+
            then show ?thesis by (rule same_frame_trans)
          qed
          moreover have "lv' g = lv g" if "g \<in> out \<union> KT" for g using that post(1) neq by (auto simp: path_post_def)
          ultimately have "path_post pc KT m s out lv (lv tbl) m' s' (p # new1) lv'"
            using post(1) neq step(6) unfolding path_post_def by auto
          moreover have "private_kept pc lv s m m'"
            using neq tout by (intro private_kept_trans [OF st(1) post(2)]) auto
          ultimately show ?thesis using post(3,4) st(2) unfolding walk by blast
        qed
      qed
    qed
  qed
qed

section \<open>Mapping a page\<close>

lemma path_indices_less: "\<forall>i \<in> set (path_indices page). i < 512"
  by (simp add: path_indices_def p4_index_def p3_index_def p2_index_def)

lemma table_walk_cong:
  assumes "kernel_ok pc m KT lv" "space_ok pc m KT lv out s" "\<And>t. t \<in> tables s \<union> KT \<Longrightarrow> lv t > 1 \<Longrightarrow> same_frame m m' t"
    and "tbl \<in> tables s \<union> KT" "lv tbl = Suc (length idxs)" "\<forall>i \<in> set idxs. i < 512"
  shows "table_walk pc m' tbl idxs = table_walk pc m tbl idxs"
  using assms(4-6)
proof (induction idxs arbitrary: tbl)
  case (Cons i rest)
  have "get_entry m' tbl i = get_entry m tbl i" using assms(3) [of tbl] Cons.prems by (intro get_entry_cong) auto
  moreover have "points pc m lv (KT \<union> set (private_tables s)) tbl i"
  proof (cases "tbl \<in> KT")
    case True
    with assms(1) Cons.prems have "points pc m lv KT tbl i" by (simp add: kernel_ok_def)
    then show ?thesis by (auto simp: points_def Let_def)
  qed (use assms(2) Cons.prems in \<open>simp add: space_ok_def\<close>)
  then have "f \<in> tables s \<union> KT \<and> lv f = Suc (length rest)"
    if "\<not> pc_unused pc (get_entry m tbl i)" "pc_flags pc (get_entry m tbl i) AND HUGE = 0" "pc_frame pc (get_entry m tbl i) = Some f" for f
    using that Cons.prems(2) by (auto simp: points_def Let_def tables_def)
  ultimately show ?case using Cons.IH Cons.prems(3) by (auto simp: Let_def split: option.split)
qed simp

lemma only_table_same: "only_table m m' t \<Longrightarrow> t mod frame_size = 0 \<Longrightarrow> g mod frame_size = 0 \<Longrightarrow> g \<noteq> t \<Longrightarrow> same_frame m m' g"
  using in_frame_unique [of g t] by (auto simp: only_table_def same_frame_def)

lemma only_table_trans: "only_table m m' t \<Longrightarrow> only_table m' m'' t \<Longrightarrow> only_table m m'' t"
  by (auto simp: only_table_def)

lemma only_table_fields:
  "only_table m m' t \<Longrightarrow> m_alloc m' = m_alloc m \<and> phys_offset m' = phys_offset m \<and> kernel_root_frame m' = kernel_root_frame m"
  by (auto simp: only_table_def)

lemma only_table_ok:
  assumes "machine_ok m KT out" "kernel_ok pc m KT lv" "space_ok pc m KT lv out s" "t \<in> tables s" "lv t = 1" "only_table m m' t"
  shows "machine_ok m' KT out \<and> kernel_ok pc m' KT lv \<and> space_ok pc m' KT lv out s"
proof -
  have t: "t \<in> out" "t \<notin> KT" using assms(3,4) by (auto simp: space_ok_def tables_def owned_def)
  have tout: "tables s \<subseteq> out" using assms(3) by (auto simp: space_ok_def tables_def owned_def)
  have same: "same_frame m m' g" if "g \<in> out \<union> KT" "g \<noteq> t" for g
    using only_table_same [OF assms(6) machine_ok_aligned [OF assms(1)] machine_ok_aligned [OF assms(1)], of g] that t(1) by simp
  have "kernel_ok pc m' KT lv" by (rule kernel_ok_cong [OF assms(2)]) (use same t in auto)
  moreover have "space_ok pc m' KT lv out s"
  proof (rule space_ok_mem [OF assms(3)])
    fix g assume "g \<in> tables s" "lv g > 1"
    with tout assms(5) have "g \<in> out \<union> KT" "g \<noteq> t" by auto
    then show "same_frame m m' g" by (rule same)
  qed
  moreover have "machine_ok m' KT out" using assms(1) only_table_fields [OF assms(6)] machine_ok_cong [of m' m] by simp
  ultimately show ?thesis by simp
qed

lemma only_table_set_entry: "i < 512 \<Longrightarrow> only_table m (set_entry m t i e) t"
  by (auto simp: only_table_def set_entry_def in_frame_def)

lemma only_table_refl: "only_table m m t"
  unfolding only_table_def by (metis machine.surjective machine.update_convs(4))

lemma only_table_walk:
  assumes "machine_ok m KT out" "kernel_ok pc m KT lv" "space_ok pc m KT lv out s" "tree_ok pc m lv s"
    and "table_walk pc m (root_frame s) (path_indices page) = Some u" "u \<in> tables s" "t \<in> tables s" "lv t = 1" "only_table m m' t"
  shows "table_walk pc m' (root_frame s) (path_indices page) = Some u" "path_has pc m' user_branch (root_frame s) (path_indices page)"
    "tree_ok pc m' lv s"
proof -
  have "tables s \<subseteq> out" using assms(3) by (auto simp: space_ok_def tables_def owned_def)
  then have al: "g mod frame_size = 0" if "g \<in> tables s \<union> KT" for g
    using that machine_ok_aligned [OF assms(1), of g] by blast
  have sm: "same_frame m m' g" if "g \<in> tables s \<union> KT" "lv g > 1" for g
    using only_table_same [OF assms(9) al al, of g] that assms(7,8) by (cases "g = t") auto
  have rt: "root_frame s \<in> tables s" "lv (root_frame s) = Suc (length (path_indices page))"
    using assms(3) by (simp_all add: space_ok_def tables_def path_indices_def)
  show w: "table_walk pc m' (root_frame s) (path_indices page) = Some u"
    using table_walk_cong [OF assms(2,3) sm _ rt(2) path_indices_less] rt(1) assms(5) by simp
  show tr: "tree_ok pc m' lv s" using tree_ok_mem [OF assms(4)] sm by blast
  note ok = only_table_ok [OF assms(1-3,7-9)]
  then show "path_has pc m' user_branch (root_frame s) (path_indices page)"
    using tree_path [OF _ _ tr rt path_indices_less w assms(6)] by blast
qed

lemma map_leaf_eq:
  assumes "crate_ok pc" "machine_ok m KT out" "kernel_ok pc m KT lv" "space_ok pc m KT lv out s" "tree_ok pc m lv s"
    and "table_walk pc m (root_frame s) (path_indices page) = Some t" "t \<in> tables s" "lv t = 1"
  defines "e \<equiv> get_entry m t (p1_index page)"
  shows "map_leaf pc m (root_frame s) page f fl =
     (if pc_unused pc e then (set_entry m t (p1_index page) (pc_make pc f fl), True)
      else if pc_frame pc e = None then (m, False)
      else (set_entry (set_entry m t (p1_index page) 0) t (p1_index page) (pc_make pc f fl), True))"
proof -
  let ?i = "p1_index page" and ?r = "root_frame s"
  have crate: "pc_map_to pc m0 ?r page f fl user_branch =
       (if pc_unused pc (get_entry m0 t ?i) then (set_entry m0 t ?i (pc_make pc f fl), True) else (m0, False))"
     "pc_unmap pc m0 ?r page = (if pc_frame pc (get_entry m0 t ?i) = None then (m0, False) else (set_entry m0 t ?i 0, True))"
    if "only_table m m0 t" for m0
    using assms(1) only_table_walk(1,2) [OF assms(2-7,7,8) that] unfolding crate_ok_def by blast+
  have z: "only_table m (set_entry m t ?i 0) t" by (rule only_table_set_entry) (simp add: p1_index_def)
  have u0: "pc_unused pc 0" using assms(1) by (simp add: crate_ok_def)
  show ?thesis
    unfolding map_leaf_def Let_def user_branch_def [symmetric] crate [OF only_table_refl] e_def
    using crate(1) [OF z] u0 crate(2) [OF only_table_refl] by (simp add: get_set_entry_same)
qed

lemma map_leaf_entry:
  assumes "crate_ok pc" "machine_ok m KT out" "kernel_ok pc m KT lv" "space_ok pc m KT lv out s" "tree_ok pc m lv s"
    and "table_walk pc m (root_frame s) (path_indices page) = Some t" "t \<in> tables s" "lv t = 1"
    and "map_leaf pc m (root_frame s) page f fl = (m', b)"
  shows "only_table m m' t" "j \<noteq> p1_index page \<Longrightarrow> get_entry m' t j = get_entry m t j"
    "b \<Longrightarrow> get_entry m' t (p1_index page) = pc_make pc f fl"
proof -
  let ?i = "p1_index page"
  have p1: "?i < 512" by (simp add: p1_index_def)
  have r: "m' = m \<and> \<not> b \<or> (\<exists>m1. (m1 = m \<or> m1 = set_entry m t ?i 0) \<and> m' = set_entry m1 t ?i (pc_make pc f fl))"
    using assms(9) unfolding map_leaf_eq [OF assms(1-8)] by (auto split: if_splits)
  show "only_table m m' t" using r only_table_refl only_table_trans [OF only_table_set_entry [OF p1]] only_table_set_entry [OF p1] by blast
  show "j \<noteq> ?i \<Longrightarrow> get_entry m' t j = get_entry m t j" using r by (auto simp: get_set_entry_other)
  show "b \<Longrightarrow> get_entry m' t ?i = pc_make pc f fl" using r by (auto simp: get_set_entry_same)
qed

text \<open>Pages are aligned canonical addresses; the indices tell them apart.\<close>

definition is_page :: "nat \<Rightarrow> bool" where
  "is_page pg \<longleftrightarrow> pg mod frame_size = 0 \<and> canonical pg"

lemma page_unique:
  assumes "is_page a" "is_page b" "path_indices a = path_indices b" "p1_index a = p1_index b" shows "a = b"
proof -
  have ix: "x div 2 ^ 12 mod 2 ^ 36 = p1_index x + 512 * (p2_index x + 512 * (p3_index x + 512 * p4_index x))" for x
  proof -
    have "y mod 2 ^ 36 = y mod 512 + 512 * (y div 512 mod 512 + 512 * (y div 512 div 512 mod 512 + 512 * (y div 512 div 512 div 512 mod 512)))" for y :: nat
      using mod_mult2_eq [of y 512 "512 * (512 * 512)"] mod_mult2_eq [of "y div 512" 512 "512 * 512"] mod_mult2_eq [of "y div 512 div 512" 512 512] by simp
    moreover have "x div 2 ^ 21 = x div 2 ^ 12 div 512" "x div 2 ^ 30 = x div 2 ^ 12 div 512 div 512" "x div 2 ^ 39 = x div 2 ^ 12 div 512 div 512 div 512"
      by (simp_all add: div_mult2_eq [symmetric])
    ultimately show ?thesis by (simp add: p1_index_def p2_index_def p3_index_def p4_index_def)
  qed
  have m: "a div 2 ^ 12 mod 2 ^ 36 = b div 2 ^ 12 mod 2 ^ 36" unfolding ix using assms(3,4) by (simp add: path_indices_def)
  have "x div 2 ^ 12 = (if x div 2 ^ 12 mod 2 ^ 36 < 2 ^ 35 then x div 2 ^ 12 mod 2 ^ 36 else 2 ^ 52 - 2 ^ 36 + x div 2 ^ 12 mod 2 ^ 36)" if "canonical x" for x
  proof (cases "x < 2 ^ 47")
    case True
    then have "x div 2 ^ 12 < 2 ^ 35" by simp
    then show ?thesis by simp
  next
    case False
    with that have "2 ^ 52 - 2 ^ 35 \<le> x div 2 ^ 12" "x div 2 ^ 12 < 2 ^ 52"
      by (simp_all add: canonical_def less_eq_div_iff_mult_less_eq div_less_iff_less_mult)
    moreover from this have "x div 2 ^ 12 mod 2 ^ 36 = x div 2 ^ 12 - (2 ^ 52 - 2 ^ 36)" by (intro mod_nat_eqI) auto
    ultimately show ?thesis by simp
  qed
  with m assms(1,2) have "a div 2 ^ 12 = b div 2 ^ 12" unfolding is_page_def by metis
  moreover have "x = x div 2 ^ 12 * 2 ^ 12" if "is_page x" for x using that by (auto simp: is_page_def)
  ultimately show ?thesis using assms(1,2) by metis
qed

lemma walk_level:
  assumes "kernel_ok pc m KT lv" "space_ok pc m KT lv out s" "table_walk pc m (root_frame s) (path_indices pg) = Some t" "t \<in> tables s"
  shows "lv t = 1 \<and> t \<in> set (private_tables s)"
proof -
  have l: "lv (root_frame s) = 4" "root_frame s \<in> tables s \<union> KT" using assms(2) by (simp_all add: space_ok_def tables_def)
  have n: "length (path_indices pg) = 3" by (simp add: path_indices_def)
  from table_walk_prefix [OF assms(2,1) l(2) _ path_indices_less assms(3,4), of 3] l(1) n have "lv t = 1" using assms(3) by auto
  with l(1) assms(4) show ?thesis by (auto simp: tables_def)
qed

lemma shows_kept:
  assumes "kernel_ok pc m KT lv" "space_ok pc m KT lv out s" "private_kept pc lv s m m'"
    and "set (private_tables s) \<subseteq> set (private_tables s')" "root_frame s' = root_frame s" "shows_page pc m s pg f fl"
  shows "shows_page pc m' s' pg f fl"
proof -
  from assms(6) obtain t where t: "t \<in> set (private_tables s)" "table_walk pc m (root_frame s) (path_indices pg) = Some t"
    "path_has pc m user_branch (root_frame s) (path_indices pg)" "get_entry m t (p1_index pg) = pc_make pc f fl" by (auto simp: shows_page_def)
  then have tt: "t \<in> tables s" by (simp add: tables_def)
  have rt: "root_frame s \<in> tables s" "lv (root_frame s) = Suc (length (path_indices pg))"
    using assms(2) by (simp_all add: space_ok_def tables_def path_indices_def)
  note w = walk_kept [OF assms(2,1,3) rt path_indices_less t(2) tt]
  have "get_entry m' t (p1_index pg) = get_entry m t (p1_index pg)"
    using assms(3) walk_level [OF assms(1,2) t(2) tt] tt unfolding private_kept_def by (simp add: p1_index_def)
  then show ?thesis unfolding shows_page_def assms(5) using w t assms(4) by auto
qed

lemma leaf_shows:
  assumes ok: "crate_ok pc" "machine_ok m KT out" "kernel_ok pc m KT lv" "space_ok pc m KT lv out s" "tree_ok pc m lv s"
    and t: "table_walk pc m (root_frame s) (path_indices page) = Some t" "t \<in> tables s" "lv t = 1"
    and run: "map_leaf pc m (root_frame s) page f fl = (m', b)"
  shows "b \<Longrightarrow> shows_page pc m' s page f fl"
    "is_page page \<Longrightarrow> is_page pg \<Longrightarrow> pg \<noteq> page \<Longrightarrow> shows_page pc m s pg g gl \<Longrightarrow> shows_page pc m' s pg g gl"
proof -
  note leaf = map_leaf_entry [OF ok t run]
  note w = only_table_walk [OF ok(2-5) t(1,2,2,3) leaf(1)]
  show "b \<Longrightarrow> shows_page pc m' s page f fl"
    using w leaf(3) walk_level [OF ok(3,4) t(1,2)] by (auto simp: shows_page_def)
  assume pg: "is_page page" "is_page pg" "pg \<noteq> page" "shows_page pc m s pg g gl"
  then obtain u where u: "u \<in> set (private_tables s)" "table_walk pc m (root_frame s) (path_indices pg) = Some u"
    "get_entry m u (p1_index pg) = pc_make pc g gl" by (auto simp: shows_page_def)
  then have ut: "u \<in> tables s" by (simp add: tables_def)
  have l: "lv u = 1" using walk_level [OF ok(3,4) u(2) ut] by simp
  have al: "x mod frame_size = 0" if "x \<in> tables s" for x
    using that ok(4) machine_ok_aligned [OF ok(2)] tables_owned by (fastforce simp: space_ok_def)
  have rt: "root_frame s \<in> tables s" "\<And>pg. lv (root_frame s) = Suc (length (path_indices pg))"
    using ok(4) by (simp_all add: space_ok_def tables_def path_indices_def)
  have "get_entry m' u (p1_index pg) = get_entry m u (p1_index pg)"
  proof (cases "u = t")
    case True
    have "path_indices pg = path_indices page"
      using walk_inj [OF ok(4,3,5) t(2) _ rt path_indices_less _ rt path_indices_less t(1)] u(2) True by (simp add: path_indices_def)
    then have "p1_index pg \<noteq> p1_index page" using page_unique pg(1-3) by blast
    then show ?thesis using leaf(2) True by simp
  next
    case False
    then show ?thesis using only_table_same [OF leaf(1) al [OF t(2)] al [OF ut]] by (intro get_entry_cong) (simp_all add: p1_index_def)
  qed
  moreover have "table_walk pc m' (root_frame s) (path_indices pg) = Some u \<and> path_has pc m' user_branch (root_frame s) (path_indices pg)"
    using only_table_walk [OF ok(2-5) u(2) ut t(2,3) leaf(1)] by blast
  ultimately show "shows_page pc m' s pg g gl" unfolding shows_page_def using u by auto
qed

text \<open>An operation on an address space that takes the frames \<open>new\<close>.\<close>

definition space_step ::
    "paging_crate \<Rightarrow> nat set \<Rightarrow> machine \<Rightarrow> address_space \<Rightarrow> nat set \<Rightarrow> (nat \<Rightarrow> nat)
      \<Rightarrow> machine \<Rightarrow> address_space \<Rightarrow> nat set \<Rightarrow> (nat \<Rightarrow> nat) \<Rightarrow> bool" where
  "space_step pc KT m s out lv m' s' new lv' \<longleftrightarrow>
     new \<inter> (out \<union> KT) = {} \<and> set (owned s') = set (owned s) \<union> new \<and> root_frame s' = root_frame s \<and> tables s' \<subseteq> tables s \<union> new
     \<and> machine_ok m' KT (out \<union> new) \<and> kernel_ok pc m' KT lv' \<and> space_ok pc m' KT lv' (out \<union> new) s'
     \<and> (\<forall>g \<in> out \<union> KT. lv' g = lv g \<and> (g \<notin> tables s \<longrightarrow> same_frame m m' g))
     \<and> phys_offset m' = phys_offset m \<and> kernel_root_frame m' = kernel_root_frame m"

lemma space_ok_out: "space_ok pc m KT lv out s \<Longrightarrow> out \<subseteq> out' \<Longrightarrow> space_ok pc m KT lv out' s"
  by (auto simp: space_ok_def)

lemma leaf_flags_idem: "leaf_flags (leaf_flags fl) = leaf_flags fl"
proof -
  have "(fl OR USER OR PRESENT) AND NO_ACCESS = (fl OR USER) AND NO_ACCESS"
    by (simp add: bit.conj_disj_distrib2 PRESENT_def NO_ACCESS_def)
  then show ?thesis by (simp add: leaf_flags_def Let_def or.assoc or.commute or.left_commute)
qed

lemma space_ok_push:
  assumes "space_ok pc m KT lv out s" "f \<in> out - KT" "f \<notin> set (owned s)"
  shows "space_ok pc m KT lv out (s\<lparr>mappings := mappings s @ [\<lparr>mp_page = page, mp_frame = f, mp_flags = leaf_flags fl\<rparr>]\<rparr>)"
  using assms by (auto simp: space_ok_def owned_def tables_def leaf_flags_idem)

lemma make_path_ok:
  assumes "crate_ok pc" "machine_ok m KT out" "kernel_ok pc m KT lv" "space_ok pc m KT lv out s"
    and "make_user_path_private pc m s page = (m', s', r)"
  shows "\<exists>new lv'. path_post pc KT m s out lv 4 m' s' new lv' \<and> private_kept pc lv s m m' \<and> (tree_ok pc m lv s \<longrightarrow> tree_ok pc m' lv' s')
    \<and> (r = None \<longrightarrow> (\<exists>t. table_walk pc m' (root_frame s) (path_indices page) = Some t \<and> t \<in> tables s' \<and> lv' t = 1))"
proof -
  from assms(2,5) have run: "private_path pc m s (root_frame s) (path_indices page) = (m', s', r)"
    by (auto simp: make_user_path_private_def path_indices_def machine_ok_def)
  have l: "lv (root_frame s) = 4" "lv (root_frame s) = Suc (length (path_indices page))" "root_frame s \<in> tables s"
    using assms(4) by (simp_all add: space_ok_def tables_def path_indices_def)
  from private_path_ok [OF assms(1-4) l(3,2) path_indices_less run] show ?thesis unfolding l(1) .
qed

lemma path_post_step:
  assumes "path_post pc KT m s out lv k m' s' new lv'" shows "space_step pc KT m s out lv m' s' (set new) lv'"
  using assms by (auto simp: path_post_def space_step_def owned_def tables_def)

lemma release_same:
  "get_entry (release_frame m f) t i = get_entry m t i" "table_walk pc (release_frame m f) t is = table_walk pc m t is"
  "path_has pc (release_frame m f) fl t is = path_has pc m fl t is"
proof -
  show e: "get_entry (release_frame m f) t i = get_entry m t i" for t i by (simp add: get_entry_def)
  show "table_walk pc (release_frame m f) t is = table_walk pc m t is" by (induction "is" arbitrary: t) (auto simp: e Let_def split: option.split)
  show "path_has pc (release_frame m f) fl t is = path_has pc m fl t is" by (induction "is" arbitrary: t) (auto simp: e branch_def Let_def split: option.split)
qed

lemma map_page_ok:
  assumes ok: "crate_ok pc" "machine_ok m KT out" "kernel_ok pc m KT lv" "space_ok pc m KT lv out s" and tree: "tree_ok pc m lv s"
    and run: "map_page pc m s page flags = (m', s', r)"
  shows "\<exists>new lv'. space_step pc KT m s out lv m' s' new lv' \<and> tree_ok pc m' lv' s'
    \<and> (\<forall>pg g gl. is_page page \<and> is_page pg \<and> pg \<noteq> page \<and> shows_page pc m s pg g gl \<longrightarrow> shows_page pc m' s' pg g gl)
    \<and> (case r of Inl _ \<Rightarrow> mappings s' = mappings s
        | Inr f \<Rightarrow> f \<in> new \<and> f \<notin> tables s' \<and> shows_page pc m' s' page f (leaf_flags flags)
            \<and> mappings s' = mappings s @ [\<lparr>mp_page = page, mp_frame = f, mp_flags = leaf_flags flags\<rparr>])"
proof -
  obtain m1 s1 e where path: "make_user_path_private pc m s page = (m1, s1, e)" by (metis prod_cases3)
  from make_path_ok [OF ok path] obtain new lv' where
    post: "path_post pc KT m s out lv 4 m1 s1 new lv'" and pk: "private_kept pc lv s m m1" and tree1: "tree_ok pc m1 lv' s1"
    and walk: "e = None \<Longrightarrow> \<exists>t. table_walk pc m1 (root_frame s) (path_indices page) = Some t \<and> t \<in> tables s1 \<and> lv' t = 1" using tree by blast
  note step1 = path_post_step [OF post]
  let ?out = "out \<union> set new"
  from post have s1: "mappings s1 = mappings s" "root_frame s1 = root_frame s" and ok1: "machine_ok m1 KT ?out" "kernel_ok pc m1 KT lv'"
    "space_ok pc m1 KT lv' ?out s1" by (auto simp: path_post_def)
  have sh1: "shows_page pc m1 s1 pg g gl" if "shows_page pc m s pg g gl" for pg g gl
    using post that by (intro shows_kept [OF ok(3,4) pk]) (auto simp: path_post_def)
  obtain q m2 where q: "new_frame m1 = (q, m2)" by fastforce
  show ?thesis
  proof (cases "e = None \<and> q \<noteq> None")
    case False
    then have r: "s' = s1 \<and> (m' = m1 \<or> q = None \<and> m' = m2) \<and> (\<exists>x. r = Inl x)"
      using run path q by (cases e; cases q) (auto simp: map_page_def)
    have "space_step pc KT m s out lv m' s' (set new) lv' \<and> tree_ok pc m' lv' s'
      \<and> (\<forall>pg g gl. shows_page pc m s pg g gl \<longrightarrow> shows_page pc m' s' pg g gl)"
    proof (cases "m' = m1")
      case False
      with r have "m' = m2" "q = None" by auto
      with new_frame_None [OF ok1(1)] q have m': "machine_ok m' KT ?out" "pmem m' = pmem m1" "phys_offset m' = phys_offset m1"
        "kernel_root_frame m' = kernel_root_frame m1" by auto
      then have sm: "same_frame m1 m' g" for g by (simp add: same_frame_def)
      from step1 show ?thesis using r m' kernel_ok_cong [OF ok1(2) sm] space_ok_mem [OF ok1(3) sm] same_frame_trans [OF _ sm]
          tree_ok_mem [OF tree1 sm] shows_kept [OF ok1(2,3) private_kept_mem [OF sm] subset_refl refl] sh1
        by (auto simp: space_step_def)
    qed (use step1 r tree1 sh1 in simp)
    with r s1 show ?thesis by (intro exI [of _ "set new"] exI [of _ lv']) auto
  next
    case True
    then obtain f where qf: "q = Some f" "e = None" by auto
    note new = new_frame_Some [OF ok1(1) q [unfolded qf(1)]]
    let ?m3 = "zero_frame m2 f"
    have "same_frame m1 ?m3 g" if "g \<in> ?out \<union> KT" for g
      using same_frame_zero [of f g m2] machine_ok_aligned [OF ok1(1) that] new that by (auto simp: same_frame_def)
    then have sm: "\<And>g. g \<in> ?out \<union> KT \<Longrightarrow> same_frame m1 ?m3 g" .
    have t1: "tables s1 \<subseteq> ?out" using ok1(3) tables_owned by (fastforce simp: space_ok_def)
    have ok3: "machine_ok ?m3 KT (insert f ?out)" "kernel_ok pc ?m3 KT lv'" "space_ok pc ?m3 KT lv' (insert f ?out) s1"
      using new machine_ok_cong [of ?m3 m2] kernel_ok_cong [OF ok1(2), of ?m3 lv'] sm
        space_ok_out [OF space_ok_mem [OF ok1(3), of ?m3], of "insert f ?out"] t1 by auto
    from walk [OF qf(2)] obtain t where t: "table_walk pc m1 (root_frame s) (path_indices page) = Some t" "t \<in> tables s1" "lv' t = 1" by blast
    have "table_walk pc ?m3 (root_frame s) (path_indices page) = table_walk pc m1 (root_frame s) (path_indices page)"
      using ok1(3) s1(2) t1 path_indices_less by (intro table_walk_cong [OF ok1(2,3)] sm) (auto simp: space_ok_def tables_def path_indices_def)
    with t(1) s1(2) have w: "table_walk pc ?m3 (root_frame s1) (path_indices page) = Some t" by simp
    have tree3: "tree_ok pc ?m3 lv' s1" using tree_ok_mem [OF tree1, of ?m3] sm t1 by blast
    have sh3: "shows_page pc ?m3 s1 pg g gl" if "shows_page pc m s pg g gl" for pg g gl
      using shows_kept [OF ok1(2,3) private_kept_mem subset_refl refl sh1 [OF that], of ?m3] sm t1 by blast
    obtain m4 b where ml: "map_leaf pc ?m3 (root_frame s1) page f (leaf_flags flags) = (m4, b)" by fastforce
    note ot = map_leaf_entry(1) [OF ok(1) ok3 tree3 w t(2,3) ml]
    note tree4 = only_table_walk(3) [OF ok3 tree3 w t(2,2,3) ot]
    note sh4 = leaf_shows [OF ok(1) ok3 tree3 w t(2,3) ml]
    note ok4 = only_table_ok [OF ok3 t(2,3) ot]
    have fo: "f \<notin> set (owned s1)" "f \<notin> tables s1" using ok1(3) new t1 by (auto simp: space_ok_def)
    have sm4: "same_frame m m4 g" if g: "g \<in> out \<union> KT" "g \<notin> tables s" for g
    proof -
      have "g \<noteq> t" using g t(2) step1 by (auto simp: space_step_def)
      then have "same_frame ?m3 m4 g"
        using only_table_same [OF ot] machine_ok_aligned [OF ok1(1), of t] machine_ok_aligned [OF ok1(1), of g] t(2) t1 g(1) by auto
      moreover have "same_frame m m1 g" using g step1 by (auto simp: space_step_def)
      ultimately show ?thesis using sm [of g] g(1) same_frame_trans by blast
    qed
    have fa: "m_alloc ?m3 \<noteq> None" using ok3(1) by (auto simp: machine_ok_def)
    have fields4: "phys_offset m4 = phys_offset m" "kernel_root_frame m4 = kernel_root_frame m"
      using only_table_fields [OF ot] new step1 by (simp_all add: space_step_def)
    show ?thesis
    proof (cases b)
      case True
      let ?s = "s1\<lparr>mappings := mappings s1 @ [\<lparr>mp_page = page, mp_frame = f, mp_flags = leaf_flags flags\<rparr>]\<rparr>"
      from True run path q qf ml fa have r: "m' = m4" "s' = ?s" "r = Inr f" by (auto simp: map_page_def Let_def)
      have "space_ok pc m4 KT lv' (insert f ?out) ?s" using ok4 new fo(1) by (intro space_ok_push) auto
      moreover have "set (owned ?s) = insert f (set (owned s1))" "tables ?s = tables s1" by (auto simp: owned_def tables_def)
      ultimately have "space_step pc KT m s out lv m4 ?s (insert f (set new)) lv'"
        using step1 ok4 sm4 fields4 new unfolding space_step_def by auto
      moreover have "shows_page pc m4 ?s pg g gl = shows_page pc m4 s1 pg g gl" "tree_ok pc m4 lv' ?s = tree_ok pc m4 lv' s1" for pg g gl
        by (simp_all add: shows_page_def tree_ok_def tables_def)
      ultimately show ?thesis using r fo s1 True tree4 sh4 sh3
        by (intro exI [of _ "insert f (set new)"] exI [of _ lv']) (auto simp: tables_def)
    next
      case False
      from False run path q qf ml fa have r: "m' = release_frame m4 f" "s' = s1" "r = Inl MapFailed"
        by (auto simp: map_page_def Let_def)
      have sm': "same_frame m4 m' g" for g by (simp add: r(1) same_frame_def)
      have "machine_ok m' KT (insert f ?out - {f})" unfolding r(1) using ok4 new by (intro release_frame_ok) auto
      moreover have "insert f ?out - {f} = ?out" using new by auto
      moreover have "space_ok pc m4 KT lv' ?out s1"
        using ok4 fo(1) by (auto simp: space_ok_def)
      ultimately have "space_step pc KT m s out lv m' s1 (set new) lv'"
        using step1 ok4 sm4 fields4 kernel_ok_cong [of pc m4 KT lv' m' lv'] space_ok_mem [of pc m4 KT lv' ?out s1 m'] sm'
          same_frame_trans [OF _ sm'] r(1) by (auto simp: space_step_def)
      moreover have "shows_page pc m' s1 pg g gl = shows_page pc m4 s1 pg g gl" for pg g gl
        unfolding shows_page_def r(1) by (simp add: release_same)
      ultimately show ?thesis using r s1 sh4(2) sh3 tree_ok_mem [OF tree4 sm'] by (intro exI [of _ "set new"] exI [of _ lv']) auto
    qed
  qed
qed

text \<open>A page whose entry is empty is mapped when there is a frame.\<close>

lemma map_page_unused:
  assumes ok: "crate_ok pc" "machine_ok m KT out" "kernel_ok pc m KT lv" "space_ok pc m KT lv out s" "tree_ok pc m lv s"
    and path: "make_user_path_private pc m s page = (m1, s1, None)" and nf: "new_frame m1 = (Some f, m2)"
    and free: "\<And>t. t \<in> tables s1 \<Longrightarrow> table_walk pc m1 (root_frame s) (path_indices page) = Some t \<Longrightarrow> pc_unused pc (get_entry m1 t (p1_index page))"
  shows "\<exists>m' s'. map_page pc m s page flags = (m', s', Inr f) \<and> phys_offset m' \<noteq> None"
proof -
  from make_path_ok [OF ok(1-4) path] ok(5) obtain new lv' t where
    post: "path_post pc KT m s out lv 4 m1 s1 new lv'" and tree1: "tree_ok pc m1 lv' s1"
    and t: "table_walk pc m1 (root_frame s) (path_indices page) = Some t" "t \<in> tables s1" "lv' t = 1" by blast
  let ?out = "out \<union> set new" and ?m3 = "zero_frame m2 f"
  have s1: "root_frame s1 = root_frame s" and ok1: "machine_ok m1 KT ?out" "kernel_ok pc m1 KT lv'" "space_ok pc m1 KT lv' ?out s1"
    using post by (auto simp: path_post_def)
  note new = new_frame_Some [OF ok1(1) nf]
  have t1: "tables s1 \<subseteq> ?out" using ok1(3) tables_owned by (fastforce simp: space_ok_def)
  have sm: "same_frame m1 ?m3 g" if "g \<in> ?out \<union> KT" for g
    using same_frame_zero [of f g m2] machine_ok_aligned [OF ok1(1) that] new that by (auto simp: same_frame_def)
  have ok3: "machine_ok ?m3 KT (insert f ?out)" "kernel_ok pc ?m3 KT lv'" "space_ok pc ?m3 KT lv' (insert f ?out) s1"
    using new machine_ok_cong [of ?m3 m2] kernel_ok_cong [OF ok1(2), of ?m3 lv'] sm
      space_ok_out [OF space_ok_mem [OF ok1(3), of ?m3], of "insert f ?out"] t1 by auto
  have tree3: "tree_ok pc ?m3 lv' s1" using tree_ok_mem [OF tree1, of ?m3] sm t1 by blast
  have "table_walk pc ?m3 (root_frame s) (path_indices page) = table_walk pc m1 (root_frame s) (path_indices page)"
    using ok1(3) s1 t1 path_indices_less by (intro table_walk_cong [OF ok1(2,3)] sm) (auto simp: space_ok_def tables_def path_indices_def)
  with t(1) s1 have w: "table_walk pc ?m3 (root_frame s1) (path_indices page) = Some t" by simp
  have "get_entry ?m3 t (p1_index page) = get_entry m1 t (p1_index page)"
    using sm [of t] t(2) t1 by (intro get_entry_cong) (auto simp: p1_index_def)
  with free [OF t(2,1)] have "map_leaf pc ?m3 (root_frame s1) page f fl = (set_entry ?m3 t (p1_index page) (pc_make pc f fl), True)" for fl
    unfolding map_leaf_eq [OF ok(1) ok3 tree3 w t(2,3)] by simp
  moreover have "m_alloc m2 \<noteq> None" "phys_offset m2 \<noteq> None" using new by (auto simp: machine_ok_def)
  ultimately show ?thesis using path nf by (auto simp: map_page_def Let_def)
qed

section \<open>New, dropped and cloned address spaces\<close>

lemma space_kernel_ok:
  assumes ok: "crate_ok pc" "machine_ok m KT out" "kernel_ok pc m KT lv" and kr: "kernel_root_frame m = Some kr" "kr \<in> KT" "lv kr = 4"
    and run: "space_kernel m = (m', r)"
  shows "(\<forall>g \<in> out \<union> KT. same_frame m m' g) \<and> kernel_root_frame m' = kernel_root_frame m \<and>
    (case r of
       Inl _ \<Rightarrow> machine_ok m' KT out
     | Inr c \<Rightarrow> root_frame c \<notin> out \<union> KT \<and> mappings c = [] \<and> private_tables c = [] \<and> machine_ok m' KT (insert (root_frame c) out)
         \<and> kernel_ok pc m' KT (lv(root_frame c := 4)) \<and> space_ok pc m' KT (lv(root_frame c := 4)) (insert (root_frame c) out) c)"
proof (cases "new_frame m")
  case (Pair q m1)
  show ?thesis
  proof (cases q)
    case None
    with run Pair new_frame_None [OF ok(2)] show ?thesis by (auto simp: space_kernel_def same_frame_def)
  next
    case (Some p)
    note new = new_frame_Some [OF ok(2) Pair [unfolded Some]]
    let ?m2 = "zero_frame m1 p" and ?c = "\<lparr>root_frame = p, mappings = [], private_tables = []\<rparr>" and ?lv = "lv(p := 4)"
    have off: "phys_offset m1 \<noteq> None" using new ok(2) by (auto simp: machine_ok_def)
    with run Pair Some new kr have r: "m' = copy_bytes ?m2 kr p frame_size" "r = Inr ?c"
      by (auto simp: space_kernel_def copy_kernel_root_entries_def)
    have al: "g mod frame_size = 0" "g \<noteq> p" if "g \<in> out \<union> KT" for g using that machine_ok_aligned [OF ok(2)] new by auto
    have same2: "same_frame m ?m2 g" if "g \<in> out \<union> KT" for g
      using same_frame_zero [of p g m1] al [OF that] new by (simp add: same_frame_def)
    have same: "same_frame m m' g" if "g \<in> out \<union> KT" for g
      unfolding r(1) using same_frame_trans [OF same2 [OF that] same_frame_copy] al [OF that] new by simp
    have kt: "?lv t = lv t" if "t \<in> KT" for t using that new by auto
    have k: "kernel_ok pc m' KT ?lv" by (rule kernel_ok_cong [OF ok(3)]) (use same kt in auto)
    have "points pc m' ?lv KT p i" if i: "i < 512" for i
    proof -
      have "get_entry m' p i = get_entry ?m2 kr i" unfolding r(1) using i by (rule get_entry_copy)
      also have "\<dots> = get_entry m kr i" using same2 [of kr] kr(2) i by (intro get_entry_cong) auto
      finally have "get_entry m' p i = get_entry m kr i" .
      moreover have "points pc m lv KT kr i" using ok(3) kr(2,3) i by (auto simp: kernel_ok_def)
      ultimately show ?thesis using kr(3) kt by (auto simp: points_def Let_def)
    qed
    then have "space_ok pc m' KT ?lv (insert p out) ?c" using new by (auto simp: space_ok_def owned_def tables_def)
    moreover have "machine_ok m' KT (insert p out)" using new machine_ok_cong [of m' m1] by (simp add: r(1))
    ultimately show ?thesis using same k new r by (auto simp: r(1))
  qed
qed

lemma space_drop_ok:
  assumes "machine_ok m KT out" "distinct (owned s)" "set (owned s) \<subseteq> out - KT"
  shows "machine_ok (space_drop m s) KT (out - set (owned s)) \<and> pmem (space_drop m s) = pmem m"
proof -
  let ?a = "map mp_frame (mappings s)" and ?b = "private_tables s"
  let ?m1 = "release_frames m ?a" and ?m2 = "release_frames (release_frames m ?a) ?b"
  have o: "distinct ?a" "set ?a \<subseteq> out - KT" "distinct ?b" "set ?b \<subseteq> out - set ?a - KT" "root_frame s \<in> out - set ?a - set ?b" "root_frame s \<notin> KT"
    using assms(2,3) by (auto simp: owned_def)
  note r1 = release_frames_ok [OF assms(1) o(1,2)]
  note r2 = release_frames_ok [of ?m1 KT "out - set ?a" ?b, OF _ o(3,4)]
  have "machine_ok (release_frame ?m2 (root_frame s)) KT (out - set ?a - set ?b - {root_frame s})"
    using r1 r2 o(5,6) by (intro release_frame_ok) auto
  moreover have "out - set (owned s) = out - set ?a - set ?b - {root_frame s}" by (auto simp: owned_def)
  ultimately show ?thesis using r1 r2 by (auto simp: space_drop_def)
qed

text \<open>The last mapping of a page is the one in the page tables.\<close>

definition last_mapping :: "address_space \<Rightarrow> nat \<Rightarrow> mapping option" where
  "last_mapping s pg = List.find (\<lambda>mp. mp_page mp = pg) (rev (mappings s))"

definition shown :: "paging_crate \<Rightarrow> machine \<Rightarrow> address_space \<Rightarrow> bool" where
  "shown pc m s \<longleftrightarrow> (\<forall>pg mp. is_page pg \<and> last_mapping s pg = Some mp \<longrightarrow> shows_page pc m s pg (mp_frame mp) (mp_flags mp))"

lemma shown_push:
  assumes "shown pc m s" "mappings s' = mappings s @ [\<lparr>mp_page = page, mp_frame = f, mp_flags = fl\<rparr>]" "shows_page pc m' s' page f fl"
    and "\<And>pg g gl. is_page pg \<Longrightarrow> pg \<noteq> page \<Longrightarrow> shows_page pc m s pg g gl \<Longrightarrow> shows_page pc m' s' pg g gl"
  shows "shown pc m' s'"
  using assms unfolding shown_def last_mapping_def by auto

lemma shown_mem:
  assumes "kernel_ok pc m KT lv" "space_ok pc m KT lv out s" "\<And>t. t \<in> tables s \<Longrightarrow> same_frame m m' t" "shown pc m s"
  shows "shown pc m' s"
  using assms(4) shows_kept [OF assms(1,2) private_kept_mem [OF assms(3)] subset_refl refl] unfolding shown_def by blast

text \<open>A mapping \<open>q\<close> of the copy after its page was copied from \<open>p\<close>.\<close>

definition copied :: "machine \<Rightarrow> machine \<Rightarrow> mapping \<Rightarrow> mapping \<Rightarrow> bool" where
  "copied m m' p q \<longleftrightarrow> mp_page q = mp_page p \<and> mp_flags q = mp_flags p
     \<and> (\<forall>k < frame_size. pmem m' (mp_frame q + k) = pmem m (mp_frame p + k))"

lemma copied_mono:
  "copied m m' p q \<Longrightarrow> same_frame m m0 (mp_frame p) \<Longrightarrow> same_frame m' m'' (mp_frame q) \<Longrightarrow> copied m0 m'' p q"
  by (auto simp: copied_def same_frame_def in_frame_def)

lemma clone_mappings_ok:
  assumes "crate_ok pc" "machine_ok m KT (out \<union> set (owned c))" "kernel_ok pc m KT lv" "space_ok pc m KT lv (out \<union> set (owned c)) c"
    and "set (owned c) \<inter> out = {}" "\<forall>mp \<in> set mps. mp_frame mp \<in> out \<and> leaf_flags (mp_flags mp) = mp_flags mp \<and> is_page (mp_page mp)"
    and "clone_mappings pc m c mps = (m', r)" "tree_ok pc m lv c" "shown pc m c"
  shows "(\<forall>g \<in> out \<union> KT. same_frame m m' g) \<and>
    (case r of
       Inl _ \<Rightarrow> machine_ok m' KT out
     | Inr c' \<Rightarrow> set (owned c') \<inter> out = {} \<and> machine_ok m' KT (out \<union> set (owned c'))
         \<and> (\<exists>lv'. kernel_ok pc m' KT lv' \<and> space_ok pc m' KT lv' (out \<union> set (owned c')) c' \<and> tree_ok pc m' lv' c') \<and> shown pc m' c'
         \<and> (\<forall>mp \<in> set (mappings c). same_frame m m' (mp_frame mp))
         \<and> (\<exists>qs. mappings c' = mappings c @ qs \<and> list_all2 (copied m m') mps qs))"
  using assms(2-9)
proof (induction mps arbitrary: m c lv)
  case Nil
  then show ?case by auto
next
  case (Cons mp mps)
  let ?out = "out \<union> set (owned c)"
  obtain m1 c1 q where mp: "map_page pc m c (mp_page mp) (mp_flags mp) = (m1, c1, q)" by (metis prod_cases3)
  from map_page_ok [OF assms(1) Cons.prems(1-3,7) mp] obtain new lv1 where
    step: "space_step pc KT m c ?out lv m1 c1 new lv1" and tree1: "tree_ok pc m1 lv1 c1"
    and keep: "\<And>pg g gl. is_page (mp_page mp) \<and> is_page pg \<and> pg \<noteq> mp_page mp \<and> shows_page pc m c pg g gl \<longrightarrow> shows_page pc m1 c1 pg g gl"
    and q: "case q of Inl _ \<Rightarrow> mappings c1 = mappings c | Inr f \<Rightarrow> f \<in> new \<and> f \<notin> tables c1
       \<and> shows_page pc m1 c1 (mp_page mp) f (leaf_flags (mp_flags mp))
       \<and> mappings c1 = mappings c @ [\<lparr>mp_page = mp_page mp, mp_frame = f, mp_flags = leaf_flags (mp_flags mp)\<rparr>]" by blast
  have o1: "set (owned c1) = set (owned c) \<union> new" "out \<union> set (owned c1) = ?out \<union> new" "new \<inter> (?out \<union> KT) = {}"
    using step by (auto simp: space_step_def)
  then have d1: "set (owned c1) \<inter> out = {}" using Cons.prems(4) by auto
  from step have ok1: "machine_ok m1 KT (out \<union> set (owned c1))" "kernel_ok pc m1 KT lv1" "space_ok pc m1 KT lv1 (out \<union> set (owned c1)) c1"
    unfolding o1(2) by (auto simp: space_step_def)
  have tc: "mp_frame ` set (mappings c) \<inter> tables c = {}" using Cons.prems(3) by (simp add: space_ok_def owned_def tables_def)
  have tc': "tables c \<inter> (out \<union> KT) = {}" using Cons.prems(3,4) by (auto simp: space_ok_def owned_def tables_def)
  have same1: "same_frame m m1 g" if "g \<in> out \<union> KT \<or> g \<in> mp_frame ` set (mappings c)" for g
  proof -
    have "g \<notin> tables c" "g \<in> ?out \<union> KT" using that tc tc' by (auto simp: owned_def)
    with step show ?thesis by (auto simp: space_step_def)
  qed
  show ?case
  proof (cases q)
    case (Inl e)
    with Cons.prems(6) mp have r: "m' = space_drop m1 c1" "r = Inl e" by auto
    have "machine_ok m' KT (out \<union> set (owned c1) - set (owned c1)) \<and> pmem m' = pmem m1"
      unfolding r using ok1(3) by (intro space_drop_ok [OF ok1(1)]) (auto simp: space_ok_def)
    moreover have "out \<union> set (owned c1) - set (owned c1) = out" using d1 by auto
    ultimately show ?thesis using same1 r by (auto simp: same_frame_def)
  next
    case (Inr f)
    let ?m2 = "copy_bytes m1 (mp_frame mp) f frame_size" and ?q = "\<lparr>mp_page = mp_page mp, mp_frame = f, mp_flags = leaf_flags (mp_flags mp)\<rparr>"
    from Inr q have f: "f \<in> new" "f \<notin> tables c1" "mappings c1 = mappings c @ [?q]"
      and sq: "shows_page pc m1 c1 (mp_page mp) f (leaf_flags (mp_flags mp))" by auto
    have "phys_offset m1 \<noteq> None" using ok1(1) by (simp add: machine_ok_def)
    with Cons.prems(6) mp Inr have run: "clone_mappings pc ?m2 c1 mps = (m', r)" by (auto simp: copy_frame_contents_def)
    have fo: "f mod frame_size = 0" using machine_ok_aligned [OF ok1(1), of f] f(1) o1 by auto
    have same2: "same_frame m1 ?m2 g" if "g \<in> out \<union> set (owned c1) \<union> KT" "g \<noteq> f" for g
      using same_frame_copy [of f g] machine_ok_aligned [OF ok1(1), of g] that fo by auto
    have nk: "f \<notin> KT" "f \<notin> out" using f(1) o1 by auto
    have ok2: "machine_ok ?m2 KT (out \<union> set (owned c1))" "kernel_ok pc ?m2 KT lv1" "space_ok pc ?m2 KT lv1 (out \<union> set (owned c1)) c1"
    proof -
      show "machine_ok ?m2 KT (out \<union> set (owned c1))" using ok1(1) machine_ok_cong [of ?m2 m1] by simp
      show "kernel_ok pc ?m2 KT lv1" by (rule kernel_ok_cong [OF ok1(2)]) (use same2 nk in auto)
      show "space_ok pc ?m2 KT lv1 (out \<union> set (owned c1)) c1"
        by (rule space_ok_mem [OF ok1(3)]) (use same2 f(2) tables_owned [of c1] in auto)
    qed
    have st: "same_frame m1 ?m2 t" if "t \<in> tables c1" for t using same2 f(2) that tables_owned [of c1] by auto
    have tree2: "tree_ok pc ?m2 lv1 c1" using tree_ok_mem [OF tree1] st by blast
    have "shown pc m1 c1" using keep Cons.prems(5) by (intro shown_push [OF Cons.prems(8) f(3) sq]) auto
    then have sh2: "shown pc ?m2 c1" using shown_mem [OF ok1(2,3) st] by blast
    have cp: "copied m ?m2 mp ?q"
    proof -
      have "mp_frame mp \<in> out" "leaf_flags (mp_flags mp) = mp_flags mp" using Cons.prems(5) by auto
      with same1 [of "mp_frame mp"] show ?thesis by (auto simp: copied_def copy_bytes_def same_frame_def in_frame_def)
    qed
    from Cons.IH [OF ok2 d1 _ run tree2 sh2] Cons.prems(5) have IH: "\<forall>g \<in> out \<union> KT. same_frame ?m2 m' g"
      "case r of Inl _ \<Rightarrow> machine_ok m' KT out
       | Inr c' \<Rightarrow> set (owned c') \<inter> out = {} \<and> machine_ok m' KT (out \<union> set (owned c'))
         \<and> (\<exists>lv'. kernel_ok pc m' KT lv' \<and> space_ok pc m' KT lv' (out \<union> set (owned c')) c' \<and> tree_ok pc m' lv' c') \<and> shown pc m' c'
         \<and> (\<forall>mp \<in> set (mappings c1). same_frame ?m2 m' (mp_frame mp))
         \<and> (\<exists>qs. mappings c' = mappings c1 @ qs \<and> list_all2 (copied ?m2 m') mps qs)" by auto
    have sm2: "same_frame m ?m2 g" if "g \<in> out \<union> KT \<or> g \<in> mp_frame ` set (mappings c)" for g
    proof -
      have "g \<noteq> f" using that nk f(1) o1(3) by (auto simp: owned_def)
      moreover have "g \<in> out \<union> set (owned c1) \<union> KT" using that o1(1) by (auto simp: owned_def)
      ultimately show ?thesis using same_frame_trans [OF same1 [OF that] same2] by blast
    qed
    show ?thesis
    proof (cases r)
      case (Inl e)
      with IH sm2 show ?thesis by (auto intro: same_frame_trans)
    next
      case (Inr c')
      with IH(2) obtain qs where qs: "mappings c' = mappings c1 @ qs" "list_all2 (copied ?m2 m') mps qs"
        and sc: "\<forall>mp \<in> set (mappings c1). same_frame ?m2 m' (mp_frame mp)" by auto
      have "list_all2 (copied m m') mps qs"
        using qs(2)
      proof (rule list.rel_mono_strong)
        fix x y assume "x \<in> set mps" "y \<in> set qs" "copied ?m2 m' x y"
        moreover from this Cons.prems(5) sm2 [of "mp_frame x"] have "pmem ?m2 (mp_frame x + k) = pmem m (mp_frame x + k)" if "k < frame_size" for k
          using that by (auto simp: same_frame_def in_frame_def)
        ultimately show "copied m m' x y" by (auto simp: copied_def)
      qed
      moreover have "copied m m' mp ?q"
        using copied_mono [OF cp same_frame_refl] sc f(3) by auto
      ultimately have "list_all2 (copied m m') (mp # mps) (?q # qs)" by simp
      moreover have "mappings c' = mappings c @ ?q # qs" using qs(1) f(3) by simp
      moreover have "\<forall>g \<in> out \<union> KT. same_frame m m' g" using IH(1) sm2 same_frame_trans by blast
      moreover have "same_frame m m' (mp_frame x)" if "x \<in> set (mappings c)" for x
        using same_frame_trans [OF sm2, of "mp_frame x" m'] that sc f(3) by auto
      ultimately show ?thesis using IH(2) unfolding Inr sum.case by blast
    qed
  qed
qed

lemma clone_for_fork_ok:
  assumes ok: "crate_ok pc" "machine_ok m KT out" "kernel_ok pc m KT lv" "space_ok pc m KT lv out s"
    and pages: "\<forall>mp \<in> set (mappings s). is_page (mp_page mp)"
    and kr: "kernel_root_frame m = Some kr" "kr \<in> KT" "lv kr = 4" and run: "clone_for_fork pc m s = (m', r)"
  shows "(\<forall>f \<in> out \<union> KT. same_frame m m' f) \<and>
    (case r of
       Inl _ \<Rightarrow> machine_ok m' KT out
     | Inr c \<Rightarrow> set (owned c) \<inter> out = {} \<and> machine_ok m' KT (out \<union> set (owned c))
         \<and> (\<exists>lv'. space_ok pc m' KT lv' (out \<union> set (owned c)) c \<and> tree_ok pc m' lv' c) \<and> shown pc m' c
         \<and> list_all2 (copied m m') (mappings s) (mappings c))"
proof -
  obtain m1 q where q: "space_kernel m = (m1, q)" by fastforce
  note k = space_kernel_ok [OF ok(1-3) kr q]
  show ?thesis
  proof (cases q)
    case (Inl e)
    with k run q show ?thesis by (auto simp: clone_for_fork_def)
  next
    case (Inr c)
    have o: "set (owned c) = {root_frame c}" "out \<union> set (owned c) = insert (root_frame c) out"
      using k Inr by (auto simp: owned_def)
    from run q Inr have run': "clone_mappings pc m1 c (mappings s) = (m', r)" by (simp add: clone_for_fork_def)
    have mps: "\<forall>mp \<in> set (mappings s). mp_frame mp \<in> out \<and> leaf_flags (mp_flags mp) = mp_flags mp \<and> is_page (mp_page mp)"
      using ok(4) pages by (auto simp: space_ok_def owned_def)
    have "set (owned c) \<inter> out = {}" using k Inr o by auto
    moreover have "tree_ok pc m1 lv' c" "shown pc m1 c" for lv'
      using k Inr by (simp_all add: tree_ok_def shown_def last_mapping_def)
    ultimately have "(\<forall>g \<in> out \<union> KT. same_frame m1 m' g) \<and>
      (case r of Inl _ \<Rightarrow> machine_ok m' KT out
       | Inr c' \<Rightarrow> set (owned c') \<inter> out = {} \<and> machine_ok m' KT (out \<union> set (owned c'))
         \<and> (\<exists>lv'. kernel_ok pc m' KT lv' \<and> space_ok pc m' KT lv' (out \<union> set (owned c')) c' \<and> tree_ok pc m' lv' c') \<and> shown pc m' c'
         \<and> (\<forall>mp \<in> set (mappings c). same_frame m1 m' (mp_frame mp))
         \<and> (\<exists>qs. mappings c' = mappings c @ qs \<and> list_all2 (copied m1 m') (mappings s) qs))"
      using k Inr o(2) by (intro clone_mappings_ok [OF ok(1) _ _ _ _ mps run', of KT "lv(root_frame c := 4)"]) simp_all
    with k Inr
    have cl: "\<forall>g \<in> out \<union> KT. same_frame m1 m' g"
      "case r of Inl _ \<Rightarrow> machine_ok m' KT out
       | Inr c' \<Rightarrow> set (owned c') \<inter> out = {} \<and> machine_ok m' KT (out \<union> set (owned c'))
         \<and> (\<exists>lv'. space_ok pc m' KT lv' (out \<union> set (owned c')) c' \<and> tree_ok pc m' lv' c') \<and> shown pc m' c'
         \<and> list_all2 (copied m1 m') (mappings s) (mappings c')"
      by (auto split: sum.splits)
    have "list_all2 (copied m m') (mappings s) qs" if "list_all2 (copied m1 m') (mappings s) qs" for qs
      using that
    proof (rule list.rel_mono_strong)
      fix x y assume "x \<in> set (mappings s)" "copied m1 m' x y"
      moreover from this mps k have "same_frame m m1 (mp_frame x)" by blast
      ultimately show "copied m m' x y" by (auto simp: copied_def same_frame_def in_frame_def)
    qed
    moreover have "\<forall>f \<in> out \<union> KT. same_frame m m' f" using cl(1) k same_frame_trans by blast
    ultimately show ?thesis using cl(2) by (cases r) auto
  qed
qed

lemma make_path_private:
  assumes "crate_ok pc" "machine_ok m KT out" "kernel_ok pc m KT lv" "space_ok pc m KT lv out s"
    and "make_user_path_private pc m s page = (m', s', r)"
  shows "(\<forall>f \<in> out \<union> KT. f \<notin> tables s \<longrightarrow> same_frame m m' f)
    \<and> (\<exists>new lv'. private_tables s' = private_tables s @ new \<and> set new \<inter> (out \<union> KT) = {}
         \<and> machine_ok m' KT (out \<union> set new) \<and> space_ok pc m' KT lv' (out \<union> set new) s')
    \<and> (r = None \<longrightarrow> (\<forall>n \<in> {1, 2, 3}. \<exists>t \<in> set (private_tables s').
         table_walk pc m' (root_frame s) (take n (path_indices page)) = Some t))"
proof -
  from make_path_ok [OF assms] obtain new lv' where post: "path_post pc KT m s out lv 4 m' s' new lv'"
    and walk: "r = None \<Longrightarrow> \<exists>t. table_walk pc m' (root_frame s) (path_indices page) = Some t \<and> t \<in> tables s' \<and> lv' t = 1" by blast
  have rt: "root_frame s' = root_frame s" "lv' (root_frame s) = 4" using post by (auto simp: path_post_def space_ok_def)
  have "\<exists>t \<in> set (private_tables s'). table_walk pc m' (root_frame s) (take n (path_indices page)) = Some t"
    if "r = None" "n \<in> {1, 2, 3}" for n
  proof -
    from walk [OF that(1)] obtain t where "table_walk pc m' (root_frame s) (path_indices page) = Some t" "t \<in> tables s'" by blast
    moreover have "space_ok pc m' KT lv' (out \<union> set new) s'" "kernel_ok pc m' KT lv'" using post by (auto simp: path_post_def)
    moreover have "root_frame s \<in> tables s' \<union> KT" using rt(1) by (simp add: tables_def)
    moreover have "lv' (root_frame s) = Suc (length (path_indices page))" "n \<le> length (path_indices page)"
      using rt(2) that(2) by (auto simp: path_indices_def)
    ultimately have "\<exists>u \<in> tables s'. table_walk pc m' (root_frame s) (take n (path_indices page)) = Some u \<and> lv' u + n = lv' (root_frame s)"
      using table_walk_prefix path_indices_less by blast
    then obtain u where "u \<in> tables s'" "table_walk pc m' (root_frame s) (take n (path_indices page)) = Some u" "lv' u + n = 4"
      unfolding rt(2) by blast
    moreover have "u \<noteq> root_frame s'" using calculation(3) rt that(2) by auto
    ultimately show ?thesis by (auto simp: tables_def)
  qed
  moreover have "\<forall>f \<in> out \<union> KT. f \<notin> tables s \<longrightarrow> same_frame m m' f" using post by (auto simp: path_post_def)
  moreover have "\<exists>new lv'. private_tables s' = private_tables s @ new \<and> set new \<inter> (out \<union> KT) = {}
     \<and> machine_ok m' KT (out \<union> set new) \<and> space_ok pc m' KT lv' (out \<union> set new) s'"
    using post unfolding path_post_def by (intro exI [of _ new] exI [of _ lv']) auto
  ultimately show ?thesis by blast
qed

end
