(* ===== verification/Space_Props.thy ===== *)
theory Space_Props
  imports Space_Inv
begin

text \<open>
  The properties of address spaces, and an instance of the paging crate: the x86-64 layout of
  page-table entries with a mapper that uses tables that are present and adds the parent flags on the path.
\<close>

unbundle bit_operations_syntax

section \<open>An instance of the crate\<close>

definition x86_base :: paging_crate where
  "x86_base = \<lparr>pc_unused = (\<lambda>e. e = 0), pc_flags = (\<lambda>e. e AND NOT TABLE_ADDRESS),
     pc_frame = (\<lambda>e. if e AND PRESENT = 0 \<or> e AND HUGE \<noteq> 0 then None else Some (unat (e AND TABLE_ADDRESS))),
     pc_make = (\<lambda>f fl. of_nat f OR fl), pc_map_to = (\<lambda>m _ _ _ _ _. (m, False)), pc_unmap = (\<lambda>m _ _. (m, False))\<rparr>"

fun x86_grant :: "u64 \<Rightarrow> machine \<Rightarrow> nat \<Rightarrow> nat list \<Rightarrow> machine" where
  "x86_grant pfl m t [] = m"
| "x86_grant pfl m t (i # is) =
     (let e = get_entry m t i;
          m1 = (if pc_flags x86_base e AND pfl = pfl then m else set_entry m t i (e OR pfl))
      in case branch x86_base m1 t i of None \<Rightarrow> m1 | Some t' \<Rightarrow> x86_grant pfl m1 t' is)"

definition x86_crate :: paging_crate where
  "x86_crate = x86_base\<lparr>
     pc_map_to := (\<lambda>m root page f fl pfl.
       let m1 = x86_grant pfl m root (path_indices page)
       in case table_walk x86_base m1 root (path_indices page) of
            None \<Rightarrow> (m1, False)
          | Some t \<Rightarrow> if get_entry m1 t (p1_index page) \<noteq> 0 then (m1, False)
                     else (set_entry m1 t (p1_index page) (of_nat f OR fl), True)),
     pc_unmap := (\<lambda>m root page.
       case table_walk x86_base m root (path_indices page) of
         None \<Rightarrow> (m, False)
       | Some t \<Rightarrow> if pc_frame x86_base (get_entry m t (p1_index page)) = None then (m, False)
                  else (set_entry m t (p1_index page) 0, True))\<rparr>"

lemma x86_entries [simp]:
  "pc_unused x86_crate = pc_unused x86_base" "pc_flags x86_crate = pc_flags x86_base" "pc_frame x86_crate = pc_frame x86_base"
  "pc_make x86_crate = pc_make x86_base"
  by (simp_all add: x86_crate_def)

lemma branch_x86 [simp]: "branch x86_crate m t i = branch x86_base m t i"
  by (simp add: branch_def Let_def)

lemma x86_mapper:
  "pc_map_to x86_crate m root page f fl pfl =
     (let m1 = x86_grant pfl m root (path_indices page)
      in case table_walk x86_base m1 root (path_indices page) of
           None \<Rightarrow> (m1, False)
         | Some t \<Rightarrow> if get_entry m1 t (p1_index page) \<noteq> 0 then (m1, False)
                    else (set_entry m1 t (p1_index page) (of_nat f OR fl), True))"
  "pc_unmap x86_crate m root page =
     (case table_walk x86_base m root (path_indices page) of
        None \<Rightarrow> (m, False)
      | Some t \<Rightarrow> if pc_frame x86_base (get_entry m t (p1_index page)) = None then (m, False)
                 else (set_entry m t (p1_index page) 0, True))"
  by (simp_all add: x86_crate_def)

lemma x86_words: "pc_unused x86_base e \<longleftrightarrow> e = 0" "pc_make x86_base f fl = of_nat f OR fl"
  by (simp_all add: x86_base_def)

lemma path_has_x86: "path_has x86_crate m fl t is = path_has x86_base m fl t is"
  by (induction "is" arbitrary: t) (auto split: option.split)

lemma x86_grant_has: "path_has x86_base m pfl t is \<Longrightarrow> x86_grant pfl m t is = m"
  by (induction "is" arbitrary: t) (auto simp: Let_def split: option.splits)

lemma table_walk_x86: "table_walk x86_crate m t is = table_walk x86_base m t is"
  by (induction "is" arbitrary: t) (auto simp: Let_def split: option.split)

lemma frame_bits:
  assumes "f mod frame_size = 0" "f < 2 ^ 52" shows "(of_nat f :: u64) AND TABLE_ADDRESS = of_nat f"
proof -
  have T: "TABLE_ADDRESS = push_bit 12 (mask 40)" by (simp add: TABLE_ADDRESS_def mask_eq_exp_minus_1)
  from assms(1) obtain k where k: "f = frame_size * k" by auto
  have w: "(of_nat f :: u64) = push_bit 12 (of_nat k)" by (simp add: k push_bit_eq_mult)
  have "k < 2 ^ 40" using assms(2) k by simp
  then have "take_bit 40 (of_nat k :: u64) = of_nat k"
    by (simp add: take_bit_of_nat take_bit_nat_eq_self)
  then have "(of_nat k :: u64) AND mask 40 = of_nat k" by (simp add: take_bit_eq_mask)
  then show ?thesis unfolding w T by (simp flip: push_bit_and)
qed

lemma crate_ok_x86: "crate_ok x86_crate"
proof -
  have mk: "\<not> pc_unused x86_crate (pc_make x86_crate f fl) \<and> pc_flags x86_crate (pc_make x86_crate f fl) = fl
      \<and> pc_frame x86_crate (pc_make x86_crate f fl) = Some f"
    if "f mod frame_size = 0" "f < 2 ^ 52" "fl AND TABLE_ADDRESS = 0" "fl AND PRESENT \<noteq> 0" "fl AND HUGE = 0" for f fl
  proof -
    let ?w = "of_nat f :: u64"
    have fb: "?w AND TABLE_ADDRESS = ?w" by (rule frame_bits [OF that(1,2)])
    have "?w AND PRESENT = 0" "?w AND HUGE = 0" "?w AND NOT TABLE_ADDRESS = 0"
      by (subst fb [symmetric], simp add: and.assoc TABLE_ADDRESS_def PRESENT_def HUGE_def)+
    moreover have "fl AND NOT TABLE_ADDRESS = fl"
    proof (rule bit_word_eqI)
      fix n assume n: "n < LENGTH(64)"
      have "bit (fl AND TABLE_ADDRESS) n = bit (0 :: u64) n" using that(3) by simp
      with n show "bit (fl AND NOT TABLE_ADDRESS) n = bit fl n" by (auto simp: bit_simps)
    qed
    moreover have "unat ?w = f" using that(2) by (simp add: unat_of_nat)
    moreover from calculation have "?w OR fl \<noteq> 0"
      using that(4) bit.conj_disj_distrib2 [of ?w fl PRESENT] by auto
    ultimately show ?thesis using fb that(3-5)
      by (auto simp: x86_crate_def x86_base_def bit.conj_disj_distrib2)
  qed
  have mp: "pc_map_to x86_crate m root page f fl pfl =
      (if pc_unused x86_crate (get_entry m t (p1_index page)) then (set_entry m t (p1_index page) (pc_make x86_crate f fl), True) else (m, False))"
    if "table_walk x86_crate m root (path_indices page) = Some t" "path_has x86_crate m pfl root (path_indices page)" for m root page f fl pfl t
    using that x86_grant_has [of m pfl root "path_indices page"]
    by (simp add: table_walk_x86 path_has_x86 x86_mapper x86_words)
  have un: "pc_unmap x86_crate m root page =
      (if pc_frame x86_crate (get_entry m t (p1_index page)) = None then (m, False) else (set_entry m t (p1_index page) 0, True))"
    if "table_walk x86_crate m root (path_indices page) = Some t" for m root page t
    using that by (simp add: table_walk_x86 x86_mapper)
  have "pc_unused x86_crate 0" "\<forall>e. pc_flags x86_crate e AND TABLE_ADDRESS = 0" by (simp_all add: x86_base_def and.assoc)
  then show ?thesis unfolding crate_ok_def 
    by (intro conjI allI impI) (assumption | erule spec | elim conjE, (rule mk mk [THEN conjunct1] mk [THEN conjunct2, THEN conjunct1] mk [THEN conjunct2, THEN conjunct2] mp); assumption | rule un, assumption)+
qed

section \<open>A small machine\<close>

text \<open>Seven free frames, a kernel whose root table at 4096 is empty, and an address space with one
  page at \<open>0x400000\<close>, whose first byte is 42.\<close>

definition demo_machine :: machine where
  "demo_machine = \<lparr>m_alloc = Some \<lparr>fa_frames = [8192, 12288, 16384, 20480, 24576, 28672, 32768, 36864, 40960], fa_next = 2,
     fa_recycled = [], fa_ready = True\<rparr>, m_answers = (\<lambda>_. True), m_asked = 0, pmem = (\<lambda>a. if a = 12288 then 42 else 0),
     phys_offset = Some 0, kernel_root_frame = Some 4096\<rparr>"

definition demo_space :: address_space where
  "demo_space = \<lparr>root_frame = 8192, mappings = [\<lparr>mp_page = 0x400000, mp_frame = 12288, mp_flags = 7\<rparr>], private_tables = []\<rparr>"

lemma demo_entry: "t + 4096 \<le> 12288 \<Longrightarrow> i < 512 \<Longrightarrow> get_entry demo_machine t i = 0"
proof -
  assume "t + 4096 \<le> 12288" "i < 512"
  then have "map (\<lambda>k. pmem demo_machine (t + 8 * i + k)) [0..<8] = replicate 8 0"
    by (intro nth_equalityI) (auto simp: demo_machine_def)
  then show ?thesis unfolding get_entry_def by (simp add: numeral_eq_Suc)
qed

lemma demo_ok:
  "machine_ok demo_machine {4096} {8192, 12288}" "kernel_ok x86_crate demo_machine {4096} (\<lambda>_. 4)"
  "space_ok x86_crate demo_machine {4096} (\<lambda>_. 4) {8192, 12288} demo_space"
proof -
  have un: "pc_unused x86_base 0" by (simp add: x86_words)
  show "machine_ok demo_machine {4096} {8192, 12288}"
    by (auto simp: machine_ok_def demo_machine_def fa_ok_def)
  show "kernel_ok x86_crate demo_machine {4096} (\<lambda>_. 4)"
    by (simp add: kernel_ok_def points_def demo_entry un)
  show "space_ok x86_crate demo_machine {4096} (\<lambda>_. 4) {8192, 12288} demo_space"
    by (simp add: space_ok_def owned_def tables_def demo_space_def points_def demo_entry un leaf_flags_def USER_def NO_ACCESS_def PRESENT_def)
qed

text \<open>The free frames of a machine whose allocator has not recycled any.\<close>

definition has_free :: "machine \<Rightarrow> nat list \<Rightarrow> bool" where
  "has_free m fs \<longleftrightarrow> (\<exists>fa. m_alloc m = Some fa \<and> fa_recycled fa = [] \<and> drop (fa_next fa) (fa_frames fa) = fs) \<and> (\<forall>n. m_answers m n)"

lemma has_free_new:
  assumes "has_free m (f # fs)"
  shows "\<exists>m1. new_frame m = (Some f, m1) \<and> has_free m1 fs \<and> pmem m1 = pmem m \<and> phys_offset m1 = phys_offset m"
proof -
  from assms obtain fa where fa: "m_alloc m = Some fa" "fa_recycled fa = []" "drop (fa_next fa) (fa_frames fa) = f # fs" "\<forall>n. m_answers m n"
    by (auto simp: has_free_def)
  then have "fa_next fa < length (fa_frames fa)" "fa_frames fa ! fa_next fa = f" "drop (Suc (fa_next fa)) (fa_frames fa) = fs"
    by (metis drop_eq_Nil list.distinct(1) not_less, metis nth_via_drop, metis drop_Suc list.sel(3) tl_drop)
  with fa show ?thesis
    by (auto simp: has_free_def new_frame_def mm_allocate_frame_def allocate_frame_def)
qed

lemma private_path_fresh:
  assumes "has_free m (p # fs)" "phys_offset m \<noteq> None" "get_entry m tbl i = 0" "i < 512" "tbl mod frame_size = 0" "p mod frame_size = 0" "p \<noteq> tbl" "p < 2 ^ 52"
  shows "\<exists>m'. (\<forall>s rest. private_path x86_crate m s tbl (i # rest) = private_path x86_crate m' (s\<lparr>private_tables := private_tables s @ [p]\<rparr>) p rest)
     \<and> has_free m' fs \<and> phys_offset m' \<noteq> None \<and> (\<forall>j < 512. get_entry m' p j = 0) \<and> branch x86_base m' tbl i = Some p
     \<and> (\<forall>g j. g mod frame_size = 0 \<longrightarrow> g \<noteq> p \<longrightarrow> j < 512 \<longrightarrow> g \<noteq> tbl \<or> j \<noteq> i \<longrightarrow> get_entry m' g j = get_entry m g j)"
proof -
  from has_free_new [OF assms(1)] obtain m1 where m1: "new_frame m = (Some p, m1)" "has_free m1 fs" "phys_offset m1 = phys_offset m"
    and pm: "pmem m1 = pmem m" by blast
  let ?m2 = "zero_frame m1 p"
  let ?m' = "set_entry ?m2 tbl i (pc_make x86_crate p (pc_flags x86_crate 0 OR PRESENT OR WRITABLE OR USER))"
  have un: "pc_unused x86_crate 0" "pc_flags x86_crate 0 AND HUGE = 0" by (simp_all add: x86_crate_def x86_base_def)
  have "branch x86_crate ?m' tbl i = Some p"
    using branch_flags [OF crate_ok_x86 assms(6,8) un(2)] by (simp add: branch_def Let_def get_set_entry_same)
  moreover from un have "private_path x86_crate m s tbl (i # rest) = private_path x86_crate ?m' (s\<lparr>private_tables := private_tables s @ [p]\<rparr>) p rest" for s rest
    using m1(1) assms(3) by (simp add: Let_def)
  moreover have "get_entry ?m' p j = 0" if "j < 512" for j
    using get_entry_cong [OF same_frame_set_entry [of tbl p i ?m2], of j] get_entry_zero [of m1 j p] that assms(2,4-7) m1(3) by simp
  moreover have "get_entry ?m' g j = get_entry m g j" if g: "g mod frame_size = 0" "g \<noteq> p" "j < 512" "g \<noteq> tbl \<or> j \<noteq> i" for g j
  proof -
    have "get_entry ?m2 g j = get_entry m1 g j" using get_entry_cong [OF same_frame_zero [of p g m1] g(3)] g assms(6) by simp
    also have "\<dots> = get_entry m g j" by (simp add: get_entry_def pm)
    finally show ?thesis
      using g assms(4,5) get_entry_cong [OF same_frame_set_entry [of tbl g i ?m2] g(3)] get_set_entry_other [of i j ?m2 tbl] by (cases "g = tbl") auto
  qed
  moreover have "has_free ?m' fs" using m1(2) by (simp add: has_free_def set_entry_def zero_frame_def split: option.split)
  ultimately show ?thesis using m1(3) assms(2) by (intro exI [of _ ?m']) simp
qed

lemma demo_path:
  assumes "page \<in> {0x400000, 0x401000}"
  shows "\<exists>m'. make_user_path_private x86_crate demo_machine demo_space page = (m', demo_space\<lparr>private_tables := [16384, 20480, 24576]\<rparr>, None)
     \<and> has_free m' [28672, 32768, 36864, 40960] \<and> (\<forall>t \<in> {8192, 16384, 20480, 24576}. get_entry m' t 1 = 0)"
proof -
  note private_path.simps [simp del]
  have "has_free demo_machine (16384 # 20480 # 24576 # [28672, 32768, 36864, 40960])" "phys_offset demo_machine \<noteq> None"
    by (simp_all add: has_free_def demo_machine_def)
  then obtain m1 where m1: "\<And>s rest. private_path x86_crate demo_machine s 8192 (0 # rest)
      = private_path x86_crate m1 (s\<lparr>private_tables := private_tables s @ [16384]\<rparr>) 16384 rest"
    "has_free m1 (20480 # 24576 # [28672, 32768, 36864, 40960])" "phys_offset m1 \<noteq> None" "\<forall>j < 512. get_entry m1 16384 j = 0"
    "get_entry m1 8192 1 = 0"
    using private_path_fresh [of demo_machine 16384 "20480 # 24576 # [28672, 32768, 36864, 40960]" 8192 0] demo_entry [of 8192] by auto
  then obtain m2 where m2: "\<And>s rest. private_path x86_crate m1 s 16384 (0 # rest)
      = private_path x86_crate m2 (s\<lparr>private_tables := private_tables s @ [20480]\<rparr>) 20480 rest"
    "has_free m2 (24576 # [28672, 32768, 36864, 40960])" "phys_offset m2 \<noteq> None" "\<forall>j < 512. get_entry m2 20480 j = 0"
    "get_entry m2 8192 1 = 0" "get_entry m2 16384 1 = 0"
    using private_path_fresh [of m1 20480 "24576 # [28672, 32768, 36864, 40960]" 16384 0] by auto
  then obtain m3 where m3: "\<And>s rest. private_path x86_crate m2 s 20480 (2 # rest)
      = private_path x86_crate m3 (s\<lparr>private_tables := private_tables s @ [24576]\<rparr>) 24576 rest"
    "has_free m3 [28672, 32768, 36864, 40960]" "\<forall>t \<in> {8192, 16384, 20480, 24576}. get_entry m3 t 1 = 0"
    using private_path_fresh [of m2 24576 "[28672, 32768, 36864, 40960]" 20480 2] by auto
  have "path_indices page = [0, 0, 2]" using assms by (auto simp: path_indices_def p4_index_def p3_index_def p2_index_def)
  then show ?thesis using \<open>phys_offset demo_machine \<noteq> None\<close> m3(2,3)
    by (auto simp: make_user_path_private_def path_indices_def demo_space_def m1(1) m2(1) m3(1) private_path.simps(1))
qed

lemma demo_fork: "\<exists>m' c. clone_for_fork x86_crate demo_machine demo_space = (m', Inr c)"
proof -
  note private_path.simps [simp del]
  let ?c = "\<lparr>root_frame = 16384, mappings = [], private_tables = []\<rparr>"
  have kr: "kernel_root_frame demo_machine = Some 4096" by (simp add: demo_machine_def)
  have "has_free demo_machine (16384 # [20480, 24576, 28672, 32768, 36864, 40960])" by (simp add: has_free_def demo_machine_def)
  from has_free_new [OF this] obtain m0 where m0: "new_frame demo_machine = (Some 16384, m0)" "has_free m0 [20480, 24576, 28672, 32768, 36864, 40960]"
    "pmem m0 = pmem demo_machine" "phys_offset m0 = phys_offset demo_machine" by blast
  define m1 where "m1 = copy_bytes (zero_frame m0 16384) 4096 16384 frame_size"
  have "kernel_root_frame m0 = Some 4096" using new_frame_Some [OF demo_ok(1) m0(1)] kr by simp
  then have k: "space_kernel demo_machine = (m1, Inr ?c)"
    using m0(1,4) by (simp add: space_kernel_def copy_kernel_root_entries_def m1_def demo_machine_def)
  note ok = space_kernel_ok [OF crate_ok_x86 demo_ok(1,2) kr _ _ k, simplified]
  have e1: "get_entry m1 16384 j = 0" if "j < 512" for j
  proof -
    have "get_entry m1 16384 j = get_entry (zero_frame m0 16384) 4096 j" unfolding m1_def using that by (rule get_entry_copy)
    also have "\<dots> = get_entry m0 4096 j" using that by (intro get_entry_cong same_frame_zero) simp_all
    also have "\<dots> = 0" using demo_entry [of 4096 j] that by (simp add: get_entry_def m0(3))
    finally show ?thesis .
  qed
  have f1: "has_free m1 [20480, 24576, 28672, 32768, 36864, 40960]" "phys_offset m1 \<noteq> None"
    using m0(2,4) by (auto simp: m1_def has_free_def copy_bytes_def zero_frame_def demo_machine_def split: option.split)
  obtain m2 where m2: "\<And>s rest. private_path x86_crate m1 s 16384 (0 # rest)
      = private_path x86_crate m2 (s\<lparr>private_tables := private_tables s @ [20480]\<rparr>) 20480 rest"
    "has_free m2 (24576 # [28672, 32768, 36864, 40960])" "phys_offset m2 \<noteq> None" "\<forall>j < 512. get_entry m2 20480 j = 0" "branch x86_base m2 16384 0 = Some 20480"
    using private_path_fresh [of m1 20480 "[24576, 28672, 32768, 36864, 40960]" 16384 0] f1 e1 by auto
  then obtain m3 where m3: "\<And>s rest. private_path x86_crate m2 s 20480 (0 # rest)
      = private_path x86_crate m3 (s\<lparr>private_tables := private_tables s @ [24576]\<rparr>) 24576 rest"
    "has_free m3 (28672 # [32768, 36864, 40960])" "phys_offset m3 \<noteq> None" "\<forall>j < 512. get_entry m3 24576 j = 0" "branch x86_base m3 20480 0 = Some 24576"
    "get_entry m3 16384 0 = get_entry m2 16384 0"
    using private_path_fresh [of m2 24576 "[28672, 32768, 36864, 40960]" 20480 0] by auto
  then obtain m4 where m4: "\<And>s rest. private_path x86_crate m3 s 24576 (2 # rest)
      = private_path x86_crate m4 (s\<lparr>private_tables := private_tables s @ [28672]\<rparr>) 28672 rest"
    "has_free m4 (32768 # [36864, 40960])" "\<forall>j < 512. get_entry m4 28672 j = 0" "branch x86_base m4 24576 2 = Some 28672"
    "get_entry m4 16384 0 = get_entry m3 16384 0" "get_entry m4 20480 0 = get_entry m3 20480 0"
    using private_path_fresh [of m3 28672 "[32768, 36864, 40960]" 24576 2] by auto
  have pi: "path_indices 0x400000 = [0, 0, 2]" by (simp add: path_indices_def p4_index_def p3_index_def p2_index_def)
  have b: "branch x86_base m4 16384 0 = Some 20480" "branch x86_base m4 20480 0 = Some 24576"
    using m2(5) m3(5,6) m4(5,6) by (simp_all add: branch_def)
  have w: "table_walk x86_crate m4 16384 (path_indices 0x400000) = Some 28672"
    unfolding pi using b m4(4) by (simp add: table_walk_branch del: table_walk.simps(2))
  have path: "make_user_path_private x86_crate m1 ?c 0x400000 = (m4, ?c\<lparr>private_tables := [20480, 24576, 28672]\<rparr>, None)"
    using f1(2) pi by (auto simp: make_user_path_private_def path_indices_def m2(1) m3(1) m4(1) private_path.simps(1))
  obtain m5 where m5: "new_frame m4 = (Some 32768, m5)" using has_free_new [OF m4(2)] by blast
  have "pc_unused x86_crate (get_entry m4 28672 (p1_index 0x400000))" using m4(3) by (simp add: p1_index_def x86_words)
  then obtain m6 s6 where "map_page x86_crate m1 ?c 0x400000 7 = (m6, s6, Inr 32768)" "phys_offset m6 \<noteq> None"
    using map_page_unused [OF crate_ok_x86 _ _ _ _ path m5, of "{4096}" "{16384, 8192, 12288}" "(\<lambda>_. 4)(16384 := 4)" 7] ok w
    by (auto simp: tree_ok_def)
  then show ?thesis using k by (auto simp: clone_for_fork_def demo_space_def copy_frame_contents_def)
qed

section \<open>Properties\<close>

text \<open>C2: Page tables of others are never edited. Making the path to a user page private writes only to
  the root and the private tables of this address space and to frames that were free: every other
  frame in use and every page table of the kernel keeps its bytes, on success and on every error.
  On success the three tables below the root on the path are private to the address space. The frames that are
  taken were free, and the ownership invariant is kept.\<close>

theorem private_path_isolation:
  assumes "crate_ok pc" "machine_ok m KT out" "kernel_ok pc m KT lv" "space_ok pc m KT lv out s"
    and "make_user_path_private pc m s page = (m', s', r)"
  shows "(\<forall>f \<in> out \<union> KT. f \<notin> tables s \<longrightarrow> same_frame m m' f)
    \<and> (\<exists>new lv'. private_tables s' = private_tables s @ new \<and> set new \<inter> (out \<union> KT) = {}
         \<and> machine_ok m' KT (out \<union> set new) \<and> space_ok pc m' KT lv' (out \<union> set new) s')
    \<and> (r = None \<longrightarrow> (\<forall>n \<in> {1, 2, 3}. \<exists>t \<in> set (private_tables s').
         table_walk pc m' (root_frame s) (take n (path_indices page)) = Some t))"
  using make_path_private [OF assms] by blast

theorem private_path_isolation_witness:
  "\<exists>m'. make_user_path_private x86_crate demo_machine demo_space 0x400000
      = (m', demo_space\<lparr>private_tables := [16384, 20480, 24576]\<rparr>, None)
    \<and> same_frame demo_machine m' 12288 \<and> same_frame demo_machine m' 4096
    \<and> (\<exists>t. t \<in> {16384, 20480, 24576} \<and> table_walk x86_crate m' 8192 (path_indices 0x400000) = Some t)"
proof -
  from demo_path [of "0x400000"] obtain m' where m': "make_user_path_private x86_crate demo_machine demo_space 0x400000
      = (m', demo_space\<lparr>private_tables := [16384, 20480, 24576]\<rparr>, None)" by blast
  note iso = private_path_isolation [OF crate_ok_x86 demo_ok m']
  then have "same_frame demo_machine m' 12288" "same_frame demo_machine m' 4096" by (simp_all add: tables_def demo_space_def)
  moreover from iso have "\<exists>t. t \<in> {16384, 20480, 24576} \<and> table_walk x86_crate m' 8192 (take 3 (path_indices 0x400000)) = Some t"
    by (auto simp: demo_space_def)
  ultimately show ?thesis using m' by (auto simp: path_indices_def)
qed

text \<open>C5: A fork copies the address space. If the copy succeeds, the new address space has the same pages with the
  same protection in the same order, every page holds the same bytes in a frame that was free
  before, and its page tables lead every page to the frame of its (last) mapping with exactly the flags of the
  mapping, through entries that admit the user; the ownership invariant holds for it. If it fails, all frames that it
  took are free again. In both cases no frame that was in use changes. (Pages are aligned canonical addresses.)\<close>

theorem fork_copies_address_space:
  assumes "crate_ok pc" "machine_ok m KT out" "kernel_ok pc m KT lv" "space_ok pc m KT lv out s" "\<forall>mp \<in> set (mappings s). is_page (mp_page mp)"
    and "kernel_root_frame m = Some kr" "kr \<in> KT" "lv kr = 4" "clone_for_fork pc m s = (m', r)"
  shows "(\<forall>f \<in> out \<union> KT. same_frame m m' f) \<and>
    (case r of
       Inl _ \<Rightarrow> machine_ok m' KT out
     | Inr c \<Rightarrow> set (owned c) \<inter> out = {} \<and> machine_ok m' KT (out \<union> set (owned c))
         \<and> (\<exists>lv'. space_ok pc m' KT lv' (out \<union> set (owned c)) c \<and> tree_ok pc m' lv' c) \<and> shown pc m' c
         \<and> list_all2 (copied m m') (mappings s) (mappings c))"
  by (rule clone_for_fork_ok [OF assms])

theorem fork_copies_address_space_witness:
  "\<exists>m' c. clone_for_fork x86_crate demo_machine demo_space = (m', Inr c) \<and> same_frame demo_machine m' 12288
    \<and> pmem m' (mp_frame (hd (mappings c))) = 42 \<and> shows_page x86_crate m' c 0x400000 (mp_frame (hd (mappings c))) 7"
proof -
  obtain m' c where run: "clone_for_fork x86_crate demo_machine demo_space = (m', Inr c)" using demo_fork by blast
  have kr: "kernel_root_frame demo_machine = Some 4096" by (simp add: demo_machine_def)
  have pg: "\<forall>mp \<in> set (mappings demo_space). is_page (mp_page mp)" by (simp add: demo_space_def is_page_def canonical_def)
  note fork = fork_copies_address_space [OF crate_ok_x86 demo_ok pg kr _ _ run]
  then have "list_all2 (copied demo_machine m') (mappings demo_space) (mappings c)" and sh: "shown x86_crate m' c" by auto
  then obtain q where q: "mappings c = [q]" "copied demo_machine m' (hd (mappings demo_space)) q"
    by (auto simp: demo_space_def list_all2_Cons1)
  then have c: "\<forall>k < frame_size. pmem m' (mp_frame q + k) = pmem demo_machine (12288 + k)" "mp_page q = 0x400000" "mp_flags q = 7"
    by (simp_all add: copied_def demo_space_def)
  from spec [OF c(1), of 0] have "pmem m' (mp_frame q) = 42" by (simp add: demo_machine_def)
  moreover have "shows_page x86_crate m' c 0x400000 (mp_frame q) 7"
    using sh [unfolded shown_def, rule_format, of "0x400000" q] q(1) c(2,3) by (simp add: last_mapping_def is_page_def canonical_def)
  ultimately show ?thesis using fork run q(1) by auto
qed

end
