(* ===== verification/User_Memory.thy ===== *)
theory User_Memory
  imports Space_Props
begin

text \<open>
  Copies between the kernel and user memory, \<^verbatim>\<open>kernel/src/syscall/user_memory.rs\<close>: every
  access goes page by page through the mappings of the address space and checks the protection.
  Pointers into the direct mapping are physical addresses here. \<open>cur\<close> is the address space of the
  current task, if there is one.
\<close>

unbundle bit_operations_syntax

section \<open>Visiting a range\<close>

function visit_loop ::
    "bool \<Rightarrow> address_space \<Rightarrow> bool \<Rightarrow> (nat \<Rightarrow> nat \<Rightarrow> nat \<Rightarrow> 's \<Rightarrow> 's) \<Rightarrow> nat \<Rightarrow> nat \<Rightarrow> nat \<Rightarrow> 's \<Rightarrow> 's \<times> int option" where
  "visit_loop has_offset s wr visit address end_addr current st =
     (if \<not> current < end_addr then (st, None)
      else let page = current div frame_size * frame_size
           in case List.find (\<lambda>(virtual_addr, _, _). virtual_addr = page) (space_mappings s) of
                None \<Rightarrow> (st, Some (-14))
              | Some (_, physical, flags) \<Rightarrow>
                  if flags AND (PRESENT OR USER) \<noteq> PRESENT OR USER \<or> wr \<and> flags AND WRITABLE \<noteq> WRITABLE
                  then (st, Some (-14))
                  else let offset = current - page;
                           count = min (frame_size - offset) (end_addr - current)
                       in if \<not> has_offset then (st, Some (-14))
                          else visit_loop has_offset s wr visit address end_addr (current + count)
                                 (visit (physical + offset) (current - address) count st))"
  by pat_completeness auto
termination
  by (relation "measure (\<lambda>(_, _, _, _, _, end_addr, current, _). end_addr - current)")
    (auto simp: Let_def min_def minus_div_mult_eq_mod diff_less_mono2)

declare visit_loop.simps [simp del]

definition visit_task_range ::
    "machine \<Rightarrow> address_space \<Rightarrow> nat \<Rightarrow> nat \<Rightarrow> bool \<Rightarrow> (nat \<Rightarrow> nat \<Rightarrow> nat \<Rightarrow> 's \<Rightarrow> 's) \<Rightarrow> 's \<Rightarrow> 's \<times> int option" where
  "visit_task_range m s address len wr visit st =
     (let end_addr = address + len
      in if end_addr \<ge> 2 ^ 64 then (st, Some (-14))
         else if address = 0 \<or> end_addr > USER_ADDRESS_END then (st, Some (-14))
         else visit_loop (phys_offset m \<noteq> None) s wr visit address end_addr address st)"

definition visit_range ::
    "machine \<Rightarrow> address_space option \<Rightarrow> nat \<Rightarrow> nat \<Rightarrow> bool \<Rightarrow> (nat \<Rightarrow> nat \<Rightarrow> nat \<Rightarrow> 's \<Rightarrow> 's) \<Rightarrow> 's \<Rightarrow> 's \<times> int option" where
  "visit_range m cur address len wr visit st =
     (case cur of None \<Rightarrow> (st, Some (-14)) | Some s \<Rightarrow> visit_task_range m s address len wr visit st)"

definition validate_write :: "machine \<Rightarrow> address_space option \<Rightarrow> nat \<Rightarrow> nat \<Rightarrow> int option" where
  "validate_write m cur address len = snd (visit_range m cur address len True (\<lambda>_ _ _ st. st) ())"

text \<open>\<open>copy_from\<close> fills a buffer of \<open>n\<close> bytes; the buffer is returned also after an error.\<close>

definition copy_from :: "machine \<Rightarrow> address_space option \<Rightarrow> nat \<Rightarrow> nat \<Rightarrow> u8 list \<times> int option" where
  "copy_from m cur address n =
     visit_range m cur address n False
       (\<lambda>source offset count out. take offset out @ map (\<lambda>k. pmem m (source + k)) [0..<count] @ drop (offset + count) out)
       (replicate n 0)"

definition put_bytes :: "u8 list \<Rightarrow> nat \<Rightarrow> nat \<Rightarrow> nat \<Rightarrow> machine \<Rightarrow> machine" where
  "put_bytes bytes destination offset count m =
     m\<lparr>pmem := \<lambda>a. if destination \<le> a \<and> a < destination + count then bytes ! (offset + (a - destination)) else pmem m a\<rparr>"

definition copy_to_task :: "machine \<Rightarrow> address_space \<Rightarrow> nat \<Rightarrow> u8 list \<Rightarrow> machine \<times> int option" where
  "copy_to_task m s address bytes =
     (case snd (visit_task_range m s address (length bytes) True (\<lambda>_ _ _ st. st) ()) of
        Some e \<Rightarrow> (m, Some e)
      | None \<Rightarrow> visit_task_range m s address (length bytes) True (put_bytes bytes) m)"

definition copy_to :: "machine \<Rightarrow> address_space option \<Rightarrow> nat \<Rightarrow> u8 list \<Rightarrow> machine \<times> int option" where
  "copy_to m cur address bytes =
     (case cur of None \<Rightarrow> (m, Some (-14)) | Some s \<Rightarrow> copy_to_task m s address bytes)"

section \<open>The view of user memory\<close>

text \<open>The mapping of an address, its physical address, and the byte there.\<close>

definition mapping_at :: "address_space \<Rightarrow> nat \<Rightarrow> mapping option" where
  "mapping_at s a = List.find (\<lambda>mp. mp_page mp = a div frame_size * frame_size) (mappings s)"

definition phys :: "address_space \<Rightarrow> nat \<Rightarrow> nat" where
  "phys s a = mp_frame (the (mapping_at s a)) + a mod frame_size"

definition user_byte :: "machine \<Rightarrow> address_space \<Rightarrow> nat \<Rightarrow> u8 option" where
  "user_byte m s a = map_option (\<lambda>mp. pmem m (mp_frame mp + a mod frame_size)) (mapping_at s a)"

definition accessible :: "address_space \<Rightarrow> bool \<Rightarrow> nat \<Rightarrow> bool" where
  "accessible s wr a \<longleftrightarrow>
     (case mapping_at s a of
        None \<Rightarrow> False
      | Some mp \<Rightarrow> mp_flags mp AND (PRESENT OR USER) = PRESENT OR USER \<and> (wr \<longrightarrow> mp_flags mp AND WRITABLE = WRITABLE))"

text \<open>A range that may be accessed.\<close>

definition range_ok :: "address_space \<Rightarrow> bool \<Rightarrow> nat \<Rightarrow> nat \<Rightarrow> bool" where
  "range_ok s wr address n \<longleftrightarrow> address \<noteq> 0 \<and> address + n \<le> USER_ADDRESS_END \<and> (\<forall>a. address \<le> a \<and> a < address + n \<longrightarrow> accessible s wr a)"

lemma find_space_mappings:
  "List.find (\<lambda>(v, _, _). v = a div frame_size * frame_size) (space_mappings s)
   = map_option (\<lambda>mp. (mp_page mp, mp_frame mp, mp_flags mp)) (mapping_at s a)"
proof -
  have "List.find (\<lambda>(v, _, _). v = p) (map (\<lambda>mp. (mp_page mp, mp_frame mp, mp_flags mp)) ms)
     = map_option (\<lambda>mp. (mp_page mp, mp_frame mp, mp_flags mp)) (List.find (\<lambda>mp. mp_page mp = p) ms)" for p ms
    by (induction ms) auto
  then show ?thesis by (simp add: space_mappings_def mapping_at_def)
qed

definition chunk_size :: "nat \<Rightarrow> nat \<Rightarrow> nat" where
  "chunk_size end_addr current = min (frame_size - current mod frame_size) (end_addr - current)"

lemma visit_loop_step:
  assumes "current < end_addr" "accessible s wr current"
  shows "visit_loop True s wr visit address end_addr current st
    = visit_loop True s wr visit address end_addr (current + chunk_size end_addr current)
        (visit (phys s current) (current - address) (chunk_size end_addr current) st)"
proof -
  from assms(2) obtain mp where "mapping_at s current = Some mp" "mp_flags mp AND (PRESENT OR USER) = PRESENT OR USER"
    "wr \<longrightarrow> mp_flags mp AND WRITABLE = WRITABLE" by (auto simp: accessible_def split: option.splits)
  with assms(1) show ?thesis
    by (subst visit_loop.simps) (auto simp: find_space_mappings Let_def phys_def chunk_size_def minus_div_mult_eq_mod)
qed

lemma visit_loop_error:
  assumes "current < end_addr" "\<not> accessible s wr current"
  shows "visit_loop off s wr visit address end_addr current st = (st, Some (-14))"
  using assms by (subst visit_loop.simps) (auto simp: find_space_mappings Let_def accessible_def split: option.splits)

lemma visit_loop_no_offset:
  assumes "current < end_addr" shows "visit_loop False s wr visit address end_addr current st = (st, Some (-14))"
  using assms by (subst visit_loop.simps) (auto simp: find_space_mappings Let_def split: option.splits)

lemma visit_loop_end: "\<not> current < end_addr \<Longrightarrow> visit_loop off s wr visit address end_addr current st = (st, None)"
  by (subst visit_loop.simps) simp

lemma chunk_size_pos: "current < end_addr \<Longrightarrow> 0 < chunk_size end_addr current \<and> current + chunk_size end_addr current \<le> end_addr"
  using mod_less_divisor [of frame_size current] by (auto simp: chunk_size_def min_def)

text \<open>Induction over the chunks of a range.\<close>

lemma chunk_induct [case_names stop chunk]:
  assumes "\<And>c. \<not> c < e \<Longrightarrow> P c" "\<And>c. c < e \<Longrightarrow> P (c + chunk_size e c) \<Longrightarrow> P c" shows "P (c :: nat)"
proof (induction c rule: measure_induct_rule [of "\<lambda>c. e - c"])
  case (less c)
  show ?case
  proof (cases "c < e")
    case True
    with less [of "c + chunk_size e c"] chunk_size_pos [OF True] assms(2) show ?thesis by auto
  qed (rule assms(1))
qed

text \<open>All addresses of a chunk lie in one page.\<close>

lemma chunk_page:
  assumes "c \<le> a" "a < c + chunk_size e c"
  shows "a div frame_size = c div frame_size" "a mod frame_size = c mod frame_size + (a - c)"
proof -
  obtain d where a: "a = c + d" using assms(1) by (metis le_Suc_ex)
  with assms(2) have "c mod frame_size + d < frame_size" by (auto simp: chunk_size_def)
  moreover have e: "c = c div frame_size * frame_size + c mod frame_size" by simp
  ultimately have "c div frame_size * frame_size \<le> c + d" "c + d < c div frame_size * frame_size + frame_size" by linarith+
  then have "(c + d) div frame_size = c div frame_size" by (intro div_nat_eqI) (simp_all add: mult.commute)
  moreover from this e have "(c + d) mod frame_size = c mod frame_size + d"
    using minus_div_mult_eq_mod [of "c + d" frame_size] by linarith
  ultimately have "(c + d) div frame_size = c div frame_size" "(c + d) mod frame_size = c mod frame_size + d" by simp_all
  with a show "a div frame_size = c div frame_size" "a mod frame_size = c mod frame_size + (a - c)" by simp_all
qed

lemma chunk_phys:
  assumes "c \<le> a" "a < c + chunk_size e c"
  shows "mapping_at s a = mapping_at s c" "accessible s wr a = accessible s wr c" "phys s a = phys s c + (a - c)"
  using chunk_page [OF assms] by (simp_all add: mapping_at_def accessible_def phys_def)

lemma copy_visit_length:
  assumes "address \<le> c" "e \<le> address + length out"
  shows "length (fst (visit_loop off s wr (\<lambda>source offset count out.
     take offset out @ map (\<lambda>k. pmem m (source + k)) [0..<count] @ drop (offset + count) out) address e c out)) = length out"
  using assms
proof (induction c arbitrary: out rule: chunk_induct [where e = e])
  case (chunk c)
  note cs = chunk_size_pos [OF chunk(1)]
  consider "\<not> off" | "off" "\<not> accessible s wr c" | "off" "accessible s wr c" by blast
  then show ?case
  proof cases
    case 3
    have "c - address + chunk_size e c \<le> length out" using cs chunk.prems by auto
    with 3 chunk.IH chunk(1) chunk.prems show ?thesis by (simp add: visit_loop_step)
  qed (use chunk(1) in \<open>simp_all add: visit_loop_error visit_loop_no_offset\<close>)
qed (simp add: visit_loop_end)

lemma copy_from_length: "length (fst (copy_from m cur address n)) = n"
  by (simp add: copy_from_def visit_range_def visit_task_range_def Let_def copy_visit_length split: option.split)

lemma copy_from_chunk: "(chunk, r) = copy_from m cur address n \<Longrightarrow> length chunk = n"
  by (metis copy_from_length fst_conv)

section \<open>Strings\<close>

function cstring_loop :: "machine \<Rightarrow> address_space option \<Rightarrow> nat \<Rightarrow> nat \<Rightarrow> u8 list \<Rightarrow> int + rstr" where
  "cstring_loop m cur address limit bytes =
     (if \<not> length bytes < limit then Inl (-7)
      else let current = address + length bytes
           in if current \<ge> 2 ^ 64 then Inl (-14)
              else let count = min (frame_size - current mod frame_size) (limit - length bytes)
                   in case copy_from m cur current count of
                        (_, Some e) \<Rightarrow> Inl e
                      | (chunk, None) \<Rightarrow>
                          (case position (\<lambda>b. b = 0) chunk of
                             Some e \<Rightarrow> (case from_utf8 (bytes @ take e chunk) of None \<Rightarrow> Inl (-22) | Some str \<Rightarrow> Inr str)
                           | None \<Rightarrow> cstring_loop m cur address limit (bytes @ chunk)))"
  by pat_completeness auto
termination
  by (relation "measure (\<lambda>(_, _, _, limit, bytes). limit - length bytes)")
    (auto simp: Let_def min_def dest!: copy_from_chunk)

declare cstring_loop.simps [simp del]

definition cstring :: "machine \<Rightarrow> address_space option \<Rightarrow> nat \<Rightarrow> nat \<Rightarrow> int + rstr" where
  "cstring m cur address limit = cstring_loop m cur address limit []"

text \<open>The loop over the indices that are left; the result comes with the budget that is left.\<close>

fun string_vector_loop ::
    "machine \<Rightarrow> address_space option \<Rightarrow> nat \<Rightarrow> nat list \<Rightarrow> rstr list \<Rightarrow> nat \<Rightarrow> (int + rstr list) \<times> nat" where
  "string_vector_loop m cur address [] strings budget = (Inr strings, budget)"
| "string_vector_loop m cur address (index # rest) strings budget =
     (let slot = address + index * 8
      in if slot \<ge> 2 ^ 64 then (Inl (-14), budget)
         else case copy_from m cur slot 8 of
                (_, Some e) \<Rightarrow> (Inl e, budget)
              | (bytes, None) \<Rightarrow>
                  let pointer = unat (le_word bytes :: u64)
                  in if pointer = 0 then (Inr strings, budget)
                     else if index = 1024 \<or> budget = 0 then (Inl (-7), budget)
                     else case cstring m cur pointer budget of
                            Inl e \<Rightarrow> (Inl e, budget)
                          | Inr value \<Rightarrow>
                              string_vector_loop m cur address rest (strings @ [value]) (budget - (str_len value + 1)))"

definition string_vector :: "machine \<Rightarrow> address_space option \<Rightarrow> nat \<Rightarrow> nat \<Rightarrow> (int + rstr list) \<times> nat" where
  "string_vector m cur address budget =
     (if address = 0 then (Inr [], budget) else string_vector_loop m cur address [0..<1025] [] budget)"

section \<open>Copies as updates of the view\<close>

text \<open>Mappings of an address space that owns its frames have disjoint frames.\<close>

definition frames_ok :: "address_space \<Rightarrow> bool" where
  "frames_ok s \<longleftrightarrow> distinct (map mp_frame (mappings s)) \<and> (\<forall>mp \<in> set (mappings s). mp_frame mp mod frame_size = 0)"

lemma space_ok_frames: "machine_ok m KT out \<Longrightarrow> space_ok pc m KT lv out s \<Longrightarrow> frames_ok s"
proof -
  assume m: "machine_ok m KT out" and s: "space_ok pc m KT lv out s"
  then have "mp_frame mp mod frame_size = 0" if "mp \<in> set (mappings s)" for mp
    using machine_ok_aligned [OF m, of "mp_frame mp"] that by (auto simp: space_ok_def owned_def)
  moreover have "distinct (map mp_frame (mappings s))" using s by (simp add: space_ok_def owned_def)
  ultimately show ?thesis by (simp add: frames_ok_def)
qed

lemma mapping_at_SomeD: "mapping_at s a = Some mp \<Longrightarrow> mp \<in> set (mappings s) \<and> mp_page mp = a div frame_size * frame_size"
  by (auto simp: mapping_at_def find_Some_iff)

lemma phys_inj:
  assumes fr: "frames_ok s" and a: "mapping_at s a = Some p" and b: "mapping_at s b = Some q" and eq: "phys s a = phys s b"
  shows "a = b"
proof -
  have mem: "p \<in> set (mappings s)" "q \<in> set (mappings s)" using a b mapping_at_SomeD by auto
  have "in_frame (mp_frame p) (phys s a)" "in_frame (mp_frame q) (phys s a)"
    using a b eq by (auto simp: phys_def in_frame_def)
  moreover have "mp_frame p mod frame_size = 0" "mp_frame q mod frame_size = 0" using mem fr by (simp_all add: frames_ok_def)
  ultimately have f: "mp_frame p = mp_frame q" using in_frame_unique [of "mp_frame p" "mp_frame q" "phys s a"] by simp
  with mem fr have "p = q" by (metis distinct_map inj_onD frames_ok_def)
  with mapping_at_SomeD [OF a] mapping_at_SomeD [OF b] have "a div frame_size = b div frame_size" by simp
  moreover have "a mod frame_size = b mod frame_size" using eq a b f by (simp add: phys_def)
  ultimately show "a = b" by (metis div_mult_mod_eq)
qed

lemma user_byte_phys: "mapping_at s a = Some mp \<Longrightarrow> user_byte m s a = Some (pmem m (phys s a))"
  by (simp add: user_byte_def phys_def)

lemma user_byte_None: "mapping_at s a = None \<Longrightarrow> user_byte m s a = None"
  by (simp add: user_byte_def)

lemma accessible_mapping: "accessible s wr a \<Longrightarrow> \<exists>mp. mapping_at s a = Some mp"
  by (auto simp: accessible_def split: option.splits)

definition written :: "machine \<Rightarrow> address_space \<Rightarrow> nat \<Rightarrow> nat \<Rightarrow> (nat \<Rightarrow> u8) \<Rightarrow> machine \<Rightarrow> bool" where
  "written m s c e f m' \<longleftrightarrow> (\<exists>mem. m' = m\<lparr>pmem := mem\<rparr>)
     \<and> (\<forall>a. c \<le> a \<and> a < e \<longrightarrow> pmem m' (phys s a) = f a)
     \<and> (\<forall>x. (\<forall>a. c \<le> a \<and> a < e \<longrightarrow> phys s a \<noteq> x) \<longrightarrow> pmem m' x = pmem m x)"

lemma put_chunk_written:
  assumes fr: "frames_ok s" and acc: "accessible s wr c" and le: "address \<le> c" "c < e"
  shows "written m s c (c + chunk_size e c) (\<lambda>a. bytes ! (a - address)) (put_bytes bytes (phys s c) (c - address) (chunk_size e c) m)"
proof -
  let ?n = "chunk_size e c"
  have ph: "phys s a = phys s c + (a - c)" if "c \<le> a" "a < c + ?n" for a using chunk_phys(3) [OF that] .
  have "pmem (put_bytes bytes (phys s c) (c - address) ?n m) (phys s a) = bytes ! (a - address)" if "c \<le> a" "a < c + ?n" for a
  proof -
    have d: "a = c + (a - c)" using that(1) by simp
    with ph [OF that] that(2) le show ?thesis by (auto simp: put_bytes_def)
  qed
  moreover have "pmem (put_bytes bytes (phys s c) (c - address) ?n m) x = pmem m x"
    if "\<forall>a. c \<le> a \<and> a < c + ?n \<longrightarrow> phys s a \<noteq> x" for x
  proof -
    have "\<not> (phys s c \<le> x \<and> x < phys s c + ?n)"
    proof
      assume x: "phys s c \<le> x \<and> x < phys s c + ?n"
      then obtain k where k: "x = phys s c + k" "k < ?n" by (metis le_iff_add nat_add_left_cancel_less)
      then have "phys s (c + k) = x" using ph [of "c + k"] by simp
      with that k(2) show False by auto
    qed
    then show ?thesis by (auto simp: put_bytes_def)
  qed
  moreover have "\<exists>mem. put_bytes bytes (phys s c) (c - address) ?n m = m\<lparr>pmem := mem\<rparr>" by (auto simp: put_bytes_def)
  ultimately show ?thesis by (auto simp: written_def)
qed

lemma visit_put:
  assumes fr: "frames_ok s" and acc: "\<And>a. c \<le> a \<Longrightarrow> a < e \<Longrightarrow> accessible s wr a" and le: "address \<le> c"
  shows "\<exists>m'. visit_loop True s wr (put_bytes bytes) address e c m = (m', None) \<and> written m s c e (\<lambda>a. bytes ! (a - address)) m'"
  using acc le
proof (induction c arbitrary: m rule: chunk_induct [where e = e])
  case (stop c)
  then have "written m s c e (\<lambda>a. bytes ! (a - address)) m"
    unfolding written_def by (auto intro: exI [of _ "pmem m"])
  with stop show ?case by (simp add: visit_loop_end)
next
  case (chunk c)
  let ?n = "chunk_size e c" and ?m1 = "put_bytes bytes (phys s c) (c - address) (chunk_size e c) m"
  let ?f = "\<lambda>a. bytes ! (a - address)"
  have w1: "written m s c (c + ?n) ?f ?m1" using put_chunk_written [OF fr _ chunk.prems(2) chunk(1)] chunk.prems(1) [of c] chunk(1) by blast
  obtain m' where m': "visit_loop True s wr (put_bytes bytes) address e (c + ?n) ?m1 = (m', None)" "written ?m1 s (c + ?n) e ?f m'"
    using chunk.IH [of ?m1] chunk.prems by auto
  have run: "visit_loop True s wr (put_bytes bytes) address e c m = (m', None)"
    using m'(1) visit_loop_step [of c e s wr "put_bytes bytes" address m] chunk(1) chunk.prems(1) [of c] by simp
  have "written m s c e ?f m'"
    unfolding written_def
  proof (intro conjI allI impI)
    show "\<exists>mem. m' = m\<lparr>pmem := mem\<rparr>" using w1 m'(2) by (auto simp: written_def)
    fix a assume a: "c \<le> a \<and> a < e"
    show "pmem m' (phys s a) = ?f a"
    proof (cases "a < c + ?n")
      case True
      have "phys s b \<noteq> phys s a" if b: "c + ?n \<le> b \<and> b < e" for b
      proof
        assume eq: "phys s b = phys s a"
        from b a have "accessible s wr b" "accessible s wr a" using chunk.prems(1) by auto
        then obtain p q where "mapping_at s b = Some p" "mapping_at s a = Some q" using accessible_mapping by blast
        from phys_inj [OF fr this eq] b True show False by simp
      qed
      then have "pmem m' (phys s a) = pmem ?m1 (phys s a)" using m'(2) unfolding written_def by blast
      with w1 a True show ?thesis by (simp add: written_def)
    qed (use m'(2) a in \<open>simp add: written_def\<close>)
  next
    fix x assume "\<forall>a. c \<le> a \<and> a < e \<longrightarrow> phys s a \<noteq> x"
    with w1 m'(2) chunk_size_pos [OF chunk(1)] show "pmem m' x = pmem m x" unfolding written_def by auto
  qed
  with run show ?case by blast
qed

lemma visit_error:
  assumes "c \<le> a" "a < e" "\<not> accessible s wr a"
  shows "snd (visit_loop off s wr visit address e c st) = Some (-14)"
  using assms
proof (induction c arbitrary: st rule: chunk_induct [where e = e])
  case (chunk c)
  consider "\<not> off" | "\<not> accessible s wr c" | "off" "accessible s wr c" by blast
  then show ?case
  proof cases
    case 3
    then have "\<not> a < c + chunk_size e c" using chunk.prems chunk_phys(2) [of c a e s wr] by blast
    with 3 chunk show ?thesis by (simp add: visit_loop_step)
  qed (use chunk(1) in \<open>simp_all add: visit_loop_error visit_loop_no_offset\<close>)
qed simp

lemma visit_unit:
  assumes "\<And>a. c \<le> a \<Longrightarrow> a < e \<Longrightarrow> accessible s wr a"
  shows "snd (visit_loop True s wr (\<lambda>_ _ _ st. st) address e c st) = None"
  using assms
proof (induction c rule: chunk_induct [where e = e])
  case (chunk c)
  then show ?case by (simp add: visit_loop_step)
qed (simp add: visit_loop_end)

lemma visit_copy:
  assumes "\<And>a. c \<le> a \<Longrightarrow> a < e \<Longrightarrow> accessible s wr a" "address \<le> c" "c \<le> e" "length out = e - address"
  shows "visit_loop True s wr (\<lambda>source offset count out.
       take offset out @ map (\<lambda>k. pmem m (source + k)) [0..<count] @ drop (offset + count) out) address e c out
     = (take (c - address) out @ map (\<lambda>a. pmem m (phys s a)) [c..<e], None)"
  using assms
proof (induction c arbitrary: out rule: chunk_induct [where e = e])
  case (chunk c)
  let ?n = "chunk_size e c"
  note cs = chunk_size_pos [OF chunk(1)]
  let ?out = "take (c - address) out @ map (\<lambda>k. pmem m (phys s c + k)) [0..<?n] @ drop (c - address + ?n) out"
  have "length ?out = e - address" using chunk.prems cs by auto
  moreover have "take (c + ?n - address) ?out = take (c - address) out @ map (\<lambda>k. pmem m (phys s c + k)) [0..<?n]"
  proof -
    have "length (take (c - address) out @ map (\<lambda>k. pmem m (phys s c + k)) [0..<?n]) = c + ?n - address" using chunk.prems cs by auto
    then show ?thesis by (metis append_assoc append_eq_conv_conj)
  qed
  moreover have "map (\<lambda>k. pmem m (phys s c + k)) [0..<?n] = map (\<lambda>a. pmem m (phys s a)) [c..<c + ?n]"
  proof -
    have "phys s (c + k) = phys s c + k" if "k < ?n" for k using chunk_phys(3) [of c "c + k" e s] that by simp
    then show ?thesis by (intro nth_equalityI) simp_all
  qed
  moreover have "[c..<e] = [c..<c + ?n] @ [c + ?n..<e]" using cs upt_add_eq_append [of c "c + ?n" "e - (c + ?n)"] by simp
  ultimately show ?case
    using chunk.IH [of ?out] chunk.prems chunk(1) cs visit_loop_step [of c e s wr _ address out] by simp
qed (simp add: visit_loop_end)

lemma copy_from_exact:
  assumes "phys_offset m \<noteq> None" "address + n < 2 ^ 64"
  shows "range_ok s False address n \<Longrightarrow> copy_from m (Some s) address n = (map (\<lambda>a. pmem m (phys s a)) [address..<address + n], None)"
    and "\<not> range_ok s False address n \<Longrightarrow> snd (copy_from m (Some s) address n) = Some (-14)"
proof -
  assume r: "range_ok s False address n"
  then have "visit_loop True s False (\<lambda>source offset count out.
       take offset out @ map (\<lambda>k. pmem m (source + k)) [0..<count] @ drop (offset + count) out) address (address + n) address (replicate n 0)
     = (take (address - address) (replicate n 0) @ map (\<lambda>a. pmem m (phys s a)) [address..<address + n], None)"
    by (intro visit_copy) (auto simp: range_ok_def)
  with r assms show "copy_from m (Some s) address n = (map (\<lambda>a. pmem m (phys s a)) [address..<address + n], None)"
    by (simp add: copy_from_def visit_range_def visit_task_range_def Let_def range_ok_def)
next
  assume "\<not> range_ok s False address n"
  then consider "address = 0 \<or> \<not> address + n \<le> USER_ADDRESS_END" | a where "address \<le> a" "a < address + n" "\<not> accessible s False a"
    by (auto simp: range_ok_def)
  then show "snd (copy_from m (Some s) address n) = Some (-14)"
    by cases (auto simp: copy_from_def visit_range_def visit_task_range_def Let_def visit_error)
qed

lemma copy_to_task_exact:
  assumes "frames_ok s" "phys_offset m \<noteq> None" "address + length bytes < 2 ^ 64"
  shows "range_ok s True address (length bytes) \<Longrightarrow> \<exists>m'. copy_to_task m s address bytes = (m', None)
      \<and> written m s address (address + length bytes) (\<lambda>a. bytes ! (a - address)) m'"
    and "\<not> range_ok s True address (length bytes) \<Longrightarrow> copy_to_task m s address bytes = (m, Some (-14))"
proof -
  let ?e = "address + length bytes"
  assume r: "range_ok s True address (length bytes)"
  then have "snd (visit_loop True s True (\<lambda>_ _ _ st. st) address ?e address ()) = None"
    by (intro visit_unit) (auto simp: range_ok_def)
  moreover have "\<exists>m'. visit_loop True s True (put_bytes bytes) address ?e address m = (m', None)
      \<and> written m s address ?e (\<lambda>a. bytes ! (a - address)) m'"
    using r by (intro visit_put [OF assms(1)]) (auto simp: range_ok_def)
  ultimately show "\<exists>m'. copy_to_task m s address bytes = (m', None) \<and> written m s address ?e (\<lambda>a. bytes ! (a - address)) m'"
    using r assms(2,3) by (simp add: copy_to_task_def visit_task_range_def Let_def range_ok_def)
next
  assume "\<not> range_ok s True address (length bytes)"
  then consider "address = 0 \<or> \<not> address + length bytes \<le> USER_ADDRESS_END"
    | a where "address \<le> a" "a < address + length bytes" "\<not> accessible s True a"
    by (auto simp: range_ok_def)
  then show "copy_to_task m s address bytes = (m, Some (-14))"
    by cases (auto simp: copy_to_task_def visit_task_range_def Let_def visit_error)
qed

lemma written_view:
  assumes "frames_ok s" "written m s c e f m'" "\<And>a. c \<le> a \<Longrightarrow> a < e \<Longrightarrow> mapping_at s a \<noteq> None"
  shows "user_byte m' s a = (if c \<le> a \<and> a < e then Some (f a) else user_byte m s a)"
proof (cases "mapping_at s a")
  case None
  then show ?thesis using assms(3) [of a] by (auto simp: user_byte_None)
next
  case (Some mp)
  show ?thesis
  proof (cases "c \<le> a \<and> a < e")
    case True
    with assms(2) Some show ?thesis by (simp add: user_byte_phys written_def)
  next
    case False
    have "phys s b \<noteq> phys s a" if "c \<le> b \<and> b < e" for b
      using phys_inj [OF assms(1) _ Some, of b] assms(3) [of b] that False by auto
    with assms(2) have "pmem m' (phys s a) = pmem m (phys s a)" unfolding written_def by blast
    with Some False show ?thesis by (auto simp: user_byte_phys)
  qed
qed

section \<open>Strings in user memory\<close>

lemma utf8_decode_width: "utf8_decode bs = Some s \<Longrightarrow> str_len s = length bs"
proof (induction bs arbitrary: s rule: utf8_decode.induct)
  case (2 b bs)
  show ?case
  proof (cases "b < 128")
    case True
    with 2 show ?thesis by (auto simp: str_len_def utf8_width_def)
  next
    case False
    with 2(5) obtain c1 r1 where r1: "bs = c1 # r1" by (cases bs) auto
    show ?thesis
    proof (cases "194 \<le> b \<and> b < 224")
      case True
      with 2(5) False r1 obtain t where t: "utf8_decode r1 = Some t" "continues c1" "s = ((b - 192) * 64 + (c1 - 128)) # t" by (auto split: if_splits)
      then have "128 \<le> (b - 192) * 64 + (c1 - 128)" "(b - 192) * 64 + (c1 - 128) < 2048" using True by (auto simp: continues_def)
      with t 2(2) [OF False r1 True t(2,1)] r1 show ?thesis by (simp add: str_len_def utf8_width_def)
    next
      case n2: False
      with 2(5) False r1 obtain c2 r2 where r2: "r1 = c2 # r2" by (cases r1) auto
      show ?thesis
      proof (cases "224 \<le> b \<and> b < 240")
        case True
        with 2(5) False r1 n2 r2 obtain t where t: "utf8_decode r2 = Some t" "second_ok b c1 \<and> continues c2"
          "s = ((b - 224) * 4096 + (c1 - 128) * 64 + (c2 - 128)) # t" by (auto split: if_splits)
        then have "2048 \<le> (b - 224) * 4096 + (c1 - 128) * 64 + (c2 - 128)" "(b - 224) * 4096 + (c1 - 128) * 64 + (c2 - 128) < 65536"
          using True by (cases "b = 224"; auto simp: second_ok_def continues_def)+
        with t 2(3) [OF False r1 n2 r2 True t(2,1)] r1 r2 show ?thesis by (simp add: str_len_def utf8_width_def)
      next
        case n3: False
        with 2(5) False r1 n2 r2 obtain c3 r3 where r3: "r2 = c3 # r3" by (cases r2) auto
        from 2(5) False r1 n2 r2 n3 r3 obtain t where t: "utf8_decode r3 = Some t"
          "240 \<le> b \<and> b < 245 \<and> second_ok b c1 \<and> continues c2 \<and> continues c3"
          "s = ((b - 240) * 262144 + (c1 - 128) * 4096 + (c2 - 128) * 64 + (c3 - 128)) # t" by (auto split: if_splits)
        then have "65536 \<le> (b - 240) * 262144 + (c1 - 128) * 4096 + (c2 - 128) * 64 + (c3 - 128)"
          by (cases "b = 240"; auto simp: second_ok_def continues_def)
        with t 2(4) [OF False r1 n2 r2 n3 r3 t(2,1)] r1 r2 r3 show ?thesis by (simp add: str_len_def utf8_width_def)
      qed
    qed
  qed
qed (simp add: str_len_def)

lemma from_utf8_len: "from_utf8 bs = Some s \<Longrightarrow> str_len s = length bs"
  using utf8_decode_width by (fastforce simp: from_utf8_def)

lemma cstring_loop_len:
  "cstring_loop m cur address limit bytes = Inr v \<Longrightarrow> length bytes \<le> limit \<Longrightarrow> str_len v < limit"
proof (induction bytes rule: measure_induct_rule [of "\<lambda>b. limit - length b"])
  case (less bytes)
  define current where "current = address + length bytes"
  define count where "count = min (frame_size - current mod frame_size) (limit - length bytes)"
  from less.prems(1) have lim: "length bytes < limit" "\<not> current \<ge> 2 ^ 64"
    by (subst (asm) cstring_loop.simps, simp add: Let_def current_def split: if_splits)+
  obtain chunk r where c: "copy_from m cur current count = (chunk, r)" by fastforce
  have len: "length chunk = count" using copy_from_chunk [OF c [symmetric]] .
  from less.prems(1) lim c have run: "(case r of Some e \<Rightarrow> Inl e | None \<Rightarrow> case position (\<lambda>b. b = 0) chunk of
        Some e \<Rightarrow> (case from_utf8 (bytes @ take e chunk) of None \<Rightarrow> Inl (-22) | Some str \<Rightarrow> Inr str)
      | None \<Rightarrow> cstring_loop m cur address limit (bytes @ chunk)) = Inr v"
    by (subst (asm) cstring_loop.simps) (simp add: Let_def current_def count_def split: option.splits)
  then have r: "r = None" by (cases r) auto
  show ?case
  proof (cases "position (\<lambda>b. b = 0) chunk")
    case None
    have "length (bytes @ chunk) \<le> limit" "0 < length chunk" using len lim by (auto simp: count_def)
    moreover from this lim have "limit - length (bytes @ chunk) < limit - length bytes" by (intro diff_less_mono2) simp_all
    moreover have "cstring_loop m cur address limit (bytes @ chunk) = Inr v" using run r None by (simp del: position_None)
    ultimately show ?thesis using less.IH by blast
  next
    case (Some e)
    with run r have "from_utf8 (bytes @ take e chunk) = Some v" by (auto split: option.splits)
    moreover have "e < length chunk" using Some by (simp add: position_Some)
    ultimately show ?thesis using from_utf8_len [of "bytes @ take e chunk" v] len lim by (simp add: count_def less_diff_conv add.commute)
  qed
qed

lemma cstring_len: "cstring m cur address limit = Inr v \<Longrightarrow> str_len v + 1 \<le> limit"
  using cstring_loop_len [of m cur address limit "[]" v] by (simp add: cstring_def)

definition cost :: "rstr list \<Rightarrow> nat" where
  "cost ss = sum_list (map (\<lambda>v. str_len v + 1) ss)"

lemma string_vector_loop_cost:
  "string_vector_loop m cur address idx strings budget = (r, budget') \<Longrightarrow>
   budget' \<le> budget \<and> (\<forall>ss. r = Inr ss \<longrightarrow> cost ss + budget' = cost strings + budget \<and> length ss \<le> length strings + length idx
      \<and> (1024 \<in> set idx \<longrightarrow> distinct idx \<longrightarrow> length ss < length strings + length idx))"
proof (induction idx arbitrary: strings budget)
  case (Cons i rest)
  let ?slot = "address + i * 8"
  obtain bytes e where c: "copy_from m cur ?slot 8 = (bytes, e)" by fastforce
  let ?p = "unat (le_word bytes :: u64)"
  show ?case
  proof (cases "?slot < 2 ^ 64 \<and> e = None \<and> ?p \<noteq> 0 \<and> i \<noteq> 1024 \<and> budget \<noteq> 0 \<and> (\<exists>v. cstring m cur ?p budget = Inr v)")
    case True
    then obtain v where v: "cstring m cur ?p budget = Inr v" by blast
    with True c Cons.prems have run: "string_vector_loop m cur address rest (strings @ [v]) (budget - (str_len v + 1)) = (r, budget')"
      by (simp add: Let_def)
    from Cons.IH [OF run] cstring_len [OF v] True show ?thesis by (auto simp: cost_def)
  next
    case False
    with Cons.prems c show ?thesis by (auto simp: Let_def split: if_splits sum.splits option.splits)
  qed
qed auto

lemma user_page_end: "current < USER_ADDRESS_END \<Longrightarrow> current + (frame_size - current mod frame_size) \<le> USER_ADDRESS_END"
proof -
  assume "current < USER_ADDRESS_END"
  then have "current div frame_size < 2 ^ 35" by (simp add: USER_ADDRESS_END_def div_less_iff_less_mult)
  define q r where "q = current div frame_size" and "r = current mod frame_size"
  have "current = q * frame_size + r" "r < frame_size" by (simp_all add: q_def r_def)
  with \<open>current div frame_size < 2 ^ 35\<close> show ?thesis
    unfolding USER_ADDRESS_END_def r_def [symmetric] q_def [symmetric] by simp
qed

text \<open>A string in user memory: \<open>k\<close> bytes that are not zero, then a zero.\<close>

definition user_string :: "machine \<Rightarrow> address_space \<Rightarrow> nat \<Rightarrow> u8 list \<Rightarrow> bool" where
  "user_string m s address bs \<longleftrightarrow> range_ok s False address (length bs + 1) \<and> 0 \<notin> set bs
     \<and> (\<forall>i < length bs. pmem m (phys s (address + i)) = bs ! i) \<and> pmem m (phys s (address + length bs)) = 0"

lemma cstring_loop_reads:
  assumes "user_string m s address bs" "phys_offset m \<noteq> None" "length bs < limit"
  shows "j \<le> length bs \<Longrightarrow> cstring_loop m (Some s) address limit (take j bs)
     = (case from_utf8 bs of None \<Rightarrow> Inl (-22) | Some v \<Rightarrow> Inr v)"
proof (induction j rule: measure_induct_rule [of "\<lambda>j. length bs - j"])
  case (less j)
  define current where "current = address + j"
  define count where "count = min (frame_size - current mod frame_size) (limit - j)"
  from assms(1) have str: "range_ok s False address (length bs + 1)" "0 \<notin> set bs"
    "\<And>i. i < length bs \<Longrightarrow> pmem m (phys s (address + i)) = bs ! i" "pmem m (phys s (address + length bs)) = 0"
    by (auto simp: user_string_def)
  have lt: "current < USER_ADDRESS_END" "j < limit" "accessible s False current" "current \<noteq> 0"
    using str(1) less.prems assms(3) by (auto simp: range_ok_def current_def)
  have cs: "count = chunk_size (current + (limit - j)) current" by (simp add: count_def chunk_size_def)
  have "range_ok s False current count"
    unfolding range_ok_def
  proof (intro conjI allI impI)
    show "current + count \<le> USER_ADDRESS_END" using user_page_end [OF lt(1)] by (simp add: count_def)
    fix a assume "current \<le> a \<and> a < current + count"
    then show "accessible s False a" using chunk_phys(2) [of current a "current + (limit - j)" s False] cs lt(3) by simp
  qed (rule lt(4))
  moreover have "current + count < 2 ^ 64" using user_page_end [OF lt(1)] by (simp add: count_def USER_ADDRESS_END_def)
  ultimately have "copy_from m (Some s) current count = (map (\<lambda>a. pmem m (phys s a)) [current..<current + count], None)"
    using copy_from_exact(1) [OF assms(2)] by blast
  moreover define chunk where "chunk = map (\<lambda>a. pmem m (phys s a)) [current..<current + count]"
  ultimately have cf: "copy_from m (Some s) current count = (chunk, None)" and len: "length chunk = count" by simp_all
  have cnt: "0 < count" using lt(2) by (simp add: count_def)
  have nth: "chunk ! i = bs ! (j + i)" "bs ! (j + i) \<noteq> 0" if "i < count" "j + i < length bs" for i
    using that str(2) str(3) [of "j + i"] by (auto simp: chunk_def current_def add.assoc in_set_conv_nth)
  have nul: "chunk ! (length bs - j) = 0" if "length bs < j + count"
    using that str(4) less.prems by (simp add: chunk_def current_def less_diff_conv2)
  have run: "cstring_loop m (Some s) address limit (take j bs) = (case position (\<lambda>b. b = 0) chunk of
        Some e \<Rightarrow> (case from_utf8 (take j bs @ take e chunk) of None \<Rightarrow> Inl (-22) | Some v \<Rightarrow> Inr v)
      | None \<Rightarrow> cstring_loop m (Some s) address limit (take j bs @ chunk))"
  proof -
    have "length (take j bs) = j" "\<not> current \<ge> 2 ^ 64" using less.prems lt(1) by (simp_all add: USER_ADDRESS_END_def)
    with lt(2) show ?thesis
      unfolding cstring_loop.simps [of m "Some s" address limit "take j bs"]
      by (simp only: Let_def current_def [symmetric] count_def [symmetric] cf if_False not_not not_True_eq_False prod.case option.case)
  qed
  show ?case
  proof (cases "length bs < j + count")
    case True
    let ?e = "length bs - j"
    have "position (\<lambda>b. b = 0) chunk = Some ?e"
      unfolding position_Some using True less.prems nth nul len by auto
    moreover have "take ?e chunk = drop j bs"
      using True less.prems nth(1) len by (intro nth_equalityI) simp_all
    then have "take j bs @ take ?e chunk = bs" by simp
    ultimately show ?thesis unfolding run by simp
  next
    case False
    have "chunk = take count (drop j bs)"
      using False less.prems nth(1) len by (intro nth_equalityI) simp_all
    then have "take j bs @ chunk = take (j + count) bs" by (simp only: take_add)
    moreover have "position (\<lambda>b. b = 0) chunk = None"
      using False nth len by (auto simp: in_set_conv_nth)
    ultimately show ?thesis unfolding run using less.IH [of "j + count"] False cnt by (simp del: position_None)
  qed
qed

section \<open>Properties\<close>

lemma range_ok_width: "range_ok s wr address n \<Longrightarrow> address + n < 2 ^ 64"
  by (simp add: range_ok_def USER_ADDRESS_END_def)

lemma copy_to_outcome:
  assumes "frames_ok s" "phys_offset m \<noteq> None"
  shows "case copy_to m (Some s) address bytes of (m', r) \<Rightarrow>
     if range_ok s True address (length bytes)
     then r = None \<and> written m s address (address + length bytes) (\<lambda>a. bytes ! (a - address)) m'
     else r = Some (-14) \<and> m' = m"
proof (cases "address + length bytes < 2 ^ 64")
  case True
  then show ?thesis using copy_to_task_exact [OF assms, of address bytes] by (auto simp: copy_to_def)
next
  case False
  then show ?thesis using range_ok_width [of s True address "length bytes"]
    by (auto simp: copy_to_def copy_to_task_def visit_task_range_def Let_def)
qed

lemma range_ok_read: "range_ok s True address n \<Longrightarrow> range_ok s False address n"
  by (auto simp: range_ok_def accessible_def split: option.splits)

lemma copy_back:
  assumes "written m s address (address + length bytes) (\<lambda>a. bytes ! (a - address)) m'" "phys_offset m' \<noteq> None"
    and "range_ok s True address (length bytes)"
  shows "copy_from m' (Some s) address (length bytes) = (bytes, None)"
proof -
  have "map (\<lambda>a. pmem m' (phys s a)) [address..<address + length bytes] = bytes"
    using assms(1) by (intro nth_equalityI) (simp_all add: written_def)
  with copy_from_exact(1) [OF assms(2) range_ok_width range_ok_read, OF assms(3) assms(3)] show ?thesis by simp
qed

text \<open>C4: Copies to user memory are checked and all or nothing. If every byte of the range is mapped, writable for
  the user and below the end of user space (also for a range whose end overflows), exactly these bytes of the address space change, and
  reading the range back gives the bytes; otherwise the result is \<open>EFAULT\<close> and no memory
  changes, although the range is walked page by page.\<close>

theorem copy_to_all_or_nothing:
  assumes "frames_ok s" "phys_offset m \<noteq> None"
  shows "case copy_to m (Some s) address bytes of (m', r) \<Rightarrow>
     if range_ok s True address (length bytes)
     then r = None \<and> copy_from m' (Some s) address (length bytes) = (bytes, None)
        \<and> (\<forall>a. user_byte m' s a = (if address \<le> a \<and> a < address + length bytes then Some (bytes ! (a - address)) else user_byte m s a))
     else r = Some (-14) \<and> m' = m"
proof (cases "range_ok s True address (length bytes)")
  case True
  obtain m' r where run: "copy_to m (Some s) address bytes = (m', r)" by fastforce
  with True copy_to_outcome [OF assms, of address bytes]
  have w: "r = None" "written m s address (address + length bytes) (\<lambda>a. bytes ! (a - address)) m'" by simp_all
  then have "phys_offset m' \<noteq> None" using assms(2) by (auto simp: written_def)
  with True run w copy_back [OF w(2)] written_view [OF assms(1) w(2)] accessible_mapping [of s True] show ?thesis by (auto simp: range_ok_def)
qed (use copy_to_outcome [OF assms, of address bytes] in auto)

lemma demo_accessible: "0x400000 \<le> a \<Longrightarrow> a < 0x401000 \<Longrightarrow> accessible demo_space wr a"
proof -
  assume "0x400000 \<le> a" "a < 0x401000"
  then have "a div frame_size = 1024" by (intro div_nat_eqI) simp_all
  then show ?thesis by (simp add: accessible_def mapping_at_def demo_space_def PRESENT_def USER_def WRITABLE_def)
qed

lemma demo_frames: "frames_ok demo_space" "phys_offset demo_machine \<noteq> None"
  by (simp_all add: frames_ok_def demo_space_def demo_machine_def)

lemma demo_range: "0x400000 \<le> a \<Longrightarrow> a + n \<le> 0x401000 \<Longrightarrow> range_ok demo_space wr a n"
  using demo_accessible [of _ wr] by (auto simp: range_ok_def USER_ADDRESS_END_def)

theorem copy_to_all_or_nothing_witness:
  "snd (copy_to demo_machine (Some demo_space) 0x400FFE [1, 2]) = None
   \<and> snd (copy_to demo_machine (Some demo_space) 0x400FFE [1, 2, 3]) = Some (-14)
   \<and> fst (copy_to demo_machine (Some demo_space) 0x400FFE [1, 2, 3]) = demo_machine"
proof -
  have "range_ok demo_space True 0x400FFE (length [1, 2 :: u8])" by (intro demo_range) simp_all
  moreover have "\<not> accessible demo_space True 0x401000"
    by (simp add: accessible_def mapping_at_def demo_space_def)
  then have "\<not> range_ok demo_space True 0x400FFE (length [1, 2, 3 :: u8])"
    unfolding range_ok_def by (auto intro!: exI [of _ "0x401000 :: nat"])
  ultimately show ?thesis
    using copy_to_all_or_nothing [OF demo_frames, of "0x400FFE" "[1, 2]"] copy_to_all_or_nothing [OF demo_frames, of "0x400FFE" "[1, 2, 3]"]
    by (auto split: prod.splits)
qed

text \<open>C27: A string that a user program passes is read exactly: if its bytes and the terminating zero are
  readable and it is shorter than the limit, \<open>cstring\<close> returns these bytes as a string, or \<open>EINVAL\<close> if they are not
  UTF-8. This holds across pages, and when the page after the zero is not mapped: the loop never
  reads a page that the string does not touch.\<close>

theorem cstring_reads_string:
  assumes "user_string m s address bs" "phys_offset m \<noteq> None" "length bs < limit"
  shows "cstring m (Some s) address limit = (case from_utf8 bs of None \<Rightarrow> Inl (-22) | Some v \<Rightarrow> Inr v)"
  using cstring_loop_reads [OF assms, of 0] by (simp add: cstring_def)

theorem cstring_reads_string_witness: "cstring demo_machine (Some demo_space) 0x400000 4096 = Inr [42]"
proof -
  have "mapping_at demo_space 0x400000 = Some \<lparr>mp_page = 0x400000, mp_frame = 12288, mp_flags = 7\<rparr>"
     "mapping_at demo_space 0x400001 = Some \<lparr>mp_page = 0x400000, mp_frame = 12288, mp_flags = 7\<rparr>"
    by (simp_all add: mapping_at_def demo_space_def)
  then have "user_string demo_machine demo_space 0x400000 [42]"
    using demo_range [of "0x400000" "Suc (Suc 0)" False] by (simp add: user_string_def phys_def demo_machine_def)
  from cstring_reads_string [OF this demo_frames(2), of 4096] show ?thesis
    by (simp add: from_utf8_def utf8_decode.simps is_scalar_def)
qed

text \<open>C28: The argument and environment vectors of a program are bounded: the budget never grows and never
  underflows, on success what is left of the budget is exactly what the strings and their terminators do not use, and there
  are at most 1024 strings.\<close>

theorem string_vector_budget:
  "case string_vector m cur address budget of (r, left) \<Rightarrow> left \<le> budget \<and>
     (case r of Inl _ \<Rightarrow> True | Inr ss \<Rightarrow> cost ss + left = budget \<and> length ss \<le> 1024)"
proof (cases "address = 0")
  case False
  obtain r left where run: "string_vector_loop m cur address [0..<1025] [] budget = (r, left)" by fastforce
  from string_vector_loop_cost [OF run] show ?thesis
    using False run by (auto simp: string_vector_def cost_def split: sum.split)
qed (simp add: string_vector_def cost_def)

text \<open>C34: Kernel writes to a new address space (\<open>write_bytes\<close>). A write that stays in one page changes
  exactly its bytes of the address space. A write that crosses the end of the page is not split: it continues in the physical frame
  after the page's frame, whoever owns it.\<close>

theorem write_bytes_spills:
  assumes "frames_ok s" "phys_offset m \<noteq> None" "canonical vaddr" "mapping_at s vaddr = Some mp"
  shows "\<exists>m'. space_write_bytes m s vaddr bytes = Some (Inr m')
    \<and> (if vaddr mod frame_size + length bytes \<le> frame_size
       then \<forall>a. user_byte m' s a = (if vaddr \<le> a \<and> a < vaddr + length bytes then Some (bytes ! (a - vaddr)) else user_byte m s a)
       else pmem m' (mp_frame mp + frame_size) = bytes ! (frame_size - vaddr mod frame_size))"
proof -
  let ?o = "vaddr mod frame_size"
  define m' where "m' = m\<lparr>pmem := \<lambda>a. if mp_frame mp + ?o \<le> a \<and> a < mp_frame mp + ?o + length bytes
                                    then bytes ! (a - (mp_frame mp + ?o)) else pmem m a\<rparr>"
  have off: "vaddr - vaddr div frame_size * frame_size = ?o" by (simp add: minus_div_mult_eq_mod)
  with assms(2-4) have run: "space_write_bytes m s vaddr bytes = Some (Inr m')"
    by (auto simp: space_write_bytes_def Let_def mapping_at_def write_frame_bytes_def m'_def simp del: minus_div_mult_eq_mod)
  have "user_byte m' s a = (if vaddr \<le> a \<and> a < vaddr + length bytes then Some (bytes ! (a - vaddr)) else user_byte m s a)"
    if fits: "?o + length bytes \<le> frame_size" for a
  proof -
    have page: "mapping_at s b = Some mp" "phys s b = mp_frame mp + ?o + (b - vaddr)" if b: "vaddr \<le> b" "b < vaddr + length bytes" for b
    proof -
      from b fits have "b div frame_size = vaddr div frame_size" "b mod frame_size = ?o + (b - vaddr)"
        using chunk_page [of vaddr b "vaddr + length bytes"] by (simp_all add: chunk_size_def)
      with assms(4) show "mapping_at s b = Some mp" "phys s b = mp_frame mp + ?o + (b - vaddr)"
        by (simp_all add: mapping_at_def phys_def)
    qed
    have "pmem m' x = pmem m x" if x: "\<forall>b. vaddr \<le> b \<and> b < vaddr + length bytes \<longrightarrow> phys s b \<noteq> x" for x
    proof (cases "mp_frame mp + ?o \<le> x \<and> x < mp_frame mp + ?o + length bytes")
      case True
      define d where "d = x - (mp_frame mp + ?o)"
      have "x = mp_frame mp + ?o + d" "d < length bytes" using True by (auto simp: d_def)
      with page(2) [of "vaddr + d"] spec [OF x, of "vaddr + d"] show ?thesis by simp
    qed (auto simp: m'_def)
    moreover have "pmem m' (phys s b) = bytes ! (b - vaddr)" if "vaddr \<le> b \<and> b < vaddr + length bytes" for b
      using that page(2) [of b] le_Suc_ex [of vaddr b] by (auto simp: m'_def)
    ultimately have "written m s vaddr (vaddr + length bytes) (\<lambda>a. bytes ! (a - vaddr)) m'"
      by (auto simp: written_def m'_def)
    from written_view [OF assms(1) this] page(1) show ?thesis by simp
  qed
  then show ?thesis using run by (auto simp: m'_def)
qed

theorem write_bytes_spills_witness:
  "\<exists>m'. space_write_bytes demo_machine demo_space 0x400FFF [1, 2] = Some (Inr m') \<and> pmem m' 16384 = 2"
proof -
  have "canonical 0x400FFF" "mapping_at demo_space 0x400FFF = Some \<lparr>mp_page = 0x400000, mp_frame = 12288, mp_flags = 7\<rparr>"
    by (simp_all add: canonical_def mapping_at_def demo_space_def)
  from write_bytes_spills [OF demo_frames this, of "[1, 2]"] show ?thesis by simp
qed

end
