(* ===== verification/Byte_File.thy ===== *)
theory Byte_File
  imports Prelude
begin

text \<open>
  The contract of a regular file, as the users of the \<open>Inode\<close> trait of
  \<^verbatim>\<open>kernel/src/fs/vfs.rs\<close> rely on it: the contents are a list of bytes, a read returns
  a slice of it, a write replaces a slice (padding with zeros behind the end) and a truncation
  cuts it or extends it with zeros. The locale \<open>byte_file\<close> states the contract and holds what
  follows from it; each storage form interprets it.
\<close>

section \<open>Errors\<close>

text \<open>\<open>FsError\<close>.\<close>

datatype fs_error =
    NotFound | PermissionDenied | NotADirectory | IsADirectory | AlreadyExists | Busy | IoError
  | NotSupported | NoSpace | OutOfMemory | InvalidArgument | NotEmpty | CrossDevice
  | NameTooLong | FileTooLarge

type_synonym 'a fs_result = "fs_error + 'a"

text \<open>\<open>FileType\<close>; the prefix keeps \<open>Directory\<close> free for the storage form.\<close>

datatype file_type = FtRegular | FtDirectory | FtCharDevice | FtBlockDevice | FtSymlink

definition isize_max :: nat where "isize_max = 2 ^ 63 - 1"
definition usize_max :: nat where "usize_max = 2 ^ 64 - 1"

section \<open>Byte lists\<close>

text \<open>\<open>copy_from_slice\<close> into a part of a buffer.\<close>

definition splice :: "'a list \<Rightarrow> nat \<Rightarrow> 'a list \<Rightarrow> 'a list" where
  "splice xs start ys = take start xs @ ys @ drop (start + length ys) xs"

definition overwrite :: "u8 list \<Rightarrow> nat \<Rightarrow> u8 list \<Rightarrow> u8 list" where
  "overwrite xs offset ys =
     (if ys = [] then xs
      else take offset (xs @ replicate (offset - length xs) 0) @ ys @ drop (offset + length ys) xs)"

definition resize_bytes :: "nat \<Rightarrow> u8 list \<Rightarrow> u8 list" where
  "resize_bytes n xs = take n xs @ replicate (n - length xs) 0"

lemma length_splice: "start + length ys \<le> length xs \<Longrightarrow> length (splice xs start ys) = length xs"
  by (simp add: splice_def)

lemma nth_splice:
  assumes "start + length ys \<le> length xs" "k < length xs"
  shows "splice xs start ys ! k =
     (if start \<le> k \<and> k < start + length ys then ys ! (k - start) else xs ! k)"
  using assms by (auto simp: splice_def nth_append min_def)

lemma length_overwrite:
  "length (overwrite xs offset ys) =
     (if ys = [] then length xs else max (length xs) (offset + length ys))"
  by (simp add: overwrite_def min_def max_def)

lemma nth_overwrite:
  "ys \<noteq> [] \<Longrightarrow> k < max (length xs) (offset + length ys) \<Longrightarrow>
   overwrite xs offset ys ! k =
     (if offset \<le> k \<and> k < offset + length ys then ys ! (k - offset)
      else if k < length xs then xs ! k else 0)"
  by (auto simp: overwrite_def nth_append min_def)

lemma slice_overwrite: "take (length ys) (drop offset (overwrite xs offset ys)) = ys"
  by (simp add: overwrite_def min_def)

lemma slice_overwrite_other:
  assumes "a + k \<le> offset \<or> offset + length ys \<le> a" "a + k \<le> length xs"
  shows "take k (drop a (overwrite xs offset ys)) = take k (drop a xs)"
proof (cases "ys = []")
  case False
  then show ?thesis
    using assms by (intro nth_equalityI) (auto simp: length_overwrite nth_overwrite)
qed (simp add: overwrite_def)

lemma length_resize_bytes [simp]: "length (resize_bytes n xs) = n"
  by (simp add: resize_bytes_def)

lemma nth_resize_bytes:
  "k < n \<Longrightarrow> resize_bytes n xs ! k = (if k < length xs then xs ! k else 0)"
  by (simp add: resize_bytes_def nth_append min_def)

section \<open>The contract\<close>

locale byte_file =
  fixes inv :: "'f \<Rightarrow> bool"
    and contents :: "'f \<Rightarrow> u8 list"
    and read_at :: "'f \<Rightarrow> nat \<Rightarrow> nat \<Rightarrow> u8 list fs_result"
    and write_at :: "'f \<Rightarrow> nat \<Rightarrow> u8 list \<Rightarrow> nat fs_result \<times> 'f"
    and set_len :: "'f \<Rightarrow> nat \<Rightarrow> unit fs_result \<times> 'f"
  assumes read_slice: "inv f \<Longrightarrow> read_at f offset n = Inr (take n (drop offset (contents f)))"
    and write_inv: "inv f \<Longrightarrow> write_at f offset buf = (r, f') \<Longrightarrow> inv f'"
    and write_ok: "inv f \<Longrightarrow> write_at f offset buf = (Inr n, f') \<Longrightarrow>
      n \<le> length buf \<and> contents f' = overwrite (contents f) offset (take n buf)"
    and write_err: "inv f \<Longrightarrow> write_at f offset buf = (Inl e, f') \<Longrightarrow> contents f' = contents f"
    and trunc_inv: "inv f \<Longrightarrow> set_len f n = (t, f') \<Longrightarrow> inv f'"
    and trunc_ok: "inv f \<Longrightarrow> set_len f n = (Inr u, f') \<Longrightarrow> contents f' = resize_bytes n (contents f)"
    and trunc_err: "inv f \<Longrightarrow> set_len f n = (Inl e, f') \<Longrightarrow> contents f' = contents f"
begin

lemma read_after_write:
  assumes "inv f" "write_at f offset buf = (Inr n, f')"
  shows "read_at f' offset n = Inr (take n buf)"
proof -
  note w = write_ok [OF assms]
  then have "take n (drop offset (contents f')) = take n buf"
    using slice_overwrite [of "take n buf" offset "contents f"] by simp
  then show ?thesis using read_slice [OF write_inv [OF assms]] by simp
qed

text \<open>A write leaves what lies before and behind it alone.\<close>

lemma read_elsewhere:
  assumes "inv f" "write_at f offset buf = (Inr n, f')"
    and "a + k \<le> offset \<or> offset + n \<le> a" "a + k \<le> length (contents f)"
  shows "read_at f' a k = read_at f a k"
proof -
  note w = write_ok [OF assms(1,2)]
  then have "take k (drop a (contents f')) = take k (drop a (contents f))"
    using assms(3,4) by (simp add: slice_overwrite_other)
  then show ?thesis
    using read_slice [OF write_inv [OF assms(1,2)]] read_slice [OF assms(1)] by simp
qed

text \<open>Cutting a file and growing it again reads as zeros behind the cut.\<close>

lemma shrink_then_grow:
  assumes "inv f" "set_len f m = (Inr u, f1)" "set_len f1 n = (Inr v, f2)" "m \<le> n"
  shows "read_at f2 m (n - m) = Inr (replicate (n - m) 0)"
proof -
  have "contents f2 = resize_bytes n (resize_bytes m (contents f))"
    using trunc_ok [OF assms(1,2)] trunc_ok [OF trunc_inv [OF assms(1,2)] assms(3)] by simp
  then have "take (n - m) (drop m (contents f2)) = replicate (n - m) 0"
    using assms(4) by (intro nth_equalityI) (auto simp: nth_resize_bytes)
  then show ?thesis
    using read_slice [OF trunc_inv [OF trunc_inv [OF assms(1,2)] assms(3)]] by simp
qed

end

end
