(* ===== verification/Vfs_Path.thy ===== *)
theory Vfs_Path
  imports Rust_Str Byte_File
begin

text \<open>
  Paths (\<open>fs/vfs.rs\<close>): normalization, splitting and joining. The reference is a stack of path
  components: a normal path is \<open>/\<close> followed by the components with \<open>/\<close> between them.
\<close>

definition rsplit_once :: "'a \<Rightarrow> 'a list \<Rightarrow> ('a list \<times> 'a list) option" where
  "rsplit_once c s = map_option (\<lambda>(a, b). (rev b, rev a)) (split_once c (rev s))"

text \<open>\<open>String::truncate\<close> at a character boundary.\<close>

fun str_truncate :: "nat \<Rightarrow> rstr \<Rightarrow> rstr" where
  "str_truncate n [] = []"
| "str_truncate n (c # s) = (if utf8_width c \<le> n then c # str_truncate (n - utf8_width c) s else [])"

section \<open>The functions\<close>

definition split_segments :: "rstr \<Rightarrow> rstr list" where
  "split_segments path = filter (\<lambda>p. p \<noteq> []) (split_on slash path)"

definition parent_of :: "rstr \<Rightarrow> rstr" where
  "parent_of normalized =
     (if str_len normalized > 1
      then case rsplit_once slash normalized of
             Some (parent, _) \<Rightarrow> str_truncate (max (str_len parent) 1) normalized
           | None \<Rightarrow> str_truncate 1 normalized
      else normalized)"

definition normalize_segment :: "rstr \<Rightarrow> rstr \<Rightarrow> rstr" where
  "normalize_segment normalized segment =
     (if segment = [dot] then normalized
      else if segment = [dot, dot] then parent_of normalized
      else (if str_len normalized > 1 then normalized @ [slash] else normalized) @ segment)"

definition normalize_absolute_path :: "rstr \<Rightarrow> rstr fs_result" where
  "normalize_absolute_path path =
     (let trimmed = str_trim path
      in if trimmed = [] then Inl NotFound
         else let absolute = (if starts_with [slash] trimmed then trimmed else slash # trimmed)
              in Inr (foldl normalize_segment [slash] (split_segments (drop 1 absolute))))"

fun join_loop :: "rstr \<Rightarrow> nat \<Rightarrow> rstr list \<Rightarrow> rstr" where
  "join_loop out index [] = out"
| "join_loop out index (segment # rest) =
     join_loop ((if index > 0 then out @ [slash] else out) @ segment) (index + 1) rest"

definition join_absolute_segments :: "rstr list \<Rightarrow> rstr" where
  "join_absolute_segments segments = (if segments = [] then [slash] else join_loop [slash] 0 segments)"

definition join_relative_segments :: "rstr list \<Rightarrow> rstr" where
  "join_relative_segments segments = join_loop [] 0 segments"

definition split_parent_name :: "rstr \<Rightarrow> (rstr \<times> rstr) fs_result" where
  "split_parent_name path =
     (case rsplit_once slash path of
        None \<Rightarrow> Inl NotFound
      | Some (parent, name) \<Rightarrow>
          if name = [] then Inl NotFound else Inr (if parent = [] then [slash] else parent, name))"

section \<open>Components\<close>

definition component :: "rstr \<Rightarrow> bool" where
  "component s \<longleftrightarrow> s \<noteq> [] \<and> slash \<notin> set s"

definition plain :: "rstr \<Rightarrow> bool" where
  "plain s \<longleftrightarrow> component s \<and> s \<noteq> [dot] \<and> s \<noteq> [dot, dot]"

definition abs_path :: "rstr list \<Rightarrow> rstr" where
  "abs_path cs = slash # join_with slash cs"

text \<open>What a component does to the stack of the components so far.\<close>

definition push :: "rstr list \<Rightarrow> rstr \<Rightarrow> rstr list" where
  "push st s = (if s = [dot] then st else if s = [dot, dot] then butlast st else st @ [s])"

lemma utf8_width_pos [simp]: "0 < utf8_width c"
  by (simp add: utf8_width_def)

lemma str_len_append [simp]: "str_len (s @ t) = str_len s + str_len t"
  by (simp add: str_len_def)

lemma str_len_Cons [simp]: "str_len (c # s) = utf8_width c + str_len s"
  by (simp add: str_len_def)

lemma str_len_Nil [simp]: "str_len [] = 0"
  by (simp add: str_len_def)

lemma str_len_0 [simp]: "str_len s = 0 \<longleftrightarrow> s = []"
  by (cases s) auto

lemma str_truncate_append: "str_truncate (str_len p) (p @ q) = p"
  by (induction p) (cases q, auto)

lemma str_truncate_0 [simp]: "str_truncate 0 s = []"
  by (cases s) simp_all

lemma rsplit_once_append: "c \<notin> set b \<Longrightarrow> rsplit_once c (a @ c # b) = Some (a, b)"
proof -
  assume "c \<notin> set b"
  then have "split_once c (rev (a @ c # b)) = Some (rev b, rev a)" by (simp add: split_once_Some)
  then show ?thesis by (simp add: rsplit_once_def)
qed

lemma rsplit_once_None: "rsplit_once c s = None \<longleftrightarrow> c \<notin> set s"
  unfolding rsplit_once_def by (simp add: split_once_None)

lemma join_with_snoc: "cs \<noteq> [] \<Longrightarrow> join_with c (cs @ [s]) = join_with c cs @ c # s"
  by (induction c cs rule: join_with.induct) auto

lemma join_with_empty: "\<forall>s \<in> set cs. s \<noteq> [] \<Longrightarrow> join_with c cs = [] \<longleftrightarrow> cs = []"
  by (cases "(c, cs)" rule: join_with.cases) auto

lemma split_segments_components: "s \<in> set (split_segments p) \<Longrightarrow> component s"
  by (auto simp: split_segments_def component_def dest: split_on_no_sep)

lemma split_segments_slash: "split_segments (slash # p) = split_segments p"
  by (simp add: split_segments_def)

lemma split_segments_abs: "\<forall>s \<in> set cs. component s \<Longrightarrow> split_segments (abs_path cs) = cs"
  by (cases "cs = []") (auto simp: abs_path_def split_segments_def component_def split_join filter_id_conv)

lemma abs_path_len: "\<forall>s \<in> set cs. component s \<Longrightarrow> str_len (abs_path cs) > 1 \<longleftrightarrow> cs \<noteq> []"
proof -
  assume "\<forall>s \<in> set cs. component s"
  then have "join_with slash cs = [] \<longleftrightarrow> cs = []" by (intro join_with_empty) (simp add: component_def)
  moreover have "str_len (abs_path cs) = 1 + str_len (join_with slash cs)" by (simp add: abs_path_def utf8_width_def)
  ultimately show ?thesis using str_len_0 [of "join_with slash cs"] by linarith
qed

lemma parent_abs: "\<forall>s \<in> set cs. component s \<Longrightarrow> parent_of (abs_path cs) = abs_path (butlast cs)"
proof (cases cs rule: rev_cases)
  case (snoc st s)
  assume c: "\<forall>s \<in> set cs. component s"
  then have sep: "slash \<notin> set s" using snoc by (simp add: component_def)
  have long: "str_len (abs_path cs) > 1" using abs_path_len [OF c] snoc by simp
  show ?thesis
  proof (cases "st = []")
    case True
    then have "abs_path cs = [] @ slash # s" by (simp add: snoc abs_path_def)
    then have "rsplit_once slash (abs_path cs) = Some ([], s)" using rsplit_once_append [OF sep, of "[]"] by simp
    then show ?thesis using long True snoc by (simp add: parent_of_def abs_path_def utf8_width_def)
  next
    case False
    then have e: "abs_path cs = abs_path st @ slash # s" by (simp add: snoc abs_path_def join_with_snoc)
    then have "rsplit_once slash (abs_path cs) = Some (abs_path st, s)" using rsplit_once_append [OF sep] by simp
    moreover have "max (str_len (abs_path st)) 1 = str_len (abs_path st)" by (simp add: abs_path_def utf8_width_def)
    ultimately show ?thesis using long snoc e by (simp add: parent_of_def str_truncate_append)
  qed
qed (simp add: parent_of_def abs_path_def utf8_width_def)

lemma normalize_segment_abs:
  assumes "\<forall>c \<in> set st. component c" "component s"
  shows "normalize_segment (abs_path st) s = abs_path (push st s)"
proof (cases "st = []")
  case True
  then show ?thesis
    using parent_abs [OF assms(1)] by (auto simp: normalize_segment_def push_def abs_path_def utf8_width_def)
next
  case False
  then show ?thesis
    using parent_abs [OF assms(1)] abs_path_len [OF assms(1)]
    by (auto simp: normalize_segment_def push_def abs_path_def join_with_snoc)
qed

lemma push_components: "\<forall>c \<in> set st. component c \<Longrightarrow> component s \<Longrightarrow> \<forall>c \<in> set (push st s). component c"
  by (auto simp: push_def dest: in_set_butlastD)

lemma push_plain: "\<forall>c \<in> set st. plain c \<Longrightarrow> component s \<Longrightarrow> \<forall>c \<in> set (push st s). plain c"
  by (auto simp: push_def plain_def dest: in_set_butlastD)

lemma normalize_fold:
  "\<forall>c \<in> set st. component c \<Longrightarrow> \<forall>s \<in> set ss. component s \<Longrightarrow>
   foldl normalize_segment (abs_path st) ss = abs_path (foldl push st ss)"
proof (induction ss arbitrary: st)
  case (Cons s ss)
  have "normalize_segment (abs_path st) s = abs_path (push st s)" using Cons.prems by (intro normalize_segment_abs) simp_all
  then show ?case using Cons.IH [of "push st s"] Cons.prems push_components [of st s] by simp
qed simp

lemma push_fold_plain: "\<forall>c \<in> set st. plain c \<Longrightarrow> \<forall>s \<in> set ss. component s \<Longrightarrow> \<forall>c \<in> set (foldl push st ss). plain c"
proof (induction ss arbitrary: st)
  case (Cons s ss)
  then have "\<forall>c \<in> set (push st s). plain c" by (intro push_plain) simp_all
  from Cons.IH [OF this] Cons.prems(2) show ?case by simp
qed simp

definition components :: "rstr \<Rightarrow> rstr list" where
  "components path = foldl push [] (split_segments (str_trim path))"

lemma components_plain: "\<forall>c \<in> set (components path). plain c"
  unfolding components_def by (rule push_fold_plain) (auto simp: split_segments_components)

lemma normalize_components:
  "normalize_absolute_path path = (if str_trim path = [] then Inl NotFound else Inr (abs_path (components path)))"
proof (cases "str_trim path = []")
  case False
  let ?t = "str_trim path"
  have "split_segments (drop 1 (if starts_with [slash] ?t then ?t else slash # ?t)) = split_segments ?t"
    using False by (cases ?t) (auto simp: starts_with_def split_segments_slash)
  then have "normalize_absolute_path path = Inr (foldl normalize_segment (abs_path []) (split_segments ?t))"
    using False by (simp add: normalize_absolute_path_def Let_def abs_path_def)
  also have "foldl normalize_segment (abs_path []) (split_segments ?t) = abs_path (components path)"
    unfolding components_def by (rule normalize_fold) (auto simp: split_segments_components)
  finally show ?thesis using False by simp
qed (simp add: normalize_absolute_path_def)

lemma push_id: "\<forall>s \<in> set ss. plain s \<Longrightarrow> foldl push st ss = st @ ss"
  by (induction ss arbitrary: st) (auto simp: push_def plain_def)

lemma components_normal: "\<forall>c \<in> set cs. plain c \<Longrightarrow> str_trim (abs_path cs) = abs_path cs \<Longrightarrow> components (abs_path cs) = cs"
  using split_segments_abs [of cs] push_id [of cs "[]"] by (simp add: components_def plain_def)

lemma join_loop_tail: "index > 0 \<Longrightarrow> join_loop out index ss = out @ concat (map (\<lambda>s. slash # s) ss)"
  by (induction ss arbitrary: out index) auto

lemma join_with_concat: "join_with c (s # ss) = s @ concat (map (\<lambda>s. c # s) ss)"
  by (induction ss arbitrary: s) auto

lemma join_absolute: "join_absolute_segments cs = abs_path cs"
  by (cases cs) (simp_all add: join_absolute_segments_def abs_path_def join_loop_tail join_with_concat del: join_with.simps(3))

lemma split_parent_abs:
  assumes "\<forall>c \<in> set cs. component c" "component name"
  shows "split_parent_name (abs_path (cs @ [name])) = Inr (abs_path cs, name)"
proof -
  let ?parent = "if cs = [] then [] else abs_path cs"
  have "abs_path (cs @ [name]) = ?parent @ slash # name" by (simp add: abs_path_def join_with_snoc)
  then have "rsplit_once slash (abs_path (cs @ [name])) = Some (?parent, name)"
    using assms(2) rsplit_once_append [of slash name ?parent] by (simp add: component_def)
  then show ?thesis using assms(2) by (simp add: split_parent_name_def component_def abs_path_def)
qed

text \<open>Normalization never makes a path longer.\<close>

definition total :: "rstr list \<Rightarrow> nat" where
  "total cs = sum_list (map (\<lambda>c. length c + 1) cs)"

lemma total_simps [simp]: "total [] = 0" "total (c # cs) = length c + 1 + total cs" "total (cs @ ds) = total cs + total ds"
  by (simp_all add: total_def)

lemma length_abs_path: "length (abs_path cs) = max 1 (total cs)"
proof (cases cs)
  case (Cons c ds)
  have "length (concat (map (\<lambda>s. slash # s) ds)) = total ds" by (induction ds) simp_all
  then show ?thesis by (simp add: Cons abs_path_def join_with_concat del: join_with.simps(3))
qed (simp add: abs_path_def)

lemma total_butlast: "total (butlast cs) \<le> total cs"
  by (cases cs rule: rev_cases) simp_all

lemma total_push: "total (foldl push st ss) \<le> total st + total ss"
proof (induction ss arbitrary: st)
  case (Cons s ss)
  have "total (push st s) \<le> total st + length s + 1" using total_butlast [of st] by (simp add: push_def)
  with Cons.IH [of "push st s"] show ?case by simp
qed simp

lemma total_filter: "total (filter P cs) \<le> total cs"
  by (induction cs) simp_all

lemma total_split: "total (split_on c t) = length t + 1"
  by (induction c t rule: split_on.induct) (auto split: list.splits)

lemma normalize_shorter:
  assumes "str_trim p = slash # t"
  shows "length (abs_path (components p)) \<le> length (slash # t)"
proof -
  have "total (components p) \<le> total (split_segments (slash # t))" using total_push [of "[]"] assms by (simp add: components_def)
  also have "\<dots> = total (split_segments t)" by (simp add: split_segments_slash)
  also have "\<dots> \<le> length t + 1" unfolding split_segments_def using total_filter total_split by metis
  finally show ?thesis by (simp add: length_abs_path)
qed

lemma str_trim_length: "length (str_trim p) \<le> length p" "length (str_trim p) = length p \<Longrightarrow> str_trim p = p"
proof -
  have d: "length (dropWhile Q s) \<le> length s" for Q and s :: rstr by (rule length_dropWhile_le)
  have e: "length (dropWhile Q s) = length s \<Longrightarrow> dropWhile Q s = s" for Q and s :: rstr
    by (metis append_eq_append_conv append_Nil takeWhile_dropWhile_id)
  let ?s = "dropWhile is_whitespace p"
  have t: "str_trim p = rev (dropWhile is_whitespace (rev ?s))" by (simp add: str_trim_def trim_end_def trim_start_def)
  then show "length (str_trim p) \<le> length p" using d [of is_whitespace "rev ?s"] d [of is_whitespace p] by simp
  assume "length (str_trim p) = length p"
  then have "length (dropWhile is_whitespace (rev ?s)) = length (rev ?s)" "length ?s = length p"
    using t d [of is_whitespace "rev ?s"] d [of is_whitespace p] by simp_all
  then show "str_trim p = p" using t e [of is_whitespace "rev ?s"] e [of is_whitespace p] by simp
qed

lemma str_trim_slash: "str_trim (slash # t) = slash # trim_end is_whitespace t"
proof -
  have "\<not> is_whitespace slash" by (simp add: is_whitespace_def)
  then show ?thesis
    by (simp add: str_trim_def trim_start_def trim_end_def dropWhile_append)
qed

section \<open>Properties\<close>

text \<open>C17: Normalization computes the stack of path components: empty components and \<open>.\<close> are dropped, \<open>..\<close> takes the last
  component away and never goes above the root; the result is an absolute path with no empty, \<open>.\<close> or
  \<open>..\<close> component, and splitting it gives these components back. Only a blank path is rejected.\<close>

theorem normalize_path_exact:
  "normalize_absolute_path path = (if str_trim path = [] then Inl NotFound else Inr (abs_path (components path)))
   \<and> list_all plain (components path) \<and> split_segments (abs_path (components path)) = components path"
  using normalize_components components_plain [of path] split_segments_abs [of "components path"]
  by (simp add: list_all_iff plain_def)

text \<open>C39: A normalized path is a fixed point of normalization exactly when it does not end in a blank. Since every lookup
  normalizes again, a directory whose name ends in a blank cannot be reached as a parent: the blank is cut off.\<close>

theorem normalize_path_again:
  assumes "normalize_absolute_path path = Inr p"
  shows "normalize_absolute_path p = Inr p \<longleftrightarrow> str_trim p = p"
proof -
  from assms normalize_components [of path] have p: "p = abs_path (components path)" by (simp split: if_splits)
  have plain: "\<forall>c \<in> set (components q). plain c" for q by (rule components_plain)
  then have seg: "split_segments (abs_path (components q)) = components q" for q
    by (intro split_segments_abs) (auto simp: plain_def)
  show ?thesis
  proof
    assume "str_trim p = p"
    then show "normalize_absolute_path p = Inr p"
      using components_normal [OF plain, of path] normalize_components [of p] p by (simp add: abs_path_def)
  next
    assume n: "normalize_absolute_path p = Inr p"
    then have "abs_path (components p) = p" using normalize_components [of p] by (simp split: if_splits)
    moreover from p obtain t where t: "p = slash # t" by (simp add: abs_path_def)
    ultimately have "length p \<le> length (str_trim p)" using normalize_shorter [OF str_trim_slash, of t] str_trim_slash [of t] by simp
    with str_trim_length [of p] show "str_trim p = p" by simp
  qed
qed

theorem normalize_path_again_witness:
  "normalize_absolute_path (lit ''/a /.'') = Inr (lit ''/a '') \<and> normalize_absolute_path (lit ''/a '') \<noteq> Inr (lit ''/a '')"
proof -
  have trim: "str_trim (lit ''/a /.'') = lit ''/a /.''" "str_trim (lit ''/a '') = lit ''/a''"
    by (simp_all add: str_trim_def trim_start_def trim_end_def is_whitespace_def lit_def)
  then have n: "normalize_absolute_path (lit ''/a /.'') = Inr (lit ''/a '')"
    unfolding normalize_components by (simp add: components_def abs_path_def split_segments_def push_def lit_def)
  show ?thesis using n normalize_path_again [OF n] trim(2) by (simp add: lit_def)
qed

end
