(* ===== verification/Btree_Map.thy ===== *)
theory Btree_Map
  imports Prelude "HOL-Library.List_Lexorder"
begin

text \<open>
  Rust's \<open>BTreeMap\<close>: the entries in the order of the keys. Strings are ordered as lists of their
  scalar values, which is the order of their UTF-8 bytes.
\<close>

type_synonym ('k, 'v) btree = "('k \<times> 'v) list"

definition bt_get :: "'k \<Rightarrow> ('k, 'v) btree \<Rightarrow> 'v option" where
  "bt_get k m = map_of m k"

fun bt_insert :: "'k::linorder \<Rightarrow> 'v \<Rightarrow> ('k, 'v) btree \<Rightarrow> ('k, 'v) btree" where
  "bt_insert k v [] = [(k, v)]"
| "bt_insert k v ((k', v') # m) =
     (if k = k' then (k, v) # m
      else if k < k' then (k, v) # (k', v') # m
      else (k', v') # bt_insert k v m)"

definition bt_remove :: "'k \<Rightarrow> ('k, 'v) btree \<Rightarrow> ('k, 'v) btree" where
  "bt_remove k m = filter (\<lambda>e. fst e \<noteq> k) m"

text \<open>\<open>get_mut\<close> with an update of the value.\<close>

definition bt_update :: "'k \<Rightarrow> ('v \<Rightarrow> 'v) \<Rightarrow> ('k, 'v) btree \<Rightarrow> ('k, 'v) btree" where
  "bt_update k f m = map (\<lambda>(k', v). (k', if k' = k then f v else v)) m"

definition bt_keys :: "('k, 'v) btree \<Rightarrow> 'k list" where
  "bt_keys m = map fst m"

definition bt_ok :: "('k::linorder, 'v) btree \<Rightarrow> bool" where
  "bt_ok m \<longleftrightarrow> sorted_wrt (<) (map fst m)"

lemma bt_ok_Nil [simp, intro]: "bt_ok []"
  by (simp add: bt_ok_def)

lemma bt_ok_distinct: "bt_ok m \<Longrightarrow> distinct (map fst m)"
  by (simp add: bt_ok_def strict_sorted_iff)

lemma bt_keys_insert: "set (map fst (bt_insert k v m)) = insert k (set (map fst m))"
  by (induction k v m rule: bt_insert.induct) auto

lemma bt_ok_insert [intro]: "bt_ok m \<Longrightarrow> bt_ok (bt_insert k v m)"
proof (induction m)
  case (Cons e m)
  obtain k' v' where e: "e = (k', v')" by fastforce
  from Cons.prems have m: "bt_ok m" "\<forall>x \<in> set (map fst m). k' < x" by (auto simp: bt_ok_def e)
  show ?case
  proof (cases "k = k' \<or> k < k'")
    case True
    with Cons.prems show ?thesis by (auto simp: bt_ok_def e intro: less_trans)
  next
    case False
    then have "\<forall>x \<in> set (map fst (bt_insert k v m)). k' < x" using m(2) unfolding bt_keys_insert by auto
    with False Cons.IH [OF m(1)] show ?thesis by (auto simp: bt_ok_def e)
  qed
qed (simp add: bt_ok_def)

lemma bt_ok_remove [intro]: "bt_ok m \<Longrightarrow> bt_ok (bt_remove k m)"
  unfolding bt_ok_def bt_remove_def by (induction m) auto

lemma bt_keys_update: "map fst (bt_update k f m) = map fst m"
  unfolding bt_update_def by (induction m) auto

lemma bt_ok_update [intro]: "bt_ok m \<Longrightarrow> bt_ok (bt_update k f m)"
  by (simp add: bt_ok_def bt_keys_update)

lemma bt_get_insert [simp]: "bt_get k' (bt_insert k v m) = (if k' = k then Some v else bt_get k' m)"
  unfolding bt_get_def by (induction m) auto

lemma bt_get_remove [simp]: "bt_get k' (bt_remove k m) = (if k' = k then None else bt_get k' m)"
  unfolding bt_get_def bt_remove_def by (induction m) auto

lemma bt_get_update [simp]: "bt_get k' (bt_update k f m) = (if k' = k then map_option f (bt_get k m) else bt_get k' m)"
  unfolding bt_get_def bt_update_def by (induction m) auto

lemma bt_get_Nil [simp]: "bt_get k [] = None"
  by (simp add: bt_get_def)

lemma bt_get_entry: "bt_ok m \<Longrightarrow> (k, v) \<in> set m \<longleftrightarrow> bt_get k m = Some v"
  using bt_ok_distinct [of m] by (simp add: bt_get_def)

lemma bt_get_keys: "bt_get k m = None \<longleftrightarrow> k \<notin> set (bt_keys m)"
  by (simp add: bt_get_def bt_keys_def map_of_eq_None_iff)

end
