(* ===== verification/Device_Registry.thy ===== *)
theory Device_Registry
  imports Rust_Str Btree_Map
begin

text \<open>
  The registries of devices and buses (\<open>drivers/registry.rs\<close>) with the types of
  \<open>drivers/traits.rs\<close>. Devices, block devices and buses are trait objects: values of type
  parameters, and what the registry asks them (\<open>device_type\<close>, \<open>name\<close>, \<open>enumerate\<close>) are
  arguments. The two global registries are passed explicitly.
\<close>

datatype device_type = CharDev | BlockDev | NetworkDev

datatype device_error = DevIoError | DevNotReady | DevInvalidArgument | DevBusy | DevNotFound | DevNotSupported

datatype bus_type = Pci | Sata | OtherBus

datatype bus_error = BusInvalidName | BusAlreadyRegistered | BusNotFound | BusBusy | BusEnumerationFailed

datatype registry_error = RegInvalidName | RegNameInUse | RegDeviceNumberInUse | RegBusy | RegNotFound

record 'd device_entry =
  de_device :: 'd
  de_type :: device_type
  de_major :: u16
  de_minor :: u16
  open_count :: nat

record 'd device_descriptor =
  dd_name :: rstr
  dd_type :: device_type
  dd_major :: u16
  dd_minor :: u16
  dd_device :: 'd

record ('d, 'b) device_registry =
  devices :: "(rstr, 'd device_entry) btree"
  block_devices :: "(rstr, 'b) btree"

section \<open>Devices\<close>

definition registry_new :: "('d, 'b) device_registry" where
  "registry_new = \<lparr>devices = [], block_devices = []\<rparr>"

definition descriptor_of :: "rstr \<Rightarrow> 'd device_entry \<Rightarrow> 'd device_descriptor" where
  "descriptor_of name e = \<lparr>dd_name = name, dd_type = de_type e, dd_major = de_major e, dd_minor = de_minor e, dd_device = de_device e\<rparr>"

definition same_number :: "device_type \<Rightarrow> u16 \<Rightarrow> u16 \<Rightarrow> 'd device_entry \<Rightarrow> bool" where
  "same_number t major minor e \<longleftrightarrow> de_type e = t \<and> de_major e = major \<and> de_minor e = minor"

definition registry_register ::
    "('d \<Rightarrow> device_type) \<Rightarrow> ('d, 'b) device_registry \<Rightarrow> rstr \<Rightarrow> 'd \<Rightarrow> u16 \<Rightarrow> u16 \<Rightarrow> registry_error + ('d, 'b) device_registry" where
  "registry_register device_type r name device major minor =
     (if str_trim name = [] then Inl RegInvalidName
      else if bt_get name (devices r) \<noteq> None then Inl RegNameInUse
      else let t = device_type device
           in if \<exists>e \<in> set (devices r). same_number t major minor (snd e) then Inl RegDeviceNumberInUse
              else Inr (r\<lparr>devices := bt_insert name
                     \<lparr>de_device = device, de_type = t, de_major = major, de_minor = minor, open_count = 0\<rparr> (devices r)\<rparr>))"

definition registry_get :: "('d, 'b) device_registry \<Rightarrow> rstr \<Rightarrow> 'd option" where
  "registry_get r name = map_option de_device (bt_get name (devices r))"

definition get_descriptor :: "('d, 'b) device_registry \<Rightarrow> rstr \<Rightarrow> 'd device_descriptor option" where
  "get_descriptor r name = map_option (descriptor_of name) (bt_get name (devices r))"

definition registry_open :: "('d, 'b) device_registry \<Rightarrow> rstr \<Rightarrow> (registry_error + 'd device_descriptor) \<times> ('d, 'b) device_registry" where
  "registry_open r name =
     (case bt_get name (devices r) of
        None \<Rightarrow> (Inl RegNotFound, r)
      | Some e \<Rightarrow> (Inr (descriptor_of name e),
                   r\<lparr>devices := bt_update name (open_count_update (\<lambda>n. min (n + 1) (2 ^ 64 - 1))) (devices r)\<rparr>))"

definition registry_close :: "('d, 'b) device_registry \<Rightarrow> rstr \<Rightarrow> registry_error + ('d, 'b) device_registry" where
  "registry_close r name =
     (case bt_get name (devices r) of
        None \<Rightarrow> Inl RegNotFound
      | Some e \<Rightarrow>
          if open_count e = 0 then Inl RegNotFound
          else Inr (r\<lparr>devices := bt_update name (open_count_update (\<lambda>n. n - 1)) (devices r)\<rparr>))"

definition registry_unregister :: "('d, 'b) device_registry \<Rightarrow> rstr \<Rightarrow> registry_error + ('d, 'b) device_registry" where
  "registry_unregister r name =
     (case bt_get name (devices r) of
        None \<Rightarrow> Inl RegNotFound
      | Some e \<Rightarrow>
          if open_count e > 0 then Inl RegBusy
          else Inr (r\<lparr>devices := bt_remove name (devices r), block_devices := bt_remove name (block_devices r)\<rparr>))"

definition register_block_device_alias ::
    "('d, 'b) device_registry \<Rightarrow> rstr \<Rightarrow> 'b \<Rightarrow> registry_error + ('d, 'b) device_registry" where
  "register_block_device_alias r name device =
     (if bt_get name (devices r) = None then Inl RegNotFound
      else Inr (r\<lparr>block_devices := bt_insert name device (block_devices r)\<rparr>))"

definition get_block :: "('d, 'b) device_registry \<Rightarrow> rstr \<Rightarrow> 'b option" where
  "get_block r name = bt_get name (block_devices r)"

definition get_descriptor_by_number ::
    "('d, 'b) device_registry \<Rightarrow> device_type \<Rightarrow> u16 \<Rightarrow> u16 \<Rightarrow> 'd device_descriptor option" where
  "get_descriptor_by_number r t major minor =
     map_option (\<lambda>(name, e). descriptor_of name e) (List.find (\<lambda>e. same_number t major minor (snd e)) (devices r))"

definition registry_list :: "('d, 'b) device_registry \<Rightarrow> rstr list" where
  "registry_list r = bt_keys (devices r)"

definition list_descriptors :: "('d, 'b) device_registry \<Rightarrow> 'd device_descriptor list" where
  "list_descriptors r = map (\<lambda>(name, e). descriptor_of name e) (devices r)"

definition list_by_prefix :: "('d, 'b) device_registry \<Rightarrow> rstr \<Rightarrow> 'd device_descriptor list" where
  "list_by_prefix r p = map (\<lambda>(name, e). descriptor_of name e) (filter (\<lambda>e. starts_with p (fst e)) (devices r))"

section \<open>Buses\<close>

record bus_device_info =
  bd_name :: rstr
  bd_bus_type :: bus_type
  device_type_hint :: "device_type option"
  pci_bus :: "u8 option"
  pci_device :: "u8 option"
  pci_function :: "u8 option"
  vendor_id :: "u16 option"
  device_id :: "u16 option"
  header_type :: "u8 option"
  class_code :: "u8 option"
  sub_class :: "u8 option"
  prog_if :: "u8 option"
  bar5 :: "u64 option"

record 'bus bus_entry =
  be_bus :: 'bus
  be_devices :: "bus_device_info list"

type_synonym 'bus bus_registry = "(rstr, 'bus bus_entry) btree"

text \<open>\<open>name\<close> and \<open>enumerate\<close> are what the bus answers.\<close>

definition bus_register ::
    "'bus bus_registry \<Rightarrow> 'bus \<Rightarrow> rstr \<Rightarrow> bus_error + bus_device_info list \<Rightarrow> bus_error + 'bus bus_registry" where
  "bus_register r bus name enumerated =
     (if str_trim name = [] then Inl BusInvalidName
      else if bt_get name r \<noteq> None then Inl BusAlreadyRegistered
      else case enumerated of
             Inl _ \<Rightarrow> Inl BusEnumerationFailed
           | Inr ds \<Rightarrow> Inr (bt_insert name \<lparr>be_bus = bus, be_devices = ds\<rparr> r))"

definition bus_unregister :: "'bus bus_registry \<Rightarrow> rstr \<Rightarrow> bus_error + 'bus bus_registry" where
  "bus_unregister r name = (if bt_get name r = None then Inl BusNotFound else Inr (bt_remove name r))"

definition bus_list :: "'bus bus_registry \<Rightarrow> rstr list" where
  "bus_list r = bt_keys r"

definition list_devices :: "'bus bus_registry \<Rightarrow> rstr \<Rightarrow> bus_device_info list option" where
  "list_devices r name = map_option be_devices (bt_get name r)"

section \<open>The invariant\<close>

definition registry_ok :: "('d \<Rightarrow> device_type) \<Rightarrow> ('d, 'b) device_registry \<Rightarrow> bool" where
  "registry_ok device_type r \<longleftrightarrow> bt_ok (devices r) \<and> bt_ok (block_devices r)
     \<and> (\<forall>name e. bt_get name (devices r) = Some e \<longrightarrow> str_trim name \<noteq> [] \<and> de_type e = device_type (de_device e))
     \<and> (\<forall>n1 e1 n2 e2. bt_get n1 (devices r) = Some e1 \<longrightarrow> bt_get n2 (devices r) = Some e2
          \<longrightarrow> same_number (de_type e2) (de_major e2) (de_minor e2) e1 \<longrightarrow> n1 = n2)
     \<and> (\<forall>name. bt_get name (block_devices r) \<noteq> None \<longrightarrow> bt_get name (devices r) \<noteq> None)"

lemma registry_ok_new: "registry_ok dt registry_new"
  by (auto simp: registry_ok_def registry_new_def)

lemma find_SomeD: "List.find P xs = Some x \<Longrightarrow> x \<in> set xs \<and> P x"
  by (metis find_Some_iff nth_mem)

lemma number_taken:
  "bt_ok (devices r) \<Longrightarrow> (\<exists>e \<in> set (devices r). same_number t ma mi (snd e)) \<longleftrightarrow> (\<exists>n e. bt_get n (devices r) = Some e \<and> same_number t ma mi e)"
proof -
  assume "bt_ok (devices r)"
  moreover have "(\<exists>e \<in> set (devices r). same_number t ma mi (snd e)) \<longleftrightarrow> (\<exists>n e. (n, e) \<in> set (devices r) \<and> same_number t ma mi e)" by force
  ultimately show ?thesis by (simp add: bt_get_entry)
qed

lemma register_ok:
  "registry_ok dt r \<Longrightarrow> registry_register dt r name d ma mi = Inr r' \<Longrightarrow> registry_ok dt r'"
proof -
  assume ok: "registry_ok dt r" and run: "registry_register dt r name d ma mi = Inr r'"
  let ?e = "\<lparr>de_device = d, de_type = dt d, de_major = ma, de_minor = mi, open_count = 0\<rparr>"
  from ok run number_taken [of r "dt d" ma mi]
  have new: "str_trim name \<noteq> []" "bt_get name (devices r) = None" "\<And>n e. bt_get n (devices r) = Some e \<Longrightarrow> \<not> same_number (dt d) ma mi e"
    and r': "r' = r\<lparr>devices := bt_insert name ?e (devices r)\<rparr>"
    by (auto simp: registry_register_def Let_def registry_ok_def split: if_splits)
  have "n1 = n2" if "bt_get n1 (devices r') = Some e1" "bt_get n2 (devices r') = Some e2" "same_number (de_type e2) (de_major e2) (de_minor e2) e1"
    for n1 e1 n2 e2
    using that new(3) [of n1 e1] new(3) [of n2 e2] ok
    by (auto simp: r' registry_ok_def same_number_def split: if_splits)
  moreover have "str_trim n \<noteq> [] \<and> de_type e = dt (de_device e)" if "bt_get n (devices r') = Some e" for n e
    using that new(1) ok unfolding r' registry_ok_def by (cases "n = name") auto
  moreover have "bt_ok (devices r')" "bt_ok (block_devices r')"
    using ok by (auto simp: r' registry_ok_def)
  moreover have "bt_get n (devices r') \<noteq> None" if "bt_get n (block_devices r') \<noteq> None" for n
    using that ok by (simp add: r' registry_ok_def)
  ultimately show ?thesis unfolding registry_ok_def by blast
qed

text \<open>The invariant speaks of the entries up to their open counts.\<close>

lemma numbers_unique:
  "registry_ok dt r \<Longrightarrow> bt_get n1 (devices r) = Some e1 \<Longrightarrow> bt_get n2 (devices r) = Some e2
    \<Longrightarrow> de_type e1 = de_type e2 \<Longrightarrow> de_major e1 = de_major e2 \<Longrightarrow> de_minor e1 = de_minor e2 \<Longrightarrow> n1 = n2"
  unfolding registry_ok_def same_number_def by blast

lemma update_open_ok:
  assumes "registry_ok dt r"
  shows "registry_ok dt (r\<lparr>devices := bt_update name (open_count_update f) (devices r)\<rparr>)"
proof -
  let ?r = "r\<lparr>devices := bt_update name (open_count_update f) (devices r)\<rparr>"
  have old: "\<exists>e'. bt_get n (devices r) = Some e' \<and> de_type e = de_type e' \<and> de_major e = de_major e' \<and> de_minor e = de_minor e' \<and> de_device e = de_device e'"
    if "bt_get n (devices ?r) = Some e" for n e
    using that by (auto split: if_splits)
  have "n1 = n2" if e: "bt_get n1 (devices ?r) = Some e1" "bt_get n2 (devices ?r) = Some e2" "same_number (de_type e2) (de_major e2) (de_minor e2) e1"
    for n1 e1 n2 e2
    using old [OF e(1)] old [OF e(2)] e(3) numbers_unique [OF assms, of n1 _ n2] unfolding same_number_def by metis
  moreover have "str_trim n \<noteq> [] \<and> de_type e = dt (de_device e)" if "bt_get n (devices ?r) = Some e" for n e
    using old [OF that] assms unfolding registry_ok_def by metis
  moreover have "bt_ok (devices ?r)" "bt_ok (block_devices ?r)" using assms by (auto simp: registry_ok_def)
  moreover have "bt_get n (devices ?r) \<noteq> None" if "bt_get n (block_devices ?r) \<noteq> None" for n
    using that assms unfolding registry_ok_def by (cases "n = name") auto
  ultimately show ?thesis unfolding registry_ok_def by blast
qed

lemma open_ok: "registry_ok dt r \<Longrightarrow> registry_open r name = (x, r') \<Longrightarrow> registry_ok dt r'"
  by (auto simp: registry_open_def intro: update_open_ok split: option.splits)

lemma close_ok: "registry_ok dt r \<Longrightarrow> registry_close r name = Inr r' \<Longrightarrow> registry_ok dt r'"
  by (auto simp: registry_close_def intro: update_open_ok split: option.splits if_splits)

lemma unregister_ok: "registry_ok dt r \<Longrightarrow> registry_unregister r name = Inr r' \<Longrightarrow> registry_ok dt r'"
  by (auto simp: registry_unregister_def registry_ok_def split: option.splits if_splits)

lemma alias_ok: "registry_ok dt r \<Longrightarrow> register_block_device_alias r name b = Inr r' \<Longrightarrow> registry_ok dt r'"
  by (auto simp: register_block_device_alias_def registry_ok_def split: if_splits)

inductive registry_step :: "('d \<Rightarrow> device_type) \<Rightarrow> ('d, 'b) device_registry \<Rightarrow> ('d, 'b) device_registry \<Rightarrow> bool"
  for dt :: "'d \<Rightarrow> device_type" where
  register: "registry_register dt r name d ma mi = Inr r' \<Longrightarrow> registry_step dt r r'"
| opened: "registry_open r name = (x, r') \<Longrightarrow> registry_step dt r r'"
| closed: "registry_close r name = Inr r' \<Longrightarrow> registry_step dt r r'"
| unregister: "registry_unregister r name = Inr r' \<Longrightarrow> registry_step dt r r'"
| aliased: "register_block_device_alias r name b = Inr r' \<Longrightarrow> registry_step dt r r'"

lemma registry_reachable: "(registry_step dt)\<^sup>*\<^sup>* registry_new r \<Longrightarrow> registry_ok dt r"
proof (induction rule: rtranclp_induct)
  case (step y z)
  from step.hyps(2) step.IH show ?case
    by cases (auto intro: register_ok open_ok close_ok unregister_ok alias_ok)
qed (rule registry_ok_new)

lemma by_number_exact:
  assumes "registry_ok dt r"
  shows "get_descriptor_by_number r t ma mi = Some d \<longleftrightarrow>
    get_descriptor r (dd_name d) = Some d \<and> dd_type d = t \<and> dd_major d = ma \<and> dd_minor d = mi"
proof
  assume "get_descriptor_by_number r t ma mi = Some d"
  then obtain name e where e: "(name, e) \<in> set (devices r)" "same_number t ma mi e" "d = descriptor_of name e"
    by (auto simp: get_descriptor_by_number_def dest: find_SomeD)
  with assms show "get_descriptor r (dd_name d) = Some d \<and> dd_type d = t \<and> dd_major d = ma \<and> dd_minor d = mi"
    by (auto simp: get_descriptor_def descriptor_of_def same_number_def registry_ok_def bt_get_entry)
next
  assume d: "get_descriptor r (dd_name d) = Some d \<and> dd_type d = t \<and> dd_major d = ma \<and> dd_minor d = mi"
  then obtain e where e: "bt_get (dd_name d) (devices r) = Some e" "d = descriptor_of (dd_name d) e" by (auto simp: get_descriptor_def)
  then have num: "same_number t ma mi e" using d by (metis descriptor_of_def device_descriptor.simps(2-4) same_number_def)
  have ok: "bt_ok (devices r)" using assms by (simp add: registry_ok_def)
  have "(dd_name d, e) \<in> set (devices r)" using bt_get_entry [OF ok] e(1) by blast
  then obtain f where f: "List.find (\<lambda>e. same_number t ma mi (snd e)) (devices r) = Some f"
    using num by (cases "List.find (\<lambda>e. same_number t ma mi (snd e)) (devices r)") (auto simp: find_None_iff)
  obtain n' e' where f': "f = (n', e')" by fastforce
  from find_SomeD [OF f] f' have "(n', e') \<in> set (devices r)" "same_number t ma mi e'" by simp_all
  then have "bt_get n' (devices r) = Some e'" using bt_get_entry [OF ok] by blast
  with assms e(1) num \<open>same_number t ma mi e'\<close> have "n' = dd_name d" by (auto simp: registry_ok_def same_number_def)
  with \<open>bt_get n' (devices r) = Some e'\<close> e have "e' = e" by simp
  with f f' e(2) \<open>n' = dd_name d\<close> show "get_descriptor_by_number r t ma mi = Some d" by (simp add: get_descriptor_by_number_def)
qed

section \<open>Properties\<close>

text \<open>C33: Device numbers identify devices. In every registry that registrations, opens, closes and removals can produce,
  looking up a type with a major and a minor number gives exactly the device that is registered under a name with these numbers.\<close>

theorem registry_lookup_by_number:
  assumes "(registry_step dt)\<^sup>*\<^sup>* registry_new r"
  shows "get_descriptor_by_number r t ma mi = Some d \<longleftrightarrow>
    get_descriptor r (dd_name d) = Some d \<and> dd_type d = t \<and> dd_major d = ma \<and> dd_minor d = mi"
  by (rule by_number_exact [OF registry_reachable [OF assms]])

theorem registry_lookup_by_number_witness:
  "\<exists>r d. registry_register (\<lambda>_ :: unit. CharDev) (registry_new :: (unit, unit) device_registry) [110] () 1 3 = Inr r
     \<and> get_descriptor_by_number r CharDev 1 3 = Some d \<and> dd_name d = [110] \<and> get_descriptor_by_number r BlockDev 1 3 \<noteq> Some d"
proof -
  let ?e = "\<lparr>de_device = (), de_type = CharDev, de_major = 1, de_minor = 3, open_count = 0\<rparr> :: unit device_entry"
  define r :: "(unit, unit) device_registry" where "r = \<lparr>devices = [([110], ?e)], block_devices = []\<rparr>"
  have run: "registry_register (\<lambda>_ :: unit. CharDev) (registry_new :: (unit, unit) device_registry) [110] () 1 3 = Inr r"
    by (simp add: registry_register_def registry_new_def r_def str_trim_def trim_end_def trim_start_def is_whitespace_def)
  then have reach: "(registry_step (\<lambda>_ :: unit. CharDev))\<^sup>*\<^sup>* registry_new r" by (intro r_into_rtranclp registry_step.register)
  have "get_descriptor r [110] = Some (descriptor_of [110] ?e)" by (simp add: get_descriptor_def r_def bt_get_def)
  then show ?thesis
    using run registry_lookup_by_number [OF reach, of CharDev 1 3 "descriptor_of [110] ?e"]
      registry_lookup_by_number [OF reach, of BlockDev 1 3 "descriptor_of [110] ?e"]
    by (auto simp: descriptor_of_def)
qed

end
