(* ===== verification/Vfs.thy ===== *)
theory Vfs
  imports Vfs_Path Device_Registry Utf8 "HOL-Library.Product_Lexorder"
begin

text \<open>
  The virtual file system (\<open>fs/vfs.rs\<close>): the file-system manager with its mounts, path lookup with
  symbolic links, and open files with their reference counts. Inodes, file systems and
  devices are trait objects; the record \<open>objects\<close> holds what their methods do,
  with the state behind them in \<open>'w\<close>. The global tables are the record \<open>vfs\<close>.
\<close>

datatype file_open_mode = ReadOnly | WriteOnly | ReadWrite

record file_descriptor =
  fd_fs_id :: u64
  fd_major :: u16
  fd_minor :: u16
  fd_inode :: u64
  fd_mode :: file_open_mode

datatype seek_from = SeekStart nat | SeekCurrent int | SeekEnd int

type_synonym inode_tuple = "u64 \<times> u16 \<times> u16 \<times> u64"

record ('i, 'f, 'd, 'w) objects =
  i_ino :: "'i \<Rightarrow> u64"
  i_fs_id :: "'i \<Rightarrow> u64"
  i_device_numbers :: "'i \<Rightarrow> (u16 \<times> u16) option"
  i_file_type :: "'i \<Rightarrow> file_type"
  i_filesystem_name :: "'i \<Rightarrow> rstr"
  i_size :: "'w \<Rightarrow> 'i \<Rightarrow> nat"
  i_read :: "'w \<Rightarrow> 'i \<Rightarrow> nat \<Rightarrow> nat \<Rightarrow> u8 list fs_result"
  i_write :: "'w \<Rightarrow> 'i \<Rightarrow> nat \<Rightarrow> u8 list \<Rightarrow> nat fs_result \<times> 'w"
  i_append :: "'w \<Rightarrow> 'i \<Rightarrow> u8 list \<Rightarrow> (nat \<times> nat) fs_result \<times> 'w"
  i_lookup :: "'w \<Rightarrow> 'i \<Rightarrow> rstr \<Rightarrow> 'i fs_result"
  i_create :: "'w \<Rightarrow> 'i \<Rightarrow> rstr \<Rightarrow> file_type \<Rightarrow> 'i fs_result \<times> 'w"
  f_root :: "'f \<Rightarrow> 'i"
  f_fs_id :: "'f \<Rightarrow> u64"
  d_open :: "'w \<Rightarrow> 'd \<Rightarrow> device_error option \<times> 'w"
  d_close :: "'w \<Rightarrow> 'd \<Rightarrow> device_error option \<times> 'w"
  d_read_blocking :: "'w \<Rightarrow> 'd \<Rightarrow> nat \<Rightarrow> nat \<Rightarrow> (device_error + u8 list) \<times> 'w"
  d_write :: "'w \<Rightarrow> 'd \<Rightarrow> nat \<Rightarrow> u8 list \<Rightarrow> (device_error + nat) \<times> 'w"
  d_seek :: "'w \<Rightarrow> 'd \<Rightarrow> nat \<Rightarrow> seek_from \<Rightarrow> device_error + nat"

record ('i, 'f, 'd, 'b, 'w) vfs =
  world :: 'w
  root_mount :: "'f option"
  mounts :: "(rstr \<times> 'f) list"
  open_inodes :: "(rstr, (u64, nat) btree) btree"
  tuple_index :: "(inode_tuple, 'i) btree"
  ref_counts :: "(inode_tuple, nat) btree"
  registry :: "('d, 'b) device_registry"
  filesystems :: "(rstr, 'f) btree"

record ('i, 'f, 'd) open_file =
  of_inode :: 'i
  cursor :: nat
  mount_path :: "rstr option"
  of_filesystem :: 'f
  tracked_open :: bool
  tuple_key :: inode_tuple
  tracked_ref :: bool
  append_mode :: bool
  of_device :: "'d device_descriptor option"

section \<open>The manager\<close>

definition mount_root where
  "mount_root v fs = v\<lparr>root_mount := Some fs\<rparr>"

definition root_fs where
  "root_fs v = (case root_mount v of None \<Rightarrow> Inl NotFound | Some fs \<Rightarrow> Inr fs)"

definition filesystem_by_id where
  "filesystem_by_id ob v fs_id =
     (case List.find (\<lambda>fs. f_fs_id ob fs = fs_id)
             ((case root_mount v of None \<Rightarrow> [] | Some fs \<Rightarrow> [fs]) @ map snd (mounts v)) of
        None \<Rightarrow> Inl NotFound
      | Some fs \<Rightarrow> Inr fs)"

definition root_inode where
  "root_inode ob v = (case root_fs v of Inl e \<Rightarrow> Inl e | Inr fs \<Rightarrow> Inr (f_root ob fs))"

text \<open>The mounts that cover a path, and the last one of greatest length.\<close>

definition covers :: "rstr \<Rightarrow> rstr \<Rightarrow> bool" where
  "covers path mp \<longleftrightarrow> path = mp \<or>
     (str_len path > str_len mp \<and> starts_with mp path \<and> take 1 (drop (length mp) path) = [slash])"

definition longer :: "(rstr \<times> 'f) option \<Rightarrow> rstr \<times> 'f \<Rightarrow> (rstr \<times> 'f) option" where
  "longer best m = (case best of None \<Rightarrow> Some m | Some b \<Rightarrow> if str_len (fst b) \<le> str_len (fst m) then Some m else Some b)"

text \<open>The result is the inode, the path of the mount and the rest of the path.\<close>

definition resolve_path where
  "resolve_path ob v path =
     (if path = [slash] then (case root_inode ob v of Inl e \<Rightarrow> Inl e | Inr i \<Rightarrow> Inr (i, [slash], []))
      else case foldl longer None (filter (\<lambda>m. covers path (fst m)) (mounts v)) of
             Some (mp, fs) \<Rightarrow> Inr (f_root ob fs, mp, if path = mp then [] else drop (length mp + 1) path)
           | None \<Rightarrow> (case root_inode ob v of Inl e \<Rightarrow> Inl e | Inr i \<Rightarrow> Inr (i, [slash], drop 1 path)))"

definition manager_mount where
  "manager_mount ob v normalized fs =
     (if normalized = [slash] then Inl AlreadyExists
      else case resolve_path ob v normalized of
             Inl e \<Rightarrow> Inl e
           | Inr (inode, _, _) \<Rightarrow>
               if i_file_type ob inode \<noteq> FtDirectory then Inl NotADirectory
               else if \<exists>m \<in> set (mounts v). fst m = normalized then Inl AlreadyExists
               else Inr (v\<lparr>mounts := mounts v @ [(normalized, fs)]\<rparr>))"

definition manager_unmount where
  "manager_unmount v normalized =
     (if normalized = [slash] then Inl NotSupported
      else case position (\<lambda>m. fst m = normalized) (mounts v) of
             None \<Rightarrow> Inl NotFound
           | Some index \<Rightarrow>
               if (case bt_get normalized (open_inodes v) of None \<Rightarrow> False | Some entries \<Rightarrow> entries \<noteq> []) then Inl NotSupported
               else Inr (v\<lparr>mounts := remove_nth index (mounts v), open_inodes := bt_remove normalized (open_inodes v)\<rparr>))"

definition vfs_mount where
  "vfs_mount ob v path fs =
     (case normalize_absolute_path path of Inl e \<Rightarrow> Inl e | Inr normalized \<Rightarrow> manager_mount ob v normalized fs)"

definition vfs_unmount where
  "vfs_unmount v path =
     (case normalize_absolute_path path of Inl e \<Rightarrow> Inl e | Inr normalized \<Rightarrow> manager_unmount v normalized)"

definition check_mount_mutation where
  "check_mount_mutation v path =
     (if path = [slash] \<or> (\<exists>m \<in> set (mounts v). fst m = path
           \<or> starts_with path (fst m) \<and> starts_with [slash] (drop (length path) (fst m)))
      then Inl Busy else Inr ())"

definition saturating_inc :: "nat \<Rightarrow> nat" where
  "saturating_inc n = min (n + 1) usize_max"

definition track_open_inode where
  "track_open_inode v mp ino =
     (let entries = (case bt_get mp (open_inodes v) of None \<Rightarrow> [] | Some m \<Rightarrow> m);
          count = (case bt_get ino entries of None \<Rightarrow> 0 | Some c \<Rightarrow> c)
      in v\<lparr>open_inodes := bt_insert mp (bt_insert ino (saturating_inc count) entries) (open_inodes v)\<rparr>)"

definition track_close_inode where
  "track_close_inode v mp ino =
     (case bt_get mp (open_inodes v) of
        None \<Rightarrow> v
      | Some entries \<Rightarrow>
          (case bt_get ino entries of
             None \<Rightarrow> v
           | Some count \<Rightarrow>
               v\<lparr>open_inodes := bt_insert mp (if count \<le> 1 then bt_remove ino entries
                                            else bt_insert ino (count - 1) entries) (open_inodes v)\<rparr>))"

section \<open>Lookup\<close>

fun walk_segments where
  "walk_segments ob w inode [] = Inr inode"
| "walk_segments ob w inode (segment # rest) =
     (case i_lookup ob w inode segment of Inl e \<Rightarrow> Inl e | Inr next \<Rightarrow> walk_segments ob w next rest)"

definition lookup_path_without_symlink_resolution where
  "lookup_path_without_symlink_resolution ob v path =
     (case resolve_path ob v path of
        Inl e \<Rightarrow> Inl e
      | Inr (inode, _, rest) \<Rightarrow> walk_segments ob (world v) inode (split_segments rest))"

definition read_symlink_target where
  "read_symlink_target ob v inode =
     (if i_file_type ob inode \<noteq> FtSymlink then Inl NotSupported
      else case i_read ob (world v) inode 0 (i_size ob (world v) inode) of
             Inl e \<Rightarrow> Inl e
           | Inr bytes \<Rightarrow> (case from_utf8 bytes of None \<Rightarrow> Inl IoError | Some s \<Rightarrow> Inr s))"

definition DEFAULT_SYMLINK_RESOLUTION_LIMIT :: nat where
  "DEFAULT_SYMLINK_RESOLUTION_LIMIT = 10"

text \<open>The first prefix of the path that is a symbolic link, from the indices that are left.\<close>

fun find_symlink where
  "find_symlink ob v segments [] = Inr None"
| "find_symlink ob v segments (index # rest) =
     (case lookup_path_without_symlink_resolution ob v (join_absolute_segments (take (index + 1) segments)) of
        Inl e \<Rightarrow> Inl e
      | Inr inode \<Rightarrow> if i_file_type ob inode \<noteq> FtSymlink then find_symlink ob v segments rest else Inr (Some (index, inode)))"

definition ends_slash :: "rstr \<Rightarrow> rstr" where
  "ends_slash s = (if ends_with [slash] s then s else s @ [slash])"

definition expand_symlink :: "rstr list \<Rightarrow> nat \<Rightarrow> rstr \<Rightarrow> rstr" where
  "expand_symlink segments index target =
     (let parent = (if index = 0 then [slash] else join_absolute_segments (take index segments));
          suffix = (if index + 1 < length segments then join_relative_segments (drop (index + 1) segments) else []);
          expanded = (if starts_with [slash] target then target
                      else if parent = [slash] then [slash] @ target
                      else ends_slash parent @ target)
      in if suffix \<noteq> [] then ends_slash expanded @ suffix else expanded)"

text \<open>The loop; \<open>n\<close> is the number of links that may still be followed.\<close>

fun follow_symlinks where
  "follow_symlinks ob v n path =
     (let segments = split_segments path
      in case find_symlink ob v segments [0..<length segments] of
           Inl e \<Rightarrow> Inl e
         | Inr None \<Rightarrow> Inr path
         | Inr (Some (index, inode)) \<Rightarrow>
             (case n of
                0 \<Rightarrow> Inl NotSupported
              | Suc m \<Rightarrow>
                  (case read_symlink_target ob v inode of
                     Inl e \<Rightarrow> Inl e
                   | Inr target \<Rightarrow>
                       (case normalize_absolute_path (expand_symlink segments index target) of
                          Inl e \<Rightarrow> Inl e
                        | Inr p \<Rightarrow> follow_symlinks ob v m p))))"

declare follow_symlinks.simps [simp del]

definition resolve_symlink_path where
  "resolve_symlink_path ob v path =
     (case normalize_absolute_path path of
        Inl e \<Rightarrow> Inl e
      | Inr normalized \<Rightarrow> follow_symlinks ob v DEFAULT_SYMLINK_RESOLUTION_LIMIT normalized)"

definition lookup_path_with_options where
  "lookup_path_with_options ob v path resolve_symlinks =
     (case normalize_absolute_path path of
        Inl e \<Rightarrow> Inl e
      | Inr normalized \<Rightarrow>
          if \<not> resolve_symlinks then lookup_path_without_symlink_resolution ob v normalized
          else case follow_symlinks ob v DEFAULT_SYMLINK_RESOLUTION_LIMIT normalized of
                 Inl e \<Rightarrow> Inl e
               | Inr p \<Rightarrow> lookup_path_without_symlink_resolution ob v p)"

definition lookup_path where
  "lookup_path ob v path = lookup_path_with_options ob v path False"

fun walk_relative where
  "walk_relative ob w inode [] = Inr inode"
| "walk_relative ob w inode (segment # rest) =
     (if segment = [dot] then walk_relative ob w inode rest
      else if segment = [dot, dot] then Inl NotSupported
      else case i_lookup ob w inode segment of Inl e \<Rightarrow> Inl e | Inr next \<Rightarrow> walk_relative ob w next rest)"

definition lookup_path_from_inode where
  "lookup_path_from_inode ob v start path =
     (let trimmed = str_trim path
      in if trimmed = [] then Inl NotFound
         else if starts_with [slash] trimmed then lookup_path ob v trimmed
         else walk_relative ob (world v) start (split_segments trimmed))"

definition create_path where
  "create_path ob v path file_type =
     (case normalize_absolute_path path of
        Inl e \<Rightarrow> (Inl e, v)
      | Inr normalized \<Rightarrow>
          if normalized = [slash] then (Inl AlreadyExists, v)
          else case split_parent_name normalized of
                 Inl e \<Rightarrow> (Inl e, v)
               | Inr (parent_path, name) \<Rightarrow>
                   (case lookup_path ob v parent_path of
                      Inl e \<Rightarrow> (Inl e, v)
                    | Inr parent \<Rightarrow>
                        (let (r, w) = i_create ob (world v) parent name file_type in (r, v\<lparr>world := w\<rparr>))))"

section \<open>Open files\<close>

definition fs_error_from_device :: "device_error \<Rightarrow> fs_error" where
  "fs_error_from_device err =
     (case err of
        DevIoError \<Rightarrow> IoError
      | DevNotReady \<Rightarrow> IoError
      | DevInvalidArgument \<Rightarrow> NotFound
      | DevNotFound \<Rightarrow> NotFound
      | DevBusy \<Rightarrow> Busy
      | DevNotSupported \<Rightarrow> NotSupported)"

definition fs_error_from_registry :: "registry_error \<Rightarrow> fs_error" where
  "fs_error_from_registry err =
     (case err of
        RegInvalidName \<Rightarrow> NotFound
      | RegNotFound \<Rightarrow> NotFound
      | RegNameInUse \<Rightarrow> Busy
      | RegDeviceNumberInUse \<Rightarrow> Busy
      | RegBusy \<Rightarrow> Busy)"

definition tuple_for_inode where
  "tuple_for_inode ob inode =
     (let (major, minor) = (case i_device_numbers ob inode of None \<Rightarrow> (0, 0) | Some n \<Rightarrow> n)
      in (i_fs_id ob inode, major, minor, i_ino ob inode))"

definition lookup_device where
  "lookup_device ob v file =
     (case of_device file of
        Some d \<Rightarrow> Some d
      | None \<Rightarrow>
          (case (case i_file_type ob (of_inode file) of FtCharDevice \<Rightarrow> Some CharDev | FtBlockDevice \<Rightarrow> Some BlockDev | _ \<Rightarrow> None) of
             None \<Rightarrow> None
           | Some t \<Rightarrow>
               (case i_device_numbers ob (of_inode file) of
                  None \<Rightarrow> None
                | Some (major, minor) \<Rightarrow> get_descriptor_by_number (registry v) t major minor)))"

definition release_tracking where
  "release_tracking ob v file =
     (if \<not> tracked_open file then (v, file)
      else (case mount_path file of None \<Rightarrow> v | Some mp \<Rightarrow> track_close_inode v mp (i_ino ob (of_inode file)),
            file\<lparr>tracked_open := False\<rparr>))"

definition release_refcount where
  "release_refcount v file =
     (if \<not> tracked_ref file then (v, file)
      else (case bt_get (tuple_key file) (ref_counts v) of
              None \<Rightarrow> v
            | Some count \<Rightarrow>
                if count \<le> 1
                then v\<lparr>ref_counts := bt_remove (tuple_key file) (ref_counts v), tuple_index := bt_remove (tuple_key file) (tuple_index v)\<rparr>
                else v\<lparr>ref_counts := bt_insert (tuple_key file) (count - 1) (ref_counts v)\<rparr>,
            file\<lparr>tracked_ref := False\<rparr>))"

definition file_drop where
  "file_drop ob v file = (let (v1, f1) = release_tracking ob v file in release_refcount v1 f1)"

definition file_filesystem where
  "file_filesystem ob v inode =
     (let table = (case bt_get (i_filesystem_name ob inode) (filesystems v) of None \<Rightarrow> Inl NotFound | Some fs \<Rightarrow> Inr fs)
      in if i_fs_id ob inode = 0 then table
         else case filesystem_by_id ob v (i_fs_id ob inode) of Inr fs \<Rightarrow> Inr fs | Inl _ \<Rightarrow> table)"

definition count_ref where
  "count_ref v file =
     (let key = tuple_key file;
          count = (case bt_get key (ref_counts v) of None \<Rightarrow> 0 | Some c \<Rightarrow> c)
      in (v\<lparr>tuple_index := bt_insert key (of_inode file) (tuple_index v), ref_counts := bt_insert key (saturating_inc count) (ref_counts v)\<rparr>,
          file\<lparr>tracked_ref := True\<rparr>))"

definition open_device where
  "open_device ob v file =
     (case lookup_device ob v file of
        None \<Rightarrow> (v, Inr file)
      | Some d \<Rightarrow>
          (case registry_open (registry v) (dd_name d) of
             (Inl e, r) \<Rightarrow> (v\<lparr>registry := r\<rparr>, Inl (fs_error_from_registry e))
           | (Inr desc, r) \<Rightarrow>
               (let v1 = v\<lparr>registry := r\<rparr>; (res, w) = d_open ob (world v1) (dd_device desc); v2 = v1\<lparr>world := w\<rparr>
                in case res of
                     None \<Rightarrow> (v2, Inr (file\<lparr>of_device := Some desc\<rparr>))
                   | Some err \<Rightarrow>
                       (case registry_close (registry v2) (dd_name desc) of Inl _ \<Rightarrow> v2 | Inr r' \<Rightarrow> v2\<lparr>registry := r'\<rparr>,
                        Inl (fs_error_from_device err)))))"

definition new_file where
  "new_file ob inode mp fs =
     \<lparr>of_inode = inode, cursor = 0, mount_path = mp, of_filesystem = fs, tracked_open = False,
      tuple_key = tuple_for_inode ob inode, tracked_ref = False, append_mode = False, of_device = None\<rparr>"

definition track_file where
  "track_file ob v file =
     (case mount_path file of
        None \<Rightarrow> (v, file)
      | Some path \<Rightarrow> (track_open_inode v path (i_ino ob (of_inode file)), file\<lparr>tracked_open := True\<rparr>))"

text \<open>When the device cannot be opened, the file that was built is dropped.\<close>

definition file_new where
  "file_new ob v inode mp =
     (case file_filesystem ob v inode of
        Inl e \<Rightarrow> (v, Inl e)
      | Inr fs \<Rightarrow>
          (let (v1, f1) = track_file ob v (new_file ob inode mp fs)
           in case open_device ob v1 f1 of
                (v2, Inl e) \<Rightarrow> (fst (file_drop ob v2 f1), Inl e)
              | (v2, Inr f2) \<Rightarrow> (let (v3, f3) = count_ref v2 f2 in (v3, Inr f3))))"

definition close_device where
  "close_device ob v file =
     (case of_device file of
        None \<Rightarrow> (v, file, None)
      | Some d \<Rightarrow>
          (let f1 = file\<lparr>of_device := None\<rparr>
           in case registry_close (registry v) (dd_name d) of
                Inl e \<Rightarrow> (v, f1, Some (fs_error_from_registry e))
              | Inr r \<Rightarrow>
                  (let (res, w) = d_close ob (world v) (dd_device d)
                   in (v\<lparr>registry := r, world := w\<rparr>, f1, map_option fs_error_from_device res))))"

definition file_close where
  "file_close ob v file =
     (case close_device ob v file of
        (v1, f1, Some e) \<Rightarrow> (v1, f1, Some e)
      | (v1, f1, None) \<Rightarrow> (let (v2, f2) = release_tracking ob v1 f1; (v3, f3) = release_refcount v2 f2 in (v3, f3, None)))"

definition open_path where
  "open_path ob v path =
     (case normalize_absolute_path path of
        Inl e \<Rightarrow> (v, Inl e)
      | Inr normalized \<Rightarrow>
          (case resolve_path ob v normalized of
             Inl e \<Rightarrow> (v, Inl e)
           | Inr (inode, mp, rest) \<Rightarrow>
               (case walk_segments ob (world v) inode (split_segments rest) of
                  Inl e \<Rightarrow> (v, Inl e)
                | Inr target \<Rightarrow> file_new ob v target (Some mp))))"

definition lookup_inode_by_tuple where
  "lookup_inode_by_tuple v key = bt_get key (tuple_index v)"

definition open_by_descriptor where
  "open_by_descriptor ob v desc =
     (case lookup_inode_by_tuple v (fd_fs_id desc, fd_major desc, fd_minor desc, fd_inode desc) of
        None \<Rightarrow> (v, Inl NotFound)
      | Some inode \<Rightarrow> file_new ob v inode None)"

definition file_descriptor_of where
  "file_descriptor_of ob file mode =
     (let (major, minor) = (case i_device_numbers ob (of_inode file) of None \<Rightarrow> (0, 0) | Some n \<Rightarrow> n)
      in \<lparr>fd_fs_id = i_fs_id ob (of_inode file), fd_major = major, fd_minor = minor, fd_inode = i_ino ob (of_inode file), fd_mode = mode\<rparr>)"

definition file_read where
  "file_read ob v file n =
     (case lookup_device ob v file of
        Some d \<Rightarrow>
          (case d_read_blocking ob (world v) (dd_device d) (cursor file) n of
             (Inl e, w) \<Rightarrow> (v\<lparr>world := w\<rparr>, file, Inl (fs_error_from_device e))
           | (Inr bytes, w) \<Rightarrow> (v\<lparr>world := w\<rparr>, file\<lparr>cursor := min (cursor file + length bytes) usize_max\<rparr>, Inr bytes))
      | None \<Rightarrow>
          (case i_read ob (world v) (of_inode file) (cursor file) n of
             Inl e \<Rightarrow> (v, file, Inl e)
           | Inr bytes \<Rightarrow> (v, file\<lparr>cursor := min (cursor file + length bytes) usize_max\<rparr>, Inr bytes)))"

text \<open>In append mode \<open>offset + written\<close> is not checked; an overflow panics.\<close>

definition file_write where
  "file_write ob v file buf =
     (if append_mode file
      then case i_append ob (world v) (of_inode file) buf of
             (Inl e, w) \<Rightarrow> Some (v\<lparr>world := w\<rparr>, file, Inl e)
           | (Inr (offset, written), w) \<Rightarrow>
               if offset + written > usize_max then None
               else Some (v\<lparr>world := w\<rparr>, file\<lparr>cursor := offset + written\<rparr>, Inr written)
      else case lookup_device ob v file of
             Some d \<Rightarrow>
               (case d_write ob (world v) (dd_device d) (cursor file) buf of
                  (Inl e, w) \<Rightarrow> Some (v\<lparr>world := w\<rparr>, file, Inl (fs_error_from_device e))
                | (Inr n, w) \<Rightarrow> Some (v\<lparr>world := w\<rparr>, file\<lparr>cursor := min (cursor file + n) usize_max\<rparr>, Inr n))
           | None \<Rightarrow>
               (case i_write ob (world v) (of_inode file) (cursor file) buf of
                  (Inl e, w) \<Rightarrow> Some (v\<lparr>world := w\<rparr>, file, Inl e)
                | (Inr n, w) \<Rightarrow> Some (v\<lparr>world := w\<rparr>, file\<lparr>cursor := min (cursor file + n) usize_max\<rparr>, Inr n)))"

definition apply_signed_offset :: "nat \<Rightarrow> int \<Rightarrow> nat fs_result" where
  "apply_signed_offset base delta =
     (if delta \<ge> 0 then if base + nat delta > usize_max then Inl IoError else Inr (base + nat delta)
      else if nat (- delta) > base then Inl IoError else Inr (base - nat (- delta)))"

definition file_seek where
  "file_seek ob v file pos =
     (case (case lookup_device ob v file of
              Some d \<Rightarrow> (case d_seek ob (world v) (dd_device d) (cursor file) pos of Inl e \<Rightarrow> Inl (fs_error_from_device e) | Inr n \<Rightarrow> Inr n)
            | None \<Rightarrow>
                (case pos of
                   SeekStart offset \<Rightarrow> Inr offset
                 | SeekCurrent delta \<Rightarrow> apply_signed_offset (cursor file) delta
                 | SeekEnd delta \<Rightarrow> apply_signed_offset (i_size ob (world v) (of_inode file)) delta)) of
        Inl e \<Rightarrow> (file, Inl e)
      | Inr n \<Rightarrow> (file\<lparr>cursor := n\<rparr>, Inr n))"

definition set_append where
  "set_append file on = file\<lparr>append_mode := on\<rparr>"

end
