(* ===== verification/Task.thy ===== *)
theory Task
  imports Cpu_Context Cpu_Accounting Fd_Table User_Memory Vfs
begin

text \<open>
  Tasks (\<open>process/task.rs\<close>). An open file description is a reference-counted object: \<open>files\<close> is the list of all
  of them, a handle is an index into it. The kernel stack of a task is its address and length; what lies on
  it is not modelled. \<open>None\<close> is a panic. Times and the addresses of new kernel stacks are arguments.
\<close>

type_synonym i32 = "32 word"

datatype controlling_terminal = VirtualConsole nat | Serial nat

text \<open>The derived order: virtual consoles before serial lines.\<close>

instantiation controlling_terminal :: linorder
begin

fun less_eq_controlling_terminal :: "controlling_terminal \<Rightarrow> controlling_terminal \<Rightarrow> bool" where
  "less_eq_controlling_terminal (VirtualConsole m) (VirtualConsole n) \<longleftrightarrow> m \<le> n"
| "less_eq_controlling_terminal (Serial m) (Serial n) \<longleftrightarrow> m \<le> n"
| "less_eq_controlling_terminal (VirtualConsole m) (Serial n) \<longleftrightarrow> True"
| "less_eq_controlling_terminal (Serial m) (VirtualConsole n) \<longleftrightarrow> False"

definition less_controlling_terminal :: "controlling_terminal \<Rightarrow> controlling_terminal \<Rightarrow> bool" where
  "less_controlling_terminal a b \<longleftrightarrow> a \<le> b \<and> \<not> b \<le> a"

instance
proof
  fix a b c :: controlling_terminal
  show "a < b \<longleftrightarrow> a \<le> b \<and> \<not> b \<le> a" by (simp add: less_controlling_terminal_def)
  show "a \<le> a" by (cases a) auto
  show "a \<le> b \<Longrightarrow> b \<le> c \<Longrightarrow> a \<le> c" by (cases a; cases b; cases c) auto
  show "a \<le> b \<Longrightarrow> b \<le> a \<Longrightarrow> a = b" by (cases a; cases b) auto
  show "a \<le> b \<or> b \<le> a" by (cases a; cases b) auto
qed

end

datatype task_state = Ready | Running | Waiting | Zombie

record credentials =
  cr_uid :: u32
  cr_gid :: u32
  cr_home_dir :: rstr

definition credentials_root :: credentials where
  "credentials_root = \<lparr>cr_uid = 0, cr_gid = 0, cr_home_dir = lit ''/root''\<rparr>"

section \<open>Signals\<close>

datatype signal = Sigterm | Sigkill | Sigint | Sigstop | Sigcont

primrec signal_number :: "signal \<Rightarrow> nat" where
  "signal_number Sigterm = 15"
| "signal_number Sigkill = 9"
| "signal_number Sigint = 2"
| "signal_number Sigstop = 19"
| "signal_number Sigcont = 18"

definition is_fatal :: "signal \<Rightarrow> bool" where
  "is_fatal s \<longleftrightarrow> s = Sigkill \<or> s = Sigterm"

definition signal_exit_code :: "signal \<Rightarrow> i32" where
  "signal_exit_code s = 128 + of_nat (signal_number s)"

section \<open>The task\<close>

record fdent =
  descriptor :: file_descriptor
  handle :: nat

record 'i task =
  t_pid :: pid
  parent_pid :: pid
  pgid :: pid
  sid :: pid
  cwd_inode :: u64
  cwd_path :: rstr
  cwd :: 'i
  t_state :: task_state
  t_mode :: task_mode
  t_name :: rstr
  kernel_stack_top :: nat
  kernel_stack :: "nat \<times> nat"
  t_context :: cpu_context
  priority :: u8
  creds :: credentials
  user_stack_top :: nat
  brk_start :: nat
  brk_end :: nat
  brk_mapped_end :: nat
  mmap_start :: nat
  mmap_end :: nat
  userland :: bool
  clear_child_tid :: nat
  exec_path :: rstr
  cpu_time :: cpu_accounting
  fds :: "fdent fd_table"
  env :: "(rstr, rstr) btree"
  argv :: "rstr list"
  exit_code :: i32
  t_space :: address_space
  ctty :: "controlling_terminal option"
  pending_signals :: "signal list"
  terminated_by_signal :: "signal option"

definition KERNEL_STACK_SIZE :: nat where
  "KERNEL_STACK_SIZE = 32 * 1024"

definition stack_top :: "nat \<times> nat \<Rightarrow> nat" where
  "stack_top st = (fst st + snd st) div 16 * 16"

definition kernel_stack_range :: "'i task \<Rightarrow> nat \<times> nat" where
  "kernel_stack_range t = (kernel_stack_top t - snd (kernel_stack t), kernel_stack_top t)"

definition descriptor_for where
  "descriptor_for ob inode mode =
     (let (major, minor) = (case i_device_numbers ob inode of None \<Rightarrow> (0, 0) | Some n \<Rightarrow> n)
      in \<lparr>fd_fs_id = i_fs_id ob inode, fd_major = major, fd_minor = minor, fd_inode = i_ino ob inode, fd_mode = mode\<rparr>)"

text \<open>A new open file description goes to the end of the list.\<close>

definition fd_entry_new where
  "fd_entry_new ob files f mode = (files @ [f], \<lparr>descriptor = descriptor_for ob (of_inode f) mode, handle = length files\<rparr>)"

definition handles :: "'i task \<Rightarrow> nat list" where
  "handles t = map (\<lambda>(_, e). handle e) (fd_iter (fds t))"

text \<open>The last reference to an open file description goes away: \<open>Drop for OpenFileDescription\<close> closes the file, and the file is dropped.\<close>

definition drop_description where
  "drop_description ob v files h =
     (let (v1, f1, _) = file_close ob v (files ! h); (v2, f2) = file_drop ob v1 f1 in (v2, files[h := f2]))"

text \<open>A reference to \<open>h\<close> is dropped; \<open>refs\<close> are the references that are left.\<close>

definition drop_reference where
  "drop_reference ob v files h refs = (if h \<in> set refs then (v, files) else drop_description ob v files h)"

section \<open>Standard input and output\<close>

definition controlling_terminal_device_path :: "controlling_terminal \<Rightarrow> rstr" where
  "controlling_terminal_device_path target =
     (case target of
        VirtualConsole n \<Rightarrow>
          if n < 10 then lit ''/dev/tty'' @ [48 + n]
          else if n < 12 then lit ''/dev/tty1'' @ [48 + n - 10]
          else lit ''/dev/null''
      | Serial n \<Rightarrow> if n < 2 then lit ''/dev/ttyS'' @ [48 + n] else lit ''/dev/null'')"

definition default_stdio_path :: "'i task \<Rightarrow> rstr" where
  "default_stdio_path t = (case ctty t of Some c \<Rightarrow> controlling_terminal_device_path c | None \<Rightarrow> lit ''/dev/null'')"

text \<open>One of the three standard files. \<open>others\<close> are the references that other tasks hold; the file that was there before loses one.\<close>

definition install_stdio where
  "install_stdio ob others v files t fd mode =
     (let target = default_stdio_path t;
          (v1, r) = open_path ob v target;
          (v2, r2) = (case r of Inr f \<Rightarrow> (v1, Inr f) | Inl _ \<Rightarrow> open_path ob v1 (lit ''/dev/null''))
      in case r2 of
           Inl _ \<Rightarrow> (v2, files, t)
         | Inr f \<Rightarrow>
             (let (files1, e) = fd_entry_new ob files f mode;
                  t1 = t\<lparr>fds := insert_at (fds t) fd e 0\<rparr>
              in case fd_get (fds t) fd of
                   None \<Rightarrow> (v2, files1, t1)
                 | Some old \<Rightarrow> (let (v3, files2) = drop_reference ob v2 files1 (handle old) (handles t1 @ others) in (v3, files2, t1))))"

definition refresh_stdio where
  "refresh_stdio ob others v files t =
     (let (v1, fs1, t1) = install_stdio ob others v files t 0 ReadOnly;
          (v2, fs2, t2) = install_stdio ob others v1 fs1 t1 1 WriteOnly
      in install_stdio ob others v2 fs2 t2 2 WriteOnly)"

section \<open>Construction\<close>

text \<open>\<open>Task::new_with_terminal\<close>. \<open>stack\<close> is the address of the new kernel stack, \<open>entry\<close> the address of the entry function.\<close>

definition new_with_terminal where
  "new_with_terminal ob m v files stack pid ppid inode path name entry credentials terminal =
     (case space_kernel m of
        (m1, Inl _) \<Rightarrow> None
      | (m1, Inr space) \<Rightarrow>
          (let kstack = (stack, KERNEL_STACK_SIZE); ktop = stack_top kstack;
               ctx = set_address_space_root (set_control_flags (set_kernel_stack_pointer (set_kernel_entry_point context_new entry)
                       (of_nat ktop)) 0x202) (of_nat (root_paddr space));
               t = \<lparr>t_pid = pid, parent_pid = ppid, pgid = pid, sid = pid, cwd_inode = i_ino ob inode, cwd_path = path, cwd = inode,
                    t_state = Ready, t_mode = Kernel, t_name = name, kernel_stack_top = ktop, kernel_stack = kstack, t_context = ctx,
                    priority = 20, creds = credentials, user_stack_top = 0, brk_start = 0, brk_end = 0, brk_mapped_end = 0, mmap_start = 0,
                    mmap_end = 0, userland = False, clear_child_tid = 0, exec_path = [], cpu_time = acct_new, fds = fd_new, env = [], argv = [],
                    exit_code = 0, t_space = space, ctty = terminal, pending_signals = [], terminated_by_signal = None\<rparr>;
               (v1, files1, t1) = refresh_stdio ob [] v files t
           in Some (m1, v1, files1, t1)))"

definition new_with_credentials where
  "new_with_credentials ob m v files stack pid ppid inode path name entry credentials =
     new_with_terminal ob m v files stack pid ppid inode path name entry credentials None"

definition task_new where
  "task_new ob m v files stack pid ppid inode path name entry =
     new_with_credentials ob m v files stack pid ppid inode path name entry credentials_root"

section \<open>Cloning\<close>

definition rebase_stack_pointer :: "u64 \<Rightarrow> nat \<Rightarrow> nat \<Rightarrow> nat \<Rightarrow> u64" where
  "rebase_stack_pointer value old_base old_top new_base =
     (let p = unat value in if old_base \<le> p \<and> p \<le> old_top then of_nat (new_base + (p - old_base)) else value)"

text \<open>\<open>Clone for Task\<close>: the address space is copied, the kernel stack gets the address \<open>stack\<close> and pointers into the old stack are moved.\<close>

definition task_clone where
  "task_clone pc m stack t =
     (let (old_base, old_top) = kernel_stack_range t;
          kstack = (stack, snd (kernel_stack t));
          rebase = (\<lambda>p. rebase_stack_pointer p old_base old_top stack);
          c1 = set_kernel_stack_pointer (t_context t) (rebase (kernel_stack_pointer (t_context t)));
          c2 = set_frame_pointer c1 (rebase (frame_pointer c1));
          c3 = set_context_stack_top c2 (rebase (context_stack_top c2))
      in case clone_for_fork pc m (t_space t) of
           (m1, Inl _) \<Rightarrow> None
         | (m1, Inr space) \<Rightarrow>
             Some (m1, t\<lparr>kernel_stack_top := stack_top kstack, kernel_stack := kstack, t_context := c3, clear_child_tid := 0,
                         cpu_time := acct_new, t_space := space, pending_signals := [], terminated_by_signal := None\<rparr>))"

section \<open>Updates\<close>

definition set_cwd where
  "set_cwd ob t inode path = t\<lparr>cwd_inode := i_ino ob inode, cwd_path := path, cwd := inode\<rparr>"

definition task_set_mode :: "'i task \<Rightarrow> task_mode \<Rightarrow> u64 \<Rightarrow> 'i task" where
  "task_set_mode t mode now = t\<lparr>cpu_time := set_mode (cpu_time t) mode now, t_mode := mode\<rparr>"

definition set_uid :: "'i task \<Rightarrow> u32 \<Rightarrow> 'i task" where "set_uid t u = t\<lparr>creds := (creds t)\<lparr>cr_uid := u\<rparr>\<rparr>"
definition set_gid :: "'i task \<Rightarrow> u32 \<Rightarrow> 'i task" where "set_gid t g = t\<lparr>creds := (creds t)\<lparr>cr_gid := g\<rparr>\<rparr>"
definition set_home_dir :: "'i task \<Rightarrow> rstr \<Rightarrow> 'i task" where "set_home_dir t h = t\<lparr>creds := (creds t)\<lparr>cr_home_dir := h\<rparr>\<rparr>"

definition open_fd where
  "open_fd ob files t f flags mode =
     (let (files1, e) = fd_entry_new ob files f mode; (table, fd) = fd_insert (fds t) e flags
      in (files1, t\<lparr>fds := table\<rparr>, fd))"

definition close_fd :: "'i task \<Rightarrow> nat \<Rightarrow> 'i task \<times> nat option" where
  "close_fd t fd = (let (table, r) = fd_remove (fds t) fd in (t\<lparr>fds := table\<rparr>, map_option handle r))"

definition fd_file :: "'i task \<Rightarrow> nat \<Rightarrow> nat option" where
  "fd_file t fd = map_option handle (fd_get (fds t) fd)"

definition task_close_on_exec :: "'i task \<Rightarrow> 'i task \<times> nat list" where
  "task_close_on_exec t = (let (table, es) = close_on_exec (fds t) in (t\<lparr>fds := table\<rparr>, map handle es))"

definition fd_descriptor :: "'i task \<Rightarrow> nat \<Rightarrow> file_descriptor option" where
  "fd_descriptor t fd = map_option descriptor (fd_get (fds t) fd)"

definition task_dup_fd :: "'i task \<Rightarrow> nat \<Rightarrow> nat \<Rightarrow> bool \<Rightarrow> ('i task \<times> nat) errno_result" where
  "task_dup_fd t old_fd min_fd cloexec =
     (case duplicate (fds t) old_fd min_fd cloexec of Inl e \<Rightarrow> Inl e | Inr (table, fd) \<Rightarrow> Inr (t\<lparr>fds := table\<rparr>, fd))"

definition get_env :: "'i task \<Rightarrow> rstr \<Rightarrow> rstr option" where "get_env t key = bt_get key (env t)"
definition set_env :: "'i task \<Rightarrow> rstr \<Rightarrow> rstr \<Rightarrow> 'i task" where "set_env t key val = t\<lparr>env := bt_insert key val (env t)\<rparr>"

definition apply_load_plan :: "'i task \<Rightarrow> load_plan \<Rightarrow> rstr list \<Rightarrow> 'i task" where
  "apply_load_plan t plan args =
     t\<lparr>argv := args, t_context := set_user_entry_point (set_kernel_entry_point (t_context t) (of_nat (entry_point plan))) (of_nat (entry_point plan))\<rparr>"

text \<open>\<open>enter\<close> is the address of \<open>enter_usermode\<close>.\<close>

definition prepare_user_exec :: "u64 \<Rightarrow> 'i task \<Rightarrow> nat \<Rightarrow> nat \<Rightarrow> 'i task" where
  "prepare_user_exec enter t entry stack =
     (let c1 = set_user_stack_pointer (set_user_entry_point (t_context t) (of_nat entry)) (of_nat stack);
          c2 = set_context_stack_top (set_control_flags (set_kernel_entry_point c1 enter) 0x202) (of_nat (kernel_stack_top t));
          c3 = set_kernel_stack_pointer c2 (context_stack_top c2);
          c4 = set_frame_pointer c3 (context_stack_top c3)
      in t\<lparr>clear_child_tid := 0, t_context := set_address_space_root c4 (of_nat (root_paddr (t_space t))), user_stack_top := stack, userland := True\<rparr>)"

definition initialize_brk :: "'i task \<Rightarrow> nat \<Rightarrow> 'i task" where
  "initialize_brk t start = t\<lparr>brk_start := start, brk_end := start, brk_mapped_end := start\<rparr>"

definition set_mmap_start :: "'i task \<Rightarrow> nat \<Rightarrow> 'i task" where
  "set_mmap_start t start = t\<lparr>mmap_start := start, mmap_end := start\<rparr>"

definition set_user_entry :: "'i task \<Rightarrow> nat \<Rightarrow> nat \<Rightarrow> 'i task" where
  "set_user_entry t entry stack =
     t\<lparr>t_context := set_user_stack_pointer (set_user_entry_point (t_context t) (of_nat entry)) (of_nat stack), user_stack_top := stack\<rparr>"

section \<open>Exit and signals\<close>

definition ROOT_PID :: pid where "ROOT_PID = 1"

text \<open>When the first user process exits the kernel shuts down and does not return: \<open>None\<close>.\<close>

definition set_exit_code :: "machine \<Rightarrow> 'i task \<Rightarrow> i32 \<Rightarrow> (machine \<times> 'i task) option" where
  "set_exit_code m t code =
     (if t_pid t = ROOT_PID \<and> userland t then None
      else let address = clear_child_tid t; t1 = t\<lparr>exit_code := code, clear_child_tid := 0\<rparr>
           in if address \<noteq> 0 then Some (fst (copy_to_task m (t_space t1) address (le_bytes 4 (0 :: i32))), t1) else Some (m, t1))"

definition terminate :: "machine \<Rightarrow> 'i task \<Rightarrow> signal \<Rightarrow> u64 \<Rightarrow> (machine \<times> 'i task) option" where
  "terminate m t s now =
     (case set_exit_code m (t\<lparr>terminated_by_signal := Some s\<rparr>) (signal_exit_code s) of
        None \<Rightarrow> None
      | Some (m1, t1) \<Rightarrow> Some (m1, t1\<lparr>cpu_time := pause (cpu_time t1) now, t_state := Zombie\<rparr>))"

definition deliver_signal :: "machine \<Rightarrow> 'i task \<Rightarrow> signal \<Rightarrow> u64 \<Rightarrow> (machine \<times> 'i task) option" where
  "deliver_signal m t s now =
     (if is_fatal s then terminate m t s now else Some (m, t\<lparr>pending_signals := pending_signals t @ [s]\<rparr>))"

definition next_pending_signal :: "'i task \<Rightarrow> signal option \<times> 'i task" where
  "next_pending_signal t =
     (case terminated_by_signal t of
        Some s \<Rightarrow> (Some s, t)
      | None \<Rightarrow> if pending_signals t = [] then (None, t) else (Some (last (pending_signals t)), t\<lparr>pending_signals := butlast (pending_signals t)\<rparr>))"

text \<open>
  A signal that is not fatal is taken off the queue and forgotten. With \<open>terminated_by_signal\<close> set to a signal that
  is not fatal the loop would not end, which is also \<open>None\<close>; no operation sets it so.
\<close>

function process_pending_signals :: "machine \<Rightarrow> 'i task \<Rightarrow> u64 \<Rightarrow> (machine \<times> 'i task \<times> bool) option" where
  "process_pending_signals m t now =
     (case next_pending_signal t of
        (None, t1) \<Rightarrow> Some (m, t1, False)
      | (Some s, t1) \<Rightarrow>
          if is_fatal s then (case terminate m t1 s now of None \<Rightarrow> None | Some (m2, t2) \<Rightarrow> Some (m2, t2, True))
          else if terminated_by_signal t1 \<noteq> None then None
          else process_pending_signals m t1 now)"
  by pat_completeness auto
termination
  by (relation "measure (\<lambda>(_, t, _). length (pending_signals t))") (auto simp: next_pending_signal_def split: option.splits if_splits)

section \<open>What happens to signals\<close>

declare process_pending_signals.simps [simp del]

text \<open>Outside the first user process the exit code can always be set.\<close>

lemma terminate_returns:
  assumes "\<not> (t_pid t = ROOT_PID \<and> userland t)"
  shows "\<exists>m' t'. terminate m t s now = Some (m', t') \<and> t_state t' = Zombie \<and> exit_code t' = signal_exit_code s
     \<and> terminated_by_signal t' = Some s \<and> pending_signals t' = pending_signals t \<and> clear_child_tid t' = 0"
  using assms by (auto simp: terminate_def set_exit_code_def Let_def)

lemma pending_no_fatal:
  "terminated_by_signal t = None \<Longrightarrow> \<forall>x \<in> set (pending_signals t). \<not> is_fatal x \<Longrightarrow>
    process_pending_signals m t now = Some (m, t\<lparr>pending_signals := []\<rparr>, False)"
proof (induction "pending_signals t" arbitrary: t rule: rev_induct)
  case Nil
  then show ?case by (subst process_pending_signals.simps) (simp add: next_pending_signal_def)
next
  case (snoc x xs)
  have ps: "pending_signals t = xs @ [x]" using snoc(2) by simp
  have "process_pending_signals m t now = process_pending_signals m (t\<lparr>pending_signals := xs\<rparr>) now"
    using snoc(3,4) ps by (subst process_pending_signals.simps) (simp add: next_pending_signal_def)
  moreover have "process_pending_signals m (t\<lparr>pending_signals := xs\<rparr>) now = Some (m, t\<lparr>pending_signals := xs\<rparr>\<lparr>pending_signals := []\<rparr>, False)"
    by (rule snoc(1)) (use snoc(3,4) ps in simp_all)
  ultimately show ?case by simp
qed

lemma pending_last_fatal:
  "terminated_by_signal t = None \<Longrightarrow> pending_signals t = pre @ s # post \<Longrightarrow> is_fatal s \<Longrightarrow> \<forall>x \<in> set post. \<not> is_fatal x \<Longrightarrow>
    process_pending_signals m t now
      = map_option (\<lambda>(m', t'). (m', t', True)) (terminate m (t\<lparr>pending_signals := pre\<rparr>) s now)"
proof (induction post arbitrary: t rule: rev_induct)
  case Nil
  then show ?case by (subst process_pending_signals.simps) (auto simp: next_pending_signal_def split: option.splits)
next
  case (snoc x xs)
  have "process_pending_signals m t now = process_pending_signals m (t\<lparr>pending_signals := pre @ s # xs\<rparr>) now"
    using snoc(2-5) by (subst process_pending_signals.simps) (auto simp: next_pending_signal_def butlast_append)
  then show ?case using snoc(1) [of "t\<lparr>pending_signals := pre @ s # xs\<rparr>"] snoc(2-5) by simp
qed

text \<open>Pending signals are handled from the newest to the oldest, although the comment of \<open>next_pending_signal\<close> promises the fatal ones
  first. When none of them is fatal they are all discarded. Otherwise the newest fatal signal ends the task with its exit code, the
  signals after it are discarded and those before it stay pending. \<open>deliver_signal\<close> acts on a fatal signal at once and never makes it
  pending (\<open>deliver_keeps_quiet\<close>), so that a task that takes its signals from there only ever discards them. The first user process is
  excepted, whose end shuts the kernel down.\<close>

definition quiet :: "'i task \<Rightarrow> bool" where
  "quiet t \<longleftrightarrow> (\<forall>x \<in> set (pending_signals t). \<not> is_fatal x)"

lemma deliver_keeps_quiet:
  "deliver_signal m t s now = Some (m', t') \<Longrightarrow> quiet t \<Longrightarrow>
     quiet t' \<and> (if is_fatal s then t_state t' = Zombie \<and> exit_code t' = signal_exit_code s else m' = m \<and> t_state t' = t_state t)"
  by (auto simp: deliver_signal_def terminate_def set_exit_code_def quiet_def Let_def split: if_splits option.splits prod.splits)

lemma pending_signals_processed:
  assumes "terminated_by_signal t = None" "\<not> (t_pid t = ROOT_PID \<and> userland t)"
  shows "(if \<exists>x \<in> set (pending_signals t). is_fatal x
      then \<exists>pre s post m' t'. pending_signals t = pre @ s # post \<and> is_fatal s \<and> (\<forall>x \<in> set post. \<not> is_fatal x)
         \<and> process_pending_signals m t now = Some (m', t', True) \<and> t_state t' = Zombie
         \<and> exit_code t' = 128 + of_nat (signal_number s) \<and> pending_signals t' = pre \<and> clear_child_tid t' = 0
      else process_pending_signals m t now = Some (m, t\<lparr>pending_signals := []\<rparr>, False))"
proof (cases "\<exists>x \<in> set (pending_signals t). is_fatal x")
  case True
  then obtain pre s post where ps: "pending_signals t = pre @ s # post" "is_fatal s" "\<forall>x \<in> set post. \<not> is_fatal x"
    by (metis split_list_last_prop)
  obtain m' t' where t': "terminate m (t\<lparr>pending_signals := pre\<rparr>) s now = Some (m', t')" "t_state t' = Zombie" "exit_code t' = signal_exit_code s"
      "pending_signals t' = pre" "clear_child_tid t' = 0"
    using terminate_returns [of "t\<lparr>pending_signals := pre\<rparr>" m s now] assms(2) by auto
  have "process_pending_signals m t now = Some (m', t', True)"
    using pending_last_fatal [OF assms(1) ps] t'(1) by simp
  then show ?thesis using True ps t' unfolding signal_exit_code_def by (simp only: if_True) blast
next
  case False
  then show ?thesis using pending_no_fatal [OF assms(1)] by simp
qed

text \<open>A task for examples.\<close>

definition sample_task :: "pid \<Rightarrow> task_state \<Rightarrow> nat task" where
  "sample_task p st = \<lparr>t_pid = p, parent_pid = 1, pgid = p, sid = p, cwd_inode = 0, cwd_path = [47], cwd = 0, t_state = st, t_mode = Kernel,
     t_name = [], kernel_stack_top = 0, kernel_stack = (0, 0), t_context = context_new, priority = 20, creds = credentials_root,
     user_stack_top = 0, brk_start = 0, brk_end = 0, brk_mapped_end = 0, mmap_start = 0, mmap_end = 0, userland = False,
     clear_child_tid = 0, exec_path = [], cpu_time = acct_new, fds = fd_new, env = [], argv = [], exit_code = 7,
     t_space = \<lparr>root_frame = 4096, mappings = [], private_tables = []\<rparr>, ctty = None, pending_signals = [], terminated_by_signal = None\<rparr>"

end
