(* ===== verification/Wait_Queue.thy ===== *)
theory Wait_Queue
  imports Prelude
begin

text \<open>
  Wait queues (\<open>process/waitqueue.rs\<close>): the waiting process ids in the order in which they came.
  Its contract is a first-in first-out queue, stated as a locale and interpreted on the operations.
\<close>

record wait_queue =
  waiting_tasks :: "pid list"

definition wq_new :: wait_queue where
  "wq_new = \<lparr>waiting_tasks = []\<rparr>"

definition wq_add_task :: "wait_queue \<Rightarrow> pid \<Rightarrow> wait_queue" where
  "wq_add_task q p = q\<lparr>waiting_tasks := waiting_tasks q @ [p]\<rparr>"

definition wake_one :: "wait_queue \<Rightarrow> wait_queue \<times> pid option" where
  "wake_one q =
     (case waiting_tasks q of
        [] \<Rightarrow> (q, None)
      | p # rest \<Rightarrow> (q\<lparr>waiting_tasks := rest\<rparr>, Some p))"

definition wake_all :: "wait_queue \<Rightarrow> wait_queue \<times> pid list" where
  "wake_all q = (q\<lparr>waiting_tasks := []\<rparr>, waiting_tasks q)"

definition wq_is_empty :: "wait_queue \<Rightarrow> bool" where
  "wq_is_empty q \<longleftrightarrow> waiting_tasks q = []"

definition wq_len :: "wait_queue \<Rightarrow> nat" where
  "wq_len q = length (waiting_tasks q)"

locale fifo_queue =
  fixes contents :: "'q \<Rightarrow> 'a list"
    and put :: "'q \<Rightarrow> 'a \<Rightarrow> 'q"
    and get :: "'q \<Rightarrow> 'q \<times> 'a option"
  assumes put_last: "contents (put q x) = contents q @ [x]"
    and get_none: "contents q = [] \<Longrightarrow> snd (get q) = None \<and> contents (fst (get q)) = []"
    and get_first: "contents q = x # xs \<Longrightarrow> snd (get q) = Some x \<and> contents (fst (get q)) = xs"
begin

text \<open>\<open>get_n k\<close> takes \<open>k\<close> times and collects what came out.\<close>

fun get_n :: "nat \<Rightarrow> 'q \<Rightarrow> 'q \<times> 'a list" where
  "get_n 0 q = (q, [])"
| "get_n (Suc k) q =
     (case get q of
        (q1, None) \<Rightarrow> (q1, [])
      | (q1, Some x) \<Rightarrow> (let (q2, xs) = get_n k q1 in (q2, x # xs)))"

lemma get_n_prefix: "snd (get_n k q) = take k (contents q) \<and> contents (fst (get_n k q)) = drop k (contents q)"
proof (induction k arbitrary: q)
  case 0
  then show ?case by simp
next
  case (Suc k)
  show ?case
  proof (cases "contents q")
    case Nil
    then show ?thesis using get_none [of q] by (cases "get q") auto
  next
    case (Cons x xs)
    then obtain q1 where "get q = (q1, Some x)" "contents q1 = xs"
      using get_first [of q x xs] by (cases "get q") auto
    then show ?thesis using Cons Suc.IH [of q1] by (auto split: prod.splits)
  qed
qed

lemma contents_puts: "contents (foldl put q xs) = contents q @ xs"
  by (induction xs arbitrary: q) (simp_all add: put_last)

text \<open>Whatever is put into an empty queue comes out in the same order.\<close>

lemma fifo_order: "contents q = [] \<Longrightarrow> snd (get_n (length xs) (foldl put q xs)) = xs"
  using get_n_prefix [of "length xs" "foldl put q xs"] contents_puts [of q xs] by simp

end

interpretation wq: fifo_queue waiting_tasks wq_add_task wake_one
  by unfold_locales (auto simp: wq_add_task_def wake_one_def)

lemma wake_all_is_repeated_wake_one: "snd (wake_all q) = snd (wq.get_n (wq_len q) q)"
  using wq.get_n_prefix [of "wq_len q" q] by (simp add: wake_all_def wq_len_def)

end
