(* ===== verification/Scheduler.thy ===== *)
theory Scheduler
  imports Task Wait_Queue
begin

text \<open>
  The scheduler (\<open>process/scheduler.rs\<close>) with the process ids it shares with \<open>process/mod.rs\<close>. The record
  \<open>procs\<close> holds the fields of \<open>Scheduler\<close>, the two global process-id counters, the clock and the
  processor registers that a switch changes. The scheduler is initialised: before that every operation
  returns at once. The mutex is not modelled; every operation runs under it. The code indexes the list of
  tasks with \<open>current_index\<close>, which is in range in every reachable state (\<open>Scheduler_Props\<close>).
\<close>

datatype core_workload = Idle | RunTask pid | KernelWork rstr

record core_state =
  core_id :: nat
  workload :: core_workload

record 'i procs =
  tasks :: "'i task list"
  current_index :: "nat option"
  cores :: "core_state list"
  current_pid :: pid
  next_pid :: pid
  now_ns :: u64
  cpu_root :: nat
  tss_rsp0 :: u64
  syscall_stack_top :: u64
  user_bases :: "u64 \<times> u64"

text \<open>A switch plan holds pointers to the contexts of two tasks: their indices.\<close>

record switch_plan =
  old_ctx :: nat
  new_ctx :: nat
  new_pid :: pid

section \<open>Switch targets\<close>

definition is_canonical_address :: "u64 \<Rightarrow> bool" where
  "is_canonical_address addr =
     (let sign = and (drop_bit 47 addr) 1; upper = drop_bit 48 addr
      in if sign = 0 then upper = 0 else upper = 0xFFFF)"

definition validate_switch_target :: "'i task \<Rightarrow> bool" where
  "validate_switch_target t =
     (let (stack_base, stop) = kernel_stack_range t;
          sp = unat (kernel_stack_pointer (t_context t));
          ip = kernel_entry_point (t_context t);
          in_range = (stack_base \<le> sp \<and> sp \<le> stop);
          sp_canonical = is_canonical_address (kernel_stack_pointer (t_context t));
          sp_ok = (case t_mode t of Kernel \<Rightarrow> sp_canonical | User \<Rightarrow> in_range \<and> sp_canonical)
      in sp_ok \<and> is_canonical_address ip \<and> ip \<noteq> 0)"

definition normalize_switch_target :: "'i task \<Rightarrow> 'i task" where
  "normalize_switch_target t =
     (let (stack_base, stop) = kernel_stack_range t;
          sp = unat (kernel_stack_pointer (t_context t));
          ksp = unat (context_stack_top (t_context t));
          in_range = (stack_base \<le> sp \<and> sp \<le> stop)
      in if \<not> (stack_base \<le> ksp \<and> ksp \<le> stop) then t
         else case t_mode t of
                Kernel \<Rightarrow> t
              | User \<Rightarrow>
                  (let c = t_context t;
                       c1 = (if \<not> in_range
                             then (let d = set_kernel_stack_pointer c (context_stack_top c)
                                   in if frame_pointer d = 0 then set_frame_pointer d (context_stack_top d) else d)
                             else c);
                       c2 = (if user_stack_pointer c1 = 0 \<and> user_stack_top t \<noteq> 0
                             then set_user_stack_pointer c1 (of_nat (user_stack_top t)) else c1);
                       c3 = (if user_entry_point c2 = 0 \<and> kernel_entry_point c2 \<noteq> 0
                             then set_user_entry_point c2 (kernel_entry_point c2) else c2)
                   in t\<lparr>t_context := c3\<rparr>))"

section \<open>Cores\<close>

definition set_core :: "'i procs \<Rightarrow> nat \<Rightarrow> core_workload \<Rightarrow> 'i procs" where
  "set_core s c w = (if c < length (cores s) then s\<lparr>cores := (cores s)[c := (cores s ! c)\<lparr>workload := w\<rparr>]\<rparr> else s)"

definition set_core_kernel_workload :: "'i procs \<Rightarrow> nat \<Rightarrow> rstr \<Rightarrow> 'i procs \<times> bool" where
  "set_core_kernel_workload s c reason = (set_core s c (KernelWork reason), c < length (cores s))"

definition set_core_idle :: "'i procs \<Rightarrow> nat \<Rightarrow> 'i procs" where
  "set_core_idle s c = set_core s c Idle"

definition set_core_task :: "'i procs \<Rightarrow> nat \<Rightarrow> pid \<Rightarrow> 'i procs" where
  "set_core_task s c p = set_core s c (RunTask p)"

definition clear_core_task :: "'i procs \<Rightarrow> pid \<Rightarrow> 'i procs" where
  "clear_core_task s p = s\<lparr>cores := map (\<lambda>c. if workload c = RunTask p then c\<lparr>workload := Idle\<rparr> else c) (cores s)\<rparr>"

section \<open>Tasks\<close>

text \<open>\<open>Scheduler::new\<close>; \<open>n\<close> is the core count that the processor reports.\<close>

definition scheduler_new :: "nat \<Rightarrow> core_state list" where
  "scheduler_new n = map (\<lambda>c. \<lparr>core_id = c, workload = Idle\<rparr>) [0..<max n 1]"

definition add_task :: "'i procs \<Rightarrow> 'i task \<Rightarrow> 'i procs" where
  "add_task s t = s\<lparr>tasks := tasks s @ [t]\<rparr>"

definition pid_index :: "'i procs \<Rightarrow> pid \<Rightarrow> nat option" where
  "pid_index s p = position (\<lambda>t. t_pid t = p) (tasks s)"

definition task_by_pid :: "'i procs \<Rightarrow> pid \<Rightarrow> 'i task option" where
  "task_by_pid s p = find (\<lambda>t. t_pid t = p) (tasks s)"

definition update_index :: "'i procs \<Rightarrow> nat \<Rightarrow> ('i task \<Rightarrow> 'i task) \<Rightarrow> 'i procs" where
  "update_index s k f = (if k < length (tasks s) then s\<lparr>tasks := (tasks s)[k := f (tasks s ! k)]\<rparr> else s)"

text \<open>A change through \<open>task_by_pid_mut\<close>: the first task with this id.\<close>

definition update_pid :: "'i procs \<Rightarrow> pid \<Rightarrow> ('i task \<Rightarrow> 'i task) \<Rightarrow> 'i procs" where
  "update_pid s p f = (case pid_index s p of None \<Rightarrow> s | Some k \<Rightarrow> update_index s k f)"

definition current :: "'i procs \<Rightarrow> 'i task option" where
  "current s = (case current_index s of None \<Rightarrow> None | Some k \<Rightarrow> if k < length (tasks s) then Some (tasks s ! k) else None)"

definition set_task_state :: "'i procs \<Rightarrow> pid \<Rightarrow> task_state \<Rightarrow> 'i procs \<times> bool" where
  "set_task_state s p st =
     (if pid_index s p = None then (s, False)
      else let s1 = update_pid s p (\<lambda>t. (if st = Waiting \<or> st = Zombie then t\<lparr>cpu_time := pause (cpu_time t) (now_ns s)\<rparr> else t)\<lparr>t_state := st\<rparr>);
               s2 = (if map_option t_pid (current s1) = Some p \<and> st = Zombie then clear_core_task (s1\<lparr>current_index := None\<rparr>) p else s1)
           in (s2, True))"

definition runnable :: "'i task \<Rightarrow> bool" where
  "runnable t \<longleftrightarrow> t_state t = Ready \<or> t_state t = Running"

definition account_switch :: "'i procs \<Rightarrow> pid \<Rightarrow> 'i procs" where
  "account_switch s next =
     (let s1 = update_pid s (current_pid s) (\<lambda>t. t\<lparr>cpu_time := pause (cpu_time t) (now_ns s)\<rparr>)
      in update_pid s1 next (\<lambda>t. t\<lparr>cpu_time := resume (cpu_time t) (now_ns s)\<rparr>))"

text \<open>\<open>AddressSpace::activate\<close> and \<open>activate_task_runtime_state\<close>.\<close>

definition activate_address_space :: "'i procs \<Rightarrow> 'i task \<Rightarrow> 'i procs" where
  "activate_address_space s t = s\<lparr>cpu_root := root_frame (t_space t)\<rparr>"

definition activate_task_runtime_state :: "'i procs \<Rightarrow> 'i task \<Rightarrow> 'i procs" where
  "activate_task_runtime_state s t =
     s\<lparr>tss_rsp0 := of_nat (kernel_stack_top t), syscall_stack_top := of_nat (kernel_stack_top t),
       user_bases := (thread_local_base (t_context t) True, thread_local_base (t_context t) False)\<rparr>"

text \<open>The end of all three ways to switch: the task at \<open>k\<close> is accounted for, recorded and made to run.\<close>

definition make_current :: "'i procs \<Rightarrow> nat \<Rightarrow> nat \<Rightarrow> 'i procs" where
  "make_current s core k =
     (let p = t_pid (tasks s ! k);
          s1 = account_switch (s\<lparr>current_index := Some k\<rparr>) p;
          s2 = set_core_task (s1\<lparr>current_pid := p\<rparr>) core p;
          s3 = update_index s2 k (\<lambda>t. t\<lparr>t_state := Running\<rparr>);
          t = tasks s3 ! k
      in activate_task_runtime_state (activate_address_space s3 t) t)"

definition unrun :: "'i task \<Rightarrow> 'i task" where
  "unrun t = (if t_state t = Running then t\<lparr>t_state := Ready\<rparr> else t)"

section \<open>Scheduling\<close>

definition next_runnable :: "'i task list \<Rightarrow> nat \<Rightarrow> nat option" where
  "next_runnable ts start = find (\<lambda>k. runnable (ts ! k)) (map (\<lambda>d. (start + d) mod length ts) [0..<length ts])"

text \<open>\<open>schedule_on\<close> returns the index of the task it has chosen.\<close>

definition schedule_on :: "'i procs \<Rightarrow> nat \<Rightarrow> 'i procs \<times> nat option" where
  "schedule_on s core =
     (let len = length (tasks s)
      in if len = 0 then (set_core_idle (s\<lparr>current_index := None\<rparr>) core, None)
         else let start = (case current_index s of None \<Rightarrow> 0 | Some k \<Rightarrow> (k + 1) mod len)
              in case next_runnable (tasks s) start of
                   None \<Rightarrow>
                     (let s1 = update_pid s (current_pid s) (\<lambda>t. t\<lparr>cpu_time := pause (cpu_time t) (now_ns s)\<rparr>)
                      in (set_core_idle (s1\<lparr>current_index := None\<rparr>) core, None))
                 | Some next \<Rightarrow>
                     (let s1 = (case current_index s of
                                  None \<Rightarrow> s
                                | Some prev \<Rightarrow> if prev < len \<and> prev \<noteq> next then update_index s prev unrun else s)
                      in (make_current s1 core next, Some next)))"

definition schedule :: "'i procs \<Rightarrow> 'i procs \<times> nat option" where
  "schedule s = schedule_on s 0"

text \<open>Each of the three ways to switch returns a plan when there is something to switch.\<close>

definition preempt_and_switch :: "'i procs \<Rightarrow> 'i procs \<times> switch_plan option" where
  "preempt_and_switch s =
     (let old = current_index s;
          old_pid = map_option t_pid (current s);
          s1 = (case old_pid of
                  None \<Rightarrow> s
                | Some p \<Rightarrow> if map_option t_state (task_by_pid s p) = Some Zombie then s else fst (set_task_state s p Ready))
      in case schedule_on s1 0 of
           (s2, None) \<Rightarrow> (s2, None)
         | (s2, Some k) \<Rightarrow>
             (let p = t_pid (tasks s2 ! k)
              in case old of
                   Some j \<Rightarrow> (s2, if Some p \<noteq> old_pid then Some \<lparr>old_ctx = j, new_ctx = k, new_pid = p\<rparr> else None)
                 | None \<Rightarrow> (s2, None)))"

definition switch_to_pid :: "'i procs \<Rightarrow> pid \<Rightarrow> 'i procs \<times> switch_plan option" where
  "switch_to_pid s p =
     (let s1 = (if current_index s = None then s\<lparr>current_index := pid_index s (current_pid s)\<rparr> else s)
      in case (current_index s1, pid_index s1 p) of
           (Some old, Some target) \<Rightarrow>
             if old = target \<or> \<not> runnable (tasks s1 ! target) then (s1, None)
             else let s2 = update_index s1 target normalize_switch_target
                  in if \<not> validate_switch_target (tasks s2 ! target) \<or> length (tasks s2) \<le> old then (s2, None)
                     else (make_current (update_index s2 old unrun) 0 target,
                           Some \<lparr>old_ctx = old, new_ctx = target, new_pid = t_pid (tasks s2 ! target)\<rparr>)
         | _ \<Rightarrow> (s1, None))"

definition lower_current_priority :: "'i procs \<Rightarrow> 'i procs \<times> u8 option" where
  "lower_current_priority s =
     (case current_index s of
        None \<Rightarrow> (s, None)
      | Some k \<Rightarrow>
          if k < length (tasks s)
          then (let s1 = update_index s k (\<lambda>t. t\<lparr>priority := saturating_sub (priority t) 1\<rparr>) in (s1, Some (priority (tasks s1 ! k))))
          else (s, None))"

text \<open>The third component of the result is the removed task, which is dropped at the end of the function.\<close>

definition reap_zombie_child :: "'i procs \<Rightarrow> pid \<Rightarrow> pid option \<Rightarrow> 'i procs \<times> (pid \<times> i32 \<times> 'i task) option" where
  "reap_zombie_child s parent expected =
     (case position (\<lambda>t. parent_pid t = parent \<and> t_state t = Zombie \<and> (case expected of None \<Rightarrow> True | Some p \<Rightarrow> p = t_pid t)) (tasks s) of
        None \<Rightarrow> (s, None)
      | Some k \<Rightarrow>
          (let child = tasks s ! k;
               s1 = s\<lparr>tasks := remove_nth k (tasks s)\<rparr>;
               s2 = update_pid s1 parent (\<lambda>t. t\<lparr>cpu_time := reap (cpu_time t) (cpu_time child) (now_ns s)\<rparr>);
               s3 = clear_core_task s2 (t_pid child);
               s4 = (case current_index s3 of
                       None \<Rightarrow> s3
                     | Some c \<Rightarrow> s3\<lparr>current_index := (if k < c then Some (c - 1) else if k = c then None else Some c)\<rparr>)
           in (s4, Some (t_pid child, exit_code child, child))))"

text \<open>The loop of \<open>preempt_if_higher_priority\<close>: the first task of the highest priority above the one given.\<close>

fun best_priority :: "nat \<Rightarrow> nat \<Rightarrow> 'i task list \<Rightarrow> nat option \<Rightarrow> u8 \<Rightarrow> nat option \<times> u8" where
  "best_priority cur k [] best p = (best, p)"
| "best_priority cur k (t # ts) best p =
     (if k = cur \<or> \<not> runnable t then best_priority cur (Suc k) ts best p
      else if p < priority t then best_priority cur (Suc k) ts (Some k) (priority t)
      else best_priority cur (Suc k) ts best p)"

definition preempt_if_higher_priority :: "'i procs \<Rightarrow> 'i procs \<times> switch_plan option" where
  "preempt_if_higher_priority s =
     (case current_index s of
        None \<Rightarrow> (s, None)
      | Some cur \<Rightarrow>
          if length (tasks s) \<le> cur then (s, None)
          else case best_priority cur 0 (tasks s) None (priority (tasks s ! cur)) of
                 (None, _) \<Rightarrow> (s, None)
               | (Some k, p) \<Rightarrow>
                   if p \<le> priority (tasks s ! cur) then (s, None)
                   else (make_current (update_index s cur unrun) 0 k,
                         Some \<lparr>old_ctx = cur, new_ctx = k, new_pid = t_pid (tasks s ! k)\<rparr>))"

end
