(* ===== verification/Process.thy ===== *)
theory Process
  imports Scheduler
begin

text \<open>
  Processes (\<open>process/mod.rs\<close>) and the system calls and faults that end them. The record \<open>kernel\<close> holds the global
  state: the scheduler, physical memory, the virtual file system, all open file descriptions, the foreground
  process groups and the queue of tasks that wait for terminal input. \<open>None\<close> is a panic or a shutdown.
\<close>

record ('i, 'f, 'd, 'b, 'w) kernel =
  procs :: "'i procs"
  k_machine :: machine
  k_vfs :: "('i, 'f, 'd, 'b, 'w) vfs"
  files :: "('i, 'f, 'd) open_file list"
  foreground :: "(controlling_terminal, pid) btree"
  tty_input_queue :: wait_queue

definition KERNEL_IO_TASK_PID :: pid where "KERNEL_IO_TASK_PID = 2"

fun errno_from_fs :: "fs_error \<Rightarrow> int" where
  "errno_from_fs NotFound = -2"
| "errno_from_fs PermissionDenied = -13"
| "errno_from_fs NotADirectory = -20"
| "errno_from_fs IsADirectory = -21"
| "errno_from_fs AlreadyExists = -17"
| "errno_from_fs IoError = -5"
| "errno_from_fs Busy = -16"
| "errno_from_fs NotSupported = -95"
| "errno_from_fs NoSpace = -28"
| "errno_from_fs OutOfMemory = -12"
| "errno_from_fs InvalidArgument = -22"
| "errno_from_fs NotEmpty = -39"
| "errno_from_fs CrossDevice = -18"
| "errno_from_fs NameTooLong = -36"
| "errno_from_fs FileTooLarge = -27"

section \<open>The current task\<close>

abbreviation task_of :: "('i, 'f, 'd, 'b, 'w) kernel \<Rightarrow> pid \<Rightarrow> 'i task option" where
  "task_of k p \<equiv> task_by_pid (procs k) p"

abbreviation me :: "('i, 'f, 'd, 'b, 'w) kernel \<Rightarrow> pid" where
  "me k \<equiv> current_pid (procs k)"

definition update_task where
  "update_task k p f = k\<lparr>procs := update_pid (procs k) p f\<rparr>"

text \<open>\<open>with_task_mut\<close> and \<open>with_current_task_mut\<close>: the closure changes the task and has a result.\<close>

definition with_task_mut where
  "with_task_mut k p f =
     (case task_of k p of None \<Rightarrow> (k, None) | Some t \<Rightarrow> (update_task k p (\<lambda>_. fst (f t)), Some (snd (f t))))"

definition with_current_task_mut where
  "with_current_task_mut k f = with_task_mut k (me k) f"

definition alloc_pid where
  "alloc_pid k = (k\<lparr>procs := (procs k)\<lparr>next_pid := next_pid (procs k) + 1\<rparr>\<rparr>, next_pid (procs k))"

definition current_task_mode where
  "current_task_mode k = map_option t_mode (task_of k (me k))"

definition set_current_task_mode where
  "set_current_task_mode k mode =
     (case task_of k (me k) of
        None \<Rightarrow> (k, False)
      | Some t \<Rightarrow> (update_task k (me k) (\<lambda>t. task_set_mode t mode (now_ns (procs k))), True))"

definition resume_cpu_accounting where
  "resume_cpu_accounting k =
     update_task k (me k) (\<lambda>t. if t_state t = Waiting \<or> t_state t = Zombie then t else t\<lparr>cpu_time := resume (cpu_time t) (now_ns (procs k))\<rparr>)"

text \<open>\<open>idle_until_interrupt\<close>; \<open>irq\<close> is what happens until the processor returns here.\<close>

definition idle_until_interrupt where
  "idle_until_interrupt irq k =
     resume_cpu_accounting (irq (update_task k (me k) (\<lambda>t. t\<lparr>cpu_time := pause (cpu_time t) (now_ns (procs k))\<rparr>)))"

definition current_pgid where
  "current_pgid k = (case task_of k (me k) of None \<Rightarrow> 0 | Some t \<Rightarrow> pgid t)"

definition current_sid where
  "current_sid k = (case task_of k (me k) of None \<Rightarrow> 0 | Some t \<Rightarrow> sid t)"

definition set_task_pgid where
  "set_task_pgid k p g =
     (case task_of k (me k) of
        None \<Rightarrow> (k, Inl (-1))
      | Some requester \<Rightarrow>
          (case task_of k p of
             None \<Rightarrow> (k, Inl (-3))
           | Some target \<Rightarrow>
               if sid requester \<noteq> sid target then (k, Inl (-1 :: int))
               else if \<not> (\<exists>t \<in> set (tasks (procs k)). sid t = sid requester \<and> t_pid t = g) then (k, Inl (-3))
               else (update_task k p (\<lambda>t. t\<lparr>pgid := g\<rparr>), Inr ())))"

definition set_current_cwd where
  "set_current_cwd ob k inode path =
     (case task_of k (me k) of
        None \<Rightarrow> (k, Inl (-1 :: int))
      | Some _ \<Rightarrow> (update_task k (me k) (\<lambda>t. set_cwd ob t inode path), Inr ()))"

section \<open>Files\<close>

definition all_handles :: "'i task list \<Rightarrow> nat list" where
  "all_handles ts = concat (map handles ts)"

text \<open>Without a task the file is dropped.\<close>

definition open_file_current where
  "open_file_current ob k f flags mode =
     (case task_of k (me k) of
        None \<Rightarrow> (k\<lparr>k_vfs := fst (file_drop ob (k_vfs k) f)\<rparr>, Inl (-1 :: int))
      | Some t \<Rightarrow>
          (let (fs1, t1, fd) = open_fd ob (files k) t f flags mode in (update_task (k\<lparr>files := fs1\<rparr>) (me k) (\<lambda>_. t1), Inr fd)))"

text \<open>
  Only the last reference closes the file, after which the description is dropped. Threads that hold a
  reference for the time of a read or write are not modelled.
\<close>

definition close_fd_for_pid where
  "close_fd_for_pid ob k p fd =
     (case task_of k p of
        None \<Rightarrow> (k, Inl (-1))
      | Some t \<Rightarrow>
          (case close_fd t fd of
             (t1, None) \<Rightarrow> (update_task k p (\<lambda>_. t1), Inl (-9))
           | (t1, Some h) \<Rightarrow>
               (let k1 = update_task k p (\<lambda>_. t1)
                in if h \<in> set (all_handles (tasks (procs k1))) then (k1, Inr ())
                   else let (v1, f1, r) = file_close ob (k_vfs k1) (files k1 ! h);
                            (v2, fs2) = drop_description ob v1 ((files k1)[h := f1]) h
                        in (k1\<lparr>k_vfs := v2, files := fs2\<rparr>, case r of None \<Rightarrow> Inr () | Some e \<Rightarrow> Inl (errno_from_fs e)))))"

definition close_fd_current where
  "close_fd_current ob k fd = close_fd_for_pid ob k (me k) fd"

definition close_all_fds where
  "close_all_fds ob k p =
     (case task_of k p of
        None \<Rightarrow> (k, Inl (-1 :: int))
      | Some t \<Rightarrow> (foldl (\<lambda>k fd. fst (close_fd_for_pid ob k p fd)) k (map fst (fd_iter (fds t))), Inr ()))"

definition dup_fd_current where
  "dup_fd_current k old_fd min_fd cloexec =
     (case task_of k (me k) of
        None \<Rightarrow> (k, Inl (-1))
      | Some t \<Rightarrow> (case task_dup_fd t old_fd min_fd cloexec of Inl e \<Rightarrow> (k, Inl e) | Inr (t1, fd) \<Rightarrow> (update_task k (me k) (\<lambda>_. t1), Inr fd)))"

definition with_fd where
  "with_fd k fd f =
     (case task_of k (me k) of
        None \<Rightarrow> (k, Inl (-1))
      | Some t \<Rightarrow>
          (case fd_file t fd of
             None \<Rightarrow> (k, Inl (-9))
           | Some h \<Rightarrow> (let (v1, f1, r) = f (k_vfs k) (files k ! h) in (k\<lparr>k_vfs := v1, files := (files k)[h := f1]\<rparr>, r))))"

definition read_fd where
  "read_fd ob k fd n =
     with_fd k fd (\<lambda>v f. case file_read ob v f n of (v1, f1, Inl e) \<Rightarrow> (v1, f1, Inl (errno_from_fs e)) | (v1, f1, Inr bytes) \<Rightarrow> (v1, f1, Inr bytes))"

text \<open>A task is dropped: its references to files, then its memory.\<close>

fun drop_handles where
  "drop_handles ob v fs [] refs = (v, fs)"
| "drop_handles ob v fs (h # hs) refs = (let (v1, fs1) = drop_reference ob v fs h (hs @ refs) in drop_handles ob v1 fs1 hs refs)"

definition drop_task where
  "drop_task ob k t =
     (let (v1, fs1) = drop_handles ob (k_vfs k) (files k) (handles t) (all_handles (tasks (procs k)))
      in k\<lparr>k_vfs := v1, files := fs1, k_machine := space_drop (k_machine k) (t_space t)\<rparr>)"

section \<open>Fork, wait, exit and kill\<close>

definition fork_child :: "'i task \<Rightarrow> pid \<Rightarrow> pid \<Rightarrow> 'i task" where
  "fork_child clone child_pid ppid =
     (let c1 = set_return_value (t_context clone) 0;
          top = of_nat (kernel_stack_top clone);
          c2 = (if kernel_stack_pointer c1 = 0 then set_kernel_stack_pointer c1 top else c1);
          c3 = (if frame_pointer c2 = 0 then set_frame_pointer c2 top else c2);
          c4 = set_address_space_root (set_context_stack_top c3 top) (of_nat (root_paddr (t_space clone)))
      in clone\<lparr>t_pid := child_pid, parent_pid := ppid, t_state := Ready, t_context := c4\<rparr>)"

text \<open>\<open>prepare\<close> is the closure of the caller; \<open>stack\<close> is the address of the new kernel stack.\<close>

definition fork_current_task_with where
  "fork_current_task_with ob pc prepare stack k =
     (case task_of k (me k) of
        None \<Rightarrow> Some (k, Inl (-1 :: int))
      | Some parent \<Rightarrow>
          (case task_clone pc (k_machine k) stack parent of
             None \<Rightarrow> None
           | Some (m1, clone) \<Rightarrow>
               (let (k1, child_pid) = alloc_pid (k\<lparr>k_machine := m1\<rparr>)
                in case prepare m1 (fork_child clone child_pid (me k)) of
                     (m2, child, Inl e) \<Rightarrow> Some (drop_task ob (k1\<lparr>k_machine := m2\<rparr>) child, Inl e)
                   | (m2, child, Inr _) \<Rightarrow>
                       (let k2 = update_task (k1\<lparr>k_machine := m2\<rparr>) (me k) (\<lambda>t. t\<lparr>priority := saturating_sub (priority t) 1\<rparr>)
                        in Some (k2\<lparr>procs := add_task (procs k2) child\<rparr>, Inr child_pid)))))"

definition fork_current_task where
  "fork_current_task ob pc stack k = fork_current_task_with ob pc (\<lambda>m t. (m, t, Inr ())) stack k"

text \<open>One round of the loop in \<open>wait_for_child_with_options\<close>; \<open>Inr None\<close> when there is a child, but it has not ended.\<close>

definition wait_poll where
  "wait_poll ob k ppid p =
     (case reap_zombie_child (procs k) ppid p of
        (s1, Some (child, status, t)) \<Rightarrow> (drop_task ob (k\<lparr>procs := s1\<rparr>) t, Inr (Some (child, status)))
      | (s1, None) \<Rightarrow>
          if \<not> (\<exists>t \<in> set (tasks s1). parent_pid t = ppid \<and> (case p of None \<Rightarrow> True | Some p \<Rightarrow> t_pid t = p))
          then (k\<lparr>procs := s1\<rparr>, Inl (-10 :: int)) else (k\<lparr>procs := s1\<rparr>, Inr None))"

text \<open>The loop, for the given interrupts; the result is \<open>None\<close> when it still waits after the last of them.\<close>

fun wait_loop where
  "wait_loop ob ppid p nohang irqs k =
     (case wait_poll ob k ppid p of
        (k1, Inl e) \<Rightarrow> (k1, Some (Inl e))
      | (k1, Inr (Some r)) \<Rightarrow> (k1, Some (Inr (Some r)))
      | (k1, Inr None) \<Rightarrow>
          if nohang then (k1, Some (Inr None))
          else case irqs of [] \<Rightarrow> (k1, None) | irq # rest \<Rightarrow> wait_loop ob ppid p nohang rest (idle_until_interrupt irq k1))"

declare wait_loop.simps [simp del]

definition wait_for_child_with_options where
  "wait_for_child_with_options ob irqs k p nohang = wait_loop ob (me k) p nohang irqs k"

definition wait_for_child where
  "wait_for_child ob irqs k p =
     (case wait_for_child_with_options ob irqs k p False of
        (k1, Some (Inr None)) \<Rightarrow> (k1, Some (Inl (-10)))
      | (k1, Some (Inr (Some r))) \<Rightarrow> (k1, Some (Inr r))
      | (k1, Some (Inl e)) \<Rightarrow> (k1, Some (Inl e))
      | (k1, None) \<Rightarrow> (k1, None))"

text \<open>\<open>sys_exit\<close> up to the switch to the next task.\<close>

definition sys_exit where
  "sys_exit ob k status =
     (let p = me k; k1 = fst (close_all_fds ob k p);
          parent = map_option parent_pid (task_of k1 p);
          r = (case task_of k1 p of
                 None \<Rightarrow> Some k1
               | Some t \<Rightarrow> (case set_exit_code (k_machine k1) t status of
                              None \<Rightarrow> None
                            | Some (m, t1) \<Rightarrow> Some (update_task (k1\<lparr>k_machine := m\<rparr>) p (\<lambda>_. t1))))
      in case r of
           None \<Rightarrow> None
         | Some k2 \<Rightarrow>
             (let s3 = fst (set_task_state (procs k2) p Zombie);
                  (s4, plan) = (case parent of None \<Rightarrow> (s3, None) | Some q \<Rightarrow> switch_to_pid s3 q);
                  (s5, plan2) = (case plan of Some pl \<Rightarrow> (s4, Some pl) | None \<Rightarrow> preempt_and_switch s4)
              in Some (k2\<lparr>procs := s5\<rparr>, plan2)))"

text \<open>A fault in user mode ends the running task: the common body of the three exception handlers, up to the switch. The state is
  assigned directly, so that \<open>current_index\<close> and the cores are left to the switch.\<close>

definition user_fault where
  "user_fault k code =
     (case task_of k (me k) of
        None \<Rightarrow> (let (s1, plan) = preempt_and_switch (procs k) in Some (k\<lparr>procs := s1\<rparr>, plan))
      | Some t \<Rightarrow>
          (case set_exit_code (k_machine k) t code of
             None \<Rightarrow> None
           | Some (m, t1) \<Rightarrow>
               (let k1 = update_task (k\<lparr>k_machine := m\<rparr>) (me k) (\<lambda>_. t1\<lparr>t_state := Zombie\<rparr>);
                    (s1, plan) = switch_to_pid (procs k1) (parent_pid t);
                    (s2, plan2) = (case plan of Some pl \<Rightarrow> (s1, Some pl) | None \<Rightarrow> preempt_and_switch s1)
                in Some (k1\<lparr>procs := s2\<rparr>, plan2))))"

definition invalid_opcode_handler where
  "invalid_opcode_handler k ring3 = (if ring3 then user_fault k 132 else Some (k, None))"

definition general_protection_fault_handler where
  "general_protection_fault_handler k ring3 = (if ring3 then user_fault k 128 else Some (k, None))"

definition page_fault_handler where
  "page_fault_handler k user_mode = (if user_mode then user_fault k 139 else Some (k, None))"

definition terminate_root_process where
  "terminate_root_process k = (let (s1, r) = set_task_state (procs k) ROOT_PID Zombie in (k\<lparr>procs := s1\<rparr>, r))"

definition signal_of_number :: "int \<Rightarrow> signal option" where
  "signal_of_number n =
     (if n = 2 then Some Sigint else if n = 9 then Some Sigkill else if n = 15 then Some Sigterm
      else if n = 18 then Some Sigcont else if n = 19 then Some Sigstop else None)"

definition sys_kill where
  "sys_kill k p sig =
     (if sig = 0 then
        Some (k, if p \<le> 0 then 0 else if task_of k (of_int p) \<noteq> None then 0 else -3)
      else case signal_of_number sig of
             None \<Rightarrow> Some (k, if sig = 20 \<or> sig = 21 \<or> sig = 22 then 0 else (-22 :: int))
           | Some s \<Rightarrow>
               (let target = (if 0 < p then of_int p else me k)
                in case task_of k target of
                     None \<Rightarrow> Some (k, -3)
                   | Some t \<Rightarrow>
                       (case deliver_signal (k_machine k) t s (now_ns (procs k)) of
                          None \<Rightarrow> None
                        | Some (m, t1) \<Rightarrow> Some (update_task (k\<lparr>k_machine := m\<rparr>) target (\<lambda>_. t1), 0))))"

section \<open>Terminals\<close>

definition sched_yield_current_task where
  "sched_yield_current_task k = (let (s1, r) = lower_current_priority (procs k) in (k\<lparr>procs := s1\<rparr>, r))"

definition yield_to_task where
  "yield_to_task k p = (let (s1, r) = switch_to_pid (procs k) p in (k\<lparr>procs := s1\<rparr>, r))"

definition preempt_current_task_if_higher_priority where
  "preempt_current_task_if_higher_priority k = (let (s1, r) = preempt_if_higher_priority (procs k) in (k\<lparr>procs := s1\<rparr>, r))"

definition set_controlling_terminal where
  "set_controlling_terminal ob k p target =
     (case pid_index (procs k) p of
        None \<Rightarrow> k
      | Some n \<Rightarrow>
          (let ts = tasks (procs k);
               (v1, fs1, t1) = refresh_stdio ob (all_handles (remove_nth n ts)) (k_vfs k) (files k) ((ts ! n)\<lparr>ctty := Some target\<rparr>);
               k1 = update_task (k\<lparr>k_vfs := v1, files := fs1\<rparr>) p (\<lambda>_. t1)
           in if bt_get target (foreground k1) = None then k1\<lparr>foreground := bt_insert target (pgid t1) (foreground k1)\<rparr> else k1))"

definition current_controlling_terminal where
  "current_controlling_terminal k = (case task_of k (me k) of None \<Rightarrow> None | Some t \<Rightarrow> ctty t)"

definition tty_foreground_pgrp_for_current where
  "tty_foreground_pgrp_for_current k =
     (case current_controlling_terminal k of
        None \<Rightarrow> Inl (-25 :: int)
      | Some tty \<Rightarrow> Inr (case bt_get tty (foreground k) of None \<Rightarrow> current_pgid k | Some g \<Rightarrow> g))"

definition set_tty_foreground_pgrp_for_current where
  "set_tty_foreground_pgrp_for_current k g =
     (if g = 0 then (k, Inl (-22))
      else case current_controlling_terminal k of
             None \<Rightarrow> (k, Inl (-25 :: int))
           | Some tty \<Rightarrow>
               if \<not> (\<exists>t \<in> set (tasks (procs k)). sid t = current_sid k \<and> pgid t = g) then (k, Inl (-3))
               else (k\<lparr>foreground := bt_insert tty g (foreground k)\<rparr>, Inr ()))"

definition sleep_on_tty_input where
  "sleep_on_tty_input k =
     (case set_task_state (procs k) (me k) Waiting of
        (s1, False) \<Rightarrow> (k\<lparr>procs := s1\<rparr>, False)
      | (s1, True) \<Rightarrow> (k\<lparr>procs := s1, tty_input_queue := wq_add_task (tty_input_queue k) (me k)\<rparr>, True))"

definition wake_one_tty_waiter where
  "wake_one_tty_waiter k =
     (case wake_one (tty_input_queue k) of
        (q, None) \<Rightarrow> (k\<lparr>tty_input_queue := q\<rparr>, None)
      | (q, Some p) \<Rightarrow> (k\<lparr>tty_input_queue := q, procs := fst (set_task_state (procs k) p Ready)\<rparr>, Some p))"

section \<open>Boot\<close>

definition resolve_boot_home where
  "resolve_boot_home ob v home root_cwd =
     (case lookup_path ob v home of
        Inr inode \<Rightarrow> if i_file_type ob inode = FtDirectory then (inode, home) else (root_cwd, [slash])
      | Inl _ \<Rightarrow> (root_cwd, [slash]))"

text \<open>\<open>stack1\<close>, \<open>stack2\<close> are the addresses of the two kernel stacks, \<open>dummy\<close> and \<open>kio\<close> those of the entry functions.\<close>

definition register_boot_processes where
  "register_boot_processes ob stack1 stack2 dummy kio root_cwd kernel_shell k =
     (let (inode, path) = (if kernel_shell then resolve_boot_home ob (k_vfs k) (cr_home_dir credentials_root) root_cwd else (root_cwd, [slash]))
      in case new_with_credentials ob (k_machine k) (k_vfs k) (files k) stack1 ROOT_PID 0 inode path
                (lit (if kernel_shell then ''shell'' else ''init'')) dummy credentials_root of
           None \<Rightarrow> None
         | Some (m1, v1, fs1, t) \<Rightarrow>
             (let init = set_env (set_env (set_env t (lit ''HOME'') path) (lit ''PATH'') (lit ''/sbin:/bin:/usr/sbin:/usr/bin''))
                           (lit ''TERM'') (lit ''linux'');
                  k1 = k\<lparr>k_machine := m1, k_vfs := v1, files := fs1, procs := add_task (procs k) init\<rparr>;
                  r = (if task_of k1 KERNEL_IO_TASK_PID \<noteq> None then Some k1
                       else case new_with_credentials ob m1 v1 fs1 stack2 KERNEL_IO_TASK_PID 0 root_cwd [slash] (lit ''kernel-io'') kio credentials_root of
                              None \<Rightarrow> None
                            | Some (m2, v2, fs2, t2) \<Rightarrow>
                                Some (k1\<lparr>k_machine := m2, k_vfs := v2, files := fs2, procs := add_task (procs k1) t2\<rparr>))
              in case r of
                   None \<Rightarrow> None
                 | Some k2 \<Rightarrow>
                     Some (k2\<lparr>procs := fst (set_task_state (fst (set_task_state (procs k2) ROOT_PID Running)) KERNEL_IO_TASK_PID Ready)\<rparr>)))"

end
