(* ===== verification/Scheduler_Props.thy ===== *)
theory Scheduler_Props
  imports Scheduler
begin

text \<open>
  Properties of the scheduler. The lemmas see a scheduler through the process ids and the states of its
  tasks; every operation that only changes other parts of a task leaves them alone.
\<close>

section \<open>The view\<close>

definition pids :: "'i procs \<Rightarrow> pid list" where
  "pids s = map t_pid (tasks s)"

definition states :: "'i procs \<Rightarrow> task_state list" where
  "states s = map t_state (tasks s)"

definition core_pids :: "'i procs \<Rightarrow> pid set" where
  "core_pids s = {p. \<exists>c \<in> set (cores s). workload c = RunTask p}"

definition keeps_pid :: "('i task \<Rightarrow> 'i task) \<Rightarrow> bool" where
  "keeps_pid f \<longleftrightarrow> (\<forall>t. t_pid (f t) = t_pid t)"

definition keeps_state :: "('i task \<Rightarrow> 'i task) \<Rightarrow> bool" where
  "keeps_state f \<longleftrightarrow> (\<forall>t. t_state (f t) = t_state t)"

lemma length_view [simp]: "length (pids s) = length (tasks s)" "length (states s) = length (tasks s)"
  by (simp_all add: pids_def states_def)

lemma nth_view: "k < length (tasks s) \<Longrightarrow> t_pid (tasks s ! k) = pids s ! k" "k < length (tasks s) \<Longrightarrow> t_state (tasks s ! k) = states s ! k"
  by (simp_all add: pids_def states_def)

lemma update_index_frame [simp]:
  "current_index (update_index s k f) = current_index s" "cores (update_index s k f) = cores s"
  "current_pid (update_index s k f) = current_pid s" "next_pid (update_index s k f) = next_pid s"
  "length (tasks (update_index s k f)) = length (tasks s)" "now_ns (update_index s k f) = now_ns s"
  by (simp_all add: update_index_def)

lemma update_pid_frame [simp]:
  "current_index (update_pid s p f) = current_index s" "cores (update_pid s p f) = cores s"
  "current_pid (update_pid s p f) = current_pid s" "next_pid (update_pid s p f) = next_pid s"
  "length (tasks (update_pid s p f)) = length (tasks s)" "now_ns (update_pid s p f) = now_ns s"
  by (simp_all add: update_pid_def split: option.splits)

lemma core_pids_cong [simp]:
  "core_pids (update_index s k f) = core_pids s" "core_pids (update_pid s p f) = core_pids s"
  "core_pids (s\<lparr>current_index := ci\<rparr>) = core_pids s" "core_pids (s\<lparr>current_pid := cp\<rparr>) = core_pids s"
  by (simp_all add: core_pids_def)

lemma view_record [simp]:
  "pids (s\<lparr>current_index := ci\<rparr>) = pids s" "states (s\<lparr>current_index := ci\<rparr>) = states s"
  "pids (s\<lparr>current_pid := cp\<rparr>) = pids s" "states (s\<lparr>current_pid := cp\<rparr>) = states s"
  by (simp_all add: pids_def states_def)

lemma map_update_nth: "f (g (xs ! k)) = f (xs ! k) \<Longrightarrow> map f (xs[k := g (xs ! k)]) = map f xs"
  by (cases "k < length xs") (simp_all add: map_update list_update_same_conv list_update_beyond)

lemma pids_update_index [simp]: "keeps_pid f \<Longrightarrow> pids (update_index s k f) = pids s"
  by (simp add: update_index_def pids_def keeps_pid_def map_update_nth)

lemma states_update_index [simp]: "keeps_state f \<Longrightarrow> states (update_index s k f) = states s"
  by (simp add: update_index_def states_def keeps_state_def map_update_nth)

lemma states_update_index_set: "(\<And>t. t_state (f t) = st) \<Longrightarrow> states (update_index s k f) = (states s)[k := st]"
  by (simp add: update_index_def states_def map_update list_update_beyond)

lemma pids_update_pid [simp]: "keeps_pid f \<Longrightarrow> pids (update_pid s p f) = pids s"
  by (simp add: update_pid_def split: option.splits)

lemma states_update_pid [simp]: "keeps_state f \<Longrightarrow> states (update_pid s p f) = states s"
  by (simp add: update_pid_def split: option.splits)

lemma keeps_intros [simp]:
  "keeps_pid (\<lambda>t. t\<lparr>cpu_time := a t\<rparr>)" "keeps_state (\<lambda>t. t\<lparr>cpu_time := a t\<rparr>)" "keeps_pid (\<lambda>t. t\<lparr>t_state := st\<rparr>)"
  "keeps_pid unrun" "keeps_pid normalize_switch_target" "keeps_state normalize_switch_target"
  "keeps_pid (\<lambda>t. t\<lparr>priority := q t\<rparr>)" "keeps_state (\<lambda>t. t\<lparr>priority := q t\<rparr>)"
  by (simp_all add: keeps_pid_def keeps_state_def unrun_def normalize_switch_target_def Let_def split: prod.splits task_mode.splits)

lemma set_core_frame [simp]:
  "tasks (set_core s c w) = tasks s" "current_index (set_core s c w) = current_index s"
  "current_pid (set_core s c w) = current_pid s" "next_pid (set_core s c w) = next_pid s"
  "pids (set_core s c w) = pids s" "states (set_core s c w) = states s"
  by (simp_all add: set_core_def pids_def states_def)

lemma core_pids_set_core: "core_pids (set_core s c w) \<subseteq> core_pids s \<union> (case w of RunTask p \<Rightarrow> {p} | _ \<Rightarrow> {})"
  unfolding core_pids_def set_core_def
  by (auto dest!: set_update_subset_insert [THEN subsetD] split: if_splits core_workload.splits)

lemma clear_core_task_frame [simp]:
  "tasks (clear_core_task s p) = tasks s" "current_index (clear_core_task s p) = current_index s"
  "current_pid (clear_core_task s p) = current_pid s" "next_pid (clear_core_task s p) = next_pid s"
  "pids (clear_core_task s p) = pids s" "states (clear_core_task s p) = states s"
  by (simp_all add: clear_core_task_def pids_def states_def)

lemma core_pids_clear [simp]: "core_pids (clear_core_task s p) = core_pids s - {p}"
  unfolding core_pids_def clear_core_task_def by auto

section \<open>The invariant\<close>

definition sched_ok :: "'i procs \<Rightarrow> bool" where
  "sched_ok s \<longleftrightarrow> distinct (pids s)
     \<and> (\<forall>k. current_index s = Some k \<longrightarrow> k < length (tasks s))
     \<and> (\<forall>n < length (tasks s). states s ! n = Running \<longrightarrow>
          (case current_index s of Some k \<Rightarrow> n = k | None \<Rightarrow> n = 0 \<and> pids s ! n = current_pid s))
     \<and> core_pids s \<subseteq> set (pids s)"

lemma sched_okI:
  assumes "distinct (pids s)" "\<And>k. current_index s = Some k \<Longrightarrow> k < length (tasks s)"
    and "\<And>n k. n < length (tasks s) \<Longrightarrow> states s ! n = Running \<Longrightarrow> current_index s = Some k \<Longrightarrow> n = k"
    and "\<And>n. n < length (tasks s) \<Longrightarrow> states s ! n = Running \<Longrightarrow> current_index s = None \<Longrightarrow> n = 0 \<and> pids s ! n = current_pid s"
    and "core_pids s \<subseteq> set (pids s)"
  shows "sched_ok s"
  using assms unfolding sched_ok_def by (auto split: option.splits)

lemma sched_okD:
  assumes "sched_ok s"
  shows "distinct (pids s)" "current_index s = Some k \<Longrightarrow> k < length (tasks s)"
    and "n < length (tasks s) \<Longrightarrow> states s ! n = Running \<Longrightarrow> current_index s = Some k \<Longrightarrow> n = k"
    and "n < length (tasks s) \<Longrightarrow> states s ! n = Running \<Longrightarrow> current_index s = None \<Longrightarrow> n = 0 \<and> pids s ! n = current_pid s"
    and "core_pids s \<subseteq> set (pids s)"
  using assms unfolding sched_ok_def by (auto split: option.splits)

text \<open>An update of a task that keeps its id and its state, or ends it, keeps the invariant.\<close>

lemma sched_ok_cong:
  assumes "sched_ok s" "pids s' = pids s" "current_index s' = current_index s" "current_pid s' = current_pid s"
    and "core_pids s' \<subseteq> core_pids s" "\<And>n. n < length (tasks s) \<Longrightarrow> states s' ! n = Running \<Longrightarrow> states s ! n = Running"
  shows "sched_ok s'"
proof -
  have len: "length (tasks s') = length (tasks s)" using assms(2) length_view(1) by metis
  show ?thesis
    by (rule sched_okI) (use assms sched_okD [OF assms(1)] len in \<open>auto\<close>)
qed

lemma states_update_pid_weaken:
  assumes "\<And>t. t_state (f t) = Running \<Longrightarrow> t_state t = Running" "n < length (tasks s)" "states (update_pid s p f) ! n = Running"
  shows "states s ! n = Running"
proof (cases "pid_index s p")
  case None
  with assms(3) show ?thesis by (simp add: update_pid_def)
next
  case (Some k)
  show ?thesis
  proof (cases "n = k")
    case True
    then have "t_state (f (tasks s ! n)) = Running" using assms(2,3) Some by (simp add: update_pid_def update_index_def states_def)
    then show ?thesis using assms(1,2) by (simp add: states_def)
  next
    case False
    then show ?thesis using assms(2,3) Some by (simp add: update_pid_def update_index_def states_def split: if_splits)
  qed
qed

lemma sched_ok_update_pid:
  assumes "sched_ok s" "keeps_pid f" "\<And>t. t_state (f t) = Running \<Longrightarrow> t_state t = Running"
  shows "sched_ok (update_pid s p f)"
  by (rule sched_ok_cong [OF assms(1)]) (use assms states_update_pid_weaken [of f] in \<open>auto\<close>)

lemma pid_index_Some:
  assumes "pid_index s p = Some k"
  shows "k < length (tasks s)" "pids s ! k = p"
  using position_SomeD [OF assms [unfolded pid_index_def]] by (auto simp: pids_def)

lemma pid_index_in: "p \<in> set (pids s) \<Longrightarrow> \<exists>k. pid_index s p = Some k"
  unfolding pid_index_def pids_def by (cases "position (\<lambda>t. t_pid t = p) (tasks s)") auto

lemma pid_index_nth:
  assumes "distinct (pids s)" "n < length (tasks s)"
  shows "pid_index s (pids s ! n) = Some n"
proof -
  obtain k where k: "pid_index s (pids s ! n) = Some k" using pid_index_in [of "pids s ! n" s] assms(2) by auto
  then show ?thesis using pid_index_Some [OF k] assms by (simp add: nth_eq_iff_index_eq)
qed

section \<open>Switching keeps the invariant\<close>

lemma account_switch_frame [simp]:
  "pids (account_switch s p) = pids s" "states (account_switch s p) = states s" "current_index (account_switch s p) = current_index s"
  "current_pid (account_switch s p) = current_pid s" "core_pids (account_switch s p) = core_pids s"
  "length (tasks (account_switch s p)) = length (tasks s)" "next_pid (account_switch s p) = next_pid s"
  by (simp_all add: account_switch_def Let_def)

lemma activate_frame [simp]:
  "tasks (activate_address_space s t) = tasks s" "tasks (activate_task_runtime_state s t) = tasks s"
  "pids (activate_address_space s t) = pids s" "pids (activate_task_runtime_state s t) = pids s"
  "states (activate_address_space s t) = states s" "states (activate_task_runtime_state s t) = states s"
  "current_index (activate_address_space s t) = current_index s" "current_index (activate_task_runtime_state s t) = current_index s"
  "current_pid (activate_address_space s t) = current_pid s" "current_pid (activate_task_runtime_state s t) = current_pid s"
  "next_pid (activate_address_space s t) = next_pid s" "next_pid (activate_task_runtime_state s t) = next_pid s"
  "core_pids (activate_address_space s t) = core_pids s" "core_pids (activate_task_runtime_state s t) = core_pids s"
  by (simp_all add: activate_address_space_def activate_task_runtime_state_def pids_def states_def core_pids_def)

lemma make_current_view [simp]:
  assumes "k < length (tasks s)"
  shows "pids (make_current s c k) = pids s" "states (make_current s c k) = (states s)[k := Running]"
    "current_index (make_current s c k) = Some k" "current_pid (make_current s c k) = pids s ! k"
    "next_pid (make_current s c k) = next_pid s" "length (tasks (make_current s c k)) = length (tasks s)"
  using assms by (simp_all add: make_current_def Let_def set_core_task_def states_update_index_set nth_view)

lemma core_pids_make_current:
  assumes "k < length (tasks s)"
  shows "core_pids (make_current s c k) \<subseteq> insert (pids s ! k) (core_pids s)"
proof -
  have "core_pids (make_current s c k) = core_pids (set_core ((account_switch (s\<lparr>current_index := Some k\<rparr>) (t_pid (tasks s ! k)))
      \<lparr>current_pid := t_pid (tasks s ! k)\<rparr>) c (RunTask (t_pid (tasks s ! k))))"
    by (simp add: make_current_def Let_def set_core_task_def)
  then show ?thesis using core_pids_set_core assms by (fastforce simp: nth_view)
qed

lemma make_current_ok:
  assumes "distinct (pids s)" "core_pids s \<subseteq> set (pids s)" "k < length (tasks s)"
    and "\<And>n. n < length (tasks s) \<Longrightarrow> states s ! n = Running \<Longrightarrow> n = k"
  shows "sched_ok (make_current s c k)"
proof (rule sched_okI)
  show "core_pids (make_current s c k) \<subseteq> set (pids (make_current s c k))"
    using core_pids_make_current [OF assms(3), of c] assms by (auto simp: set_conv_nth)
  fix n j
  assume n: "n < length (tasks (make_current s c k))" "states (make_current s c k) ! n = Running"
    and "current_index (make_current s c k) = Some j"
  then have "j = k" using assms(3) by simp
  moreover have "n = k"
  proof (rule ccontr)
    assume "n \<noteq> k"
    then have "states s ! n = Running" using n assms(3) by simp
    moreover have "n < length (tasks s)" using n(1) assms(3) by simp
    ultimately show False using assms(4) \<open>n \<noteq> k\<close> by blast
  qed
  ultimately show "n = j" by simp
qed (use assms(1,3) in simp_all)

lemma states_unrun: "k < length (tasks s) \<Longrightarrow>
    states (update_index s k unrun) = (states s)[k := (if states s ! k = Running then Ready else states s ! k)]"
  by (simp add: update_index_def states_def map_update unrun_def)

text \<open>After the running task has been set back no task runs.\<close>

lemma unrun_none_running:
  assumes "sched_ok s" "current_index s = Some k" "n < length (tasks s)"
  shows "states (update_index s k unrun) ! n \<noteq> Running"
proof -
  have k: "k < length (tasks s)" using sched_okD(2) [OF assms(1,2)] .
  have "states s ! n \<noteq> Running" if "n \<noteq> k" using sched_okD(3) [OF assms(1,3) _ assms(2)] that by blast
  then show ?thesis using k assms(3) by (cases "n = k") (simp_all add: states_unrun)
qed

lemma switch_ok:
  assumes "sched_ok s" "current_index s = Some old" "k < length (tasks s)"
  shows "sched_ok (make_current (update_index s old unrun) c k)"
  using sched_okD [OF assms(1)] unrun_none_running [OF assms(1,2)] assms(3)
  by (intro make_current_ok) auto

lemma next_runnable_Some:
  assumes "next_runnable ts start = Some k"
  shows "k < length ts" "runnable (ts ! k)"
proof -
  have k: "k \<in> set (map (\<lambda>d. (start + d) mod length ts) [0..<length ts])" "runnable (ts ! k)"
    using assms find_Some_iff [of "\<lambda>k. runnable (ts ! k)" _ k] unfolding next_runnable_def by (auto simp: in_set_conv_nth)
  then obtain d where "d < length ts" "k = (start + d) mod length ts" by auto
  then show "k < length ts" by (simp add: mod_less_divisor [OF gr_implies_not0 [THEN neq0_conv [THEN iffD1]]])
  show "runnable (ts ! k)" by (rule k(2))
qed

lemma mod_offset:
  assumes "n < L"
  obtains d where "d < L" "(start + d) mod L = (n :: nat)"
proof (cases "start mod L \<le> n")
  case True
  have "(start + (n - start mod L)) mod L = (start mod L + (n - start mod L)) mod L" by (rule mod_add_left_eq [symmetric])
  also have "\<dots> = n" using True assms by simp
  finally show ?thesis using that [of "n - start mod L"] assms by simp
next
  case False
  have r: "start mod L < L" using assms by simp
  have "(start + (L - start mod L + n)) mod L = (start mod L + (L - start mod L + n)) mod L" by (rule mod_add_left_eq [symmetric])
  also have "\<dots> = (L + n) mod L" using r by simp
  also have "\<dots> = n" using assms by simp
  finally show ?thesis using that [of "L - start mod L + n"] False r by simp
qed

lemma next_runnable_None:
  assumes "next_runnable ts start = None" "n < length ts"
  shows "\<not> runnable (ts ! n)"
proof -
  obtain d where "d < length ts" "(start + d) mod length ts = n" using mod_offset [OF assms(2)] .
  then show ?thesis using assms(1) unfolding next_runnable_def find_None_iff by force
qed

lemma next_runnable_0:
  assumes "next_runnable ts 0 = Some k" "0 < length ts" "runnable (ts ! 0)"
  shows "k = 0"
proof -
  have "[0..<length ts] = 0 # [1..<length ts]" using assms(2) by (simp add: upt_conv_Cons)
  then show ?thesis using assms by (simp add: next_runnable_def)
qed

lemma schedule_on_ok:
  assumes ok: "sched_ok s"
  shows "sched_ok (fst (schedule_on s c))"
proof -
  note d = sched_okD [OF ok]
  consider (empty) "length (tasks s) = 0"
    | (none) start where "length (tasks s) \<noteq> 0" "next_runnable (tasks s) start = None"
        "start = (case current_index s of None \<Rightarrow> 0 | Some k \<Rightarrow> (k + 1) mod length (tasks s))"
    | (some) start k where "length (tasks s) \<noteq> 0" "next_runnable (tasks s) start = Some k"
        "start = (case current_index s of None \<Rightarrow> 0 | Some k \<Rightarrow> (k + 1) mod length (tasks s))"
    by (metis option.exhaust)
  then show ?thesis
  proof cases
    case empty
    then have "fst (schedule_on s c) = set_core_idle (s\<lparr>current_index := None\<rparr>) c" by (simp add: schedule_on_def)
    moreover have "core_pids (set_core (s\<lparr>current_index := None\<rparr>) c Idle) \<subseteq> core_pids s"
      using core_pids_set_core [of "s\<lparr>current_index := None\<rparr>" c Idle] by auto
    ultimately show ?thesis using empty d by (auto simp: set_core_idle_def intro!: sched_okI)
  next
    case none
    let ?s = "(update_pid s (current_pid s) (\<lambda>t. t\<lparr>cpu_time := pause (cpu_time t) (now_ns s)\<rparr>))\<lparr>current_index := None\<rparr>"
    have eq: "fst (schedule_on s c) = set_core_idle ?s c" using none by (simp add: schedule_on_def Let_def)
    have "core_pids (set_core ?s c Idle) \<subseteq> core_pids s" using core_pids_set_core [of ?s c Idle] by auto
    moreover have "states s ! n \<noteq> Running" if "n < length (tasks s)" for n
      using next_runnable_None [OF none(2) that] that by (auto simp: runnable_def nth_view)
    ultimately show ?thesis unfolding eq set_core_idle_def using d by (intro sched_okI) auto
  next
    case some
    note k = next_runnable_Some [OF some(2)]
    show ?thesis
    proof (cases "current_index s")
      case None
      have "n = k" if "n < length (tasks s)" "states s ! n = Running" for n
      proof -
        have "n = 0" using d(4) that None by blast
        then show ?thesis using next_runnable_0 [of "tasks s" k] some that None by (simp add: runnable_def nth_view)
      qed
      then show ?thesis using some None k d by (auto simp: schedule_on_def Let_def intro!: make_current_ok)
    next
      case (Some prev)
      show ?thesis
      proof (cases "prev = k")
        case True
        then have "fst (schedule_on s c) = make_current s c k" using some Some by (simp add: schedule_on_def Let_def)
        then show ?thesis using d k(1) Some True by (auto intro!: make_current_ok)
      next
        case False
        then have "fst (schedule_on s c) = make_current (update_index s prev unrun) c k"
          using some Some d(2) [OF Some] by (simp add: schedule_on_def Let_def)
        then show ?thesis using switch_ok [OF ok Some k(1)] by simp
      qed
    qed
  qed
qed

lemma set_task_state_frame [simp]:
  "pids (fst (set_task_state s p st)) = pids s" "current_pid (fst (set_task_state s p st)) = current_pid s"
  "next_pid (fst (set_task_state s p st)) = next_pid s"
  by (auto simp: set_task_state_def Let_def keeps_pid_def)

lemma set_task_state_ok:
  assumes "sched_ok s" "st \<noteq> Running"
  shows "sched_ok (fst (set_task_state s p st))"
proof (cases "pid_index s p")
  case None
  with assms show ?thesis by (simp add: set_task_state_def)
next
  case (Some k)
  let ?f = "\<lambda>t. (if st = Waiting \<or> st = Zombie then t\<lparr>cpu_time := pause (cpu_time t) (now_ns s)\<rparr> else t)\<lparr>t_state := st\<rparr>"
  let ?s = "update_pid s p ?f"
  have ok: "sched_ok ?s" using assms by (intro sched_ok_update_pid) (auto simp: keeps_pid_def)
  have st: "states ?s = (states s)[k := st]" using Some by (simp add: update_pid_def states_update_index_set)
  have eq: "fst (set_task_state s p st) =
      (if map_option t_pid (current ?s) = Some p \<and> st = Zombie then clear_core_task (?s\<lparr>current_index := None\<rparr>) p else ?s)"
    using Some by (simp add: set_task_state_def Let_def)
  have "sched_ok (clear_core_task (?s\<lparr>current_index := None\<rparr>) p)" if c: "map_option t_pid (current ?s) = Some p"
  proof -
    obtain j where j: "current_index s = Some j" using c by (auto simp: current_def split: option.splits)
    note d = sched_okD [OF ok]
    have jl: "j < length (tasks s)" using d(2) [of j] j by simp
    have "pids ?s ! j = p" using c j jl by (simp add: current_def nth_view)
    then have "pids s ! j = p" by (simp add: keeps_pid_def)
    then have "j = k" using pid_index_nth [OF sched_okD(1) [OF assms(1)] jl] Some by simp
    have nr: "states ?s ! n \<noteq> Running" if n: "n < length (tasks s)" for n
    proof (cases "n = k")
      case True
      then show ?thesis using assms(2) n by (simp add: st)
    next
      case False
      have "states ?s ! n = Running \<Longrightarrow> n = j" using d(3) [of n j] n j by simp
      then show ?thesis using False \<open>j = k\<close> by blast
    qed
    show ?thesis
      using d(1,5) nr by (intro sched_okI) (auto simp: clear_core_task_def [of "?s"])
  qed
  note clear = this
  show ?thesis
  proof (cases "map_option t_pid (current ?s) = Some p \<and> st = Zombie")
    case True
    then show ?thesis unfolding eq if_P [OF True] by (intro clear) (rule conjunct1)
  next
    case False
    then show ?thesis unfolding eq if_not_P [OF False] using ok by blast
  qed
qed

lemma preempt_and_switch_ok:
  assumes "sched_ok s"
  shows "sched_ok (fst (preempt_and_switch s))"
proof -
  define s1 where "s1 = (case map_option t_pid (current s) of
      None \<Rightarrow> s
    | Some p \<Rightarrow> if map_option t_state (task_by_pid s p) = Some Zombie then s else fst (set_task_state s p Ready))"
  have "sched_ok s1" unfolding s1_def using assms set_task_state_ok [of s Ready] by (auto split: option.splits)
  then have "sched_ok (fst (schedule_on s1 0))" by (rule schedule_on_ok)
  moreover have "fst (preempt_and_switch s) = fst (schedule_on s1 0)"
    unfolding preempt_and_switch_def s1_def [symmetric] Let_def by (simp split: prod.splits option.splits)
  ultimately show ?thesis by simp
qed

lemma switch_to_pid_ok:
  assumes ok: "sched_ok s"
  shows "sched_ok (fst (switch_to_pid s p))"
proof -
  define s1 where "s1 = (if current_index s = None then s\<lparr>current_index := pid_index s (current_pid s)\<rparr> else s)"
  note d = sched_okD [OF ok]
  have ok1: "sched_ok s1"
  proof (cases "current_index s")
    case None
    have "n = k" if "n < length (tasks s)" "states s ! n = Running" "pid_index s (current_pid s) = Some k" for n k
      using d(4) [OF that(1,2) None] pid_index_nth [OF d(1) that(1)] that(3) by auto
    moreover have "pid_index s (current_pid s) \<noteq> None" if "n < length (tasks s)" "states s ! n = Running" for n
      using d(4) [OF that None] pid_index_nth [OF d(1) that(1)] by auto
    ultimately show ?thesis unfolding s1_def using None d(1,5) pid_index_Some(1) [of s]
      by (intro sched_okI) (auto split: if_splits)
  qed (simp add: s1_def ok)
  show ?thesis
  proof (cases "\<exists>old k. current_index s1 = Some old \<and> pid_index s1 p = Some k \<and> \<not> (old = k \<or> \<not> runnable (tasks s1 ! k))")
    case False
    then have "fst (switch_to_pid s p) = s1"
      unfolding switch_to_pid_def s1_def [symmetric] Let_def by (auto split: option.splits)
    with ok1 show ?thesis by simp
  next
    case True
    then obtain old k where k: "current_index s1 = Some old" "pid_index s1 p = Some k" "old \<noteq> k" "runnable (tasks s1 ! k)" by blast
    define s2 where "s2 = update_index s1 k normalize_switch_target"
    have ok2: "sched_ok s2" unfolding s2_def by (rule sched_ok_cong [OF ok1]) simp_all
    have "k < length (tasks s2)" "current_index s2 = Some old" using pid_index_Some(1) [OF k(2)] k(1) by (simp_all add: s2_def)
    then have "sched_ok (make_current (update_index s2 old unrun) 0 k)" using switch_ok [OF ok2] by blast
    moreover have "fst (switch_to_pid s p) =
        (if \<not> validate_switch_target (tasks s2 ! k) \<or> length (tasks s2) \<le> old then s2 else make_current (update_index s2 old unrun) 0 k)"
      unfolding switch_to_pid_def s1_def [symmetric] Let_def using k by (simp add: s2_def)
    ultimately show ?thesis using ok2 by simp
  qed
qed

lemma lower_current_priority_ok:
  assumes "sched_ok s"
  shows "sched_ok (fst (lower_current_priority s))"
  using assms by (auto simp: lower_current_priority_def Let_def split: option.splits intro!: sched_ok_cong [OF assms])

lemma best_priority_range:
  "best_priority cur k ts best p = (Some r, q) \<Longrightarrow> best = Some r \<or> (k \<le> r \<and> r < k + length ts \<and> r \<noteq> cur)"
proof (induction cur k ts best p rule: best_priority.induct)
  case (2 cur k t ts best p)
  consider "k = cur \<or> \<not> runnable t" | "\<not> (k = cur \<or> \<not> runnable t)" "p < priority t" | "\<not> (k = cur \<or> \<not> runnable t)" "\<not> p < priority t" by blast
  then show ?case
  proof cases
    case 1
    then show ?thesis using 2(1) [OF 1] 2(4) by auto
  next
    case x: 2
    then show ?thesis using 2(2) [OF x] 2(4) by auto
  next
    case 3
    then show ?thesis using 2(3) [OF 3] 2(4) by auto
  qed
qed simp

lemma preempt_if_higher_priority_ok:
  assumes "sched_ok s"
  shows "sched_ok (fst (preempt_if_higher_priority s))"
proof (cases "\<exists>cur k p. current_index s = Some cur \<and> best_priority cur 0 (tasks s) None (priority (tasks s ! cur)) = (Some k, p)")
  case False
  then have "fst (preempt_if_higher_priority s) = s"
    by (auto simp: preempt_if_higher_priority_def split: option.splits prod.splits)
  with assms show ?thesis by simp
next
  case True
  then obtain cur k p where k: "current_index s = Some cur" "best_priority cur 0 (tasks s) None (priority (tasks s ! cur)) = (Some k, p)" by blast
  then have "k < length (tasks s)" using best_priority_range [OF k(2)] by simp
  then have "sched_ok (make_current (update_index s cur unrun) 0 k)" using switch_ok [OF assms k(1)] by blast
  then show ?thesis using assms k by (simp add: preempt_if_higher_priority_def)
qed

lemma add_task_ok:
  assumes "sched_ok s" "t_pid t \<notin> set (pids s)" "t_state t \<noteq> Running"
  shows "sched_ok (add_task s t)"
proof -
  note d = sched_okD [OF assms(1)]
  have v: "pids (add_task s t) = pids s @ [t_pid t]" "states (add_task s t) = states s @ [t_state t]"
    "current_index (add_task s t) = current_index s" "current_pid (add_task s t) = current_pid s"
    "core_pids (add_task s t) = core_pids s" "length (tasks (add_task s t)) = Suc (length (tasks s))"
    by (simp_all add: add_task_def pids_def states_def core_pids_def)
  have r: "n < length (tasks s) \<and> states s ! n = Running" if "n < Suc (length (tasks s))" "(states s @ [t_state t]) ! n = Running" for n
    using that assms(3) by (auto simp: nth_append less_Suc_eq)
  show ?thesis
  proof (rule sched_okI)
    fix n assume "n < length (tasks (add_task s t))" "states (add_task s t) ! n = Running" "current_index (add_task s t) = None"
    then have "n < length (tasks s)" "states s ! n = Running" "current_index s = None" using r [of n] by (simp_all add: v)
    then show "n = 0 \<and> pids (add_task s t) ! n = current_pid (add_task s t)" using d(4) [of n] by (auto simp: v nth_append)
  next
    fix n k assume "n < length (tasks (add_task s t))" "states (add_task s t) ! n = Running" "current_index (add_task s t) = Some k"
    then have "n < length (tasks s)" "states s ! n = Running" "current_index s = Some k" using r [of n] by (simp_all add: v)
    then show "n = k" by (rule d(3))
  qed (use d(1,2,5) assms(2) in \<open>auto simp: v less_Suc_eq\<close>)
qed

section \<open>Reaping\<close>

definition waited :: "pid \<Rightarrow> pid option \<Rightarrow> 'i task \<Rightarrow> bool" where
  "waited parent expected t \<longleftrightarrow> parent_pid t = parent \<and> (case expected of None \<Rightarrow> True | Some p \<Rightarrow> p = t_pid t)"

lemma reap_position:
  "reap_zombie_child s parent expected = (s', None) \<longleftrightarrow>
     s' = s \<and> position (\<lambda>t. parent_pid t = parent \<and> t_state t = Zombie \<and> (case expected of None \<Rightarrow> True | Some p \<Rightarrow> p = t_pid t)) (tasks s) = None"
    (is "_ \<longleftrightarrow> _ \<and> ?pos = None")
proof (cases ?pos)
  case None
  then show ?thesis unfolding reap_zombie_child_def None option.case by blast
next
  case (Some k)
  then show ?thesis unfolding reap_zombie_child_def Some option.case by (simp add: Let_def)
qed

lemma reap_none:
  "reap_zombie_child s parent expected = (s', None) \<longleftrightarrow> s' = s \<and> \<not> (\<exists>t \<in> set (tasks s). waited parent expected t \<and> t_state t = Zombie)"
  unfolding reap_position position_None waited_def by blast

text \<open>A successful call removes the first child that has ended, at position \<open>k\<close>.\<close>

lemma reap_some:
  assumes "reap_zombie_child s parent expected = (s', Some (p, status, t))"
  obtains k where "k < length (tasks s)" "tasks s ! k = t" "waited parent expected t" "t_state t = Zombie" "p = t_pid t" "status = exit_code t"
    "tasks s' = tasks (update_pid (s\<lparr>tasks := remove_nth k (tasks s)\<rparr>) parent (\<lambda>u. u\<lparr>cpu_time := reap (cpu_time u) (cpu_time t) (now_ns s)\<rparr>))"
    "pids s' = remove_nth k (pids s)" "states s' = remove_nth k (states s)" "current_pid s' = current_pid s" "next_pid s' = next_pid s"
    "core_pids s' = core_pids s - {p}"
    "current_index s' = (case current_index s of None \<Rightarrow> None | Some c \<Rightarrow> if k < c then Some (c - 1) else if k = c then None else Some c)"
proof -
  let ?P = "\<lambda>t. parent_pid t = parent \<and> t_state t = Zombie \<and> (case expected of None \<Rightarrow> True | Some p \<Rightarrow> p = t_pid t)"
  obtain k where k: "position ?P (tasks s) = Some k"
    using assms by (cases "position ?P (tasks s)") (auto simp: reap_zombie_child_def)
  note pk = position_SomeD [OF k]
  define s2 where "s2 = update_pid (s\<lparr>tasks := remove_nth k (tasks s)\<rparr>) parent
    (\<lambda>u. u\<lparr>cpu_time := reap (cpu_time u) (cpu_time (tasks s ! k)) (now_ns s)\<rparr>)"
  have v: "pids s2 = remove_nth k (pids s)" "states s2 = remove_nth k (states s)" "core_pids s2 = core_pids s"
      "current_index s2 = current_index s" "current_pid s2 = current_pid s" "next_pid s2 = next_pid s"
    by (simp_all add: s2_def keeps_pid_def keeps_state_def) (simp_all add: pids_def states_def core_pids_def map_remove_nth)
  have t: "tasks s ! k = t" "p = t_pid t" "status = exit_code t"
    using assms k by (auto simp: reap_zombie_child_def Let_def)
  have s': "s' = (let s3 = clear_core_task s2 p in case current_index s3 of
      None \<Rightarrow> s3 | Some c \<Rightarrow> s3\<lparr>current_index := (if k < c then Some (c - 1) else if k = c then None else Some c)\<rparr>)"
    using assms k t by (auto simp: reap_zombie_child_def Let_def s2_def)
  show ?thesis
  proof (rule that)
    show "k < length (tasks s)" "tasks s ! k = t" "p = t_pid t" "status = exit_code t" using pk t by simp_all
    show "waited parent expected t" "t_state t = Zombie" using pk t by (auto simp: waited_def)
  qed (use v t in \<open>simp_all add: s' Let_def s2_def [symmetric, unfolded t(1)] split: option.splits\<close>)
qed

lemma reap_zombie_child_ok:
  assumes ok: "sched_ok s"
  shows "sched_ok (fst (reap_zombie_child s parent expected))"
proof (cases "snd (reap_zombie_child s parent expected)")
  case None
  then have "fst (reap_zombie_child s parent expected) = s"
    using reap_none [of s parent expected] by (cases "reap_zombie_child s parent expected") auto
  then show ?thesis using ok by simp
next
  case (Some r)
  then obtain p status t s' where r: "reap_zombie_child s parent expected = (s', Some (p, status, t))"
    by (metis prod.exhaust prod.sel)
  note d = sched_okD [OF ok]
  from r obtain k where k: "k < length (tasks s)" "tasks s ! k = t" "t_state t = Zombie" "p = t_pid t"
      "pids s' = remove_nth k (pids s)" "states s' = remove_nth k (states s)" "current_pid s' = current_pid s" "core_pids s' = core_pids s - {p}"
      "current_index s' = (case current_index s of None \<Rightarrow> None | Some c \<Rightarrow> if k < c then Some (c - 1) else if k = c then None else Some c)"
    by (rule reap_some)
  have len: "length (tasks s') = length (tasks s) - 1" using k(1,5) length_view(1) [of s'] by simp
  have zk: "states s ! k = Zombie" "pids s ! k = p" using k(1-4) by (simp_all add: states_def pids_def)
  have old: "\<exists>j < length (tasks s). states s ! j = Running \<and> j \<noteq> k \<and> n = (if k < j then j - 1 else j) \<and> pids s' ! n = pids s ! j"
    if "n < length (tasks s')" "states s' ! n = Running" for n
  proof -
    let ?j = "if n < k then n else Suc n"
    have "states s' ! n = states s ! ?j" "pids s' ! n = pids s ! ?j" using that(1) k(1,5,6) len by (simp_all add: nth_remove_nth)
    then show ?thesis using that len zk by (intro exI [of _ ?j]) auto
  qed
  have "sched_ok s'"
  proof (rule sched_okI)
    show "distinct (pids s')" using d(1) k(5) by (simp add: distinct_remove_nth)
    have "set (pids s') = {x \<in> set (pids s). x \<noteq> pids s ! k}"
      unfolding k(5) using set_remove_nth_distinct [of k "pids s" "\<lambda>x. x"] d(1) k(1) by simp
    then show "core_pids s' \<subseteq> set (pids s')" using d(5) k(8) zk by auto
  next
    fix c assume "current_index s' = Some c"
    then show "c < length (tasks s')" using d(2) k(1) unfolding k(9) len by (auto split: option.splits if_splits)
  next
    fix n c assume n: "n < length (tasks s')" "states s' ! n = Running" and c: "current_index s' = Some c"
    obtain j where j: "j < length (tasks s)" "states s ! j = Running" "j \<noteq> k" "n = (if k < j then j - 1 else j)" using old [OF n] by blast
    obtain c0 where c0: "current_index s = Some c0" using c k(9) by (auto split: option.splits)
    then have "j = c0" using d(3) j by blast
    then show "n = c" using c c0 j k(9) by (auto split: if_splits)
  next
    fix n assume n: "n < length (tasks s')" "states s' ! n = Running" and c: "current_index s' = None"
    obtain j where j: "j < length (tasks s)" "states s ! j = Running" "j \<noteq> k" "n = (if k < j then j - 1 else j)" "pids s' ! n = pids s ! j"
      using old [OF n] by blast
    show "n = 0 \<and> pids s' ! n = current_pid s'"
    proof (cases "current_index s")
      case None
      then show ?thesis using d(4) [OF j(1,2)] j k(7) by auto
    next
      case (Some c0)
      then have "j = c0" using d(3) j by blast
      then show ?thesis using c Some j(3) k(9) by (auto split: if_splits)
    qed
  qed
  then show ?thesis using r by simp
qed

section \<open>Fairness\<close>

definition search_start :: "'i procs \<Rightarrow> nat" where
  "search_start s = (case current_index s of None \<Rightarrow> 0 | Some k \<Rightarrow> (k + 1) mod length (tasks s))"

lemma next_runnable_offset:
  assumes "D < length ts" "(start + D) mod length ts = n" "runnable (ts ! n)"
  obtains e where "e \<le> D" "next_runnable ts start = Some ((start + e) mod length ts)"
proof -
  let ?xs = "map (\<lambda>d. (start + d) mod length ts) [0..<length ts]"
  have "next_runnable ts start \<noteq> None"
    unfolding next_runnable_def find_None_iff using assms by force
  then obtain m where m: "next_runnable ts start = Some m" by blast
  then obtain e where e: "e < length ?xs" "m = ?xs ! e" "\<forall>j<e. \<not> runnable (ts ! (?xs ! j))"
    unfolding next_runnable_def find_Some_iff by blast
  have "e \<le> D"
  proof (rule ccontr)
    assume "\<not> e \<le> D"
    then have "\<not> runnable (ts ! (?xs ! D))" using e(3) by simp
    then show False using assms by simp
  qed
  then show ?thesis using that [of e] m e(1,2) by simp
qed

lemma schedule_on_picks:
  assumes "next_runnable (tasks s) (search_start s) = Some k" "tasks s \<noteq> []"
  shows "snd (schedule_on s c) = Some k" "current_index (fst (schedule_on s c)) = Some k"
    "length (tasks (fst (schedule_on s c))) = length (tasks s)" "states (fst (schedule_on s c)) ! k = Running"
    "current_pid (fst (schedule_on s c)) = t_pid (tasks s ! k)"
proof -
  note k = next_runnable_Some(1) [OF assms(1)]
  define s1 where "s1 = (case current_index s of None \<Rightarrow> s | Some prev \<Rightarrow> if prev < length (tasks s) \<and> prev \<noteq> k then update_index s prev unrun else s)"
  have l: "length (tasks s1) = length (tasks s)" "pids s1 = pids s" unfolding s1_def by (auto split: option.splits)
  have eq: "schedule_on s c = (make_current s1 c k, Some k)"
    using assms unfolding s1_def schedule_on_def search_start_def by (simp add: Let_def)
  show "snd (schedule_on s c) = Some k" "current_index (fst (schedule_on s c)) = Some k"
    "length (tasks (fst (schedule_on s c))) = length (tasks s)" "states (fst (schedule_on s c)) ! k = Running"
    "current_pid (fst (schedule_on s c)) = t_pid (tasks s ! k)"
    using k l by (simp_all add: eq nth_view)
qed

lemma schedule_on_runnable:
  assumes "runnable (tasks s ! n)" "n < length (tasks s)"
  shows "runnable (tasks (fst (schedule_on s c)) ! n) \<and> length (tasks (fst (schedule_on s c))) = length (tasks s)"
proof -
  obtain D where D: "D < length (tasks s)" "(search_start s + D) mod length (tasks s) = n" using mod_offset [OF assms(2)] .
  obtain k where k: "next_runnable (tasks s) (search_start s) = Some k" using next_runnable_offset [OF D assms(1)] by metis
  note kl = next_runnable_Some(1) [OF k]
  define s1 where "s1 = (case current_index s of None \<Rightarrow> s | Some prev \<Rightarrow> if prev < length (tasks s) \<and> prev \<noteq> k then update_index s prev unrun else s)"
  have l: "length (tasks s1) = length (tasks s)" unfolding s1_def by (auto split: option.splits)
  have "states s1 ! n = Ready \<or> states s1 ! n = Running"
    using assms unfolding s1_def runnable_def nth_view(2) [OF assms(2)]
    by (auto simp: states_unrun nth_list_update split: option.splits)
  then have "states (make_current s1 c k) ! n = Ready \<or> states (make_current s1 c k) ! n = Running"
    using kl l assms(2) by (auto simp: nth_list_update)
  moreover have "fst (schedule_on s c) = make_current s1 c k"
    using k assms(2) unfolding s1_def schedule_on_def search_start_def by (auto simp: Let_def)
  ultimately show ?thesis using kl l assms(2) by (simp add: runnable_def nth_view)
qed

text \<open>What may happen between two calls: anything that keeps the number of tasks, the position of the scheduler
  and that task \<open>n\<close> can run. A direct switch (\<open>switch_to_pid\<close>, a preemption by priority) moves the position and is excluded.\<close>

definition turn_kept :: "nat \<Rightarrow> 'i procs \<Rightarrow> 'i procs \<Rightarrow> bool" where
  "turn_kept n s s' \<longleftrightarrow> current_index s' = current_index s \<and> length (tasks s') = length (tasks s) \<and> runnable (tasks s' ! n)"

lemma other_task_keeps_turn:
  assumes "runnable (tasks s ! n)" "n < length (tasks s)" "t_pid (tasks s ! n) \<noteq> p"
  shows "turn_kept n s (update_pid s p f)"
proof (cases "pid_index s p")
  case (Some k)
  then have "k < length (tasks s)" "k \<noteq> n" using assms(3) by (auto simp: pid_index_def position_Some)
  then show ?thesis using assms(1) Some by (simp add: turn_kept_def update_pid_def update_index_def)
qed (use assms(1) in \<open>simp add: turn_kept_def update_pid_def\<close>)

lemma turn_comes:
  assumes "D < length (tasks (s 0))" "(search_start (s 0) + D) mod length (tasks (s 0)) = n" "runnable (tasks (s 0) ! n)"
    and "\<forall>k < D. turn_kept n (fst (schedule_on (s k) c)) (s (Suc k))"
  shows "\<exists>k \<le> D. next_runnable (tasks (s k)) (search_start (s k)) = Some n \<and> tasks (s k) \<noteq> []"
  using assms
proof (induction D arbitrary: s rule: less_induct)
  case (less D)
  let ?L = "length (tasks (s 0))"
  have ne: "tasks (s 0) \<noteq> []" using less.prems(1) by auto
  obtain e where e: "e \<le> D" "next_runnable (tasks (s 0)) (search_start (s 0)) = Some ((search_start (s 0) + e) mod ?L)"
    using next_runnable_offset [OF less.prems(1-3)] .
  show ?case
  proof (cases "e = D")
    case True
    then show ?thesis using e less.prems(2) ne by (intro exI [of _ 0]) simp
  next
    case False
    then have lt: "D - e - 1 < D" "0 < D" using e(1) by simp_all
    note p = schedule_on_picks [OF e(2) ne, of c]
    have t: "turn_kept n (fst (schedule_on (s 0) c)) (s 1)" using less.prems(4) lt(2) by simp
    then have l: "length (tasks (s 1)) = ?L" "runnable (tasks (s 1) ! n)"
      and ci: "current_index (s 1) = Some ((search_start (s 0) + e) mod ?L)"
      using p by (simp_all add: turn_kept_def)
    have "search_start (s 1) = (search_start (s 0) + e + 1) mod ?L"
      using ci l(1) by (simp add: search_start_def mod_Suc_eq)
    then have "(search_start (s 1) + (D - e - 1)) mod ?L = (search_start (s 0) + e + 1 + (D - e - 1)) mod ?L"
      by (simp only: mod_add_left_eq)
    also have "\<dots> = (search_start (s 0) + D) mod ?L" using e(1) False by simp
    finally have "(search_start (s 1) + (D - e - 1)) mod ?L = (search_start (s 0) + D) mod ?L" .
    then have "\<exists>k \<le> D - e - 1. next_runnable (tasks (s (Suc k))) (search_start (s (Suc k))) = Some n \<and> tasks (s (Suc k)) \<noteq> []"
      using less.IH [of "D - e - 1" "\<lambda>k. s (Suc k)"] less.prems lt l by simp
    then obtain k where "k \<le> D - e - 1" "next_runnable (tasks (s (Suc k))) (search_start (s (Suc k))) = Some n" "tasks (s (Suc k)) \<noteq> []" by blast
    then show ?thesis using lt by (intro exI [of _ "Suc k"]) simp
  qed
qed

text \<open>C9: The scheduler is fair while only its own calls move its position. Let a task be able to run and stay so, and let
  no task be added or removed and no direct switch (\<open>switch_to_pid\<close>, a preemption by priority) move the
  position of the scheduler between the calls; apart from that anything may happen to the other tasks (\<open>turn_kept\<close>). Then the task is chosen, set to running and made the
  current process within as many calls as there are tasks. Direct switches are not covered: they
  restart the round at the task they switch to.\<close>

theorem round_robin_fair:
  assumes "n < length (tasks (s 0))" "runnable (tasks (s 0) ! n)"
    and "\<forall>k < length (tasks (s 0)). turn_kept n (fst (schedule_on (s k) c)) (s (Suc k))"
  shows "\<exists>k < length (tasks (s 0)). snd (schedule_on (s k) c) = Some n
     \<and> t_state (tasks (fst (schedule_on (s k) c)) ! n) = Running
     \<and> current_pid (fst (schedule_on (s k) c)) = t_pid (tasks (s k) ! n)"
proof -
  obtain D where D: "D < length (tasks (s 0))" "(search_start (s 0) + D) mod length (tasks (s 0)) = n"
    using mod_offset [OF assms(1)] .
  obtain k where k: "k \<le> D" "next_runnable (tasks (s k)) (search_start (s k)) = Some n" "tasks (s k) \<noteq> []"
    using turn_comes [of D s n c, OF D assms(2)] assms(3) D(1) by auto
  note p = schedule_on_picks [OF k(2,3), of c]
  have "n < length (tasks (s k))" using next_runnable_Some(1) [OF k(2)] .
  then show ?thesis using p k(1) D(1) by (intro exI [of _ k]) (simp add: nth_view)
qed

text \<open>Two tasks, of which the first runs.\<close>

definition sample_procs :: "task_state \<Rightarrow> task_state \<Rightarrow> nat procs" where
  "sample_procs st1 st2 = \<lparr>tasks = [sample_task 1 st1, sample_task 3 st2], current_index = Some 0, cores = scheduler_new 1, current_pid = 1,
     next_pid = 4, now_ns = 0, cpu_root = 0, tss_rsp0 = 0, syscall_stack_top = 0, user_bases = (0, 0)\<rparr>"

theorem round_robin_fair_witness:
  "\<exists>k < 2. snd (schedule_on (((\<lambda>s. fst (schedule_on s 0)) ^^ k) (sample_procs Running Ready)) 0) = Some 1"
proof -
  let ?s = "\<lambda>k. ((\<lambda>s. fst (schedule_on s 0)) ^^ k) (sample_procs Running Ready)"
  have l: "length (tasks (?s 0)) = 2" "runnable (tasks (?s 0) ! 1)"
    by (simp_all add: sample_procs_def sample_task_def runnable_def)
  have r: "runnable (tasks (?s k) ! 1) \<and> length (tasks (?s k)) = 2" for k
  proof (induction k)
    case (Suc k)
    then show ?case using schedule_on_runnable [of "?s k" 1 0] by simp
  qed (use l in simp)
  have "turn_kept 1 (fst (schedule_on (?s k) 0)) (?s (Suc k))" for k
    using r [of "Suc k"] by (simp add: turn_kept_def)
  then show ?thesis using round_robin_fair [of 1 ?s 0] l by auto
qed

end
