(* ===== verification/Vfs_Props.thy ===== *)
theory Vfs_Props
  imports Vfs
begin

text \<open>
  What the virtual file system promises: up to ten symbolic links are resolved, a path belongs to the
  longest mount above it, and a mount can be removed exactly when no file that was opened
  through it is still open.
\<close>

section \<open>Mounts\<close>

lemma abs_path_inj: "\<forall>c \<in> set cs. component c \<Longrightarrow> \<forall>c \<in> set ds. component c \<Longrightarrow> abs_path cs = abs_path ds \<longleftrightarrow> cs = ds"
  by (metis split_segments_abs)

lemma plain_component: "list_all plain cs \<Longrightarrow> \<forall>c \<in> set cs. component c"
  by (auto simp: list_all_iff plain_def)

lemma split_on_sep: "split_on c (a @ c # b) = split_on c a @ split_on c b"
  by (induction c a rule: split_on.induct) (auto split: list.splits)

lemma split_segments_sep: "split_segments (a @ slash # b) = split_segments a @ split_segments b"
  by (simp add: split_segments_def split_on_sep)

lemma abs_path_append: "ms \<noteq> [] \<Longrightarrow> ds \<noteq> [] \<Longrightarrow> abs_path (ms @ ds) = abs_path ms @ slash # join_with slash ds"
proof (induction ds rule: rev_induct)
  case (snoc d ds)
  then show ?case
    by (cases "ds = []") (simp_all add: abs_path_def join_with_snoc flip: append_assoc)
qed simp

lemma split_segments_join: "\<forall>s \<in> set cs. component s \<Longrightarrow> split_segments (join_with slash cs) = cs"
  using split_segments_abs [of cs] by (simp add: abs_path_def split_segments_slash)

lemma covers_prefix:
  assumes "list_all plain cs" "list_all plain ms" "ms \<noteq> []"
  shows "covers (abs_path cs) (abs_path ms) \<longleftrightarrow> prefix ms cs"
proof
  assume "covers (abs_path cs) (abs_path ms)"
  then consider "abs_path cs = abs_path ms" | r where "abs_path cs = abs_path ms @ slash # r"
  proof (cases "abs_path cs = abs_path ms")
    case False
    with \<open>covers _ _\<close> have s: "take (length (abs_path ms)) (abs_path cs) = abs_path ms" "take 1 (drop (length (abs_path ms)) (abs_path cs)) = [slash]"
      by (auto simp: covers_def starts_with_def)
    then obtain r where "drop (length (abs_path ms)) (abs_path cs) = slash # r"
      by (cases "drop (length (abs_path ms)) (abs_path cs)") auto
    with s(1) that(2) show ?thesis by (metis append_take_drop_id)
  qed
  then show "prefix ms cs"
  proof cases
    case 1
    then show ?thesis using abs_path_inj plain_component assms(1,2) by (metis prefix_order.refl)
  next
    case 2
    then have "cs = ms @ split_segments r"
      using split_segments_abs plain_component assms(1,2) by (metis split_segments_sep)
    then show ?thesis by simp
  qed
next
  assume "prefix ms cs"
  then obtain ds where ds: "cs = ms @ ds" by (auto simp: prefix_def)
  show "covers (abs_path cs) (abs_path ms)"
  proof (cases "ds = []")
    case False
    then show ?thesis using abs_path_append [OF assms(3)] by (simp add: ds covers_def starts_with_def)
  qed (simp add: ds covers_def)
qed

lemma longer_fold:
  "\<exists>b. foldl longer (Some a) xs = Some b \<and> b \<in> insert a (set xs) \<and> (\<forall>x \<in> insert a (set xs). str_len (fst x) \<le> str_len (fst b))"
proof (induction xs arbitrary: a)
  case (Cons x xs)
  define c where "c = (if str_len (fst a) \<le> str_len (fst x) then x else a)"
  have "longer (Some a) x = Some c" by (simp add: longer_def c_def)
  moreover from Cons.IH [of c] obtain b where b: "foldl longer (Some c) xs = Some b" "b \<in> insert c (set xs)"
    "\<And>y. y \<in> insert c (set xs) \<Longrightarrow> str_len (fst y) \<le> str_len (fst b)" by blast
  moreover have "str_len (fst a) \<le> str_len (fst c)" "str_len (fst x) \<le> str_len (fst c)" "c \<in> {a, x}" by (auto simp: c_def)
  moreover have "str_len (fst y) \<le> str_len (fst b)" if "y \<in> insert a (set (x # xs))" for y
    using that b(3) [of c] b(3) [of y] calculation(5,6) by auto
  ultimately show ?case by (intro exI [of _ b]) auto
qed simp

lemma longest:
  "foldl longer None xs = None \<longleftrightarrow> xs = []"
  "foldl longer None xs = Some b \<Longrightarrow> b \<in> set xs \<and> (\<forall>a \<in> set xs. str_len (fst a) \<le> str_len (fst b))"
proof -
  have first: "longer None x = Some x" for x :: "rstr \<times> 'b" by (simp add: longer_def)
  show "foldl longer None xs = None \<longleftrightarrow> xs = []"
    using longer_fold [of "hd xs" "tl xs"] by (cases xs) (auto simp: first)
  show "foldl longer None xs = Some b \<Longrightarrow> b \<in> set xs \<and> (\<forall>a \<in> set xs. str_len (fst a) \<le> str_len (fst b))"
    using longer_fold [of "hd xs" "tl xs"] by (cases xs) (auto simp: first)
qed

definition mounts_ok where
  "mounts_ok v \<longleftrightarrow> distinct (map fst (mounts v)) \<and> (\<forall>m \<in> set (mounts v). \<exists>ms. ms \<noteq> [] \<and> list_all plain ms \<and> fst m = abs_path ms)"

lemma normalize_plain: "normalize_absolute_path path = Inr p \<Longrightarrow> \<exists>cs. p = abs_path cs \<and> list_all plain cs"
  using normalize_components [of path] components_plain [of path] by (auto simp: list_all_iff split: if_splits)

lemma mount_ok: "mounts_ok v \<Longrightarrow> vfs_mount ob v path fs = Inr v' \<Longrightarrow> mounts_ok v'"
proof -
  assume ok: "mounts_ok v" and run: "vfs_mount ob v path fs = Inr v'"
  then obtain p where p: "normalize_absolute_path path = Inr p" "manager_mount ob v p fs = Inr v'"
    by (auto simp: vfs_mount_def split: sum.splits)
  from normalize_plain [OF p(1)] obtain cs where cs: "p = abs_path cs" "list_all plain cs" by blast
  from p(2) have "p \<noteq> [slash]" "p \<notin> fst ` set (mounts v)" "v' = v\<lparr>mounts := mounts v @ [(p, fs)]\<rparr>"
    by (auto simp: manager_mount_def split: if_splits sum.splits)
  moreover from this(1) have "cs \<noteq> []" using cs by (auto simp: abs_path_def)
  ultimately show ?thesis using ok cs by (auto simp: mounts_ok_def)
qed

lemma unmount_ok: "mounts_ok v \<Longrightarrow> vfs_unmount v path = Inr v' \<Longrightarrow> mounts_ok v'"
proof -
  assume ok: "mounts_ok v" and "vfs_unmount v path = Inr v'"
  then obtain i where m: "mounts v' = remove_nth i (mounts v)"
    by (auto simp: vfs_unmount_def manager_unmount_def split: sum.splits if_splits option.splits)
  then have "set (mounts v') \<subseteq> set (mounts v)" using set_remove_nth_subset by metis
  with ok m show ?thesis unfolding mounts_ok_def by (auto simp: map_remove_nth distinct_remove_nth)
qed

lemma prefix_len:
  assumes p: "prefix ms cs" "prefix ns cs" "str_len (abs_path ms) \<le> str_len (abs_path ns)" and pl: "list_all plain cs"
  shows "length ms \<le> length ns"
proof (rule ccontr)
  assume "\<not> length ms \<le> length ns"
  then obtain ds where ds: "ms = ns @ ds" "ds \<noteq> []"
    using p(1,2) by (metis append_Nil2 le_refl nat_le_linear prefixE prefix_length_prefix)
  have "list_all plain ms" using p(1) pl by (auto simp: prefix_def)
  from abs_path_len [OF plain_component [OF this]] have "str_len (abs_path ms) > 1" using ds by simp
  with p(3) have "ns \<noteq> []" by (auto simp: abs_path_def utf8_width_def)
  from abs_path_append [OF this ds(2)] p(3) show False by (simp add: ds utf8_width_def)
qed

lemma resolve_longest:
  assumes ok: "mounts_ok v" and pl: "list_all plain cs"
  shows "(\<exists>ms fs rest. resolve_path ob v (abs_path cs) = Inr (f_root ob fs, abs_path ms, rest) \<and> (abs_path ms, fs) \<in> set (mounts v)
        \<and> prefix ms cs \<and> split_segments rest = drop (length ms) cs
        \<and> (\<forall>ns gs. (abs_path ns, gs) \<in> set (mounts v) \<longrightarrow> list_all plain ns \<longrightarrow> prefix ns cs \<longrightarrow> length ns \<le> length ms))
    \<or> (\<exists>rest. resolve_path ob v (abs_path cs) = (case root_inode ob v of Inl e \<Rightarrow> Inl e | Inr i \<Rightarrow> Inr (i, [slash], rest)) \<and> split_segments rest = cs
        \<and> (\<forall>ns gs. (abs_path ns, gs) \<in> set (mounts v) \<longrightarrow> list_all plain ns \<longrightarrow> \<not> prefix ns cs))"
proof -
  let ?sel = "filter (\<lambda>m. covers (abs_path cs) (fst m)) (mounts v)"
  have cov: "(abs_path ns, gs) \<in> set ?sel \<longleftrightarrow> (abs_path ns, gs) \<in> set (mounts v) \<and> prefix ns cs" if "list_all plain ns" for ns gs
  proof (cases "(abs_path ns, gs) \<in> set (mounts v)")
    case True
    with ok obtain ms where "ms \<noteq> []" "list_all plain ms" "abs_path ns = abs_path ms" by (force simp: mounts_ok_def)
    then have "ns \<noteq> []" using abs_path_inj [OF plain_component plain_component] that by metis
    from covers_prefix [OF pl that this] True show ?thesis by simp
  qed simp
  have root: "abs_path cs = [slash] \<longleftrightarrow> cs = []" using abs_path_len [OF plain_component [OF pl]] by (auto simp: abs_path_def utf8_width_def)
  show ?thesis
  proof (cases "foldl longer None ?sel")
    case None
    then have none: "\<not> prefix ns cs" if "(abs_path ns, gs) \<in> set (mounts v)" "list_all plain ns" for ns gs
      using cov [OF that(2), of gs] that(1) longest(1) [of ?sel] by auto
    let ?rest = "if cs = [] then [] else drop 1 (abs_path cs)"
    have "resolve_path ob v (abs_path cs) = (case root_inode ob v of Inl e \<Rightarrow> Inl e | Inr i \<Rightarrow> Inr (i, [slash], ?rest))"
      using None root by (auto simp: resolve_path_def split: sum.split)
    moreover have "split_segments ?rest = cs"
      using split_segments_join [OF plain_component [OF pl]] by (auto simp: abs_path_def split_segments_def)
    ultimately show ?thesis using none by blast
  next
    case (Some m)
    from longest(2) [OF Some] have m: "m \<in> set ?sel" "\<And>a. a \<in> set ?sel \<Longrightarrow> str_len (fst a) \<le> str_len (fst m)" by blast+
    with ok obtain ms where ms: "ms \<noteq> []" "list_all plain ms" "fst m = abs_path ms" by (auto simp: mounts_ok_def)
    then have m': "m = (abs_path ms, snd m)" by (metis prod.collapse)
    with m(1) cov [OF ms(2), of "snd m"] have pre: "prefix ms cs" "(abs_path ms, snd m) \<in> set (mounts v)" by auto
    then obtain ds where ds: "cs = ms @ ds" by (auto simp: prefix_def)
    have cds: "\<forall>c \<in> set ds. component c" using plain_component [OF pl] ds by simp
    let ?rest = "if abs_path cs = abs_path ms then [] else drop (length (abs_path ms) + 1) (abs_path cs)"
    have sel: "foldl longer None ?sel = Some (abs_path ms, snd m)" by (subst m' [symmetric]) (rule Some)
    have "abs_path cs \<noteq> [slash]" using root ms(1) ds by simp
    then have "resolve_path ob v (abs_path cs) = Inr (f_root ob (snd m), abs_path ms, ?rest)"
      unfolding resolve_path_def sel option.case prod.case by simp
    moreover have "split_segments ?rest = ds"
    proof (cases "ds = []")
      case False
      have "abs_path cs \<noteq> abs_path ms" using abs_path_inj [OF plain_component [OF pl] plain_component [OF ms(2)]] False by (simp add: ds)
      then show ?thesis using split_segments_join [OF cds] abs_path_append [OF ms(1) False] by (simp add: ds)
    qed (simp add: ds split_segments_def)
    moreover have "length ns \<le> length ms" if "(abs_path ns, gs) \<in> set (mounts v)" "list_all plain ns" "prefix ns cs" for ns gs
      using m(2) [of "(abs_path ns, gs)"] cov [OF that(2), of gs] that prefix_len [OF that(3) pre(1) _ pl] ms(3) by simp
    ultimately show ?thesis using pre ds by (metis append_eq_conv_conj)
  qed
qed

section \<open>Symbolic links\<close>

definition no_link where
  "no_link ob v path \<longleftrightarrow> (\<exists>inode. lookup_path_without_symlink_resolution ob v path = Inr inode \<and> i_file_type ob inode \<noteq> FtSymlink)"

definition link_free where
  "link_free ob v cs \<longleftrightarrow> (\<forall>i < length cs. no_link ob v (abs_path (take (i + 1) cs)))"

definition first_link where
  "first_link ob v cs i inode \<longleftrightarrow> i < length cs \<and> (\<forall>j < i. no_link ob v (abs_path (take (j + 1) cs)))
     \<and> lookup_path_without_symlink_resolution ob v (abs_path (take (i + 1) cs)) = Inr inode \<and> i_file_type ob inode = FtSymlink"

text \<open>One step of the resolution: the first component that is a link is replaced by the target of the link.\<close>

inductive link_step for ob v where
  "first_link ob v cs i inode \<Longrightarrow> read_symlink_target ob v inode = Inr target \<Longrightarrow>
     normalize_absolute_path (expand_symlink cs i target) = Inr (abs_path ds) \<Longrightarrow> list_all plain ds \<Longrightarrow> link_step ob v cs ds"

lemma find_symlink_none:
  "find_symlink ob v cs ns = Inr None \<longleftrightarrow> (\<forall>i \<in> set ns. no_link ob v (abs_path (take (i + 1) cs)))"
  by (induction ns) (auto simp: no_link_def join_absolute split: sum.splits)

lemma find_symlink_some:
  "find_symlink ob v cs ns = Inr (Some (i, inode)) \<longleftrightarrow>
     (\<exists>us vs. ns = us @ i # vs \<and> (\<forall>j \<in> set us. no_link ob v (abs_path (take (j + 1) cs)))
       \<and> lookup_path_without_symlink_resolution ob v (abs_path (take (i + 1) cs)) = Inr inode \<and> i_file_type ob inode = FtSymlink)"
    (is "_ \<longleftrightarrow> ?R ns")
proof (induction ns)
  case (Cons a ns)
  have r: "?R (a # ns) \<longleftrightarrow> (a = i \<and> lookup_path_without_symlink_resolution ob v (abs_path (take (i + 1) cs)) = Inr inode \<and> i_file_type ob inode = FtSymlink)
      \<or> no_link ob v (abs_path (take (a + 1) cs)) \<and> ?R ns" (is "_ \<longleftrightarrow> ?A \<or> ?B")
  proof
    assume "?R (a # ns)"
    then show "?A \<or> ?B" by (auto simp: Cons_eq_append_conv)
  next
    assume "?A \<or> ?B"
    then show "?R (a # ns)"
    proof
      assume ?A
      then show ?thesis by (intro exI [of _ "[]"] exI [of _ ns]) simp
    next
      assume ?B
      then obtain us vs where "ns = us @ i # vs" "\<forall>j \<in> set (a # us). no_link ob v (abs_path (take (j + 1) cs))"
        "lookup_path_without_symlink_resolution ob v (abs_path (take (i + 1) cs)) = Inr inode" "i_file_type ob inode = FtSymlink" by auto
      then show ?thesis by (intro exI [of _ "a # us"] exI [of _ vs]) simp
    qed
  qed
  show ?case unfolding r Cons.IH [symmetric] by (auto simp: no_link_def join_absolute split: sum.splits)
qed simp

lemma upt_split: "[0..<n] = us @ i # vs \<longleftrightarrow> i < n \<and> us = [0..<i] \<and> vs = [Suc i..<n]"
proof
  assume e: "[0..<n] = us @ i # vs"
  have l: "length us < n" using arg_cong [OF e, of length] by simp
  have "i = length us" using arg_cong [OF e, of "\<lambda>xs. xs ! length us"] l by simp
  moreover have "us = take (length us) [0..<n]" "vs = drop (Suc (length us)) [0..<n]" by (simp_all add: e)
  ultimately show "i < n \<and> us = [0..<i] \<and> vs = [Suc i..<n]" using l by (simp add: take_upt drop_upt)
next
  assume "i < n \<and> us = [0..<i] \<and> vs = [Suc i..<n]"
  then show "[0..<n] = us @ i # vs" using upt_add_eq_append [of 0 i "n - i"] by (simp add: upt_conv_Cons)
qed

lemma find_symlink_free: "find_symlink ob v cs [0..<length cs] = Inr None \<longleftrightarrow> link_free ob v cs"
  by (auto simp: find_symlink_none link_free_def)

lemma find_symlink_first: "find_symlink ob v cs [0..<length cs] = Inr (Some (i, inode)) \<longleftrightarrow> first_link ob v cs i inode"
  by (auto simp: find_symlink_some upt_split first_link_def)

lemma follow_symlinks_step:
  assumes "list_all plain cs" "link_step ob v cs ds"
  shows "follow_symlinks ob v (Suc n) (abs_path cs) = follow_symlinks ob v n (abs_path ds)" "list_all plain ds"
proof -
  note seg = split_segments_abs [OF plain_component [OF assms(1)]]
  from assms(2) obtain i inode target where l: "first_link ob v cs i inode" "read_symlink_target ob v inode = Inr target"
    "normalize_absolute_path (expand_symlink cs i target) = Inr (abs_path ds)" "list_all plain ds" by (auto elim: link_step.cases)
  then show "list_all plain ds" by simp
  have "find_symlink ob v cs [0..<length cs] = Inr (Some (i, inode))" using l(1) by (simp add: find_symlink_first)
  then show "follow_symlinks ob v (Suc n) (abs_path cs) = follow_symlinks ob v n (abs_path ds)"
    unfolding follow_symlinks.simps [of ob v "Suc n"] seg Let_def by (simp add: l(2,3))
qed

lemma follow_symlinks_steps:
  assumes "list_all plain cs" "(link_step ob v ^^ m) cs ds"
  shows "follow_symlinks ob v (m + n) (abs_path cs) = follow_symlinks ob v n (abs_path ds) \<and> list_all plain ds"
  using assms
proof (induction m arbitrary: cs)
  case (Suc m)
  from Suc.prems(2) obtain es where e: "link_step ob v cs es" "(link_step ob v ^^ m) es ds" by (metis relpowp_Suc_D2)
  note s = follow_symlinks_step [OF Suc.prems(1) e(1)]
  from Suc.IH [OF s(2) e(2)] s(1) show ?case by simp
qed simp

lemma follow_symlinks_iff:
  assumes "list_all plain cs"
  shows "follow_symlinks ob v n (abs_path cs) = Inr p \<longleftrightarrow>
    (\<exists>m \<le> n. \<exists>ds. (link_step ob v ^^ m) cs ds \<and> list_all plain ds \<and> link_free ob v ds \<and> p = abs_path ds)"
proof
  assume "follow_symlinks ob v n (abs_path cs) = Inr p"
  with assms show "\<exists>m \<le> n. \<exists>ds. (link_step ob v ^^ m) cs ds \<and> list_all plain ds \<and> link_free ob v ds \<and> p = abs_path ds"
  proof (induction n arbitrary: cs)
    case 0
    note seg = split_segments_abs [OF plain_component [OF 0(1)]]
    from 0(2) have "find_symlink ob v cs [0..<length cs] = Inr None" "p = abs_path cs"
      unfolding follow_symlinks.simps [of ob v 0] seg Let_def by (auto split: sum.splits option.splits)
    with 0(1) show ?case by (simp add: find_symlink_free)
  next
    case (Suc n)
    note seg = split_segments_abs [OF plain_component [OF Suc.prems(1)]]
    consider "find_symlink ob v cs [0..<length cs] = Inr None" "p = abs_path cs"
      | i inode target q where "find_symlink ob v cs [0..<length cs] = Inr (Some (i, inode))" "read_symlink_target ob v inode = Inr target"
          "normalize_absolute_path (expand_symlink cs i target) = Inr q" "follow_symlinks ob v n q = Inr p"
      using Suc.prems(2) unfolding follow_symlinks.simps [of ob v "Suc n"] seg Let_def by (auto split: sum.splits option.splits prod.splits)
    then show ?case
    proof cases
      case 1
      with Suc.prems(1) show ?thesis by (intro exI [of _ 0]) (simp add: find_symlink_free)
    next
      case 2
      from normalize_plain [OF 2(3)] obtain es where es: "q = abs_path es" "list_all plain es" by blast
      with 2 have st: "link_step ob v cs es" by (auto simp: find_symlink_first intro: link_step.intros)
      from Suc.IH [OF es(2)] 2(4) es(1) obtain m ds where "m \<le> n" "(link_step ob v ^^ m) es ds" "list_all plain ds" "link_free ob v ds" "p = abs_path ds" by blast
      then show ?thesis using relpowp_Suc_I2 [of "link_step ob v" cs es m ds, OF st] by (intro exI [of _ "Suc m"]) (auto simp del: relpowp.simps)
    qed
  qed
next
  assume "\<exists>m \<le> n. \<exists>ds. (link_step ob v ^^ m) cs ds \<and> list_all plain ds \<and> link_free ob v ds \<and> p = abs_path ds"
  then obtain m ds where m: "m \<le> n" "(link_step ob v ^^ m) cs ds" "list_all plain ds" "link_free ob v ds" "p = abs_path ds" by blast
  note seg = split_segments_abs [OF plain_component [OF m(3)]]
  have "find_symlink ob v ds [0..<length ds] = Inr None" using m(4) find_symlink_free by blast
  then have "follow_symlinks ob v (n - m) (abs_path ds) = Inr (abs_path ds)"
    unfolding follow_symlinks.simps [of ob v "n - m"] seg Let_def by simp
  then show "follow_symlinks ob v n (abs_path cs) = Inr p" using follow_symlinks_steps [OF assms m(2), of "n - m"] m(1,5) by simp
qed

lemma follow_symlinks_limit:
  assumes "list_all plain cs" "(link_step ob v ^^ n) cs ds" "first_link ob v ds i inode"
  shows "follow_symlinks ob v n (abs_path cs) = Inl NotSupported"
proof -
  have f: "follow_symlinks ob v n (abs_path cs) = follow_symlinks ob v 0 (abs_path ds)" "list_all plain ds"
    using follow_symlinks_steps [OF assms(1,2), of 0] by simp_all
  note seg = split_segments_abs [OF plain_component [OF f(2)]]
  have "find_symlink ob v ds [0..<length ds] = Inr (Some (i, inode))" using assms(3) by (simp add: find_symlink_first)
  then show ?thesis unfolding f(1) follow_symlinks.simps [of ob v 0] seg Let_def by simp
qed

section \<open>Open files\<close>

definition open_count_of where
  "open_count_of v mp ino = (case bt_get mp (open_inodes v) of None \<Rightarrow> 0 | Some m \<Rightarrow> (case bt_get ino m of None \<Rightarrow> 0 | Some c \<Rightarrow> c))"

definition positive where
  "positive v \<longleftrightarrow> (\<forall>mp m ino. bt_get mp (open_inodes v) = Some m \<longrightarrow> bt_get ino m \<noteq> Some 0)"

definition opened_at where
  "opened_at ob mp ino f \<longleftrightarrow> tracked_open f \<and> mount_path f = Some mp \<and> i_ino ob (of_inode f) = ino"

definition opens_ok where
  "opens_ok ob v files \<longleftrightarrow> positive v \<and> (\<forall>mp ino. open_count_of v mp ino = length (filter (opened_at ob mp ino) files))"

lemma opens_cong: "open_inodes v' = open_inodes v \<Longrightarrow> opens_ok ob v' files \<longleftrightarrow> opens_ok ob v files"
  by (simp add: opens_ok_def positive_def open_count_of_def)

lemma track_open_count:
  "open_count_of v mp ino < usize_max \<Longrightarrow> open_count_of (track_open_inode v mp ino) mp' ino'
     = open_count_of v mp' ino' + (if mp' = mp \<and> ino' = ino then 1 else 0)"
  by (auto simp: open_count_of_def track_open_inode_def Let_def saturating_inc_def split: option.splits)

lemma track_open_positive: "positive v \<Longrightarrow> positive (track_open_inode v mp ino)"
  by (auto simp: positive_def track_open_inode_def Let_def saturating_inc_def usize_max_def split: option.splits if_splits)

lemma track_close_count:
  "positive v \<Longrightarrow> open_count_of (track_close_inode v mp ino) mp' ino' = open_count_of v mp' ino' - (if mp' = mp \<and> ino' = ino then 1 else 0)"
  by (auto simp: open_count_of_def track_close_inode_def positive_def split: option.splits)

lemma track_close_positive: "positive v \<Longrightarrow> positive (track_close_inode v mp ino)"
  by (auto simp: positive_def track_close_inode_def split: option.splits if_splits)

lemma open_device_inodes:
  "open_device ob v f = (v', r) \<Longrightarrow> open_inodes v' = open_inodes v \<and> (\<forall>f'. r = Inr f' \<longrightarrow> opened_at ob mp ino f' = opened_at ob mp ino f)"
  by (auto simp: open_device_def Let_def opened_at_def split: option.splits sum.splits prod.splits)

lemma count_ref_inodes:
  "count_ref v f = (v', f') \<Longrightarrow> open_inodes v' = open_inodes v \<and> opened_at ob mp ino f' = opened_at ob mp ino f"
  by (auto simp: count_ref_def Let_def opened_at_def)

lemma release_refcount_inodes:
  "release_refcount v f = (v', f') \<Longrightarrow> open_inodes v' = open_inodes v \<and> opened_at ob mp ino f' = opened_at ob mp ino f"
  by (auto simp: release_refcount_def opened_at_def split: if_splits option.splits)

text \<open>Releasing the tracking of a file takes it out of the count.\<close>

lemma release_tracking_count:
  assumes "positive v" "release_tracking ob v f = (v', f')"
  shows "positive v' \<and> open_count_of v' mp ino = open_count_of v mp ino - (if opened_at ob mp ino f then 1 else 0) \<and> \<not> opened_at ob mp ino f'"
  using assms track_close_count [OF assms(1)] track_close_positive [OF assms(1)]
  by (auto simp: release_tracking_def opened_at_def split: if_splits option.splits)

lemma file_drop_count:
  assumes "positive v" "file_drop ob v f = (v', f')"
  shows "positive v' \<and> open_count_of v' mp ino = open_count_of v mp ino - (if opened_at ob mp ino f then 1 else 0)"
proof -
  obtain v1 f1 where 1: "release_tracking ob v f = (v1, f1)" by fastforce
  with assms(2) have 2: "release_refcount v1 f1 = (v', f')" by (simp add: file_drop_def)
  from release_refcount_inodes [OF 2] have "open_inodes v' = open_inodes v1" by blast
  with release_tracking_count [OF assms(1) 1] show ?thesis by (simp add: positive_def open_count_of_def)
qed

lemma file_close_count:
  assumes "positive v" "file_close ob v f = (v', f', r)"
  shows "positive v' \<and> (opened_at ob mp ino f' \<longrightarrow> opened_at ob mp ino f)
    \<and> open_count_of v' mp ino = open_count_of v mp ino - (if opened_at ob mp ino f \<and> \<not> opened_at ob mp ino f' then 1 else 0)"
proof -
  obtain v1 f1 res where c: "close_device ob v f = (v1, f1, res)" by (metis prod_cases3)
  then have dev: "open_inodes v1 = open_inodes v" "\<And>mp ino. opened_at ob mp ino f1 = opened_at ob mp ino f"
    by (auto simp: close_device_def opened_at_def Let_def split: option.splits sum.splits prod.splits)
  have rest: "v' = v1 \<and> f' = f1 \<or> (\<exists>v2 f2. release_tracking ob v1 f1 = (v2, f2) \<and> release_refcount v2 f2 = (v', f'))"
    using assms(2) by (auto simp: file_close_def c split: option.splits prod.splits)
  have pos: "positive v1" using assms(1) dev(1) by (simp add: positive_def)
  have cnt: "open_count_of v1 = open_count_of v" using dev(1) by (intro ext) (simp add: open_count_of_def)
  from rest show ?thesis
  proof (elim disjE exE conjE)
    fix v2 f2 assume 2: "release_tracking ob v1 f1 = (v2, f2)" "release_refcount v2 f2 = (v', f')"
    from release_refcount_inodes [OF 2(2), of ob mp ino] release_tracking_count [OF pos 2(1), of mp ino] dev(2) cnt
    show ?thesis by (simp add: positive_def open_count_of_def)
  qed (use pos cnt dev(2) in simp)
qed

lemma file_new_count:
  fixes v :: "('i, 'f, 'd, 'b, 'w, 'z) vfs_scheme"
  assumes "positive v" "\<And>mp ino. open_count_of v mp ino < usize_max" "file_new ob v inode mp = (v', r)"
  shows "positive v' \<and> open_count_of v' p ino
    = open_count_of v p ino + (case r of Inl _ \<Rightarrow> 0 | Inr f \<Rightarrow> if opened_at ob p ino f then 1 else 0)"
proof (cases "file_filesystem ob v inode")
  case (Inr fs)
  obtain v1 and f1 :: "('i, 'f, 'd) open_file" where track: "track_file ob v (new_file ob inode mp fs) = (v1, f1)" by fastforce
  then have 1: "positive v1 \<and> open_count_of v1 p ino = open_count_of v p ino + (if opened_at ob p ino f1 then 1 else 0)" for p ino
    using assms(1,2) track_open_positive [of v] track_open_count [of v _ "i_ino ob inode" p ino]
    by (auto simp: track_file_def new_file_def opened_at_def split: option.splits)
  obtain v2 d where dev: "open_device ob v1 f1 = (v2, d)" by fastforce
  from assms(3) have run: "(case d of
       Inl e \<Rightarrow> (fst (file_drop ob v2 f1), Inl e) | Inr f2 \<Rightarrow> (let (v3, f3) = count_ref v2 f2 in (v3, Inr f3))) = (v', r)"
    unfolding file_new_def Inr Let_def by (simp add: track dev)
  from open_device_inodes [OF dev, of p ino] have in2: "open_inodes v2 = open_inodes v1" by blast
  then have 2: "positive v2" "open_count_of v2 p ino = open_count_of v1 p ino" using 1 by (simp_all add: positive_def open_count_of_def)
  show ?thesis
  proof (cases d)
    case (Inl e)
    obtain v3 f3 where 3: "file_drop ob v2 f1 = (v3, f3)" by fastforce
    from file_drop_count [OF 2(1) 3, of p ino] run Inl 1 2 3 show ?thesis by auto
  next
    case (Inr f2)
    obtain v3 f3 where 3: "count_ref v2 f2 = (v3, f3)" by fastforce
    with run Inr have r: "v' = v3" "r = Inr f3" by auto
    from count_ref_inodes [OF 3, of ob p ino] have "positive v3" "open_count_of v3 p ino = open_count_of v2 p ino"
      using 2(1) by (simp_all add: positive_def open_count_of_def)
    with count_ref_inodes [OF 3, of ob p ino] open_device_inodes [OF dev, of p ino] Inr 1 [of p ino] 2 r show ?thesis by auto
  qed
qed (use assms in \<open>auto simp: file_new_def\<close>)

lemma filter_update:
  "i < length xs \<Longrightarrow> length (filter P (xs[i := y])) + (if P (xs ! i) then 1 else 0) = length (filter P xs) + (if P y then 1 else 0)"
proof -
  assume i: "i < length xs"
  then have "filter P xs = filter P (take i xs) @ filter P (xs ! i # drop (Suc i) xs)" by (metis filter_append id_take_nth_drop)
  then show ?thesis using upd_conv_take_nth_drop [OF i, of y] by simp
qed

lemma filter_remove_nth: "i < length xs \<Longrightarrow> length (filter P (remove_nth i xs)) + (if P (xs ! i) then 1 else 0) = length (filter P xs)"
proof -
  assume "i < length xs"
  then have "filter P xs = filter P (take i xs) @ filter P (xs ! i # drop (Suc i) xs)" by (metis filter_append id_take_nth_drop)
  then show ?thesis by (simp add: remove_nth_def)
qed

lemma filter_nth: "i < length xs \<Longrightarrow> P (xs ! i) \<Longrightarrow> length (filter P xs) > 0"
  by (metis filter_empty_conv length_greater_0_conv nth_mem)

inductive file_step for ob where
  opened: "length files < usize_max \<Longrightarrow> file_new ob v inode mp = (v', Inr f) \<Longrightarrow> file_step ob (v, files) (v', f # files)"
| open_failed: "length files < usize_max \<Longrightarrow> file_new ob v inode mp = (v', Inl e) \<Longrightarrow> file_step ob (v, files) (v', files)"
| closed: "i < length files \<Longrightarrow> file_close ob v (files ! i) = (v', f', r) \<Longrightarrow> file_step ob (v, files) (v', files[i := f'])"
| dropped: "i < length files \<Longrightarrow> file_drop ob v (files ! i) = (v', f') \<Longrightarrow> file_step ob (v, files) (v', remove_nth i files)"
| read: "i < length files \<Longrightarrow> file_read ob v (files ! i) n = (v', f', r) \<Longrightarrow> file_step ob (v, files) (v', files[i := f'])"
| write_file: "i < length files \<Longrightarrow> file_write ob v (files ! i) buf = Some (v', f', r) \<Longrightarrow> file_step ob (v, files) (v', files[i := f'])"
| seek: "i < length files \<Longrightarrow> file_seek ob v (files ! i) pos = (f', r) \<Longrightarrow> file_step ob (v, files) (v, files[i := f'])"
| created: "create_path ob v path t = (r, v') \<Longrightarrow> file_step ob (v, files) (v', files)"
| mounted: "vfs_mount ob v path fs = Inr v' \<Longrightarrow> file_step ob (v, files) (v', files)"
| unmounted: "vfs_unmount v path = Inr v' \<Longrightarrow> file_step ob (v, files) (v', files)"
| rooted: "file_step ob (v, files) (mount_root v fs, files)"

lemma opens_files_bound: "opens_ok ob v files \<Longrightarrow> length files < usize_max \<Longrightarrow> open_count_of v mp ino < usize_max"
  using length_filter_le [of "opened_at ob mp ino" files] le_less_trans unfolding opens_ok_def by metis

lemma opens_update:
  assumes "opens_ok ob v files" "i < length files" "open_inodes v' = open_inodes v"
    "\<And>mp ino. opened_at ob mp ino f' = opened_at ob mp ino (files ! i)"
  shows "opens_ok ob v' (files[i := f'])"
proof -
  have "length (filter (opened_at ob mp ino) (files[i := f'])) = length (filter (opened_at ob mp ino) files)" for mp ino
    using filter_update [OF assms(2), of "opened_at ob mp ino" f'] assms(4) [of mp ino] by simp
  moreover have "opens_ok ob v' files" using assms(1) opens_cong [OF assms(3)] by blast
  ultimately show ?thesis by (simp add: opens_ok_def)
qed

lemma unmount_opens: "opens_ok ob v files \<Longrightarrow> vfs_unmount v path = Inr v' \<Longrightarrow> opens_ok ob v' files"
proof -
  assume ok: "opens_ok ob v files" and run: "vfs_unmount v path = Inr v'"
  then obtain p where p: "open_inodes v' = bt_remove p (open_inodes v)" "bt_get p (open_inodes v) \<in> {None, Some []}"
    by (auto simp: vfs_unmount_def manager_unmount_def split: sum.splits if_splits option.splits)
  then have "open_count_of v' mp ino = open_count_of v mp ino" for mp ino by (auto simp: open_count_of_def)
  moreover have "positive v'" using ok p(1) by (auto simp: opens_ok_def positive_def split: if_splits)
  ultimately show ?thesis using ok by (simp add: opens_ok_def)
qed

lemma file_step_ok: "file_step ob s s' \<Longrightarrow> opens_ok ob (fst s) (snd s) \<Longrightarrow> opens_ok ob (fst s') (snd s')"
proof (induction rule: file_step.induct)
  case (opened files v inode mp v' f)
  note prems = opened.prems [unfolded fst_conv snd_conv]
  have pos: "positive v" using prems by (simp add: opens_ok_def)
  show ?case
    unfolding opens_ok_def fst_conv snd_conv
    using file_new_count [OF pos opens_files_bound [OF prems opened.hyps(1)] opened.hyps(2)] prems
    by (simp add: opens_ok_def)
next
  case (open_failed files v inode mp v' e)
  note prems = open_failed.prems [unfolded fst_conv snd_conv]
  have pos: "positive v" using prems by (simp add: opens_ok_def)
  show ?case
    unfolding opens_ok_def fst_conv snd_conv
    using file_new_count [OF pos opens_files_bound [OF prems open_failed.hyps(1)] open_failed.hyps(2)] prems
    by (simp add: opens_ok_def)
next
  case (closed i files v v' f' r)
  note prems = closed.prems [unfolded fst_conv snd_conv]
  have pos: "positive v" using prems by (simp add: opens_ok_def)
  have "open_count_of v' mp ino = length (filter (opened_at ob mp ino) (files[i := f']))" for mp ino
    using file_close_count [OF pos closed.hyps(2), of mp ino] filter_update [OF closed.hyps(1), of "opened_at ob mp ino" f']
      prems filter_nth [OF closed.hyps(1), of "opened_at ob mp ino"] by (auto simp: opens_ok_def split: if_splits)
  then show ?case using file_close_count [OF pos closed.hyps(2)] by (simp add: opens_ok_def)
next
  case (dropped i files v v' f')
  note prems = dropped.prems [unfolded fst_conv snd_conv]
  have pos: "positive v" using prems by (simp add: opens_ok_def)
  have "open_count_of v' mp ino = length (filter (opened_at ob mp ino) (remove_nth i files))" for mp ino
    using file_drop_count [OF pos dropped.hyps(2), of mp ino] filter_remove_nth [OF dropped.hyps(1), of "opened_at ob mp ino"]
      prems by (auto simp: opens_ok_def split: if_splits)
  then show ?case using file_drop_count [OF pos dropped.hyps(2)] by (simp add: opens_ok_def)
next
  case (read i files v n v' f' r)
  note prems = read.prems [unfolded fst_conv snd_conv]
  from read.hyps show ?case
    unfolding fst_conv snd_conv by (intro opens_update [OF prems]) (auto simp: file_read_def opened_at_def split: option.splits sum.splits prod.splits)
next
  case (write_file i files v buf v' f' r)
  note prems = write_file.prems [unfolded fst_conv snd_conv]
  from write_file.hyps show ?case
    unfolding fst_conv snd_conv by (intro opens_update [OF prems]) (auto simp: file_write_def opened_at_def split: option.splits sum.splits prod.splits if_splits)
next
  case (seek i files v pos f' r)
  note prems = seek.prems [unfolded fst_conv snd_conv]
  from seek.hyps show ?case
    unfolding fst_conv snd_conv by (intro opens_update [OF prems]) (auto simp: file_seek_def opened_at_def split: sum.splits)
next
  case (created v path t r v' files)
  note prems = created.prems [unfolded fst_conv snd_conv]
  from created.hyps have "open_inodes v' = open_inodes v"
    by (auto simp: create_path_def Let_def split: sum.splits if_splits prod.splits)
  with prems opens_cong show ?case unfolding fst_conv snd_conv by metis
next
  case (mounted v path fs v' files)
  note prems = mounted.prems [unfolded fst_conv snd_conv]
  from mounted.hyps have "open_inodes v' = open_inodes v"
    by (auto simp: vfs_mount_def manager_mount_def split: sum.splits if_splits prod.splits)
  with prems opens_cong show ?case unfolding fst_conv snd_conv by metis
next
  case (unmounted v path v' files)
  note prems = unmounted.prems [unfolded fst_conv snd_conv]
  from unmount_opens [OF prems unmounted.hyps] show ?case by simp
next
  case (rooted v files fs)
  note prems = rooted.prems [unfolded fst_conv snd_conv]
  show ?case using prems opens_cong [of "mount_root v fs" v ob files] by (simp add: mount_root_def)
qed

lemma file_reachable:
  assumes "(file_step ob)\<^sup>*\<^sup>* (v0, []) s" "open_inodes v0 = []"
  shows "opens_ok ob (fst s) (snd s)"
  using assms(1)
proof (induction rule: rtranclp_induct)
  case base
  show ?case using assms(2) by (simp add: opens_ok_def positive_def open_count_of_def)
next
  case (step y z)
  then show ?case using file_step_ok by blast
qed

lemma unmount_result:
  assumes "opens_ok ob v files" "normalize_absolute_path path = Inr p" "p \<noteq> [slash]" "p \<in> fst ` set (mounts v)"
  shows "(\<exists>v'. vfs_unmount v path = Inr v') \<longleftrightarrow> (\<forall>f \<in> set files. \<not> (tracked_open f \<and> mount_path f = Some p))"
proof -
  obtain i where i: "position (\<lambda>m. fst m = p) (mounts v) = Some i"
    using assms(4) by (cases "position (\<lambda>m. fst m = p) (mounts v)") auto
  have "(case bt_get p (open_inodes v) of None \<Rightarrow> False | Some entries \<Rightarrow> entries \<noteq> []) \<longleftrightarrow> (\<exists>ino. open_count_of v p ino > 0)"
  proof (cases "bt_get p (open_inodes v)")
    case (Some entries)
    have "bt_get ino entries \<noteq> Some 0" for ino using assms(1) Some by (auto simp: opens_ok_def positive_def)
    then have "open_count_of v p ino > 0 \<longleftrightarrow> bt_get ino entries \<noteq> None" for ino
      by (cases "bt_get ino entries") (simp_all add: Some open_count_of_def, metis neq0_conv)
    moreover have "entries \<noteq> [] \<longleftrightarrow> (\<exists>ino. bt_get ino entries \<noteq> None)" by (cases entries) (auto simp: bt_get_def)
    ultimately show ?thesis by (simp add: Some)
  qed (simp add: open_count_of_def)
  also have "\<dots> \<longleftrightarrow> (\<exists>ino. \<exists>f \<in> set files. opened_at ob p ino f)"
    using assms(1) by (auto simp: opens_ok_def filter_empty_conv)
  finally show ?thesis using i assms(2,3) by (auto simp: vfs_unmount_def manager_unmount_def opened_at_def)
qed

section \<open>Properties\<close>

text \<open>A small file system for the examples: a root directory with the link \<open>l\<close> to \<open>/t\<close> and the file \<open>t\<close>.\<close>

definition demo_objects :: "(nat, nat, unit, unit) objects" where
  "demo_objects = \<lparr>i_ino = of_nat, i_fs_id = (\<lambda>_. 0), i_device_numbers = (\<lambda>_. None),
     i_file_type = (\<lambda>i. if i = 1 then FtSymlink else if i = 2 then FtRegular else FtDirectory),
     i_filesystem_name = (\<lambda>_. [114]), i_size = (\<lambda>_ _. 2), i_read = (\<lambda>_ _ _ _. Inr [47, 116]),
     i_write = (\<lambda>w _ _ _. (Inl NotSupported, w)), i_append = (\<lambda>w _ _. (Inl NotSupported, w)),
     i_lookup = (\<lambda>_ i n. if i = 0 \<and> n = [108] then Inr 1 else if i = 0 \<and> n = [116] then Inr 2 else Inl NotFound),
     i_create = (\<lambda>w _ _ _. (Inl NotSupported, w)), f_root = (\<lambda>f. f), f_fs_id = (\<lambda>_. 0), d_open = (\<lambda>w _. (None, w)), d_close = (\<lambda>w _. (None, w)),
     d_read_blocking = (\<lambda>w _ _ _. (Inr [], w)), d_write = (\<lambda>w _ _ _. (Inr 0, w)), d_seek = (\<lambda>_ _ _ _. Inr 0)\<rparr>"

definition demo_vfs :: "(rstr \<times> nat) list \<Rightarrow> (nat, nat, unit, unit, unit) vfs" where
  "demo_vfs ms = \<lparr>world = (), root_mount = Some 0, mounts = ms, open_inodes = [], tuple_index = [], ref_counts = [],
     registry = registry_new, filesystems = [([114], 0)]\<rparr>"

text \<open>C11: A path belongs to the longest mount above it: the lookup starts at the root of the mounted file system whose mount
  path has the most components that begin the path, and walks exactly the components that are left; without
  such a mount it starts at the root file system with all components. Components decide, so \<open>/ab\<close> is not below a mount \<open>/a\<close>.\<close>

theorem resolve_path_longest_mount:
  assumes "mounts_ok v" "list_all plain cs"
  shows "(\<exists>ms fs rest. resolve_path ob v (abs_path cs) = Inr (f_root ob fs, abs_path ms, rest) \<and> (abs_path ms, fs) \<in> set (mounts v)
        \<and> prefix ms cs \<and> split_segments rest = drop (length ms) cs
        \<and> (\<forall>ns gs. (abs_path ns, gs) \<in> set (mounts v) \<longrightarrow> list_all plain ns \<longrightarrow> prefix ns cs \<longrightarrow> length ns \<le> length ms))
    \<or> (\<exists>rest. resolve_path ob v (abs_path cs) = (case root_inode ob v of Inl e \<Rightarrow> Inl e | Inr i \<Rightarrow> Inr (i, [slash], rest)) \<and> split_segments rest = cs
        \<and> (\<forall>ns gs. (abs_path ns, gs) \<in> set (mounts v) \<longrightarrow> list_all plain ns \<longrightarrow> \<not> prefix ns cs))"
  by (rule resolve_longest [OF assms])

lemma demo_plain: "plain [97]" "plain [98]" "plain [99]"
  by (simp_all add: plain_def component_def)

lemma demo_mounts_ok: "mounts_ok (demo_vfs [(abs_path [[97]], 7), (abs_path [[97], [98]], 8)])"
  by (auto simp: mounts_ok_def demo_vfs_def demo_plain abs_path_def
      intro: exI [of _ "[[97]]"] exI [of _ "[[97], [98]]"])

theorem resolve_path_longest_mount_witness:
  "\<exists>rest. resolve_path demo_objects (demo_vfs [(abs_path [[97]], 7), (abs_path [[97], [98]], 8)]) (abs_path [[97], [98], [99]])
     = Inr (8, abs_path [[97], [98]], rest) \<and> split_segments rest = [[99]]"
proof -
  let ?v = "demo_vfs [(abs_path [[97]], 7), (abs_path [[97], [98]], 8)]"
  have pl: "list_all plain [[97], [98], [99]]" by (simp add: demo_plain)
  have in2: "(abs_path [[97], [98]], 8) \<in> set (mounts ?v)" by (simp add: demo_vfs_def)
  have pre: "prefix [[97], [98]] [[97], [98], [99 :: nat]]" by simp
  from resolve_path_longest_mount [OF demo_mounts_ok pl, of demo_objects] show ?thesis
  proof (elim disjE exE conjE)
    fix ms fs rest assume r: "resolve_path demo_objects ?v (abs_path [[97], [98], [99]]) = Inr (f_root demo_objects fs, abs_path ms, rest)"
      "(abs_path ms, fs) \<in> set (mounts ?v)" "prefix ms [[97], [98], [99]]" "split_segments rest = drop (length ms) [[97], [98], [99]]"
      "\<forall>ns gs. (abs_path ns, gs) \<in> set (mounts ?v) \<longrightarrow> list_all plain ns \<longrightarrow> prefix ns [[97], [98], [99]] \<longrightarrow> length ns \<le> length ms"
    have len: "2 \<le> length ms" using r(5) in2 pre demo_plain by force
    have "abs_path ms = abs_path [[97], [98]] \<and> fs = 8 \<or> abs_path ms = abs_path [[97]]" using r(2) by (auto simp: demo_vfs_def)
    moreover have c: "\<forall>c \<in> set ms. component c" using r(3) demo_plain by (auto simp: prefix_def plain_def Cons_eq_append_conv)
    have "abs_path ms \<noteq> abs_path [[97]]"
      using abs_path_inj [OF c, of "[[97]]"] len demo_plain by (auto simp: plain_def)
    ultimately have e: "abs_path ms = abs_path [[97], [98]]" "fs = 8" by auto
    then have "ms = [[97], [98]]" using abs_path_inj [OF c, of "[[97], [98]]"] demo_plain by (auto simp: plain_def)
    with r e show ?thesis by (auto simp: demo_objects_def)
  next
    fix rest assume "\<forall>ns gs. (abs_path ns, gs) \<in> set (mounts ?v) \<longrightarrow> list_all plain ns \<longrightarrow> \<not> prefix ns [[97], [98], [99]]"
    then show ?thesis using in2 pre demo_plain by force
  qed
qed


lemma demo_lookup:
  "lookup_path_without_symlink_resolution demo_objects (demo_vfs []) (abs_path [[108]]) = Inr 1"
  "lookup_path_without_symlink_resolution demo_objects (demo_vfs []) (abs_path [[116]]) = Inr 2"
  by (simp_all add: lookup_path_without_symlink_resolution_def resolve_path_def demo_vfs_def demo_objects_def root_inode_def root_fs_def
      abs_path_def split_segments_def)

lemma demo_follow: "follow_symlinks demo_objects (demo_vfs []) (Suc n) (abs_path [[108]]) = follow_symlinks demo_objects (demo_vfs []) n (abs_path [[116]])"
proof -
  have "split_segments (abs_path [[108]]) = [[108]]" by (intro split_segments_abs) (simp add: component_def)
  moreover have "read_symlink_target demo_objects (demo_vfs []) 1 = Inr [47, 116]"
    by (simp add: read_symlink_target_def demo_objects_def from_utf8_def utf8_decode.simps is_scalar_def)
  moreover have "normalize_absolute_path (expand_symlink [[108]] 0 [47, 116]) = Inr (abs_path [[116]])"
    unfolding normalize_components
    by (simp add: expand_symlink_def starts_with_def str_trim_def trim_start_def trim_end_def is_whitespace_def components_def split_segments_def push_def)
  moreover have "i_file_type demo_objects 1 = FtSymlink" by (simp add: demo_objects_def)
  ultimately show ?thesis
    unfolding follow_symlinks.simps [of _ _ "Suc n"] by (simp add: Let_def join_absolute demo_lookup)
qed

lemma demo_follow_end: "follow_symlinks demo_objects (demo_vfs []) n (abs_path [[116]]) = Inr (abs_path [[116]])"
proof -
  have "split_segments (abs_path [[116]]) = [[116]]" by (intro split_segments_abs) (simp add: component_def)
  moreover have "i_file_type demo_objects 2 \<noteq> FtSymlink" by (simp add: demo_objects_def)
  ultimately show ?thesis unfolding follow_symlinks.simps [of _ _ n] by (simp add: Let_def join_absolute demo_lookup)
qed


text \<open>C3: Unmounting is refused exactly while the mount is in use: after any sequence of opening (successfully or not), closing, dropping,
  reading, writing, seeking, creating, mounting and unmounting, an existing mount can be removed if and only if no file that was opened
  through it is still open. So neither is a mount leaked by a failed open, nor removed below an open file.\<close>

theorem unmount_exactly_when_unused:
  assumes "(file_step ob)\<^sup>*\<^sup>* (v0, []) (v, files)" "open_inodes v0 = []"
    and "normalize_absolute_path path = Inr p" "p \<noteq> [slash]" "p \<in> fst ` set (mounts v)"
  shows "(\<exists>v'. vfs_unmount v path = Inr v') \<longleftrightarrow> (\<forall>f \<in> set files. \<not> (tracked_open f \<and> mount_path f = Some p))"
  using unmount_result [of ob v files, OF _ assms(3-5)] file_reachable [OF assms(1,2)] by simp

theorem unmount_exactly_when_unused_witness:
  "\<exists>v f. file_new demo_objects (demo_vfs [(lit ''/m'', 0)]) 0 (Some (lit ''/m'')) = (v, Inr f) \<and> \<not> (\<exists>v'. vfs_unmount v (lit ''/m'') = Inr v')"
proof -
  let ?v0 = "demo_vfs [(lit ''/m'', 0)]"
  define f0 :: "(nat, nat, unit) open_file" where "f0 = new_file demo_objects 0 (Some (lit ''/m'')) 0"
  define v1 where "v1 = track_open_inode ?v0 (lit ''/m'') (i_ino demo_objects 0)"
  define f1 where "f1 = f0\<lparr>tracked_open := True\<rparr>"
  have f0: "mount_path f0 = Some (lit ''/m'')" "of_inode f0 = 0" "of_device f0 = None" by (simp_all add: f0_def new_file_def)
  have "file_filesystem demo_objects ?v0 0 = Inr 0" by (simp add: file_filesystem_def demo_objects_def demo_vfs_def bt_get_def)
  moreover have "track_file demo_objects ?v0 f0 = (v1, f1)" by (simp add: track_file_def f0 v1_def f1_def)
  moreover have "open_device demo_objects v1 f1 = (v1, Inr f1)"
    by (simp add: open_device_def lookup_device_def f1_def f0) (simp add: demo_objects_def)
  moreover obtain v f where c: "count_ref v1 f1 = (v, f)" by fastforce
  ultimately have run: "file_new demo_objects ?v0 0 (Some (lit ''/m'')) = (v, Inr f)" by (simp add: file_new_def f0_def)
  from c have f: "tracked_open f" "mount_path f = Some (lit ''/m'')" "mounts v = [(lit ''/m'', 0)]"
    by (auto simp: count_ref_def Let_def f1_def f0 v1_def track_open_inode_def demo_vfs_def)
  from run have "file_step demo_objects (?v0, []) (v, [f])" by (intro file_step.opened) (simp_all add: usize_max_def)
  then have reach: "(file_step demo_objects)\<^sup>*\<^sup>* (?v0, []) (v, [f])" by (rule r_into_rtranclp)
  have n: "normalize_absolute_path (lit ''/m'') = Inr (lit ''/m'')"
    unfolding normalize_components
    by (simp add: lit_def str_trim_def trim_start_def trim_end_def is_whitespace_def components_def split_segments_def push_def abs_path_def)
  have "open_inodes ?v0 = []" by (simp add: demo_vfs_def)
  from unmount_exactly_when_unused [OF reach this n] f run show ?thesis by (simp add: lit_def)
qed

end
