(* ===== verification/Process_Props.thy ===== *)
theory Process_Props
  imports Process Scheduler_Props Space_Props Vfs_Props
begin

text \<open>
  Properties of processes. A step of the kernel is any operation of \<open>process/mod.rs\<close> or the scheduler, the
  end, a fault or a signal of a process, or a change of a task that keeps its id and its state; every sequence of
  steps from boot keeps the invariant of the scheduler.
\<close>

section \<open>Operations that create no process\<close>

text \<open>\<open>fine s s'\<close>: the invariant is kept, no process id is new and the counter of ids is the same.\<close>

definition fine :: "'i procs \<Rightarrow> 'i procs \<Rightarrow> bool" where
  "fine s s' \<longleftrightarrow> (sched_ok s \<longrightarrow> sched_ok s') \<and> set (pids s') \<subseteq> set (pids s) \<and> next_pid s' = next_pid s"

lemma fine_refl [simp]: "fine s s"
  by (simp add: fine_def)

lemma fine_trans: "fine s s1 \<Longrightarrow> fine s1 s2 \<Longrightarrow> fine s s2"
  by (auto simp: fine_def)

lemma fine_schedule_on: "fine s (fst (schedule_on s c))"
proof -
  have "pids (fst (schedule_on s c)) = pids s \<and> next_pid (fst (schedule_on s c)) = next_pid s"
    using next_runnable_Some(1) [of "tasks s"]
    by (auto simp: schedule_on_def Let_def set_core_idle_def split: option.splits)
  then show ?thesis using schedule_on_ok [of s c] by (simp add: fine_def)
qed

lemma fine_set_task_state: "st \<noteq> Running \<Longrightarrow> fine s (fst (set_task_state s p st))"
  using set_task_state_ok [of s st p] by (simp add: fine_def)

lemma fine_preempt_and_switch: "fine s (fst (preempt_and_switch s))"
proof -
  define s1 where "s1 = (case map_option t_pid (current s) of
      None \<Rightarrow> s
    | Some p \<Rightarrow> if map_option t_state (task_by_pid s p) = Some Zombie then s else fst (set_task_state s p Ready))"
  have "fine s s1" unfolding s1_def using fine_set_task_state [of Ready s] by (auto split: option.splits)
  moreover have "fst (preempt_and_switch s) = fst (schedule_on s1 0)"
    unfolding preempt_and_switch_def s1_def [symmetric] Let_def by (simp split: prod.splits option.splits)
  ultimately show ?thesis using fine_trans fine_schedule_on by metis
qed

lemma fine_switch_to_pid: "fine s (fst (switch_to_pid s p))"
proof -
  define s1 where "s1 = (if current_index s = None then s\<lparr>current_index := pid_index s (current_pid s)\<rparr> else s)"
  have v: "pids s1 = pids s" "next_pid s1 = next_pid s" by (simp_all add: s1_def)
  have "pids (fst (switch_to_pid s p)) = pids s \<and> next_pid (fst (switch_to_pid s p)) = next_pid s"
  proof (cases "\<exists>old k. current_index s1 = Some old \<and> pid_index s1 p = Some k")
    case False
    then have "fst (switch_to_pid s p) = s1"
      unfolding switch_to_pid_def s1_def [symmetric] Let_def by (auto split: option.splits)
    with v show ?thesis by simp
  next
    case True
    then obtain old k where k: "current_index s1 = Some old" "pid_index s1 p = Some k" by blast
    then show ?thesis using pid_index_Some(1) [OF k(2)] v
      unfolding switch_to_pid_def s1_def [symmetric] Let_def by simp
  qed
  then show ?thesis using switch_to_pid_ok [of s p] by (simp add: fine_def)
qed

lemma fine_preempt_if_higher_priority: "fine s (fst (preempt_if_higher_priority s))"
proof -
  have "pids (fst (preempt_if_higher_priority s)) = pids s \<and> next_pid (fst (preempt_if_higher_priority s)) = next_pid s"
    using best_priority_range [of _ 0 "tasks s" None]
    by (auto simp: preempt_if_higher_priority_def split: option.splits prod.splits)
  then show ?thesis using preempt_if_higher_priority_ok [of s] by (simp add: fine_def)
qed

lemma fine_lower_current_priority: "fine s (fst (lower_current_priority s))"
  using lower_current_priority_ok [of s]
  by (auto simp: fine_def lower_current_priority_def Let_def split: option.splits)

lemma fine_set_core: "w = Idle \<or> w = KernelWork r \<Longrightarrow> fine s (set_core s c w)"
proof -
  assume "w = Idle \<or> w = KernelWork r"
  then have "core_pids (set_core s c w) \<subseteq> core_pids s" using core_pids_set_core [of s c w] by auto
  then have "sched_ok (set_core s c w)" if "sched_ok s" by (intro sched_ok_cong [OF that]) simp_all
  then show ?thesis by (simp add: fine_def)
qed

lemma fine_reap: "fine s (fst (reap_zombie_child s parent expected))"
proof (cases "reap_zombie_child s parent expected")
  case (Pair s' r)
  show ?thesis
  proof (cases r)
    case None
    then show ?thesis using Pair reap_none [of s parent expected s'] by simp
  next
    case (Some x)
    then obtain p status t where "reap_zombie_child s parent expected = (s', Some (p, status, t))" using Pair by (cases x) auto
    then obtain k where "pids s' = remove_nth k (pids s)" "next_pid s' = next_pid s" by (rule reap_some)
    then show ?thesis using Pair reap_zombie_child_ok [of s parent expected] set_remove_nth_subset [of k "pids s"]
      by (auto simp: fine_def)
  qed
qed

lemma fine_update_pid:
  assumes "keeps_pid f" "\<And>t. t_state (f t) = Running \<Longrightarrow> t_state t = Running"
  shows "fine s (update_pid s p f)"
  using sched_ok_update_pid [OF _ assms] assms(1) by (simp add: fine_def)

lemma task_by_pid_index: "task_by_pid s p = Some t \<longleftrightarrow> (\<exists>k. pid_index s p = Some k \<and> tasks s ! k = t)"
  unfolding task_by_pid_def pid_index_def find_Some_iff position_Some by auto

text \<open>A task is replaced by one that was made from it.\<close>

lemma fine_replace:
  assumes "task_by_pid s p = Some t" "t_pid t' = t_pid t" "t_state t' = Running \<Longrightarrow> t_state t = Running"
  shows "fine s (update_pid s p (\<lambda>_. t'))"
proof -
  obtain k where k: "pid_index s p = Some k" "tasks s ! k = t" using assms(1) task_by_pid_index by blast
  note kl = pid_index_Some(1) [OF k(1)]
  have eq: "update_pid s p (\<lambda>_. t') = s\<lparr>tasks := (tasks s)[k := t']\<rparr>" using k kl by (simp add: update_pid_def update_index_def)
  have "map t_pid ((tasks s)[k := t']) = map t_pid (tasks s)"
    using assms(2) k kl by (simp add: map_update list_update_same_conv)
  then have p: "pids (update_pid s p (\<lambda>_. t')) = pids s" by (simp add: eq pids_def)
  have r: "states s ! n = Running" if "n < length (tasks s)" "states (update_pid s p (\<lambda>_. t')) ! n = Running" for n
  proof (cases "n = k")
    case True
    then have "t_state t' = Running" using that by (simp add: eq states_def)
    then show ?thesis using assms(3) True k kl by (simp add: states_def)
  next
    case False
    then show ?thesis using that by (simp add: eq states_def)
  qed
  have "sched_ok (update_pid s p (\<lambda>_. t'))" if "sched_ok s"
    by (rule sched_ok_cong [OF that p]) (simp_all add: r)
  then show ?thesis using p by (simp add: fine_def)
qed

section \<open>Operations of the kernel\<close>

lemma procs_update_task [simp]: "procs (update_task k p f) = update_pid (procs k) p f"
  by (simp add: update_task_def)

lemma procs_drop_task [simp]: "procs (drop_task ob k t) = procs k"
  by (simp add: drop_task_def Let_def split: prod.splits)

lemma close_fd_keeps: "close_fd t fd = (t1, r) \<Longrightarrow> t_pid t1 = t_pid t \<and> t_state t1 = t_state t"
  by (auto simp: close_fd_def Let_def split: prod.splits)

lemma fine_close_fd_for_pid: "fine (procs k) (procs (fst (close_fd_for_pid ob k p fd)))"
proof (cases "task_by_pid (procs k) p")
  case None
  then show ?thesis by (simp add: close_fd_for_pid_def)
next
  case (Some t)
  obtain t1 r where c: "close_fd t fd = (t1, r)" by (cases "close_fd t fd")
  have "procs (fst (close_fd_for_pid ob k p fd)) = update_pid (procs k) p (\<lambda>_. t1)"
    using Some c by (auto simp: close_fd_for_pid_def Let_def split: option.splits prod.splits)
  then show ?thesis using fine_replace [OF Some, of t1] close_fd_keeps [OF c] by simp
qed

lemma fine_close_all_fds: "fine (procs k) (procs (fst (close_all_fds ob k p)))"
proof -
  have "fine (procs k) (procs (foldl (\<lambda>k fd. fst (close_fd_for_pid ob k p fd)) k xs))" for xs
    by (induction xs arbitrary: k) (auto intro: fine_trans fine_close_fd_for_pid)
  then show ?thesis by (simp add: close_all_fds_def split: option.splits)
qed

lemma set_exit_code_keeps:
  "set_exit_code m t code = Some (m1, t1) \<Longrightarrow> t_pid t1 = t_pid t \<and> t_state t1 = t_state t"
  by (auto simp: set_exit_code_def Let_def split: if_splits)

lemma deliver_signal_keeps:
  "deliver_signal m t s now = Some (m1, t1) \<Longrightarrow> t_pid t1 = t_pid t \<and> (t_state t1 = t_state t \<or> t_state t1 = Zombie)"
  by (auto simp: deliver_signal_def terminate_def split: if_splits option.splits dest: set_exit_code_keeps)

lemma fine_sys_kill:
  assumes "sys_kill k p sig = Some (k', r)"
  shows "fine (procs k) (procs k')"
proof (cases "procs k' = procs k")
  case False
  define target where "target = (if 0 < p then of_int p else me k)"
  have "sig \<noteq> 0" using assms False by (auto simp: sys_kill_def)
  moreover from this obtain s where "signal_of_number sig = Some s" using assms False by (cases "signal_of_number sig") (auto simp: sys_kill_def)
  moreover from calculation obtain t where "task_of k target = Some t"
    using assms False by (cases "task_of k target") (auto simp: sys_kill_def target_def)
  ultimately have "(case deliver_signal (k_machine k) t s (now_ns (procs k)) of None \<Rightarrow> None
      | Some (m, t1) \<Rightarrow> Some (update_task (k\<lparr>k_machine := m\<rparr>) target (\<lambda>_. t1), 0)) = Some (k', r)"
    using assms unfolding sys_kill_def target_def by simp
  then obtain m t1 where t: "task_of k target = Some t" "deliver_signal (k_machine k) t s (now_ns (procs k)) = Some (m, t1)"
      "procs k' = update_pid (procs k) target (\<lambda>_. t1)"
    using \<open>task_of k target = Some t\<close> by (auto split: option.splits)
  then show ?thesis using fine_replace [OF t(1), of t1] deliver_signal_keeps [OF t(2)] by auto
qed simp

lemma fine_sys_exit:
  assumes "sys_exit ob k status = Some (k', plan)"
  shows "fine (procs k) (procs k')"
proof -
  define k1 where "k1 = fst (close_all_fds ob k (me k))"
  define r where "r = (case task_of k1 (me k) of
      None \<Rightarrow> Some k1
    | Some t \<Rightarrow> (case set_exit_code (k_machine k1) t status of
                   None \<Rightarrow> None
                 | Some (m, t1) \<Rightarrow> Some (update_task (k1\<lparr>k_machine := m\<rparr>) (me k) (\<lambda>_. t1))))"
  have f1: "fine (procs k) (procs k1)" unfolding k1_def by (rule fine_close_all_fds)
  obtain k2 where k2: "r = Some k2"
    using assms unfolding sys_exit_def Let_def k1_def [symmetric] r_def [symmetric] by (cases r) auto
  have "fine (procs k1) (procs k2)"
  proof (cases "task_of k1 (me k)")
    case None
    then show ?thesis using k2 by (simp add: r_def)
  next
    case (Some t)
    then obtain m t1 where t1: "set_exit_code (k_machine k1) t status = Some (m, t1)" "k2 = update_task (k1\<lparr>k_machine := m\<rparr>) (me k) (\<lambda>_. t1)"
      using k2 by (auto simp: r_def split: option.splits)
    then show ?thesis using fine_replace [OF Some, of t1] set_exit_code_keeps [OF t1(1)] by simp
  qed
  define s3 where "s3 = fst (set_task_state (procs k2) (me k) Zombie)"
  have f3: "fine (procs k2) s3" unfolding s3_def by (rule fine_set_task_state) simp
  define x where "x = (case map_option parent_pid (task_of k1 (me k)) of None \<Rightarrow> (s3, None) | Some q \<Rightarrow> switch_to_pid s3 q)"
  have f4: "fine s3 (fst x)" unfolding x_def using fine_switch_to_pid [of s3] by (auto split: option.splits)
  have "procs k' = (case snd x of Some pl \<Rightarrow> fst x | None \<Rightarrow> fst (preempt_and_switch (fst x)))"
    using assms unfolding sys_exit_def Let_def k1_def [symmetric] r_def [symmetric] k2 option.case s3_def [symmetric] x_def [symmetric]
    by (auto split: prod.splits option.splits)
  then have f5: "fine (fst x) (procs k')" using fine_preempt_and_switch by (auto split: option.splits)
  show ?thesis using f1 \<open>fine (procs k1) (procs k2)\<close> f3 f4 f5 by (meson fine_trans)
qed

lemma fine_user_fault:
  assumes "user_fault k code = Some (k', plan)"
  shows "fine (procs k) (procs k')"
proof (cases "task_of k (me k)")
  case None
  then show ?thesis using assms fine_preempt_and_switch [of "procs k"] by (auto simp: user_fault_def split: prod.splits)
next
  case (Some t)
  then obtain m t1 where t1: "set_exit_code (k_machine k) t code = Some (m, t1)"
    using assms by (auto simp: user_fault_def split: option.splits)
  define k1 where "k1 = update_task (k\<lparr>k_machine := m\<rparr>) (me k) (\<lambda>_. t1\<lparr>t_state := Zombie\<rparr>)"
  define x where "x = switch_to_pid (procs k1) (parent_pid t)"
  have f1: "fine (procs k) (procs k1)"
    using fine_replace [OF Some, of "t1\<lparr>t_state := Zombie\<rparr>"] set_exit_code_keeps [OF t1] by (simp add: k1_def)
  have f2: "fine (procs k1) (fst x)" unfolding x_def by (rule fine_switch_to_pid)
  have "procs k' = (case snd x of Some pl \<Rightarrow> fst x | None \<Rightarrow> fst (preempt_and_switch (fst x)))"
    using assms Some t1 unfolding user_fault_def Let_def by (auto simp: k1_def x_def split: prod.splits option.splits)
  then have f3: "fine (fst x) (procs k')" using fine_preempt_and_switch by (auto split: option.splits)
  show ?thesis using f1 f2 f3 by (meson fine_trans)
qed

lemma fine_handlers:
  "invalid_opcode_handler k u = Some (k', plan) \<Longrightarrow> fine (procs k) (procs k')"
  "general_protection_fault_handler k u = Some (k', plan) \<Longrightarrow> fine (procs k) (procs k')"
  "page_fault_handler k u = Some (k', plan) \<Longrightarrow> fine (procs k) (procs k')"
  using fine_user_fault by (fastforce simp: invalid_opcode_handler_def general_protection_fault_handler_def page_fault_handler_def split: if_splits)+

lemma install_stdio_keeps:
  "install_stdio ob others v fs t fd mode = (v1, fs1, t1) \<Longrightarrow> t_pid t1 = t_pid t \<and> t_state t1 = t_state t"
  by (auto simp: install_stdio_def Let_def split: prod.splits sum.splits option.splits)

lemma refresh_stdio_keeps:
  assumes "refresh_stdio ob others v fs t = (v1, fs1, t1)"
  shows "t_pid t1 = t_pid t \<and> t_state t1 = t_state t"
proof -
  obtain va fa ta where a: "install_stdio ob others v fs t 0 ReadOnly = (va, fa, ta)" by (metis prod.exhaust)
  obtain vb fb tb where b: "install_stdio ob others va fa ta 1 WriteOnly = (vb, fb, tb)" by (metis prod.exhaust)
  have c: "install_stdio ob others vb fb tb 2 WriteOnly = (v1, fs1, t1)" using assms by (simp add: refresh_stdio_def a b [unfolded One_nat_def])
  show ?thesis using install_stdio_keeps [OF a] install_stdio_keeps [OF b] install_stdio_keeps [OF c] by simp
qed

lemma fine_set_controlling_terminal: "fine (procs k) (procs (set_controlling_terminal ob k p target))"
proof (cases "pid_index (procs k) p")
  case None
  then show ?thesis by (simp add: set_controlling_terminal_def)
next
  case (Some n)
  let ?t = "tasks (procs k) ! n"
  obtain v1 fs1 t1 where r: "refresh_stdio ob (all_handles (remove_nth n (tasks (procs k)))) (k_vfs k) (files k) (?t\<lparr>ctty := Some target\<rparr>) = (v1, fs1, t1)"
    by (metis prod.exhaust)
  have "procs (set_controlling_terminal ob k p target) = update_pid (procs k) p (\<lambda>_. t1)"
    using Some r by (simp add: set_controlling_terminal_def Let_def)
  moreover have "task_by_pid (procs k) p = Some ?t" using Some task_by_pid_index by blast
  ultimately show ?thesis using fine_replace [of "procs k" p ?t t1] refresh_stdio_keeps [OF r] by simp
qed

lemma procs_wait_poll: "procs (fst (wait_poll ob k ppid p)) = fst (reap_zombie_child (procs k) ppid p)"
proof (cases "reap_zombie_child (procs k) ppid p")
  case (Pair s1 r)
  then show ?thesis by (cases r) (simp_all add: wait_poll_def split: prod.splits)
qed

lemma fine_wait_poll: "fine (procs k) (procs (fst (wait_poll ob k ppid p)))"
  unfolding procs_wait_poll by (rule fine_reap)

lemma fine_sleep: "fine (procs k) (procs (fst (sleep_on_tty_input k)))"
  using fine_set_task_state [of Waiting "procs k" "me k"] by (auto simp: sleep_on_tty_input_def split: prod.splits bool.splits)

lemma fine_wake: "fine (procs k) (procs (fst (wake_one_tty_waiter k)))"
  using fine_set_task_state [of Ready "procs k"] by (auto simp: wake_one_tty_waiter_def split: prod.splits option.splits)

lemma fine_set_task_pgid: "fine (procs k) (procs (fst (set_task_pgid k p g)))"
  using fine_update_pid [of "\<lambda>t. t\<lparr>pgid := g\<rparr>" "procs k" p] by (auto simp: set_task_pgid_def keeps_pid_def split: option.splits)

section \<open>Every reachable state\<close>

text \<open>The closure that \<open>fork_current_task_with\<close> is given changes neither the id nor the state of the child.\<close>

definition prepare_keeps :: "(machine \<Rightarrow> 'i task \<Rightarrow> machine \<times> 'i task \<times> (int + unit)) \<Rightarrow> bool" where
  "prepare_keeps prepare \<longleftrightarrow> (\<forall>m t. t_pid (fst (snd (prepare m t))) = t_pid t \<and> t_state (fst (snd (prepare m t))) = t_state t)"

inductive kstep :: "('i, 'f, 'd, 'w) objects \<Rightarrow> paging_crate \<Rightarrow> ('i, 'f, 'd, 'b, 'w) kernel \<Rightarrow> ('i, 'f, 'd, 'b, 'w) kernel \<Rightarrow> bool"
  for ob pc where
  k_schedule: "kstep ob pc k (k\<lparr>procs := fst (schedule_on (procs k) c)\<rparr>)"
| k_preempt: "kstep ob pc k (k\<lparr>procs := fst (preempt_and_switch (procs k))\<rparr>)"
| k_yield_to: "kstep ob pc k (fst (yield_to_task k p))"
| k_higher: "kstep ob pc k (fst (preempt_current_task_if_higher_priority k))"
| k_yield: "kstep ob pc k (fst (sched_yield_current_task k))"
| k_core: "kstep ob pc k (k\<lparr>procs := fst (set_core_kernel_workload (procs k) c reason)\<rparr>)"
| k_idle: "kstep ob pc k (k\<lparr>procs := set_core_idle (procs k) c\<rparr>)"
| k_fork: "prepare_keeps prepare \<Longrightarrow> fork_current_task_with ob pc prepare stack k = Some (k', r) \<Longrightarrow> kstep ob pc k k'"
| k_wait: "kstep ob pc k (fst (wait_poll ob k ppid p))"
| k_exit: "sys_exit ob k status = Some (k', plan) \<Longrightarrow> kstep ob pc k k'"
| k_opcode: "invalid_opcode_handler k u = Some (k', plan) \<Longrightarrow> kstep ob pc k k'"
| k_protection: "general_protection_fault_handler k u = Some (k', plan) \<Longrightarrow> kstep ob pc k k'"
| k_page: "page_fault_handler k u = Some (k', plan) \<Longrightarrow> kstep ob pc k k'"
| k_root: "kstep ob pc k (fst (terminate_root_process k))"
| k_kill: "sys_kill k p' sig = Some (k', ret) \<Longrightarrow> kstep ob pc k k'"
| k_close: "kstep ob pc k (fst (close_fd_for_pid ob k p fd))"
| k_terminal: "kstep ob pc k (set_controlling_terminal ob k p target)"
| k_group: "kstep ob pc k (fst (set_task_pgid k p g))"
| k_foreground: "kstep ob pc k (fst (set_tty_foreground_pgrp_for_current k g))"
| k_sleep: "kstep ob pc k (fst (sleep_on_tty_input k))"
| k_wake: "kstep ob pc k (fst (wake_one_tty_waiter k))"
| k_update: "keeps_pid f \<Longrightarrow> keeps_state f \<Longrightarrow> kstep ob pc k (update_task k p f)"
| k_other: "kstep ob pc k (k\<lparr>k_machine := m, k_vfs := v, files := fs, procs := (procs k)\<lparr>now_ns := t\<rparr>\<rparr>)"

text \<open>After \<open>j\<close> steps; every process id is below the counter, which has been incremented at most \<open>j\<close> times.\<close>

definition procs_ok :: "nat \<Rightarrow> 'i procs \<Rightarrow> bool" where
  "procs_ok j s \<longleftrightarrow> sched_ok s \<and> (\<forall>p \<in> set (pids s). p < next_pid s) \<and> unat (next_pid s) \<le> 3 + j"

lemma view_counter [simp]:
  "pids (s\<lparr>next_pid := x\<rparr>) = pids s" "states (s\<lparr>next_pid := x\<rparr>) = states s" "core_pids (s\<lparr>next_pid := x\<rparr>) = core_pids s"
  "pids (s\<lparr>now_ns := y\<rparr>) = pids s" "states (s\<lparr>now_ns := y\<rparr>) = states s" "core_pids (s\<lparr>now_ns := y\<rparr>) = core_pids s"
  by (simp_all add: pids_def states_def core_pids_def)

lemma sched_ok_counter [simp]: "sched_ok (s\<lparr>next_pid := x\<rparr>) = sched_ok s" "sched_ok (s\<lparr>now_ns := y\<rparr>) = sched_ok s"
  by (simp_all add: sched_ok_def cong: option.case_cong)

lemma procs_ok_fine: "procs_ok j s \<Longrightarrow> fine s s' \<Longrightarrow> procs_ok (Suc j) s'"
  unfolding procs_ok_def fine_def by auto

lemma fork_procs_ok:
  assumes ok: "procs_ok j (procs k)" and j: "Suc j < 2 ^ 64 - 3"
    and keeps: "prepare_keeps prepare" and f: "fork_current_task_with ob pc prepare stack k = Some (k', r)"
  shows "procs_ok (Suc j) (procs k')"
proof (cases "task_of k (me k)")
  case None
  then have "k' = k" using f by (simp add: fork_current_task_with_def)
  then show ?thesis using procs_ok_fine [OF ok fine_refl] by simp
next
  case (Some parent)
  let ?s = "procs k"
  let ?s1 = "?s\<lparr>next_pid := next_pid ?s + 1\<rparr>"
  obtain m1 clone where cl: "task_clone pc (k_machine k) stack parent = Some (m1, clone)"
    using f Some by (cases "task_clone pc (k_machine k) stack parent") (auto simp: fork_current_task_with_def)
  obtain m2 child x where pr: "prepare m1 (fork_child clone (next_pid ?s) (me k)) = (m2, child, x)" by (metis prod.exhaust)
  have child: "t_pid child = next_pid ?s" "t_state child = Ready"
    using keeps [unfolded prepare_keeps_def, rule_format, of m1 "fork_child clone (next_pid ?s) (me k)"] pr
    by (simp_all add: fork_child_def Let_def)
  note okD = ok [unfolded procs_ok_def]
  have n: "unat (next_pid ?s) < 2 ^ 64 - 1" using okD j by auto
  have nx: "unat (next_pid ?s + 1) = Suc (unat (next_pid ?s))" using n by (simp add: unat_word_ariths)
  have ok1: "sched_ok ?s1" using okD by simp
  have lt: "p < next_pid ?s + 1" if "p \<in> set (pids ?s) \<or> p = next_pid ?s" for p
  proof -
    have "unat p \<le> unat (next_pid ?s)" using that okD by (auto simp: word_less_nat_alt)
    then show ?thesis using nx by (simp add: word_less_nat_alt)
  qed
  show ?thesis
  proof (cases x)
    case (Inl e)
    then have "procs k' = ?s1" using f Some cl pr by (auto simp: fork_current_task_with_def alloc_pid_def)
    then show ?thesis using ok1 lt nx okD by (simp add: procs_ok_def)
  next
    case (Inr u)
    define s2 where "s2 = update_pid ?s1 (me k) (\<lambda>t. t\<lparr>priority := saturating_sub (priority t) 1\<rparr>)"
    define k2 where "k2 = update_task (k\<lparr>procs := ?s1, k_machine := m2\<rparr>) (me k) (\<lambda>t. t\<lparr>priority := saturating_sub (priority t) 1\<rparr>)"
    have "Some (k2\<lparr>procs := add_task (procs k2) child\<rparr>, Inr (next_pid ?s)) = Some (k', r)"
      unfolding f [symmetric] fork_current_task_with_def alloc_pid_def k2_def using Some cl pr Inr by simp
    then have "k' = k2\<lparr>procs := add_task (procs k2) child\<rparr>" by blast
    then have k': "procs k' = add_task s2 child" by (simp add: k2_def s2_def)
    have s2: "sched_ok s2" "pids s2 = pids ?s" "next_pid s2 = next_pid ?s + 1"
      unfolding s2_def by (rule sched_ok_update_pid [OF ok1]) simp_all
    have "next_pid ?s \<notin> set (pids ?s)" using okD by auto
    then have "sched_ok (add_task s2 child)" using add_task_ok [OF s2(1), of child] child s2(2) by simp
    moreover have "pids (add_task s2 child) = pids ?s @ [next_pid ?s]" "next_pid (add_task s2 child) = next_pid ?s + 1"
      using s2(2,3) child(1) by (simp_all add: add_task_def pids_def)
    ultimately show ?thesis using lt nx okD k' by (auto simp: procs_ok_def)
  qed
qed

lemma kstep_procs_ok:
  assumes "kstep ob pc k k'" "procs_ok j (procs k)" "Suc j < 2 ^ 64 - 3"
  shows "procs_ok (Suc j) (procs k')"
  using assms(1)
proof cases
  case (k_fork prepare stack r)
  then show ?thesis using fork_procs_ok [OF assms(2,3)] by blast
next
  case (k_core c reason)
  then show ?thesis using procs_ok_fine [OF assms(2) fine_set_core] by (simp add: set_core_kernel_workload_def)
next
  case (k_idle c)
  then show ?thesis using procs_ok_fine [OF assms(2) fine_set_core] by (simp add: set_core_idle_def)
next
  case (k_update f p)
  then show ?thesis using procs_ok_fine [OF assms(2) fine_update_pid [of f "procs k" p]] by (simp add: keeps_state_def)
next
  case (k_other t m fs v)
  have "fine (procs k) ((procs k)\<lparr>now_ns := t\<rparr>)" by (simp add: fine_def)
  then show ?thesis using procs_ok_fine [OF assms(2)] k_other by simp
next
  case (k_yield_to p)
  then show ?thesis using procs_ok_fine [OF assms(2) fine_switch_to_pid [of _ p]] by (auto simp: yield_to_task_def split: prod.splits)
next
  case k_higher
  then show ?thesis using procs_ok_fine [OF assms(2) fine_preempt_if_higher_priority]
    by (simp add: preempt_current_task_if_higher_priority_def split: prod.splits)
next
  case k_yield
  then show ?thesis using procs_ok_fine [OF assms(2) fine_lower_current_priority] by (simp add: sched_yield_current_task_def split: prod.splits)
next
  case (k_foreground g)
  have "procs (fst (set_tty_foreground_pgrp_for_current k g)) = procs k"
    by (simp add: set_tty_foreground_pgrp_for_current_def split: option.splits)
  then show ?thesis using procs_ok_fine [OF assms(2) fine_refl] k_foreground by simp
next
  case (k_schedule c)
  then show ?thesis using procs_ok_fine [OF assms(2) fine_schedule_on] by simp
next
  case k_preempt
  then show ?thesis using procs_ok_fine [OF assms(2) fine_preempt_and_switch] by simp
next
  case (k_wait ppid p)
  then show ?thesis using procs_ok_fine [OF assms(2) fine_wait_poll] by simp
next
  case (k_close p fd)
  then show ?thesis using procs_ok_fine [OF assms(2) fine_close_fd_for_pid] by simp
next
  case (k_terminal p target)
  then show ?thesis using procs_ok_fine [OF assms(2) fine_set_controlling_terminal] by simp
next
  case (k_group p g)
  then show ?thesis using procs_ok_fine [OF assms(2) fine_set_task_pgid] by simp
next
  case k_sleep
  then show ?thesis using procs_ok_fine [OF assms(2) fine_sleep] by simp
next
  case k_wake
  then show ?thesis using procs_ok_fine [OF assms(2) fine_wake] by simp
next
  case (k_exit status plan)
  then show ?thesis using procs_ok_fine [OF assms(2) fine_sys_exit] by blast
next
  case (k_kill p sig ret)
  then show ?thesis using procs_ok_fine [OF assms(2) fine_sys_kill] by blast
next
  case (k_opcode u plan)
  then show ?thesis using procs_ok_fine [OF assms(2) fine_handlers(1)] by blast
next
  case (k_protection u plan)
  then show ?thesis using procs_ok_fine [OF assms(2) fine_handlers(2)] by blast
next
  case (k_page u plan)
  then show ?thesis using procs_ok_fine [OF assms(2) fine_handlers(3)] by blast
next
  case k_root
  then show ?thesis using procs_ok_fine [OF assms(2) fine_set_task_state [of Zombie "procs k" ROOT_PID]]
    by (simp add: terminate_root_process_def split: prod.splits)
qed

lemma reach_procs_ok:
  assumes "(kstep ob pc ^^ j) k k'" "procs_ok 0 (procs k)" "j < 2 ^ 64 - 3"
  shows "procs_ok j (procs k')"
  using assms
proof (induction j arbitrary: k')
  case (Suc j)
  then obtain k1 where "(kstep ob pc ^^ j) k k1" "kstep ob pc k1 k'" by auto
  then show ?case using Suc.IH [of k1] Suc.prems kstep_procs_ok [of ob pc k1 k' j] by simp
qed simp

section \<open>From boot\<close>

text \<open>The state in which \<open>register_boot_processes\<close> is called.\<close>

definition before_boot :: "nat \<Rightarrow> ('i, 'f, 'd, 'b, 'w) kernel \<Rightarrow> bool" where
  "before_boot n k \<longleftrightarrow> tasks (procs k) = [] \<and> current_index (procs k) = None \<and> cores (procs k) = scheduler_new n
     \<and> current_pid (procs k) = ROOT_PID \<and> next_pid (procs k) = 3"

lemma new_with_credentials_keeps:
  assumes "new_with_credentials ob m v fs stack p pp inode path name entry cr = Some (m1, v1, fs1, t)"
  shows "t_pid t = p \<and> t_state t = Ready"
proof -
  obtain m1 space where sp: "space_kernel m = (m1, Inr space)"
    using assms by (cases "space_kernel m"; cases "snd (space_kernel m)") (auto simp: new_with_credentials_def new_with_terminal_def)
  then show ?thesis using assms
    by (auto simp: new_with_credentials_def new_with_terminal_def Let_def split: prod.splits dest!: refresh_stdio_keeps)
qed

lemma set_task_state_idle:
  assumes "current_index s = None" "pid_index s p = Some k"
  shows "states (fst (set_task_state s p st)) = (states s)[k := st]" "current_index (fst (set_task_state s p st)) = None"
    "core_pids (fst (set_task_state s p st)) = core_pids s"
  using assms by (simp_all add: set_task_state_def Let_def current_def update_pid_def states_update_index_set)

lemma boot_procs_ok:
  assumes pre: "before_boot n k0" and b: "register_boot_processes ob stack1 stack2 dummy kio root_cwd shell k0 = Some k"
  shows "procs_ok 0 (procs k)"
proof -
  obtain inode path where ip: "(if shell then resolve_boot_home ob (k_vfs k0) (cr_home_dir credentials_root) root_cwd else (root_cwd, [slash])) = (inode, path)"
    by (metis prod.exhaust)
  obtain m1 v1 fs1 t where t: "new_with_credentials ob (k_machine k0) (k_vfs k0) (files k0) stack1 ROOT_PID 0 inode path
      (lit (if shell then ''shell'' else ''init'')) dummy credentials_root = Some (m1, v1, fs1, t)"
    using b by (cases "new_with_credentials ob (k_machine k0) (k_vfs k0) (files k0) stack1 ROOT_PID 0 inode path
      (lit (if shell then ''shell'' else ''init'')) dummy credentials_root") (simp_all add: register_boot_processes_def ip, fastforce)
  define init where "init = set_env (set_env (set_env t (lit ''HOME'') path) (lit ''PATH'') (lit ''/sbin:/bin:/usr/sbin:/usr/bin'')) (lit ''TERM'') (lit ''linux'')"
  have init: "t_pid init = 1" "t_state init = Ready"
    using new_with_credentials_keeps [OF t] by (simp_all add: init_def set_env_def ROOT_PID_def)
  define s1 where "s1 = add_task (procs k0) init"
  have s1: "tasks s1 = [init]" "current_index s1 = None" "cores s1 = scheduler_new n" "current_pid s1 = 1" "next_pid s1 = 3"
    using pre by (simp_all add: s1_def add_task_def before_boot_def ROOT_PID_def)
  have none: "task_by_pid s1 KERNEL_IO_TASK_PID = None"
    using init by (simp add: task_by_pid_def s1 KERNEL_IO_TASK_PID_def)
  obtain m2 v2 fs2 t2 where t2: "new_with_credentials ob m1 v1 fs1 stack2 KERNEL_IO_TASK_PID 0 root_cwd [slash] (lit ''kernel-io'') kio credentials_root
      = Some (m2, v2, fs2, t2)"
    using b none by (cases "new_with_credentials ob m1 v1 fs1 stack2 KERNEL_IO_TASK_PID 0 root_cwd [slash] (lit ''kernel-io'') kio credentials_root")
      (simp_all add: register_boot_processes_def ip t init_def [symmetric] s1_def [symmetric], fastforce)
  define s2 where "s2 = add_task s1 t2"
  have s2: "pids s2 = [1, 2]" "states s2 = [Ready, Ready]" "current_index s2 = None" "core_pids s2 = {}" "current_pid s2 = 1" "next_pid s2 = 3"
    using s1 init new_with_credentials_keeps [OF t2]
    by (auto simp: s2_def add_task_def pids_def states_def core_pids_def scheduler_new_def KERNEL_IO_TASK_PID_def)
  define s3 where "s3 = fst (set_task_state s2 ROOT_PID Running)"
  have i: "pid_index s2 ROOT_PID = Some 0" using pid_index_nth [of s2 0] s2(1) length_view(1) [of s2] by (cases "tasks s2") (simp_all add: ROOT_PID_def)
  have s3: "pids s3 = [1, 2]" "states s3 = [Running, Ready]" "current_index s3 = None" "core_pids s3 = {}" "current_pid s3 = 1" "next_pid s3 = 3"
    using s2 set_task_state_idle [OF s2(3) i, of Running] by (simp_all add: s3_def)
  have j: "pid_index s3 KERNEL_IO_TASK_PID = Some 1"
    using pid_index_nth [of s3 1] s3(1) length_view(1) [of s3] by (simp add: KERNEL_IO_TASK_PID_def)
  define s4 where "s4 = fst (set_task_state s3 KERNEL_IO_TASK_PID Ready)"
  have s4: "pids s4 = [1, 2]" "states s4 = [Running, Ready]" "current_index s4 = None" "core_pids s4 = {}" "current_pid s4 = 1" "next_pid s4 = 3"
    using s3 set_task_state_idle [OF s3(3) j, of Ready] by (simp_all add: s4_def)
  have l: "length (tasks s4) = 2" using s4(1) length_view(1) [of s4] by simp
  have "procs k = s4"
    using b none by (simp add: register_boot_processes_def ip t t2 init_def [symmetric] s1_def [symmetric] s2_def [symmetric] s3_def [symmetric] s4_def [symmetric])
      auto
  moreover have "sched_ok s4"
    by (rule sched_okI) (use s4 l in \<open>auto simp: less_2_cases_iff\<close>)
  ultimately show ?thesis using s4 by (simp add: procs_ok_def)
qed

text \<open>C10: In every state that the kernel reaches from boot in fewer than \<open>2 ^ 64 - 3\<close> steps the process ids of the tasks
  are distinct, the scheduler's position is in range, at most one task is running, and it is the current one once
  there is one, and every core that reports a process reports one that exists.\<close>

theorem scheduler_invariant:
  assumes "before_boot n k0" "register_boot_processes ob stack1 stack2 dummy kio root_cwd shell k0 = Some k"
    and "(kstep ob pc ^^ j) k k'" "j < 2 ^ 64 - 3"
  shows "distinct (map t_pid (tasks (procs k')))
     \<and> (\<forall>c. current_index (procs k') = Some c \<longrightarrow> c < length (tasks (procs k')))
     \<and> (\<forall>a b. a < length (tasks (procs k')) \<and> t_state (tasks (procs k') ! a) = Running
            \<and> b < length (tasks (procs k')) \<and> t_state (tasks (procs k') ! b) = Running \<longrightarrow> a = b)
     \<and> (\<forall>a c. a < length (tasks (procs k')) \<and> t_state (tasks (procs k') ! a) = Running \<and> current_index (procs k') = Some c \<longrightarrow> a = c)
     \<and> (\<forall>c p. c \<in> set (cores (procs k')) \<and> workload c = RunTask p \<longrightarrow> p \<in> t_pid ` set (tasks (procs k')))"
proof -
  have "sched_ok (procs k')" using reach_procs_ok [OF assms(3) boot_procs_ok [OF assms(1,2)] assms(4)] by (simp add: procs_ok_def)
  note d = sched_okD [OF this]
  have one: "a = b" if "a < length (tasks (procs k'))" "states (procs k') ! a = Running" "b < length (tasks (procs k'))" "states (procs k') ! b = Running" for a b
    using d(3,4) that by (cases "current_index (procs k')") metis+
  show ?thesis using d(1-3,5) one by (auto simp: nth_view) (auto simp: pids_def core_pids_def)
qed

lemma space_kernel_free:
  assumes "has_free m (f # fs)" "phys_offset m \<noteq> None" "kernel_root_frame m = Some kr"
  shows "\<exists>m' sp. space_kernel m = (m', Inr sp) \<and> has_free m' fs \<and> phys_offset m' \<noteq> None \<and> kernel_root_frame m' = Some kr"
proof -
  obtain m1 where m1: "new_frame m = (Some f, m1)" "has_free m1 fs" "phys_offset m1 = phys_offset m"
    using has_free_new [OF assms(1)] by blast
  have "kernel_root_frame m1 = Some kr" using m1(1) assms(3) by (auto simp: new_frame_def Let_def split: prod.splits)
  then show ?thesis using m1 assms(2)
    by (auto simp: space_kernel_def Let_def zero_frame_def copy_kernel_root_entries_def copy_bytes_def has_free_def)
qed

lemma new_with_credentials_returns:
  assumes "space_kernel m = (m1, Inr sp)"
  shows "\<exists>v1 fs1 t. new_with_credentials ob m v fs stack p pp inode path name entry cr = Some (m1, v1, fs1, t)"
  using assms by (simp add: new_with_credentials_def new_with_terminal_def Let_def split: prod.splits) (metis prod.exhaust)

definition demo_kernel :: "(nat, nat, unit, unit, unit) kernel" where
  "demo_kernel = \<lparr>procs = \<lparr>tasks = [], current_index = None, cores = scheduler_new 1, current_pid = ROOT_PID, next_pid = 3, now_ns = 0,
     cpu_root = 0, tss_rsp0 = 0, syscall_stack_top = 0, user_bases = (0, 0)\<rparr>, k_machine = demo_machine, k_vfs = demo_vfs [], files = [],
     foreground = [], tty_input_queue = wq_new\<rparr>"

theorem scheduler_invariant_witness:
  "\<exists>k k'. register_boot_processes demo_objects 65536 131072 1 2 0 False demo_kernel = Some k
     \<and> (kstep demo_objects x86_crate ^^ 1) k k' \<and> distinct (map t_pid (tasks (procs k')))"
proof -
  have pre: "before_boot 1 demo_kernel" by (simp add: before_boot_def demo_kernel_def)
  have "has_free demo_machine [16384, 20480, 24576, 28672, 32768, 36864, 40960]" "phys_offset demo_machine \<noteq> None" "kernel_root_frame demo_machine = Some 4096"
    by (simp_all add: has_free_def demo_machine_def)
  then obtain m1 sp1 where m1: "space_kernel demo_machine = (m1, Inr sp1)" "has_free m1 [20480, 24576, 28672, 32768, 36864, 40960]"
      "phys_offset m1 \<noteq> None" "kernel_root_frame m1 = Some 4096"
    using space_kernel_free by blast
  then obtain m2 sp2 where m2: "space_kernel m1 = (m2, Inr sp2)" using space_kernel_free by blast
  obtain v1 fs1 t1 where t1: "new_with_credentials demo_objects demo_machine (demo_vfs []) [] 65536 ROOT_PID 0 0 [slash] (lit ''init'') 1 credentials_root
      = Some (m1, v1, fs1, t1)" using new_with_credentials_returns [OF m1(1), of demo_objects "demo_vfs []" "[]" 65536 ROOT_PID 0 0 "[slash]" "lit ''init''" 1 credentials_root]
    by (elim exE) (rule that)
  obtain v2 fs2 t2 where t2: "new_with_credentials demo_objects m1 v1 fs1 131072 KERNEL_IO_TASK_PID 0 0 [slash] (lit ''kernel-io'') 2 credentials_root
      = Some (m2, v2, fs2, t2)" using new_with_credentials_returns [OF m2, of demo_objects v1 fs1 131072 KERNEL_IO_TASK_PID 0 0 "[slash]" "lit ''kernel-io''" 2 credentials_root]
    by (elim exE) (rule that)
  have "t_pid t1 = 1" using new_with_credentials_keeps [OF t1] by (simp add: ROOT_PID_def)
  then have "\<exists>k. register_boot_processes demo_objects 65536 131072 1 2 0 False demo_kernel = Some k"
    using t1 t2 unfolding register_boot_processes_def demo_kernel_def
    by (simp add: add_task_def set_env_def task_by_pid_def KERNEL_IO_TASK_PID_def)
  then obtain k where k: "register_boot_processes demo_objects 65536 131072 1 2 0 False demo_kernel = Some k" ..
  have step: "(kstep demo_objects x86_crate ^^ 1) k (k\<lparr>procs := fst (schedule_on (procs k) 0)\<rparr>)"
    using k_schedule [of demo_objects x86_crate k 0] by auto
  show ?thesis using scheduler_invariant [OF pre k step] k step by auto
qed

section \<open>Waiting for children\<close>

text \<open>A task without its processor times, which a parent's wait changes.\<close>

definition but_times :: "'i task \<Rightarrow> 'i task" where
  "but_times t = t\<lparr>cpu_time := acct_new\<rparr>"

lemma but_times_update_pid:
  "map but_times (tasks (update_pid s p (\<lambda>u. u\<lparr>cpu_time := g u\<rparr>))) = map but_times (tasks s)"
  by (auto simp: update_pid_def update_index_def but_times_def map_update list_update_same_conv split: option.splits)

lemma remove_nth_eq_filter:
  assumes "distinct (map f xs)" "k < length xs"
  shows "remove_nth k xs = filter (\<lambda>x. f x \<noteq> f (xs ! k)) xs"
proof -
  have xs: "xs = take k xs @ xs ! k # drop (Suc k) xs" using id_take_nth_drop [OF assms(2)] .
  have "distinct (map f (take k xs @ xs ! k # drop (Suc k) xs))" using assms(1) xs by simp
  then have "\<forall>x \<in> set (take k xs). f x \<noteq> f (xs ! k)" "\<forall>x \<in> set (drop (Suc k) xs). f x \<noteq> f (xs ! k)"
    by (auto simp: image_iff)
  then have "filter (\<lambda>x. f x \<noteq> f (xs ! k)) (take k xs @ xs ! k # drop (Suc k) xs) = remove_nth k xs"
    by (simp add: remove_nth_def)
  then show ?thesis using xs by simp
qed

text \<open>Whether \<open>q\<close> has a child that a wait for \<open>p\<close> covers, and one that has ended.\<close>

definition has_child :: "pid \<Rightarrow> pid option \<Rightarrow> ('i, 'f, 'd, 'b, 'w) kernel \<Rightarrow> bool" where
  "has_child q p k \<longleftrightarrow> (\<exists>t \<in> set (tasks (procs k)). waited q p t)"

definition has_ended :: "pid \<Rightarrow> pid option \<Rightarrow> ('i, 'f, 'd, 'b, 'w) kernel \<Rightarrow> bool" where
  "has_ended q p k \<longleftrightarrow> (\<exists>t \<in> set (tasks (procs k)). waited q p t \<and> t_state t = Zombie)"

text \<open>The state at the poll after \<open>n\<close> interrupts, when the polls before have changed nothing.\<close>

definition at_poll where
  "at_poll irqs k n = foldl (\<lambda>k irq. idle_until_interrupt irq k) k (take n irqs)"

lemma at_poll_0 [simp]: "at_poll irqs k 0 = k"
  by (simp add: at_poll_def)

lemma at_poll_Suc [simp]: "at_poll (irq # irqs) k (Suc n) = at_poll irqs (idle_until_interrupt irq k) n"
  by (simp add: at_poll_def)

lemma wait_poll_cases:
  assumes "wait_poll ob k q p = (k', x)"
  shows "\<not> has_child q p k \<Longrightarrow> k' = k \<and> x = Inl (-10)" "has_child q p k \<Longrightarrow> \<not> has_ended q p k \<Longrightarrow> k' = k \<and> x = Inr None"
    "has_ended q p k \<Longrightarrow> \<exists>c status. x = Inr (Some (c, status))"
proof -
  have same: "(\<exists>t \<in> set (tasks (procs k)). parent_pid t = q \<and> (case p of None \<Rightarrow> True | Some p \<Rightarrow> t_pid t = p)) \<longleftrightarrow> has_child q p k"
    by (cases p) (auto simp: waited_def has_child_def)
  have "k' = k \<and> x = (if has_child q p k then Inr None else Inl (-10))" if "\<not> has_ended q p k"
  proof -
    have "reap_zombie_child (procs k) q p = (procs k, None)" using that reap_none [of "procs k"] unfolding has_ended_def by blast
    then show ?thesis using assms same by (auto simp: wait_poll_def split: if_splits)
  qed
  moreover have "has_child q p k" if "has_ended q p k" using that by (auto simp: has_child_def has_ended_def)
  ultimately show "\<not> has_child q p k \<Longrightarrow> k' = k \<and> x = Inl (-10)" "has_child q p k \<Longrightarrow> \<not> has_ended q p k \<Longrightarrow> k' = k \<and> x = Inr None" by auto
  show "\<exists>c status. x = Inr (Some (c, status))" if "has_ended q p k"
  proof -
    have "snd (reap_zombie_child (procs k) q p) \<noteq> None"
      using that reap_none [of "procs k" q p] unfolding has_ended_def by (metis prod.collapse)
    then obtain c status t s1 where "reap_zombie_child (procs k) q p = (s1, Some (c, status, t))"
      by (metis option.exhaust prod.collapse)
    then show ?thesis using assms by (auto simp: wait_poll_def)
  qed
qed

lemma wait_poll_reaped:
  assumes ok: "distinct (map t_pid (tasks (procs k)))" and w: "wait_poll ob k q p = (k', Inr (Some (c, status)))"
  shows "\<exists>t \<in> set (tasks (procs k)). waited q p t \<and> t_state t = Zombie \<and> t_pid t = c \<and> exit_code t = status"
    "map but_times (tasks (procs k')) = map but_times (filter (\<lambda>t. t_pid t \<noteq> c) (tasks (procs k)))"
    "snd (wait_for_child_with_options ob irqs k' (Some c) b) = Some (Inl (-10))"
proof -
  obtain s1 t where r: "reap_zombie_child (procs k) q p = (s1, Some (c, status, t))"
    using w by (cases "reap_zombie_child (procs k) q p"; cases "snd (reap_zombie_child (procs k) q p)")
      (auto simp: wait_poll_def split: if_splits)
  then have s1: "procs k' = s1" using procs_wait_poll [of ob k q p] w by simp
  from r obtain n where n: "n < length (tasks (procs k))" "tasks (procs k) ! n = t" "waited q p t" "t_state t = Zombie" "c = t_pid t" "status = exit_code t"
      "tasks s1 = tasks (update_pid ((procs k)\<lparr>tasks := remove_nth n (tasks (procs k))\<rparr>) q
         (\<lambda>u. u\<lparr>cpu_time := reap (cpu_time u) (cpu_time t) (now_ns (procs k))\<rparr>))"
    by (rule reap_some)
  have "t \<in> set (tasks (procs k))" using n(1,2) by auto
  then show "\<exists>t \<in> set (tasks (procs k)). waited q p t \<and> t_state t = Zombie \<and> t_pid t = c \<and> exit_code t = status"
    using n by blast
  show left: "map but_times (tasks (procs k')) = map but_times (filter (\<lambda>t. t_pid t \<noteq> c) (tasks (procs k)))"
    unfolding s1 n(7) but_times_update_pid using remove_nth_eq_filter [OF ok n(1)] n(2,5) by simp
  have "t_pid ` set (map but_times (tasks (procs k'))) = t_pid ` set (map but_times (filter (\<lambda>t. t_pid t \<noteq> c) (tasks (procs k))))"
    by (simp only: left)
  then have "c \<notin> t_pid ` set (tasks (procs k'))" by (auto simp: but_times_def image_image)
  then have "\<not> has_child (me k') (Some c) k'" by (auto simp: waited_def has_child_def)
  moreover obtain k2 x where x: "wait_poll ob k' (me k') (Some c) = (k2, x)" by fastforce
  ultimately have "x = Inl (-10)" using wait_poll_cases(1) [OF x] by simp
  then show "snd (wait_for_child_with_options ob irqs k' (Some c) b) = Some (Inl (-10))"
    unfolding wait_for_child_with_options_def by (subst wait_loop.simps) (simp add: x)
qed

text \<open>The loop ends at the first poll that finds something to report, or at once.\<close>

lemma wait_loop_polls:
  assumes "wait_loop ob q p nohang irqs k = (k', r)"
  shows "\<exists>n \<le> length irqs. (\<forall>i < n. has_child q p (at_poll irqs k i) \<and> \<not> has_ended q p (at_poll irqs k i)) \<and> (nohang \<longrightarrow> n = 0)
    \<and> (case r of
         None \<Rightarrow> \<not> nohang \<and> n = length irqs \<and> has_child q p (at_poll irqs k n) \<and> \<not> has_ended q p (at_poll irqs k n)
       | Some x \<Rightarrow> wait_poll ob (at_poll irqs k n) q p = (k', x) \<and> (x = Inr None \<longrightarrow> nohang))"
  using assms
proof (induction irqs arbitrary: k)
  case Nil
  obtain k1 x where x: "wait_poll ob k q p = (k1, x)" by fastforce
  have "x = Inr None \<Longrightarrow> has_child q p k \<and> \<not> has_ended q p k" using wait_poll_cases [OF x] by auto
  with Nil x show ?case by (subst (asm) wait_loop.simps) (auto split: sum.splits option.splits if_splits)
next
  case (Cons irq irqs)
  obtain k1 x where x: "wait_poll ob k q p = (k1, x)" by fastforce
  have w: "x = Inr None \<Longrightarrow> has_child q p k \<and> \<not> has_ended q p k \<and> k1 = k" using wait_poll_cases [OF x] by auto
  show ?case
  proof (cases "x = Inr None \<and> \<not> nohang")
    case False
    then have "k' = k1 \<and> r = Some x" using Cons.prems x by (subst (asm) wait_loop.simps) (auto split: sum.splits option.splits)
    then show ?thesis using x False by (intro exI [of _ 0]) auto
  next
    case True
    then have "wait_loop ob q p nohang irqs (idle_until_interrupt irq k) = (k', r)"
      using Cons.prems x w by (subst (asm) wait_loop.simps) simp
    from Cons.IH [OF this] obtain n where n: "n \<le> length irqs"
      "\<forall>i < n. has_child q p (at_poll irqs (idle_until_interrupt irq k) i) \<and> \<not> has_ended q p (at_poll irqs (idle_until_interrupt irq k) i)"
      "case r of
         None \<Rightarrow> \<not> nohang \<and> n = length irqs \<and> has_child q p (at_poll irqs (idle_until_interrupt irq k) n) \<and> \<not> has_ended q p (at_poll irqs (idle_until_interrupt irq k) n)
       | Some x \<Rightarrow> wait_poll ob (at_poll irqs (idle_until_interrupt irq k) n) q p = (k', x) \<and> (x = Inr None \<longrightarrow> nohang)" by blast
    have "\<forall>i < Suc n. has_child q p (at_poll (irq # irqs) k i) \<and> \<not> has_ended q p (at_poll (irq # irqs) k i)"
      using n(2) w True by (auto simp: less_Suc_eq_0_disj)
    then show ?thesis using n(1,3) True by (intro exI [of _ "Suc n"]) (auto split: option.splits)
  qed
qed

text \<open>C8: Waiting for children, blocking or not. The caller looks for an ended child at once and, when it blocks, again after every interrupt; it
  stops at the first look (after \<open>n\<close> interrupts) where there is something to report, which without blocking is the first one. There it fails with ECHILD exactly when it has no child
  that it waits for, returns nothing exactly when it does not block and none has ended, and otherwise returns the id and the exit status of a
  child that has ended; that task and no other is gone, and any wait for it fails with ECHILD. A blocking wait is
  still waiting exactly when at every look there was such a child and none had ended. (What happens during an interrupt is arbitrary, except that task ids stay
  distinct.)\<close>

theorem children_reaped_once:
  assumes "\<forall>n \<le> length irqs. distinct (map t_pid (tasks (procs (at_poll irqs k n))))"
    and "wait_for_child_with_options ob irqs k p nohang = (k', r)"
  shows "(r = None \<longleftrightarrow> \<not> nohang \<and> (\<forall>n \<le> length irqs. has_child (me k) p (at_poll irqs k n) \<and> \<not> has_ended (me k) p (at_poll irqs k n)))
    \<and> (r \<noteq> None \<longrightarrow> (\<exists>n \<le> length irqs. (\<forall>i < n. has_child (me k) p (at_poll irqs k i) \<and> \<not> has_ended (me k) p (at_poll irqs k i))
        \<and> (nohang \<longrightarrow> n = 0)
        \<and> (\<forall>e. r = Some (Inl e) \<longleftrightarrow> e = -10 \<and> \<not> has_child (me k) p (at_poll irqs k n))
        \<and> (r = Some (Inr None) \<longleftrightarrow> nohang \<and> has_child (me k) p (at_poll irqs k n) \<and> \<not> has_ended (me k) p (at_poll irqs k n))
        \<and> ((\<exists>c status. r = Some (Inr (Some (c, status)))) \<longleftrightarrow> has_ended (me k) p (at_poll irqs k n))
        \<and> (\<forall>c status. r = Some (Inr (Some (c, status))) \<longrightarrow>
              (\<exists>t \<in> set (tasks (procs (at_poll irqs k n))). waited (me k) p t \<and> t_state t = Zombie \<and> t_pid t = c \<and> exit_code t = status)
            \<and> map but_times (tasks (procs k')) = map but_times (filter (\<lambda>t. t_pid t \<noteq> c) (tasks (procs (at_poll irqs k n))))
            \<and> snd (wait_for_child_with_options ob irqs' k' (Some c) nohang') = Some (Inl (-10)))))"
proof -
  obtain n where n: "n \<le> length irqs" "\<forall>i < n. has_child (me k) p (at_poll irqs k i) \<and> \<not> has_ended (me k) p (at_poll irqs k i)" "nohang \<longrightarrow> n = 0"
    and r: "case r of
         None \<Rightarrow> \<not> nohang \<and> n = length irqs \<and> has_child (me k) p (at_poll irqs k n) \<and> \<not> has_ended (me k) p (at_poll irqs k n)
       | Some x \<Rightarrow> wait_poll ob (at_poll irqs k n) (me k) p = (k', x) \<and> (x = Inr None \<longrightarrow> nohang)"
    using wait_loop_polls assms(2) unfolding wait_for_child_with_options_def by blast
  have hc: "has_ended (me k) p k0 \<Longrightarrow> has_child (me k) p k0" for k0 :: "('a, 'b, 'c, 'd, 'e) kernel" by (auto simp: has_child_def has_ended_def)
  show ?thesis
  proof (cases r)
    case None
    with r have "\<not> nohang" "n = length irqs" "has_child (me k) p (at_poll irqs k n) \<and> \<not> has_ended (me k) p (at_poll irqs k n)" by auto
    with None n(2) show ?thesis by (auto simp: le_less)
  next
    case (Some x)
    with r have x: "wait_poll ob (at_poll irqs k n) (me k) p = (k', x)" "x = Inr None \<longrightarrow> nohang" by simp_all
    note c = wait_poll_cases [OF x(1)]
    have "nohang \<or> \<not> (has_child (me k) p (at_poll irqs k n) \<and> \<not> has_ended (me k) p (at_poll irqs k n))" using c(2) x(2) by blast
    moreover have "x = Inl e \<longleftrightarrow> e = -10 \<and> \<not> has_child (me k) p (at_poll irqs k n)" "(\<exists>c status. x = Inr (Some (c, status))) \<longleftrightarrow> has_ended (me k) p (at_poll irqs k n)"
      "x = Inr None \<longleftrightarrow> nohang \<and> has_child (me k) p (at_poll irqs k n) \<and> \<not> has_ended (me k) p (at_poll irqs k n)" for e
      using c x(2) hc [of "at_poll irqs k n"] by auto
    moreover have "(\<exists>t \<in> set (tasks (procs (at_poll irqs k n))). waited (me k) p t \<and> t_state t = Zombie \<and> t_pid t = c \<and> exit_code t = status)
        \<and> map but_times (tasks (procs k')) = map but_times (filter (\<lambda>t. t_pid t \<noteq> c) (tasks (procs (at_poll irqs k n))))
        \<and> snd (wait_for_child_with_options ob irqs' k' (Some c) nohang') = Some (Inl (-10))" if "x = Inr (Some (c, status))" for c status
      using wait_poll_reaped [of "at_poll irqs k n" ob "me k" p k' c status] assms(1) n(1) x(1) that by blast
    ultimately show ?thesis using n Some by (intro conjI) (blast, auto)
  qed
qed

text \<open>A child ends while its parent waits.\<close>

theorem children_reaped_once_witness:
  "\<exists>k'. wait_for_child_with_options demo_objects [\<lambda>k. k\<lparr>procs := sample_procs Running Zombie\<rparr>] (demo_kernel\<lparr>procs := sample_procs Running Ready\<rparr>) (Some 3) False
       = (k', Some (Inr (Some (3, 7))))
     \<and> snd (wait_for_child_with_options demo_objects [] k' (Some 3) True) = Some (Inl (-10))"
proof -
  let ?k = "demo_kernel\<lparr>procs := sample_procs Running Ready\<rparr>" and ?irqs = "[\<lambda>k. k\<lparr>procs := sample_procs Running Zombie\<rparr>]"
  have p: "\<exists>t. tasks (procs (at_poll ?irqs ?k 1)) = [t, sample_task 3 Zombie] \<and> t_pid t = 1"
    by (simp add: at_poll_def idle_until_interrupt_def resume_cpu_accounting_def update_task_def update_pid_def pid_index_def
        update_index_def sample_procs_def sample_task_def)
  then have d: "\<forall>n \<le> length ?irqs. distinct (map t_pid (tasks (procs (at_poll ?irqs ?k n))))"
    by (auto simp: le_Suc_eq sample_procs_def sample_task_def)
  obtain k' r where w: "wait_for_child_with_options demo_objects ?irqs ?k (Some 3) False = (k', r)" by fastforce
  have h: "has_child 1 (Some 3) ?k" "\<not> has_ended 1 (Some 3) ?k" "me ?k = 1" "has_ended 1 (Some 3) (at_poll ?irqs ?k 1)"
    using p by (auto simp: has_child_def has_ended_def waited_def sample_procs_def sample_task_def)
  note c = children_reaped_once [OF d w, of "[]" True, unfolded h(3)]
  have "r \<noteq> None" using c h(4) by auto
  with c obtain n where n: "n \<le> 1" "\<And>e. r = Some (Inl e) \<longleftrightarrow> e = -10 \<and> \<not> has_child 1 (Some 3) (at_poll ?irqs ?k n)"
    "r \<noteq> Some (Inr None)"
    "(\<exists>c status. r = Some (Inr (Some (c, status)))) \<longleftrightarrow> has_ended 1 (Some 3) (at_poll ?irqs ?k n)"
    "\<And>c status. r = Some (Inr (Some (c, status))) \<Longrightarrow>
        (\<exists>t \<in> set (tasks (procs (at_poll ?irqs ?k n))). waited 1 (Some 3) t \<and> t_state t = Zombie \<and> t_pid t = c \<and> exit_code t = status)
      \<and> snd (wait_for_child_with_options demo_objects [] k' (Some c) True) = Some (Inl (-10))" by auto
  have r: "r \<in> {Some (Inl e) |e. True} \<union> {Some (Inr None)} \<union> {Some (Inr (Some (c, status))) |c status. True}"
    using \<open>r \<noteq> None\<close> by (cases r; cases "the r"; cases "projr (the r)") auto
  have "n = 1"
  proof (rule ccontr)
    assume "n \<noteq> 1"
    with n(1) have "n = 0" by simp
    then have "\<not> (\<exists>c status. r = Some (Inr (Some (c, status))))" "r \<noteq> Some (Inl e)" for e using n(2,4) h(1,2) by auto
    with r n(3) show False by auto
  qed
  then obtain c status where s: "r = Some (Inr (Some (c, status)))" using n(4) h(4) by blast
  note e = n(5) [OF s, unfolded \<open>n = 1\<close>]
  then have "c = 3" "status = 7" using p by (auto simp: sample_task_def waited_def)
  then show ?thesis using w s e by auto
qed

end
