(* ===== verification/Probe.thy ===== *)
theory Probe
  imports Process_Props
begin

unbundle bit_operations_syntax

text \<open>
  Paths relative to the current task and \<open>open\<close>, \<open>syscall/impls.rs\<close>, and the search for the program that \<open>execve\<close> loads.
  A file is probed through a descriptor of the current task: it is opened, its first bytes are
  read, and it is closed again. The lemmas show what is left of that.
\<close>

section \<open>Paths\<close>

definition resolve_absolute_from_current_cwd where
  "resolve_absolute_from_current_cwd k path =
     (let p = str_trim path
      in if p = [] then Inl NotFound
         else if starts_with [slash] p then normalize_absolute_path p
         else let cwd = (case task_of k (me k) of None \<Rightarrow> [slash] | Some t \<Rightarrow> cwd_path t);
                  joined = (if cwd = [slash] then slash # p else trim_end ((=) slash) cwd @ slash # p)
              in normalize_absolute_path joined)"

definition resolve_path_from_current_cwd where
  "resolve_path_from_current_cwd ob k path =
     (case resolve_absolute_from_current_cwd k path of Inl e \<Rightarrow> Inl e | Inr a \<Rightarrow> lookup_path ob (k_vfs k) a)"

definition resolve_parent_from_current_cwd where
  "resolve_parent_from_current_cwd ob k path =
     (case resolve_absolute_from_current_cwd k path of
        Inl e \<Rightarrow> Inl e
      | Inr a \<Rightarrow>
          if a = [slash] then Inl NotFound
          else let (parent_path, name) = (case rsplit_once slash a of None \<Rightarrow> ([slash], a) | Some r \<Rightarrow> r)
               in case lookup_path ob (k_vfs k) (if parent_path = [] \<or> parent_path = [slash] then [slash] else parent_path) of
                    Inl e \<Rightarrow> Inl e
                  | Inr parent \<Rightarrow> Inr (parent, name))"

definition create_from_current_cwd where
  "create_from_current_cwd ob k path file_type =
     (case resolve_parent_from_current_cwd ob k path of
        Inl e \<Rightarrow> (k, Inl e)
      | Inr (parent, name) \<Rightarrow>
          (let (r, w) = i_create ob (world (k_vfs k)) parent name file_type in (k\<lparr>k_vfs := (k_vfs k)\<lparr>world := w\<rparr>\<rparr>, r)))"

definition impl_mkdir where
  "impl_mkdir ob k path =
     (case create_from_current_cwd ob k path FtDirectory of
        (k1, Inl e) \<Rightarrow> (k1, Inl (errno_from_fs e))
      | (k1, Inr _) \<Rightarrow> (k1, Inr ()))"

definition impl_getcwd where
  "impl_getcwd k = (case task_of k (me k) of None \<Rightarrow> Inl (-2 :: int) | Some t \<Rightarrow> Inr (cwd_path t))"

definition impl_chdir where
  "impl_chdir ob k path =
     (case resolve_path_from_current_cwd ob k path of
        Inl e \<Rightarrow> (k, Inl (errno_from_fs e))
      | Inr inode \<Rightarrow>
          if i_file_type ob inode \<noteq> FtDirectory then (k, Inl (-20))
          else case resolve_absolute_from_current_cwd k path of
                 Inl e \<Rightarrow> (k, Inl (errno_from_fs e))
               | Inr a \<Rightarrow> set_current_cwd ob k inode a)"

definition impl_write_file where
  "impl_write_file ob k path bytes =
     (case resolve_absolute_from_current_cwd k path of
        Inl e \<Rightarrow> (k, Inl (errno_from_fs e))
      | Inr a \<Rightarrow>
          (let (found, v) = (case lookup_path ob (k_vfs k) a of
                               Inl NotFound \<Rightarrow> create_path ob (k_vfs k) a FtRegular
                             | r \<Rightarrow> (r, k_vfs k))
           in case found of
                Inl e \<Rightarrow> (k\<lparr>k_vfs := v\<rparr>, Inl (errno_from_fs e))
              | Inr inode \<Rightarrow>
                  (let (r, w) = i_write ob (world v) inode 0 bytes
                   in (k\<lparr>k_vfs := v\<lparr>world := w\<rparr>\<rparr>, case r of Inl e \<Rightarrow> Inl (errno_from_fs e) | Inr n \<Rightarrow> Inr n))))"

section \<open>Opening\<close>

definition current_uid where
  "current_uid k = (case task_of k (me k) of None \<Rightarrow> 0 | Some t \<Rightarrow> cr_uid (creds t))"

definition current_gid where
  "current_gid k = (case task_of k (me k) of None \<Rightarrow> 0 | Some t \<Rightarrow> cr_gid (creds t))"

text \<open>The flag \<open>O_CREAT\<close>: the file is created when it does not exist. The inode's \<open>set_metadata\<close>, like its \<open>truncate\<close> below, is a method
  of a trait object and an argument.\<close>

definition open_create where
  "open_create ob set_metadata k a flags permissions =
     (case lookup_path ob (k_vfs k) a of
        Inr _ \<Rightarrow> (k, if flags AND 0x80 \<noteq> (0 :: usize) then Some (-17) else None)
      | Inl NotFound \<Rightarrow>
          (case create_path ob (k_vfs k) a FtRegular of
             (Inr inode, v) \<Rightarrow>
               if i_filesystem_name ob inode = lit ''tmpfs'' \<or> i_filesystem_name ob inode = lit ''ramfs'' then
                 (let (r, w) = set_metadata (world v) inode (Some (current_uid k), Some (current_gid k), Some (permissions AND (0xfff :: u16)))
                  in (k\<lparr>k_vfs := v\<lparr>world := w\<rparr>\<rparr>, case r of Inl e \<Rightarrow> Some (errno_from_fs e) | Inr () \<Rightarrow> None))
               else (k\<lparr>k_vfs := v\<rparr>, None)
           | (Inl e, v) \<Rightarrow> (k\<lparr>k_vfs := v\<rparr>, if e = AlreadyExists \<and> flags AND 0x80 = 0 then None else Some (errno_from_fs e)))
      | Inl e \<Rightarrow> (k, Some (errno_from_fs e)))"

definition open_with_mode where
  "open_with_mode ob i_truncate set_metadata k path (flags :: usize) permissions =
     (case resolve_absolute_from_current_cwd k path of
        Inl e \<Rightarrow> (k, Inl (errno_from_fs e))
      | Inr a \<Rightarrow>
          if flags AND 3 = 3 \<or> flags AND 0x10040 = 0x10040 then (k, Inl (-22))
          else (case if flags AND 0x40 \<noteq> 0 then open_create ob set_metadata k a flags permissions else (k, None) of
            (k1, Some e) \<Rightarrow> (k1, Inl e)
          | (k1, None) \<Rightarrow>
              (case open_path ob (k_vfs k1) a of
                 (v, Inl e) \<Rightarrow> (k1\<lparr>k_vfs := v\<rparr>, Inl (errno_from_fs e))
               | (v, Inr f) \<Rightarrow>
                   (let dropped = (\<lambda>v. k1\<lparr>k_vfs := fst (file_drop ob v f)\<rparr>)
                    in if flags AND 0x10000 \<noteq> 0 \<and> i_file_type ob (of_inode f) \<noteq> FtDirectory then (dropped v, Inl (-20))
                       else if flags AND 0x200 \<noteq> 0 \<and> flags AND 3 = 0 then (dropped v, Inl (-22))
                       else (case if flags AND 0x200 \<noteq> 0 then i_truncate (world v) (of_inode f) (0 :: nat) else (Inr (), world v) of
                              (Inl e, w) \<Rightarrow> (dropped (v\<lparr>world := w\<rparr>), Inl (errno_from_fs e))
                            | (Inr (), w) \<Rightarrow>
                                open_file_current ob (k1\<lparr>k_vfs := v\<lparr>world := w\<rparr>\<rparr>) (f\<lparr>append_mode := flags AND 0x400 \<noteq> 0\<rparr>)
                                  (if flags AND O_CLOEXEC \<noteq> 0 then FD_CLOEXEC else 0)
                                  (if flags AND 3 = 0 then ReadOnly else if flags AND 3 = 1 then WriteOnly else ReadWrite))))))"

definition impl_open where
  "impl_open ob i_truncate set_metadata k path flags = open_with_mode ob i_truncate set_metadata k path flags 0x1a4"

section \<open>Probing\<close>

text \<open>\<open>open\<close> with the flags 0: no file is created or truncated, any file type is accepted, and the descriptor is kept on exec.\<close>

definition impl_open_read where
  "impl_open_read ob k path =
     (case resolve_absolute_from_current_cwd k path of
        Inl e \<Rightarrow> (k, Inl (errno_from_fs e))
      | Inr a \<Rightarrow>
          (case open_path ob (k_vfs k) a of
             (v, Inl e) \<Rightarrow> (k\<lparr>k_vfs := v\<rparr>, Inl (errno_from_fs e))
           | (v, Inr f) \<Rightarrow> open_file_current ob (k\<lparr>k_vfs := v\<rparr>) (f\<lparr>append_mode := False\<rparr>) 0 ReadOnly))"

lemma impl_open_0: "impl_open ob i_truncate set_metadata k path 0 = impl_open_read ob k path"
proof -
  have w: "v\<lparr>world := world v\<rparr> = v" for v :: "('a, 'b, 'c, 'd, 'e) vfs" by (cases v) simp
  show ?thesis by (simp add: impl_open_def open_with_mode_def impl_open_read_def w split: sum.split prod.split unit.split)
qed

definition probe_head where
  "probe_head ob k path n =
     (case impl_open_read ob k path of
        (k1, Inl e) \<Rightarrow> (k1, Inl e)
      | (k1, Inr fd) \<Rightarrow> (let (k2, r) = read_fd ob k1 fd n; (k3, _) = close_fd_current ob k2 fd in (k3, r)))"

definition probe_current where
  "probe_current ob hs k request =
     (let (k1, head) = probe_head ob k (er_path request) PROBE_READ_LIMIT in (k1, probe_path (\<lambda>_ _. head) hs request))"

text \<open>The loop of \<open>execve_with_args\<close> up to the load plan.\<close>

function exec_probe where
  "exec_probe ob hs redirects k request =
     (case probe_current ob hs k request of
        (k1, None) \<Rightarrow> None
      | (k1, Some (Inl e)) \<Rightarrow> Some (k1, Inl (exec_errno e))
      | (k1, Some (Inr (Load plan))) \<Rightarrow>
          Some (k1, if interpreter plan \<noteq> None then Inl (-8) else Inr (plan, request))
      | (k1, Some (Inr (Redirect next_request))) \<Rightarrow>
          if MAX_INTERPRETER_REDIRECTS \<le> redirects then Some (k1, Inl (-40))
          else let resolved = (case resolve_symlink_path ob (k_vfs k1) (er_path next_request) of Inl _ \<Rightarrow> er_path next_request | Inr p \<Rightarrow> p)
               in exec_probe ob hs (redirects + 1) k1 (next_request\<lparr>er_path := resolved\<rparr>))"
  by pat_completeness auto
termination
  by (relation "measure (\<lambda>(_, _, redirects, _, _). MAX_INTERPRETER_REDIRECTS - redirects)") auto

declare exec_probe.simps [simp del]

text \<open>The loop is the one of \<open>exec_redirect\<close>, with the kernel passed through the probes: as long as every probe and resolution
  answers the same in all states that can occur, it has the same outcome.\<close>

lemma exec_probe_redirect:
  assumes "I k" "\<And>k request. I k \<Longrightarrow> I (fst (probe_current ob hs k request)) \<and> snd (probe_current ob hs k request) = probe request"
    and "\<And>k p. I k \<Longrightarrow> (case resolve_symlink_path ob (k_vfs k) p of Inl _ \<Rightarrow> None | Inr q \<Rightarrow> Some q) = resolve p"
  shows "map_option snd (exec_probe ob hs n k request) = fst (exec_redirect probe resolve n request)"
  using assms(1)
proof (induction "MAX_INTERPRETER_REDIRECTS - n" arbitrary: n k request)
  case 0
  obtain k1 r where p: "probe_current ob hs k request = (k1, r)" by fastforce
  with assms(2) [OF 0(2), of request] have "I k1" "probe request = r" by simp_all
  with 0(1) p show ?case unfolding exec_probe.simps [of ob hs n] exec_redirect.simps [of probe resolve n]
    by (auto split: option.split sum.split binary_format_action.split)
next
  case (Suc d)
  obtain k1 r where p: "probe_current ob hs k request = (k1, r)" by fastforce
  with assms(2) [OF Suc(3), of request] have r: "I k1" "probe request = r" by simp_all
  have IH: "map_option snd (exec_probe ob hs (n + 1) k1 req) = fst (exec_redirect probe resolve (n + 1) req)" for req
    using Suc(1) [of "n + 1" k1 req] Suc(2) r(1) by simp
  have rs: "(case resolve_symlink_path ob (k_vfs k1) p of Inl _ \<Rightarrow> p | Inr q \<Rightarrow> q) = (case resolve p of None \<Rightarrow> p | Some q \<Rightarrow> q)" for p
    using assms(3) [OF r(1), of p, symmetric] by (cases "resolve_symlink_path ob (k_vfs k1) p") auto
  show ?case using p r(2) Suc(2) IH unfolding exec_probe.simps [of ob hs n] exec_redirect.simps [of probe resolve n]
    by (auto simp: rs Let_def case_prod_beta split: option.split sum.split binary_format_action.split)
qed

section \<open>Reference counts\<close>

definition ref_of where
  "ref_of v key = (case bt_get key (ref_counts v) of None \<Rightarrow> 0 | Some c \<Rightarrow> c)"

definition counted where
  "counted f key \<longleftrightarrow> tracked_ref f \<and> tuple_key f = key"

definition refs_positive where
  "refs_positive v \<longleftrightarrow> (\<forall>key. bt_get key (ref_counts v) \<noteq> Some 0)"

lemma release_tracking_refs:
  "release_tracking ob v f = (v', f') \<Longrightarrow> ref_counts v' = ref_counts v \<and> counted f' key = counted f key"
  by (auto simp: release_tracking_def track_close_inode_def counted_def split: if_splits option.splits)

lemma release_refcount_refs:
  "refs_positive v \<Longrightarrow> release_refcount v f = (v', f') \<Longrightarrow>
     refs_positive v' \<and> ref_of v' key = ref_of v key - (if counted f key then 1 else 0) \<and> \<not> counted f' key"
  by (auto simp: release_refcount_def refs_positive_def ref_of_def counted_def split: if_splits option.splits)

lemma file_drop_refs:
  assumes "refs_positive v" "file_drop ob v f = (v', f')"
  shows "refs_positive v' \<and> ref_of v' key = ref_of v key - (if counted f key then 1 else 0)"
proof -
  obtain v1 f1 where 1: "release_tracking ob v f = (v1, f1)" by fastforce
  with assms(2) have 2: "release_refcount v1 f1 = (v', f')" by (simp add: file_drop_def)
  note t = release_tracking_refs [OF 1, of key]
  then have "refs_positive v1" "ref_of v1 key = ref_of v key" using assms(1) by (simp_all add: refs_positive_def ref_of_def)
  with release_refcount_refs [OF _ 2, of key] t show ?thesis by simp
qed

lemma file_close_refs:
  assumes "refs_positive v" "file_close ob v f = (v', f', r)"
  shows "refs_positive v' \<and> (counted f' key \<longrightarrow> counted f key)
    \<and> ref_of v' key = ref_of v key - (if counted f key \<and> \<not> counted f' key then 1 else 0)"
proof -
  obtain v1 f1 res where c: "close_device ob v f = (v1, f1, res)" by (metis prod_cases3)
  then have dev: "ref_counts v1 = ref_counts v" "counted f1 key = counted f key"
    by (auto simp: close_device_def counted_def Let_def split: option.splits sum.splits prod.splits)
  have rest: "v' = v1 \<and> f' = f1 \<or> (\<exists>v2 f2. release_tracking ob v1 f1 = (v2, f2) \<and> release_refcount v2 f2 = (v', f'))"
    using assms(2) by (auto simp: file_close_def c split: option.splits prod.splits)
  from rest show ?thesis
  proof (elim disjE exE conjE)
    fix v2 f2 assume 2: "release_tracking ob v1 f1 = (v2, f2)" "release_refcount v2 f2 = (v', f')"
    note t = release_tracking_refs [OF 2(1), of key]
    then have "refs_positive v2" "ref_of v2 key = ref_of v key" using assms(1) dev(1) by (simp_all add: refs_positive_def ref_of_def)
    with release_refcount_refs [OF _ 2(2), of key] t dev(2) show ?thesis by auto
  qed (use assms(1) dev in \<open>simp add: refs_positive_def ref_of_def\<close>)
qed

lemma count_ref_refs:
  assumes "refs_positive v" "ref_of v (tuple_key f) < usize_max" "count_ref v f = (v', f')"
  shows "refs_positive v' \<and> ref_of v' key = ref_of v key + (if counted f' key then 1 else 0)"
proof -
  have "ref_counts v' = bt_insert (tuple_key f) (ref_of v (tuple_key f) + 1) (ref_counts v)" "counted f' key \<longleftrightarrow> tuple_key f = key"
    using assms(2,3) by (auto simp: count_ref_def Let_def ref_of_def [symmetric] saturating_inc_def counted_def)
  with assms(1) show ?thesis by (auto simp: refs_positive_def ref_of_def)
qed

lemma file_new_refs:
  fixes v :: "('i, 'f, 'd, 'b, 'w, 'z) vfs_scheme"
  assumes "refs_positive v" "\<And>key. ref_of v key < usize_max" "file_new ob v inode mp = (v', r)"
  shows "refs_positive v' \<and> ref_of v' key = ref_of v key + (case r of Inl _ \<Rightarrow> 0 | Inr f \<Rightarrow> if counted f key then 1 else 0)"
proof (cases "file_filesystem ob v inode")
  case (Inr fs)
  obtain v1 and f1 :: "('i, 'f, 'd) open_file" where track: "track_file ob v (new_file ob inode mp fs) = (v1, f1)" by fastforce
  then have 1: "ref_counts v1 = ref_counts v" "\<not> tracked_ref f1"
    by (auto simp: track_file_def new_file_def track_open_inode_def Let_def split: option.splits)
  obtain v2 d where dev: "open_device ob v1 f1 = (v2, d)" by fastforce
  from assms(3) have run: "(case d of
       Inl e \<Rightarrow> (fst (file_drop ob v2 f1), Inl e) | Inr f2 \<Rightarrow> (let (v3, f3) = count_ref v2 f2 in (v3, Inr f3))) = (v', r)"
    unfolding file_new_def Inr Let_def by (simp add: track dev)
  have "ref_counts v2 = ref_counts v1"
    using dev by (auto simp: open_device_def Let_def split: option.splits sum.splits prod.splits)
  with 1 assms(1) have 2: "refs_positive v2" "\<And>key. ref_of v2 key = ref_of v key" by (simp_all add: refs_positive_def ref_of_def)
  show ?thesis
  proof (cases d)
    case (Inl e)
    obtain v3 f3 where 3: "file_drop ob v2 f1 = (v3, f3)" by fastforce
    from file_drop_refs [OF 2(1) 3, of key] run Inl 1 2 3 show ?thesis by (auto simp: counted_def)
  next
    case (Inr f2)
    obtain v3 f3 where 3: "count_ref v2 f2 = (v3, f3)" by fastforce
    with run Inr have r: "v' = v3" "r = Inr f3" by auto
    have "ref_of v2 (tuple_key f2) < usize_max" using 2(2) assms(2) by simp
    from count_ref_refs [OF 2(1) this 3, of key] r 2(2) show ?thesis by simp
  qed
qed (use assms in \<open>auto simp: file_new_def\<close>)

definition vfs_tables where
  "vfs_tables v = (root_mount v, mounts v, filesystems v)"

lemma vfs_tables_tracking: "vfs_tables (fst (release_tracking ob v f)) = vfs_tables v"
  by (auto simp: vfs_tables_def release_tracking_def track_close_inode_def split: option.split)

lemma vfs_tables_refcount: "vfs_tables (fst (release_refcount v f)) = vfs_tables v"
  by (auto simp: vfs_tables_def release_refcount_def split: option.split)

lemma vfs_tables_close_device: "vfs_tables (fst (close_device ob v f)) = vfs_tables v"
  by (auto simp: vfs_tables_def close_device_def Let_def split: option.split sum.split prod.split)

lemma vfs_tables_open_device: "vfs_tables (fst (open_device ob v f)) = vfs_tables v"
  by (auto simp: vfs_tables_def open_device_def Let_def split: option.split sum.split prod.split)

lemma vfs_tables_track: "vfs_tables (fst (track_file ob v f)) = vfs_tables v" "vfs_tables (fst (count_ref w g)) = vfs_tables w"
  by (auto simp: vfs_tables_def count_ref_def track_file_def track_open_inode_def Let_def split: option.split)

lemma vfs_tables_drop: "vfs_tables (fst (file_drop ob v f)) = vfs_tables v"
  by (simp add: file_drop_def case_prod_beta vfs_tables_tracking vfs_tables_refcount)

lemma vfs_tables_close: "vfs_tables (fst (file_close ob v f)) = vfs_tables v"
  using vfs_tables_close_device [of ob v f]
  by (cases "close_device ob v f") (auto simp: file_close_def case_prod_beta vfs_tables_tracking vfs_tables_refcount split: option.split)

lemma vfs_tables_new:
  fixes v :: "('i, 'f, 'd, 'b, 'w, 'z) vfs_scheme"
  assumes "file_new ob v inode mp = (v', r)" shows "vfs_tables v' = vfs_tables v"
proof (cases "file_filesystem ob v inode")
  case (Inr fs)
  obtain v1 and f1 :: "('i, 'f, 'd) open_file" where 1: "track_file ob v (new_file ob inode mp fs) = (v1, f1)" by fastforce
  obtain v2 d where 2: "open_device ob v1 f1 = (v2, d)" by fastforce
  have v: "vfs_tables v2 = vfs_tables v"
    using vfs_tables_track(1) [of ob v "new_file ob inode mp fs :: ('i, 'f, 'd) open_file"] vfs_tables_open_device [of ob v1 f1] 1 2 by simp
  have run: "(case d of
       Inl e \<Rightarrow> (fst (file_drop ob v2 f1), Inl e) | Inr f2 \<Rightarrow> (let (v3, f3) = count_ref v2 f2 in (v3, Inr f3))) = (v', r)"
    using assms unfolding file_new_def Inr Let_def by (simp add: 1 2)
  show ?thesis
  proof (cases d)
    case (Inl e)
    with run v vfs_tables_drop [of ob v2 f1] show ?thesis by auto
  next
    case (Inr f2)
    with run v vfs_tables_track(2) [of v2 f2] show ?thesis by (auto simp: case_prod_beta)
  qed
qed (use assms in \<open>simp add: file_new_def\<close>)

text \<open>\<open>settled\<close>: no count has reached its limit. \<open>holds_file\<close>: the state differs by what one open file holds.\<close>

definition settled where
  "settled v \<longleftrightarrow> positive v \<and> refs_positive v \<and> (\<forall>mp ino. open_count_of v mp ino < usize_max) \<and> (\<forall>key. ref_of v key < usize_max)"

definition same_vfs where
  "same_vfs v v' \<longleftrightarrow> vfs_tables v' = vfs_tables v \<and> positive v' \<and> refs_positive v'
     \<and> open_count_of v' = open_count_of v \<and> ref_of v' = ref_of v"

definition holds_file where
  "holds_file ob v v' f \<longleftrightarrow> vfs_tables v' = vfs_tables v \<and> positive v' \<and> refs_positive v'
     \<and> (\<forall>mp ino. open_count_of v' mp ino = open_count_of v mp ino + (if opened_at ob mp ino f then 1 else 0))
     \<and> (\<forall>key. ref_of v' key = ref_of v key + (if counted f key then 1 else 0))"

lemma settled_same: "settled v \<Longrightarrow> same_vfs v v' \<Longrightarrow> settled v'"
  by (simp add: settled_def same_vfs_def)

lemma same_vfs_refl: "settled v \<Longrightarrow> same_vfs v v"
  by (simp add: settled_def same_vfs_def)

lemma same_vfs_trans: "same_vfs v v1 \<Longrightarrow> same_vfs v1 v2 \<Longrightarrow> same_vfs v v2"
  by (simp add: same_vfs_def)

lemma file_new_holds:
  assumes "settled v" "file_new ob v inode mp = (v', r)"
  shows "case r of Inl _ \<Rightarrow> same_vfs v v' | Inr f \<Rightarrow> holds_file ob v v' f"
proof -
  have s: "positive v" "refs_positive v" "\<And>mp ino. open_count_of v mp ino < usize_max" "\<And>key. ref_of v key < usize_max"
    using assms(1) unfolding settled_def by blast+
  note c = file_new_count [OF s(1,3) assms(2)] file_new_refs [OF s(2,4) assms(2)] vfs_tables_new [OF assms(2)]
  then show ?thesis by (cases r) (auto simp: same_vfs_def holds_file_def fun_eq_iff)
qed

lemma file_drop_holds:
  assumes "holds_file ob v v1 f" "file_drop ob v1 f = (v', f')" shows "same_vfs v v'"
proof -
  have p: "positive v1" "refs_positive v1" using assms(1) by (simp_all add: holds_file_def)
  have "vfs_tables v' = vfs_tables v1" using vfs_tables_drop [of ob v1 f] assms(2) by simp
  then show ?thesis using file_drop_count [OF p(1) assms(2)] file_drop_refs [OF p(2) assms(2)] assms(1)
    by (auto simp: same_vfs_def holds_file_def fun_eq_iff)
qed

lemma file_close_holds:
  assumes "holds_file ob v v1 f" "file_close ob v1 f = (v', f', r)" shows "holds_file ob v v' f'"
proof -
  have p: "positive v1" "refs_positive v1" using assms(1) by (simp_all add: holds_file_def)
  have "vfs_tables v' = vfs_tables v1" using vfs_tables_close [of ob v1 f] assms(2) by simp
  moreover have "open_count_of v' mp ino = open_count_of v mp ino + (if opened_at ob mp ino f' then 1 else 0)" "positive v'" for mp ino
    using file_close_count [OF p(1) assms(2), of mp ino] assms(1) by (auto simp: holds_file_def)
  moreover have "ref_of v' key = ref_of v key + (if counted f' key then 1 else 0)" "refs_positive v'" for key
    using file_close_refs [OF p(2) assms(2), of key] assms(1) by (auto simp: holds_file_def simp del: split_paired_All)
  ultimately show ?thesis using assms(1) by (simp add: holds_file_def)
qed

lemma file_read_holds:
  assumes "holds_file ob v v1 f" "file_read ob v1 f n = (v', f', r)" shows "holds_file ob v v' f'"
proof -
  have "open_inodes v' = open_inodes v1" "ref_counts v' = ref_counts v1" "vfs_tables v' = vfs_tables v1"
    "opened_at ob mp ino f' = opened_at ob mp ino f" "counted f' key = counted f key" for mp ino key
    using assms(2) by (auto simp: file_read_def vfs_tables_def opened_at_def counted_def split: option.splits sum.splits prod.splits)
  then show ?thesis using assms(1) by (simp add: holds_file_def positive_def refs_positive_def open_count_of_def ref_of_def)
qed

lemma open_path_holds:
  assumes "settled v" "open_path ob v path = (v', r)"
  shows "case r of Inl _ \<Rightarrow> same_vfs v v' | Inr f \<Rightarrow> holds_file ob v v' f"
proof -
  have "r = Inl e \<and> v' = v \<or> (\<exists>inode mp. file_new ob v inode mp = (v', r))" if "\<And>e'. r = Inl e' \<Longrightarrow> e' = e" for e
    using assms(2) that by (auto simp: open_path_def split: sum.splits prod.splits)
  then have "(\<exists>e. r = Inl e) \<and> v' = v \<or> (\<exists>inode mp. file_new ob v inode mp = (v', r))" by (cases r) auto
  then show ?thesis using same_vfs_refl [OF assms(1)] file_new_holds [OF assms(1)] by auto
qed

section \<open>What a probe leaves\<close>

lemma fd_iter_get: "(fd, e) \<in> set (fd_iter t) \<longleftrightarrow> fd_get t fd = Some e"
proof -
  have "set (fd_iter t) = {(fd, fe_value x) |fd x. fd < length (slots t) \<and> slots t ! fd = Some x}"
    unfolding fd_iter_def List.map_filter_def by (force simp: in_set_enumerate_eq image_iff)
  then show ?thesis by (auto simp: fd_get_def fd_slot_def)
qed

lemma handles_view: "h \<in> set (handles t) \<longleftrightarrow> (\<exists>fd e b. fd_view (fds t) fd = Some (e, b) \<and> handle e = h)"
proof -
  have "h \<in> set (handles t) \<longleftrightarrow> (\<exists>fd e. (fd, e) \<in> set (fd_iter (fds t)) \<and> handle e = h)" by (force simp: handles_def)
  then show ?thesis by (simp add: fd_iter_get fd_view_get)
qed

text \<open>\<open>undisturbed\<close>: all tasks are as before, the calling task with the same descriptors; the open files are as before, as are the mounts, the number of
  open files of every inode and the references to it, the foreground groups and the queue of waiting readers. (Memory and the state of devices are not part
  of it; descriptions that were opened and closed lie at the end of the list.)\<close>

definition same_task :: "'i task \<Rightarrow> 'i task \<Rightarrow> bool" where
  "same_task t t' \<longleftrightarrow> (\<exists>tb. t' = t\<lparr>fds := tb\<rparr> \<and> fd_view tb = fd_view (fds t))"

definition same_tasks :: "pid \<Rightarrow> 'i task list \<Rightarrow> 'i task list \<Rightarrow> bool" where
  "same_tasks p = list_all2 (\<lambda>t t'. same_task t t' \<and> (t_pid t \<noteq> p \<longrightarrow> t' = t))"

definition undisturbed :: "('i, 'f, 'd, 'b, 'w) kernel \<Rightarrow> ('i, 'f, 'd, 'b, 'w) kernel \<Rightarrow> bool" where
  "undisturbed k k' \<longleftrightarrow> (\<exists>ts. procs k' = (procs k)\<lparr>tasks := ts\<rparr> \<and> same_tasks (me k) (tasks (procs k)) ts)
     \<and> prefix (files k) (files k') \<and> same_vfs (k_vfs k) (k_vfs k')
     \<and> foreground k' = foreground k \<and> tty_input_queue k' = tty_input_queue k"

definition handles_valid where
  "handles_valid k \<longleftrightarrow> (\<forall>h \<in> set (all_handles (tasks (procs k))). h < length (files k))"

lemma same_task_refl [simp]: "same_task t t"
  unfolding same_task_def by (rule exI [of _ "fds t"]) simp

lemma same_task_trans: "same_task t t1 \<Longrightarrow> same_task t1 t2 \<Longrightarrow> same_task t t2"
  by (auto simp: same_task_def)

lemma same_task_pid: "same_task t t' \<Longrightarrow> t_pid t' = t_pid t"
  by (auto simp: same_task_def)

lemma same_task_handles: "same_task t t' \<Longrightarrow> set (handles t') = set (handles t)"
  by (auto simp: same_task_def handles_view)

lemma same_tasks_refl [simp]: "same_tasks p ts ts"
  by (simp add: same_tasks_def list_all2_refl)

lemma same_tasks_trans: "same_tasks p ts ts1 \<Longrightarrow> same_tasks p ts1 ts2 \<Longrightarrow> same_tasks p ts ts2"
  unfolding same_tasks_def
  by (rule list_all2_trans [of "\<lambda>t t'. same_task t t' \<and> (t_pid t \<noteq> p \<longrightarrow> t' = t)" "\<lambda>t t'. same_task t t' \<and> (t_pid t \<noteq> p \<longrightarrow> t' = t)"])
    (auto dest: same_task_trans same_task_pid)

lemma same_tasks_handles: "same_tasks p ts ts' \<Longrightarrow> set (all_handles ts') = set (all_handles ts)"
  unfolding same_tasks_def by (induction rule: list_all2_induct) (auto simp: all_handles_def same_task_handles)

lemma undisturbed_refl: "settled (k_vfs k) \<Longrightarrow> undisturbed k k"
  unfolding undisturbed_def by (intro conjI exI [of _ "tasks (procs k)"]) (simp_all add: same_vfs_refl)

lemma undisturbed_me: "undisturbed k k' \<Longrightarrow> me k' = me k"
  by (auto simp: undisturbed_def)

lemma undisturbed_trans:
  assumes "undisturbed k k1" "undisturbed k1 k2" shows "undisturbed k k2"
proof -
  obtain ts where 1: "procs k1 = (procs k)\<lparr>tasks := ts\<rparr>" "same_tasks (me k) (tasks (procs k)) ts" using assms(1) by (auto simp: undisturbed_def)
  obtain us where 2: "procs k2 = (procs k1)\<lparr>tasks := us\<rparr>" "same_tasks (me k1) (tasks (procs k1)) us" using assms(2) by (auto simp: undisturbed_def)
  have "procs k2 = (procs k)\<lparr>tasks := us\<rparr>" "same_tasks (me k) (tasks (procs k)) us"
    using 1 2 same_tasks_trans by (simp, fastforce)
  moreover have "prefix (files k) (files k2)" "same_vfs (k_vfs k) (k_vfs k2)"
    using assms prefix_order.trans same_vfs_trans unfolding undisturbed_def by blast+
  moreover have "foreground k2 = foreground k" "tty_input_queue k2 = tty_input_queue k" using assms by (simp_all add: undisturbed_def)
  ultimately show ?thesis unfolding undisturbed_def by blast
qed

lemma undisturbed_handles:
  assumes "undisturbed k k'" "handles_valid k" shows "handles_valid k'"
proof -
  have "length (files k) \<le> length (files k')" using assms(1) by (auto simp: undisturbed_def prefix_length_le)
  moreover have "set (all_handles (tasks (procs k'))) = set (all_handles (tasks (procs k)))"
    using assms(1) same_tasks_handles by (fastforce simp: undisturbed_def)
  ultimately show ?thesis using assms(2) by (auto simp: handles_valid_def)
qed

lemma find_same_tasks:
  assumes "same_tasks q ts ts'"
  shows "p \<noteq> q \<Longrightarrow> find (\<lambda>t. t_pid t = p) ts' = find (\<lambda>t. t_pid t = p) ts"
    "rel_option same_task (find (\<lambda>t. t_pid t = p) ts) (find (\<lambda>t. t_pid t = p) ts')"
  using assms unfolding same_tasks_def by (induction rule: list_all2_induct) (auto simp: same_task_pid)

lemma undisturbed_task:
  assumes "undisturbed k k'"
  shows "p \<noteq> me k \<Longrightarrow> task_of k' p = task_of k p" "rel_option same_task (task_of k p) (task_of k' p)"
proof -
  obtain ts where 1: "procs k' = (procs k)\<lparr>tasks := ts\<rparr>" "same_tasks (me k) (tasks (procs k)) ts" using assms by (auto simp: undisturbed_def)
  then show "p \<noteq> me k \<Longrightarrow> task_of k' p = task_of k p" "rel_option same_task (task_of k p) (task_of k' p)"
    using find_same_tasks [OF 1(2)] by (simp_all add: task_by_pid_def)
qed

lemma update_pid_at:
  assumes "pid_index s p = Some i" "t_pid t' = p"
  shows "update_pid s p (\<lambda>_. t') = s\<lparr>tasks := (tasks s)[i := t']\<rparr>" "task_by_pid (s\<lparr>tasks := (tasks s)[i := t']\<rparr>) p = Some t'"
    "update_pid (s\<lparr>tasks := (tasks s)[i := t']\<rparr>) p (\<lambda>_. t'') = s\<lparr>tasks := (tasks s)[i := t'']\<rparr>"
proof -
  have i: "i < length (tasks s)" using assms(1) by (simp add: pid_index_def position_Some)
  have i': "pid_index (s\<lparr>tasks := (tasks s)[i := t']\<rparr>) p = Some i" using assms by (auto simp: pid_index_def position_Some)
  show "update_pid s p (\<lambda>_. t') = s\<lparr>tasks := (tasks s)[i := t']\<rparr>" using assms(1) i by (simp add: update_pid_def update_index_def)
  show "update_pid (s\<lparr>tasks := (tasks s)[i := t']\<rparr>) p (\<lambda>_. t'') = s\<lparr>tasks := (tasks s)[i := t'']\<rparr>"
    unfolding update_pid_def i' using i by (simp add: update_index_def)
  show "task_by_pid (s\<lparr>tasks := (tasks s)[i := t']\<rparr>) p = Some t'" using i' i by (simp add: task_by_pid_index)
qed

lemma same_tasks_at:
  assumes "ts ! i = t" "t_pid t = p" "same_task t t'" shows "same_tasks p ts (ts[i := t'])"
  unfolding same_tasks_def
proof (rule list_all2_all_nthI)
  fix j assume "j < length ts"
  then show "same_task (ts ! j) (ts[i := t'] ! j) \<and> (t_pid (ts ! j) \<noteq> p \<longrightarrow> ts[i := t'] ! j = ts ! j)"
    using assms by (cases "j = i") simp_all
qed simp

lemma fd_insert_remove:
  assumes "fd_insert tb e 0 = (tb', fd)"
  shows "fd_get tb' fd = Some e" "snd (fd_remove tb' fd) = Some e" "fd_view (fst (fd_remove tb' fd)) = fd_view tb"
proof -
  note l = insert_from_lowest [OF assms [unfolded fd_insert_def]]
  show g: "fd_get tb' fd = Some e" unfolding l(4) by (simp add: fd_get_def fd_slot_insert_at)
  then show "snd (fd_remove tb' fd) = Some e" by (auto simp: fd_get_def fd_slot_def fd_remove_def split: if_splits)
  have "fd_view tb fd = None" using l(2) by (simp add: fd_view_None)
  then show "fd_view (fst (fd_remove tb' fd)) = fd_view tb" unfolding l(4) fd_view_remove fd_view_insert_at by auto
qed

lemma probe_head_file:
  assumes ok: "settled (k_vfs k)" "handles_valid k" and t: "task_of k (me k) = Some t"
    and a: "resolve_absolute_from_current_cwd k path = Inr a" and o: "open_path ob (k_vfs k) a = (v1, Inr f0)"
    and run: "probe_head ob k path n = (k', r)"
  shows "undisturbed k k' \<and> k_machine k' = k_machine k
    \<and> r = (case file_read ob v1 (f0\<lparr>append_mode := False\<rparr>) n of (_, _, Inl e) \<Rightarrow> Inl (errno_from_fs e) | (_, _, Inr b) \<Rightarrow> Inr b)"
proof -
  define f where "f = f0\<lparr>append_mode := False\<rparr>"
  have hf: "holds_file ob (k_vfs k) v1 f" using open_path_holds [OF ok(1) o] by (simp add: f_def holds_file_def opened_at_def counted_def)
  obtain i where i: "pid_index (procs k) (me k) = Some i" "tasks (procs k) ! i = t" using t task_by_pid_index by blast
  have pid: "t_pid t = me k" using i by (auto simp: pid_index_def position_Some)
  define e where "e = \<lparr>descriptor = descriptor_for ob (of_inode f) ReadOnly, handle = length (files k)\<rparr>"
  obtain tb fd where ins: "fd_insert (fds t) e 0 = (tb, fd)" by fastforce
  note fd = fd_insert_remove [OF ins]
  define P where "P = (\<lambda>t'. (procs k)\<lparr>tasks := (tasks (procs k))[i := t']\<rparr>)"
  define t2 where "t2 = t\<lparr>fds := fst (fd_remove tb fd)\<rparr>"
  have same: "same_task t t2" unfolding same_task_def t2_def using fd(3) by blast
  note st = same_tasks_at [OF i(2) pid same]
  have upd: "update_pid (procs k) (me k) (\<lambda>_. u) = P u" "task_by_pid (P u) (me k) = Some u" "update_pid (P u) (me k) (\<lambda>_. u') = P u'"
    if "t_pid u = me k" for u u'
    using update_pid_at [OF i(1) that] by (simp_all add: P_def)
  have k1: "impl_open_read ob k path = (k\<lparr>k_vfs := v1, files := files k @ [f], procs := P (t\<lparr>fds := tb\<rparr>)\<rparr>, Inr fd)"
    using a o t ins upd(1) [of "t\<lparr>fds := tb\<rparr>"] pid
    by (simp add: impl_open_read_def open_file_current_def open_fd_def fd_entry_new_def f_def [symmetric] update_task_def)
      (simp add: f_def e_def)
  obtain v2 f2 r2 where rd: "file_read ob v1 f n = (v2, f2, r2)" by (metis prod_cases3)
  note h2 = file_read_holds [OF hf rd]
  have cur: "current_pid (P u) = me k" for u by (simp add: P_def)
  let ?k1 = "k\<lparr>k_vfs := v1, files := files k @ [f], procs := P (t\<lparr>fds := tb\<rparr>)\<rparr>"
  let ?k2 = "k\<lparr>k_vfs := v2, files := files k @ [f2], procs := P (t\<lparr>fds := tb\<rparr>)\<rparr>"
  have tk: "task_by_pid (P (t\<lparr>fds := tb\<rparr>)) (me k) = Some (t\<lparr>fds := tb\<rparr>)" using upd(2) [of "t\<lparr>fds := tb\<rparr>"] pid by simp
  have k2: "read_fd ob ?k1 fd n = (?k2, case r2 of Inl e \<Rightarrow> Inl (errno_from_fs e) | Inr b \<Rightarrow> Inr b)"
    using tk fd(1) rd by (cases r2) (simp_all add: read_fd_def with_fd_def cur fd_file_def e_def)
  obtain v3 f3 r3 where c1: "file_close ob v2 f2 = (v3, f3, r3)" by (metis prod_cases3)
  obtain v4 f4 r4 where c2: "file_close ob v3 f3 = (v4, f4, r4)" by (metis prod_cases3)
  obtain v5 f5 where c3: "file_drop ob v4 f4 = (v5, f5)" by fastforce
  have v5: "same_vfs (k_vfs k) v5"
    using file_drop_holds [OF file_close_holds [OF file_close_holds [OF h2 c1] c2] c3] .
  have "length (files k) \<notin> set (all_handles (tasks (P t2)))"
    using ok(2) same_tasks_handles [OF st] by (auto simp: handles_valid_def P_def)
  moreover have "close_fd (t\<lparr>fds := tb\<rparr>) fd = (t2, Some (length (files k)))"
    using fd(2) by (simp add: close_fd_def t2_def case_prod_beta e_def)
  moreover have "update_pid (P (t\<lparr>fds := tb\<rparr>)) (me k) (\<lambda>_. t2) = P t2" using upd(3) [of "t\<lparr>fds := tb\<rparr>" t2] pid by simp
  ultimately have k3: "fst (close_fd_current ob ?k2 fd) = k\<lparr>k_vfs := v5, files := files k @ [f5], procs := P t2\<rparr>"
    using tk c1 c2 c3 by (simp add: close_fd_current_def close_fd_for_pid_def cur update_task_def drop_description_def)
  have "k' = k\<lparr>k_vfs := v5, files := files k @ [f5], procs := P t2\<rparr>" "r = (case r2 of Inl e \<Rightarrow> Inl (errno_from_fs e) | Inr b \<Rightarrow> Inr b)"
    using run k1 k2 k3 by (simp_all add: probe_head_def case_prod_beta)
  then show ?thesis using st v5 rd [unfolded f_def] by (auto simp: undisturbed_def P_def)
qed

lemma probe_head_undisturbed:
  assumes "settled (k_vfs k)" "handles_valid k" "probe_head ob k path n = (k', r)"
  shows "undisturbed k k' \<and> k_machine k' = k_machine k"
proof (cases "resolve_absolute_from_current_cwd k path")
  case (Inl e)
  then show ?thesis using assms undisturbed_refl by (auto simp: probe_head_def impl_open_read_def)
next
  case (Inr a)
  obtain v1 q where o: "open_path ob (k_vfs k) a = (v1, q)" by fastforce
  note h = open_path_holds [OF assms(1) o]
  have vfs: "undisturbed k (k\<lparr>k_vfs := v\<rparr>)" if "same_vfs (k_vfs k) v" for v
    unfolding undisturbed_def using that by (intro conjI exI [of _ "tasks (procs k)"]) simp_all
  show ?thesis
  proof (cases q)
    case (Inl e)
    then show ?thesis using assms(3) Inr o h vfs by (auto simp: probe_head_def impl_open_read_def)
  next
    case q: (Inr f0)
    define f where "f = f0\<lparr>append_mode := False\<rparr>"
    have hf: "holds_file ob (k_vfs k) v1 f" using h q by (simp add: f_def holds_file_def opened_at_def counted_def)
    show ?thesis
    proof (cases "task_of k (me k)")
      case None
      then have "probe_head ob k path n = (k\<lparr>k_vfs := fst (file_drop ob v1 f)\<rparr>, Inl (-1))"
        using Inr o q by (simp add: probe_head_def impl_open_read_def open_file_current_def f_def)
      moreover have "same_vfs (k_vfs k) (fst (file_drop ob v1 f))" using file_drop_holds [OF hf] by (metis prod.collapse)
      ultimately show ?thesis using assms(3) vfs by auto
    next
      case (Some t)
      then show ?thesis using probe_head_file [OF assms(1,2) Some Inr o [unfolded q] assms(3)] by blast
    qed
  qed
qed

lemma exec_probe_undisturbed:
  assumes "settled (k_vfs k)" "handles_valid k" "exec_probe ob hs n k request = Some (k', r)"
  shows "undisturbed k k' \<and> k_machine k' = k_machine k"
  using assms
proof (induction "MAX_INTERPRETER_REDIRECTS - n" arbitrary: n k request rule: less_induct)
  case less
  obtain k1 head where h: "probe_head ob k (er_path request) PROBE_READ_LIMIT = (k1, head)" by fastforce
  define x where "x = probe_path (\<lambda>_ _. head) hs request"
  have pc: "probe_current ob hs k request = (k1, x)" by (simp add: probe_current_def h x_def)
  note u = probe_head_undisturbed [OF less.prems(1,2) h]
  consider "k' = k1" | n' req where "exec_probe ob hs n' k1 req = Some (k', r)" "MAX_INTERPRETER_REDIRECTS - n' < MAX_INTERPRETER_REDIRECTS - n"
    using less.prems(3) unfolding exec_probe.simps [of ob hs n] pc
    by (auto simp: Let_def split: option.splits sum.splits binary_format_action.splits if_splits)
  then show ?case
  proof cases
    case 2
    have "settled (k_vfs k1)" "handles_valid k1"
      using u settled_same [OF less.prems(1)] undisturbed_handles [OF _ less.prems(2)] by (auto simp: undisturbed_def)
    from less.hyps [OF 2(2) this 2(1)] show ?thesis using u undisturbed_trans by auto
  qed (use u in simp)
qed

end
