(* ===== verification/User_Stack.thy ===== *)
theory User_Stack
  imports User_Memory
begin

text \<open>
  The initial stack of a program, \<open>build_initial_user_stack\<close> of \<open>arch/x86_64/userspace.rs\<close>: from high to low
  addresses the environment strings, the argument strings, the platform and program names, sixteen random bytes, the auxiliary vector, the
  pointers to the environment and the arguments, and the argument count. A result is the machine with an
  error number or the stack pointer; \<open>None\<close> is a panic. The specification is one list of bytes, the image.
\<close>

definition USER_STACK_SIZE :: nat where "USER_STACK_SIZE = 8 * 4096"
definition USER_STACK_RESERVE :: nat where "USER_STACK_RESERVE = 256 * 4096"
definition USER_STACK_MAP_SIZE :: nat where "USER_STACK_MAP_SIZE = USER_STACK_SIZE + USER_STACK_RESERVE + PAGE_SIZE"

type_synonym stack_result = "(machine \<times> (int + nat)) option"

definition stk_bind :: "stack_result \<Rightarrow> (machine \<Rightarrow> nat \<Rightarrow> stack_result) \<Rightarrow> stack_result" where
  "stk_bind r f = (case r of None \<Rightarrow> None | Some (m, Inl e) \<Rightarrow> Some (m, Inl e) | Some (m, Inr sp) \<Rightarrow> f m sp)"

section \<open>Writing\<close>

text \<open>\<open>write_bytes\<close> with its error turned into EIO; \<open>sp\<close> is passed on.\<close>

definition stk_write :: "address_space \<Rightarrow> machine \<Rightarrow> nat \<Rightarrow> u8 list \<Rightarrow> nat \<Rightarrow> stack_result" where
  "stk_write s m a bytes sp =
     (case space_write_bytes m s a bytes of
        None \<Rightarrow> None
      | Some (Inl _) \<Rightarrow> Some (m, Inl (-5))
      | Some (Inr m1) \<Rightarrow> Some (m1, Inr sp))"

definition write_cstr :: "address_space \<Rightarrow> u8 list \<Rightarrow> machine \<Rightarrow> nat \<Rightarrow> stack_result" where
  "write_cstr s bytes m sp = stk_bind (stk_write s m sp bytes sp) (\<lambda>m sp. stk_write s m (sp + length bytes) [0] sp)"

text \<open>A string of the arguments or the environment; without room E2BIG.\<close>

definition push_string :: "address_space \<Rightarrow> rstr \<Rightarrow> machine \<Rightarrow> nat \<Rightarrow> stack_result" where
  "push_string s v m sp =
     (if sp < length (as_bytes v) + 1 then Some (m, Inl (-7)) else write_cstr s (as_bytes v) m (sp - (length (as_bytes v) + 1)))"

fun push_strings :: "address_space \<Rightarrow> rstr list \<Rightarrow> machine \<Rightarrow> nat \<Rightarrow> stack_result" where
  "push_strings s [] m sp = Some (m, Inr sp)"
| "push_strings s (v # vs) m sp = stk_bind (push_string s v m sp) (push_strings s vs)"

text \<open>The other subtractions panic when they overflow.\<close>

definition push_name :: "address_space \<Rightarrow> u8 list \<Rightarrow> machine \<Rightarrow> nat \<Rightarrow> stack_result" where
  "push_name s bytes m sp = (if sp < length bytes + 1 then None else write_cstr s bytes m (sp - (length bytes + 1)))"

definition push_block :: "address_space \<Rightarrow> u8 list \<Rightarrow> machine \<Rightarrow> nat \<Rightarrow> stack_result" where
  "push_block s bytes m sp = (if sp < length bytes then None else stk_write s m (sp - length bytes) bytes (sp - length bytes))"

definition u64_block :: "nat \<Rightarrow> u8 list" where
  "u64_block v = le_bytes 8 (of_nat v :: u64)"

definition push_u64 :: "address_space \<Rightarrow> nat \<Rightarrow> machine \<Rightarrow> nat \<Rightarrow> stack_result" where
  "push_u64 s v m sp = push_block s (u64_block v) m sp"

definition push_auxv :: "address_space \<Rightarrow> nat \<times> nat \<Rightarrow> machine \<Rightarrow> nat \<Rightarrow> stack_result" where
  "push_auxv s kv m sp = stk_bind (push_u64 s (snd kv) m sp) (push_u64 s (fst kv))"

fun push_auxvs :: "address_space \<Rightarrow> (nat \<times> nat) list \<Rightarrow> machine \<Rightarrow> nat \<Rightarrow> stack_result" where
  "push_auxvs s [] m sp = Some (m, Inr sp)"
| "push_auxvs s (kv # rest) m sp = stk_bind (push_auxv s kv m sp) (push_auxvs s rest)"

text \<open>The pointers to strings that were pushed in this order, the first ending at \<open>scan_sp\<close>.\<close>

fun push_addrs :: "address_space \<Rightarrow> rstr list \<Rightarrow> nat \<Rightarrow> machine \<Rightarrow> nat \<Rightarrow> stack_result" where
  "push_addrs s [] scan_sp m sp = Some (m, Inr sp)"
| "push_addrs s (v # vs) scan_sp m sp =
     (if scan_sp < length (as_bytes v) + 1 then Some (m, Inl (-7))
      else stk_bind (push_u64 s (scan_sp - (length (as_bytes v) + 1)) m sp) (push_addrs s vs (scan_sp - (length (as_bytes v) + 1))))"

section \<open>The stack\<close>

text \<open>The entries in the order in which they are pushed.\<close>

definition auxv_entries :: "nat \<Rightarrow> nat \<Rightarrow> nat \<Rightarrow> load_plan \<Rightarrow> (nat \<times> nat) list" where
  "auxv_entries execfn random platform plan =
     [(0, 0), (31, execfn), (26, 0), (25, random), (23, 0), (17, 100), (16, 0), (15, platform), (14, 0), (13, 0), (12, 0), (11, 0),
      (9, entry_point plan), (8, 0), (7, 0), (6, PAGE_SIZE), (5, phnum plan), (4, phent_size plan), (3, phdr_addr plan)]"

definition platform_name :: "u8 list" where
  "platform_name = [120, 56, 54, 95, 54, 52]"

definition fill_stack :: "address_space \<Rightarrow> rstr list \<Rightarrow> rstr list \<Rightarrow> rstr \<Rightarrow> load_plan \<Rightarrow> machine \<Rightarrow> stack_result" where
  "fill_stack s argv envp exec_path plan m =
     (let start = USER_STACK_TOP - USER_STACK_RESERVE in
      stk_bind (push_strings s (rev envp) m start) (\<lambda>m argv_start.
      stk_bind (push_strings s (rev argv) m argv_start) (\<lambda>m sp.
      stk_bind (push_name s platform_name m sp) (\<lambda>m platform.
      stk_bind (push_name s (as_bytes exec_path) m platform) (\<lambda>m execfn.
      stk_bind (push_block s (replicate 16 0x5A) m execfn) (\<lambda>m random.
      stk_bind (if (1 + length argv + 1 + length envp + 1) mod 2 \<noteq> 0 then push_u64 s 0 m (random div 16 * 16) else Some (m, Inr (random div 16 * 16))) (\<lambda>m sp.
      stk_bind (push_auxvs s (auxv_entries execfn random platform plan) m sp) (\<lambda>m sp.
      stk_bind (push_u64 s 0 m sp) (\<lambda>m sp.
      stk_bind (push_addrs s (rev envp) start m sp) (\<lambda>m sp.
      stk_bind (push_u64 s 0 m sp) (\<lambda>m sp.
      stk_bind (push_addrs s (rev argv) argv_start m sp) (\<lambda>m sp.
      push_u64 s (length argv) m sp))))))))))))"

definition build_initial_user_stack ::
    "paging_crate \<Rightarrow> machine \<Rightarrow> address_space \<Rightarrow> rstr list \<Rightarrow> rstr list \<Rightarrow> rstr \<Rightarrow> load_plan
      \<Rightarrow> (machine \<times> address_space \<times> (int + nat)) option" where
  "build_initial_user_stack pc m s argv envp exec_path plan =
     (case map_zeroed_region pc m s (USER_STACK_TOP - (USER_STACK_SIZE + USER_STACK_RESERVE)) USER_STACK_MAP_SIZE WRITABLE of
        None \<Rightarrow> None
      | Some (m1, s1, Inl _) \<Rightarrow> Some (m1, s1, Inl (-5))
      | Some (m1, s1, Inr _) \<Rightarrow>
          (case fill_stack s1 argv envp exec_path plan m1 of None \<Rightarrow> None | Some (m2, r) \<Rightarrow> Some (m2, s1, r)))"

section \<open>The image\<close>

definition cstr :: "rstr \<Rightarrow> u8 list" where
  "cstr v = as_bytes v @ [0]"

definition strings_image :: "rstr list \<Rightarrow> u8 list" where
  "strings_image vs = concat (map cstr vs)"

text \<open>Where the strings of an image that ends at \<open>hi\<close> begin.\<close>

fun string_addrs :: "nat \<Rightarrow> rstr list \<Rightarrow> nat list" where
  "string_addrs hi [] = []"
| "string_addrs hi (v # vs) = (hi - length (strings_image (v # vs))) # string_addrs hi vs"

definition words_image :: "nat list \<Rightarrow> u8 list" where
  "words_image vs = concat (map u64_block vs)"

text \<open>The memory of a stack that lies in consecutive physical frames: \<open>c\<close> are the bytes from \<open>sp\<close> to \<open>hi\<close>.\<close>

definition linear :: "address_space \<Rightarrow> nat \<Rightarrow> nat \<Rightarrow> nat \<Rightarrow> bool" where
  "linear s base lo hi \<longleftrightarrow> hi \<le> 2 ^ 47
     \<and> (\<forall>a. lo \<le> a \<and> a < hi \<longrightarrow> (\<exists>mp. mapping_at s a = Some mp \<and> mp_frame mp + a mod frame_size + lo = base + a))"

definition on_stack :: "nat \<Rightarrow> nat \<Rightarrow> nat \<Rightarrow> machine \<Rightarrow> nat \<Rightarrow> u8 list \<Rightarrow> bool" where
  "on_stack base lo hi m sp c \<longleftrightarrow> lo \<le> sp \<and> sp + length c = hi \<and> phys_offset m \<noteq> None
     \<and> (\<forall>n x. n < length c \<longrightarrow> x + lo = base + sp + n \<longrightarrow> pmem m x = c ! n)"

text \<open>The machine after a write of \<open>bytes\<close> at \<open>a\<close>.\<close>

definition put_at :: "nat \<Rightarrow> nat \<Rightarrow> machine \<Rightarrow> nat \<Rightarrow> u8 list \<Rightarrow> machine" where
  "put_at base lo m a bytes =
     m\<lparr>pmem := \<lambda>x. if base + a \<le> x + lo \<and> x + lo < base + a + length bytes then bytes ! (x + lo - (base + a)) else pmem m x\<rparr>"

lemma put_at_frame [simp]: "phys_offset (put_at base lo m a bytes) = phys_offset m"
  by (simp add: put_at_def)

lemma put_at_inside: "x + lo = base + a + n \<Longrightarrow> n < length bytes \<Longrightarrow> pmem (put_at base lo m a bytes) x = bytes ! n"
  by (simp add: put_at_def)

lemma put_at_above: "x + lo = base + a + n \<Longrightarrow> length bytes \<le> n \<Longrightarrow> pmem (put_at base lo m a bytes) x = pmem m x"
  by (simp add: put_at_def)

lemma put_at_below: "x + lo < base + a \<Longrightarrow> pmem (put_at base lo m a bytes) x = pmem m x"
  by (simp add: put_at_def)

lemma linear_write:
  assumes "linear s base lo hi" "phys_offset m \<noteq> None" "lo \<le> a" "a < hi"
  shows "space_write_bytes m s a bytes = Some (Inr (put_at base lo m a bytes))"
proof -
  obtain mp where mp: "mapping_at s a = Some mp" "mp_frame mp + a mod frame_size + lo = base + a"
    using assms(1,3,4) by (auto simp: linear_def)
  let ?p = "mp_frame mp + a mod frame_size"
  have off: "a - a div frame_size * frame_size = a mod frame_size" by (simp add: minus_div_mult_eq_mod)
  have "canonical a" using assms(1,4) by (simp add: canonical_def linear_def)
  moreover have e: "?p \<le> x \<longleftrightarrow> base + a \<le> x + lo" "x < ?p + length bytes \<longleftrightarrow> x + lo < base + a + length bytes" "x - ?p = x + lo - (base + a)" for x
    using mp(2) by linarith+
  have "m\<lparr>pmem := \<lambda>x. if ?p \<le> x \<and> x < ?p + length bytes then bytes ! (x - ?p) else pmem m x\<rparr> = put_at base lo m a bytes"
    unfolding put_at_def e ..
  ultimately show ?thesis using mp(1) assms(2)
    by (auto simp: space_write_bytes_def Let_def mapping_at_def write_frame_bytes_def off simp del: minus_div_mult_eq_mod)
qed

lemma on_stack_put_at:
  assumes "on_stack base lo hi m sp c" "lo \<le> a" "a + length bytes = sp"
  shows "on_stack base lo hi (put_at base lo m a bytes) a (bytes @ c)"
proof -
  have "pmem (put_at base lo m a bytes) x = (bytes @ c) ! n" if n: "n < length (bytes @ c)" "x + lo = base + a + n" for n x
  proof (cases "n < length bytes")
    case True
    then show ?thesis using put_at_inside [OF n(2) True] by (simp add: nth_append)
  next
    case False
    then have "x + lo = base + sp + (n - length bytes)" "n - length bytes < length c" using n assms(3) by simp_all
    then have "pmem m x = c ! (n - length bytes)" using assms(1) unfolding on_stack_def by blast
    then show ?thesis using False put_at_above [OF n(2), of bytes m] by (simp add: nth_append)
  qed
  then show ?thesis using assms unfolding on_stack_def by auto
qed

lemma stk_write_push:
  assumes l: "linear s base lo hi" and c: "on_stack base lo hi m sp c" and b: "lo + length bytes \<le> sp" "bytes \<noteq> []"
  shows "\<exists>m1. stk_write s m (sp - length bytes) bytes sp' = Some (m1, Inr sp') \<and> on_stack base lo hi m1 (sp - length bytes) (bytes @ c)"
proof -
  let ?a = "sp - length bytes"
  have "0 < length bytes" using b(2) by simp
  moreover have "sp \<le> hi" "phys_offset m \<noteq> None" using c by (auto simp: on_stack_def)
  ultimately have a: "?a < hi" "lo \<le> ?a" "?a + length bytes = sp" using b(1) by linarith+
  have "space_write_bytes m s ?a bytes = Some (Inr (put_at base lo m ?a bytes))"
    using linear_write [OF l \<open>phys_offset m \<noteq> None\<close> a(2,1)] .
  then show ?thesis using on_stack_put_at [OF c a(2,3)] by (simp add: stk_write_def)
qed

lemma write_cstr_push:
  assumes l: "linear s base lo hi" and c: "on_stack base lo hi m sp c" and b: "lo + length bytes + 1 \<le> sp"
  shows "\<exists>m1. write_cstr s bytes m (sp - (length bytes + 1)) = Some (m1, Inr (sp - (length bytes + 1)))
    \<and> on_stack base lo hi m1 (sp - (length bytes + 1)) (bytes @ 0 # c)"
proof -
  let ?a = "sp - (length bytes + 1)"
  have hi: "sp \<le> hi" "phys_offset m \<noteq> None" using c by (auto simp: on_stack_def)
  then have a: "lo \<le> ?a" "?a < hi" "?a + length bytes < hi" "lo \<le> ?a + length bytes" "?a + length bytes + 1 = sp" using b by linarith+
  let ?m1 = "put_at base lo m ?a bytes"
  let ?m2 = "put_at base lo ?m1 (?a + length bytes) [0]"
  have w1: "space_write_bytes m s ?a bytes = Some (Inr ?m1)" by (rule linear_write [OF l hi(2) a(1,2)])
  have w2: "space_write_bytes ?m1 s (?a + length bytes) [0] = Some (Inr ?m2)" using hi(2) by (intro linear_write [OF l _ a(4,3)]) simp
  have w: "write_cstr s bytes m ?a = Some (?m2, Inr ?a)" using w1 w2 by (simp add: write_cstr_def stk_bind_def stk_write_def)
  have "pmem ?m2 x = (bytes @ 0 # c) ! n" if n: "n < length (bytes @ 0 # c)" "x + lo = base + ?a + n" for n x
  proof -
    consider (string) "n < length bytes" | (zero) "n = length bytes" | (old) "length bytes < n" by linarith
    then show ?thesis
    proof cases
      case string
      then have "pmem ?m2 x = pmem ?m1 x" using n(2) by (intro put_at_below) linarith
      then show ?thesis using put_at_inside [OF n(2) string] string by (simp add: nth_append)
    next
      case zero
      then have "x + lo = base + (?a + length bytes) + 0" using n(2) by simp
      then show ?thesis using put_at_inside [of x lo base "?a + length bytes" 0 "[0]" ?m1] zero by simp
    next
      case old
      then have x: "x + lo = base + (?a + length bytes) + (n - length bytes)" "x + lo = base + sp + (n - (length bytes + 1))" "n - (length bytes + 1) < length c"
        using n a(5) by (auto simp del: diff_diff_left)
      have "pmem ?m2 x = pmem ?m1 x" using old by (intro put_at_above [OF x(1)]) simp
      moreover have "pmem ?m1 x = pmem m x" using old by (intro put_at_above [OF n(2)]) simp
      moreover have "pmem m x = c ! (n - (length bytes + 1))" using c x(2,3) unfolding on_stack_def by blast
      ultimately show ?thesis using old by (simp add: nth_append nth_Cons')
    qed
  qed
  moreover have "?a + length (bytes @ 0 # c) = hi" using b c by (simp add: on_stack_def)
  ultimately have "on_stack base lo hi ?m2 ?a (bytes @ 0 # c)" using a(1) hi(2) unfolding on_stack_def by simp
  with w show ?thesis by blast
qed

lemma strings_image_simps [simp]:
  "strings_image [] = []" "strings_image (v # vs) = as_bytes v @ 0 # strings_image vs" "strings_image (vs @ ws) = strings_image vs @ strings_image ws"
  by (simp_all add: strings_image_def cstr_def)

lemma length_rev_image [simp]: "length (strings_image (rev vs)) = length (strings_image vs)"
  by (induction vs) auto

text \<open>Every push puts its bytes in front of the image.\<close>

lemma push_strings_image:
  assumes "linear s base lo hi"
  shows "on_stack base lo hi m sp c \<Longrightarrow> lo + length (strings_image vs) \<le> sp \<Longrightarrow>
    \<exists>m1. push_strings s vs m sp = Some (m1, Inr (sp - length (strings_image vs)))
      \<and> on_stack base lo hi m1 (sp - length (strings_image vs)) (strings_image (rev vs) @ c)"
proof (induction vs arbitrary: m sp c)
  case (Cons v vs)
  let ?n = "length (as_bytes v) + 1"
  have n: "lo + length (as_bytes v) + 1 \<le> sp" "lo + length (strings_image vs) \<le> sp - ?n" using Cons.prems(2) by simp_all
  obtain m1 where m1: "write_cstr s (as_bytes v) m (sp - ?n) = Some (m1, Inr (sp - ?n))" "on_stack base lo hi m1 (sp - ?n) (as_bytes v @ 0 # c)"
    using write_cstr_push [OF assms Cons.prems(1) n(1)] by blast
  obtain m2 where "push_strings s vs m1 (sp - ?n) = Some (m2, Inr (sp - ?n - length (strings_image vs)))"
      "on_stack base lo hi m2 (sp - ?n - length (strings_image vs)) (strings_image (rev vs) @ as_bytes v @ 0 # c)"
    using Cons.IH [OF m1(2) n(2)] by blast
  then show ?case using m1(1) n(1) by (simp add: push_string_def stk_bind_def)
qed simp

lemma push_u64_image:
  assumes "linear s base lo hi" "on_stack base lo hi m sp c" "lo + 8 \<le> sp"
  shows "\<exists>m1. push_u64 s v m sp = Some (m1, Inr (sp - 8)) \<and> on_stack base lo hi m1 (sp - 8) (u64_block v @ c)"
proof -
  have l: "length (u64_block v) = 8" by (simp add: u64_block_def)
  then have "u64_block v \<noteq> []" by auto
  then show ?thesis using stk_write_push [OF assms(1,2), of "u64_block v"] assms(3) l by (simp add: push_u64_def push_block_def)
qed

lemma words_image_simps [simp]:
  "words_image [] = []" "words_image (v # vs) = u64_block v @ words_image vs" "words_image (vs @ ws) = words_image vs @ words_image ws"
  by (simp_all add: words_image_def)

lemma length_words_image [simp]: "length (words_image vs) = 8 * length vs"
  by (induction vs) (simp_all add: u64_block_def)

definition pairs :: "(nat \<times> nat) list \<Rightarrow> nat list" where
  "pairs kvs = concat (map (\<lambda>(key, v). [key, v]) kvs)"

lemma length_pairs [simp]: "length (pairs kvs) = 2 * length kvs"
  by (induction kvs) (auto simp: pairs_def)

lemma push_auxvs_image:
  assumes "linear s base lo hi"
  shows "on_stack base lo hi m sp c \<Longrightarrow> lo + 16 * length kvs \<le> sp \<Longrightarrow>
    \<exists>m1. push_auxvs s kvs m sp = Some (m1, Inr (sp - 16 * length kvs))
      \<and> on_stack base lo hi m1 (sp - 16 * length kvs) (words_image (pairs (rev kvs)) @ c)"
proof (induction kvs arbitrary: m sp c)
  case (Cons kv kvs)
  obtain m1 where m1: "push_u64 s (snd kv) m sp = Some (m1, Inr (sp - 8))" "on_stack base lo hi m1 (sp - 8) (u64_block (snd kv) @ c)"
    using push_u64_image [OF assms Cons.prems(1)] Cons.prems(2) by fastforce
  obtain m2 where m2: "push_u64 s (fst kv) m1 (sp - 8) = Some (m2, Inr (sp - 8 - 8))" "on_stack base lo hi m2 (sp - 8 - 8) (u64_block (fst kv) @ u64_block (snd kv) @ c)"
    using push_u64_image [OF assms m1(2)] Cons.prems(2) by fastforce
  obtain m3 where "push_auxvs s kvs m2 (sp - 8 - 8) = Some (m3, Inr (sp - 8 - 8 - 16 * length kvs))"
      "on_stack base lo hi m3 (sp - 8 - 8 - 16 * length kvs) (words_image (pairs (rev kvs)) @ u64_block (fst kv) @ u64_block (snd kv) @ c)"
    using Cons.IH [OF m2(2)] Cons.prems(2) by fastforce
  then show ?case using m1(1) m2(1) by (cases kv) (simp add: push_auxv_def stk_bind_def pairs_def)
qed (simp add: pairs_def)

lemma string_addrs_snoc:
  "string_addrs hi (vs @ [v]) = string_addrs (hi - (length (as_bytes v) + 1)) vs @ [hi - (length (as_bytes v) + 1)]"
  by (induction vs) (simp_all add: add.commute add.left_commute)

lemma length_string_addrs [simp]: "length (string_addrs hi vs) = length vs"
  by (induction vs) simp_all

lemma nth_string_addrs: "n < length vs \<Longrightarrow> string_addrs hi vs ! n = hi - length (strings_image (drop n vs))"
proof (induction vs arbitrary: n)
  case (Cons v vs)
  then show ?case by (cases n) auto
qed simp

lemma push_addrs_image:
  assumes "linear s base lo hi"
  shows "on_stack base lo hi m sp c \<Longrightarrow> lo + 8 * length vs \<le> sp \<Longrightarrow> length (strings_image vs) \<le> scan_sp \<Longrightarrow>
    \<exists>m1. push_addrs s (rev vs) scan_sp m sp = Some (m1, Inr (sp - 8 * length vs))
      \<and> on_stack base lo hi m1 (sp - 8 * length vs) (words_image (string_addrs scan_sp vs) @ c)"
proof (induction vs arbitrary: m sp c scan_sp rule: rev_induct)
  case (snoc v vs)
  let ?a = "scan_sp - (length (as_bytes v) + 1)"
  have n: "length (as_bytes v) + 1 \<le> scan_sp" "length (strings_image vs) \<le> ?a" "lo + 8 \<le> sp" "lo + 8 * length vs \<le> sp - 8"
    using snoc.prems(2,3) by simp_all
  obtain m1 where m1: "push_u64 s ?a m sp = Some (m1, Inr (sp - 8))" "on_stack base lo hi m1 (sp - 8) (u64_block ?a @ c)"
    using push_u64_image [OF assms snoc.prems(1) n(3)] by blast
  obtain m2 where "push_addrs s (rev vs) ?a m1 (sp - 8) = Some (m2, Inr (sp - 8 - 8 * length vs))"
      "on_stack base lo hi m2 (sp - 8 - 8 * length vs) (words_image (string_addrs ?a vs) @ u64_block ?a @ c)"
    using snoc.IH [OF m1(2) n(4,2)] by blast
  then show ?case using m1(1) n(1) unfolding string_addrs_snoc by (simp add: stk_bind_def)
qed simp

lemma on_stack_down:
  assumes "on_stack base lo hi m sp c" "lo \<le> sp'" "sp' \<le> sp"
  shows "\<exists>pad. length pad = sp - sp' \<and> on_stack base lo hi m sp' (pad @ c)"
proof -
  let ?pad = "map (\<lambda>n. pmem m (base + sp' + n - lo)) [0..<sp - sp']"
  have "pmem m x = (?pad @ c) ! n" if n: "n < length (?pad @ c)" "x + lo = base + sp' + n" for n x
  proof (cases "n < sp - sp'")
    case True
    moreover have "x = base + sp' + n - lo" using n(2) by linarith
    ultimately show ?thesis by (simp add: nth_append)
  next
    case False
    then have "x + lo = base + sp + (n - (sp - sp'))" "n - (sp - sp') < length c" using n assms(3) by simp_all
    then have "pmem m x = c ! (n - (sp - sp'))" using assms(1) unfolding on_stack_def by blast
    then show ?thesis using False by (simp add: nth_append)
  qed
  then show ?thesis using assms by (intro exI [of _ ?pad]) (simp add: on_stack_def)
qed

lemma on_stack_user_byte:
  assumes "linear s base lo hi" "on_stack base lo hi m sp c" "n < length c"
  shows "user_byte m s (sp + n) = Some (c ! n)"
proof -
  have "lo \<le> sp + n" "sp + n < hi" using assms(2,3) by (auto simp: on_stack_def)
  then obtain mp where mp: "mapping_at s (sp + n) = Some mp" "mp_frame mp + (sp + n) mod frame_size + lo = base + (sp + n)"
    using assms(1) unfolding linear_def by blast
  then have "mp_frame mp + (sp + n) mod frame_size + lo = base + sp + n" by simp
  then have "pmem m (mp_frame mp + (sp + n) mod frame_size) = c ! n" using assms(2,3) unfolding on_stack_def by blast
  then show ?thesis using mp(1) by (simp add: user_byte_def)
qed

text \<open>The strings are where their addresses say.\<close>

lemma string_at_addr:
  assumes "sp + length (pre @ strings_image vs @ rest) = hi + length rest" "n < length vs"
  shows "take (length (cstr (vs ! n))) (drop (string_addrs hi vs ! n - sp) (pre @ strings_image vs @ rest)) = cstr (vs ! n)"
proof -
  have vs: "strings_image vs = strings_image (take n vs) @ strings_image (drop n vs)"
    using strings_image_simps(3) [of "take n vs" "drop n vs"] by simp
  have "strings_image (drop n vs) = cstr (vs ! n) @ strings_image (drop (Suc n) vs)"
    using assms(2) by (simp add: Cons_nth_drop_Suc [symmetric] cstr_def)
  moreover have "string_addrs hi vs ! n - sp = length pre + length (strings_image (take n vs))"
    using assms by (simp add: nth_string_addrs vs)
  ultimately show ?thesis unfolding vs by simp
qed

section \<open>The result\<close>

definition stack_start :: nat where
  "stack_start = USER_STACK_TOP - USER_STACK_RESERVE"

text \<open>What lies above the auxiliary vector, and the addresses in it.\<close>

definition argv_start :: "rstr list \<Rightarrow> nat" where
  "argv_start envp = stack_start - length (strings_image envp)"

definition platform_addr :: "rstr list \<Rightarrow> rstr list \<Rightarrow> nat" where
  "platform_addr argv envp = argv_start envp - length (strings_image argv) - 7"

definition execfn_addr :: "rstr list \<Rightarrow> rstr list \<Rightarrow> rstr \<Rightarrow> nat" where
  "execfn_addr argv envp exec_path = platform_addr argv envp - length (cstr exec_path)"

definition table_words :: "rstr list \<Rightarrow> rstr list \<Rightarrow> rstr \<Rightarrow> load_plan \<Rightarrow> nat list" where
  "table_words argv envp exec_path plan =
     length argv # string_addrs (argv_start envp) argv @ 0 # string_addrs stack_start envp @ 0
       # pairs (rev (auxv_entries (execfn_addr argv envp exec_path) (execfn_addr argv envp exec_path - 16) (platform_addr argv envp) plan))
       @ (if even (length argv + length envp) then [0] else [])"

definition names_image :: "rstr list \<Rightarrow> rstr list \<Rightarrow> rstr \<Rightarrow> u8 list" where
  "names_image argv envp exec_path = replicate 16 0x5A @ cstr exec_path @ platform_name @ 0 # strings_image argv @ strings_image envp"

definition stack_image :: "rstr list \<Rightarrow> rstr list \<Rightarrow> rstr \<Rightarrow> load_plan \<Rightarrow> u8 list \<Rightarrow> u8 list" where
  "stack_image argv envp exec_path plan pad = words_image (table_words argv envp exec_path plan) @ pad @ names_image argv envp exec_path"

lemma push_name_image:
  assumes "linear s base lo hi" "on_stack base lo hi m sp c" "lo + length bytes + 1 \<le> sp"
  shows "\<exists>m1. push_name s bytes m sp = Some (m1, Inr (sp - (length bytes + 1))) \<and> on_stack base lo hi m1 (sp - (length bytes + 1)) (bytes @ 0 # c)"
  using write_cstr_push [OF assms] assms(3) by (simp add: push_name_def)

lemma push_block_image:
  assumes "linear s base lo hi" "on_stack base lo hi m sp c" "lo + length bytes \<le> sp" "bytes \<noteq> []"
  shows "\<exists>m1. push_block s bytes m sp = Some (m1, Inr (sp - length bytes)) \<and> on_stack base lo hi m1 (sp - length bytes) (bytes @ c)"
  using stk_write_push [OF assms, of "sp - length bytes"] assms(3) by (simp add: push_block_def)

text \<open>The names and strings are pushed first.\<close>

lemma push_names_image:
  assumes l: "linear s base lo stack_start" and m: "phys_offset m \<noteq> None"
    and room: "lo + length (names_image argv envp exec_path) \<le> stack_start"
  shows "\<exists>m1 m2 m3 m4 m5. push_strings s (rev envp) m stack_start = Some (m1, Inr (argv_start envp))
    \<and> push_strings s (rev argv) m1 (argv_start envp) = Some (m2, Inr (argv_start envp - length (strings_image argv)))
    \<and> push_name s platform_name m2 (argv_start envp - length (strings_image argv)) = Some (m3, Inr (platform_addr argv envp))
    \<and> push_name s (as_bytes exec_path) m3 (platform_addr argv envp) = Some (m4, Inr (execfn_addr argv envp exec_path))
    \<and> push_block s (replicate 16 0x5A) m4 (execfn_addr argv envp exec_path) = Some (m5, Inr (execfn_addr argv envp exec_path - 16))
    \<and> on_stack base lo stack_start m5 (execfn_addr argv envp exec_path - 16) (names_image argv envp exec_path)"
proof -
  let ?E = "length (strings_image envp)" and ?A = "length (strings_image argv)" and ?X = "length (as_bytes exec_path)"
  have p: "length platform_name = 6" by (simp add: platform_name_def)
  have r: "lo + (16 + (?X + 1) + 7 + ?A + ?E) \<le> stack_start" using room p by (simp add: names_image_def cstr_def)
  have s0: "on_stack base lo stack_start m stack_start []" using m r by (simp add: on_stack_def)
  have e: "lo + length (strings_image (rev envp)) \<le> stack_start" using r by simp
  obtain m1 where m1: "push_strings s (rev envp) m stack_start = Some (m1, Inr (argv_start envp))" "on_stack base lo stack_start m1 (argv_start envp) (strings_image envp)"
    using push_strings_image [OF l s0 e] by (auto simp: argv_start_def)
  have a: "lo + length (strings_image (rev argv)) \<le> argv_start envp" using r by (simp add: argv_start_def)
  obtain m2 where m2: "push_strings s (rev argv) m1 (argv_start envp) = Some (m2, Inr (argv_start envp - ?A))"
      "on_stack base lo stack_start m2 (argv_start envp - ?A) (strings_image argv @ strings_image envp)"
    using push_strings_image [OF l m1(2) a] by auto
  have b: "lo + length platform_name + 1 \<le> argv_start envp - ?A" using r p by (simp add: argv_start_def)
  obtain m3 where m3: "push_name s platform_name m2 (argv_start envp - ?A) = Some (m3, Inr (platform_addr argv envp))"
      "on_stack base lo stack_start m3 (platform_addr argv envp) (platform_name @ 0 # strings_image argv @ strings_image envp)"
    using push_name_image [OF l m2(2) b] p by (auto simp: platform_addr_def)
  have c: "lo + ?X + 1 \<le> platform_addr argv envp" using r by (simp add: argv_start_def platform_addr_def)
  obtain m4 where m4: "push_name s (as_bytes exec_path) m3 (platform_addr argv envp) = Some (m4, Inr (execfn_addr argv envp exec_path))"
      "on_stack base lo stack_start m4 (execfn_addr argv envp exec_path) (cstr exec_path @ platform_name @ 0 # strings_image argv @ strings_image envp)"
    using push_name_image [OF l m3(2) c] by (auto simp: execfn_addr_def cstr_def)
  have d: "lo + length (replicate 16 (0x5A :: u8)) \<le> execfn_addr argv envp exec_path" "replicate 16 (0x5A :: u8) \<noteq> []"
    using r by (simp_all add: argv_start_def platform_addr_def execfn_addr_def cstr_def)
  obtain m5 where "push_block s (replicate 16 0x5A) m4 (execfn_addr argv envp exec_path) = Some (m5, Inr (execfn_addr argv envp exec_path - 16))"
      "on_stack base lo stack_start m5 (execfn_addr argv envp exec_path - 16) (names_image argv envp exec_path)"
    using push_block_image [OF l m4(2) d] by (auto simp: names_image_def)
  then show ?thesis using m1(1) m2(1) m3(1) m4(1) by blast
qed

text \<open>Then the table is pushed, from its last word to its first.\<close>

lemma push_table_image:
  assumes l: "linear s base lo stack_start" and c: "on_stack base lo stack_start m sp c"
    and room: "lo + 8 * length (table_words argv envp exec_path plan) \<le> sp"
    and scan_sp: "length (strings_image envp) \<le> stack_start" "length (strings_image argv) \<le> argv_start envp"
  shows "\<exists>m'. stk_bind (if (1 + length argv + 1 + length envp + 1) mod 2 \<noteq> 0 then push_u64 s 0 m sp else Some (m, Inr sp)) (\<lambda>m sp.
      stk_bind (push_auxvs s (auxv_entries (execfn_addr argv envp exec_path) (execfn_addr argv envp exec_path - 16) (platform_addr argv envp) plan) m sp) (\<lambda>m sp.
      stk_bind (push_u64 s 0 m sp) (\<lambda>m sp.
      stk_bind (push_addrs s (rev envp) stack_start m sp) (\<lambda>m sp.
      stk_bind (push_u64 s 0 m sp) (\<lambda>m sp.
      stk_bind (push_addrs s (rev argv) (argv_start envp) m sp) (\<lambda>m sp.
      push_u64 s (length argv) m sp))))))
      = Some (m', Inr (sp - 8 * length (table_words argv envp exec_path plan)))
    \<and> on_stack base lo stack_start m' (sp - 8 * length (table_words argv envp exec_path plan)) (words_image (table_words argv envp exec_path plan) @ c)"
proof -
  let ?kvs = "auxv_entries (execfn_addr argv envp exec_path) (execfn_addr argv envp exec_path - 16) (platform_addr argv envp) plan"
  define pad where "pad = (if even (length argv + length envp) then [0 :: nat] else [])"
  have len: "length (table_words argv envp exec_path plan) = length argv + length envp + 41 + length pad"
    by (simp add: table_words_def pad_def auxv_entries_def)
  have kl: "16 * length ?kvs = 304" by (simp add: auxv_entries_def)
  have odd: "(1 + length argv + 1 + length envp + 1) mod 2 \<noteq> 0 \<longleftrightarrow> even (length argv + length envp)" by presburger
  have r: "lo + 8 * (length argv + length envp + 41 + length pad) \<le> sp" using room len by simp
  obtain m1 where m1: "(if (1 + length argv + 1 + length envp + 1) mod 2 \<noteq> 0 then push_u64 s 0 m sp else Some (m, Inr sp)) = Some (m1, Inr (sp - 8 * length pad))"
      "on_stack base lo stack_start m1 (sp - 8 * length pad) (words_image pad @ c)"
  proof (cases "even (length argv + length envp)")
    case True
    then have "lo + 8 \<le> sp" using r by (simp add: pad_def)
    then show ?thesis using that push_u64_image [OF l c, of 0] True unfolding odd by (auto simp: pad_def)
  qed (use that c in \<open>simp add: odd pad_def\<close>)
  let ?s1 = "sp - 8 * length pad"
  have room2: "lo + 304 \<le> ?s1" "lo + 8 \<le> ?s1 - 304" "lo + 8 * length envp \<le> ?s1 - 304 - 8" "lo + 8 \<le> ?s1 - 304 - 8 - 8 * length envp"
      "lo + 8 * length argv \<le> ?s1 - 304 - 8 - 8 * length envp - 8" "lo + 8 \<le> ?s1 - 304 - 8 - 8 * length envp - 8 - 8 * length argv"
    using r by simp_all
  obtain m2 where m2: "push_auxvs s ?kvs m1 ?s1 = Some (m2, Inr (?s1 - 304))" "on_stack base lo stack_start m2 (?s1 - 304) (words_image (pairs (rev ?kvs)) @ words_image pad @ c)"
    using push_auxvs_image [OF l m1(2), of ?kvs, unfolded kl] room2(1) by blast
  let ?s2 = "?s1 - 304"
  obtain m3 where m3: "push_u64 s 0 m2 ?s2 = Some (m3, Inr (?s2 - 8))" "on_stack base lo stack_start m3 (?s2 - 8) (u64_block 0 @ words_image (pairs (rev ?kvs)) @ words_image pad @ c)"
    using push_u64_image [OF l m2(2) room2(2), of 0] by blast
  let ?s3 = "?s2 - 8"
  obtain m4 where m4: "push_addrs s (rev envp) stack_start m3 ?s3 = Some (m4, Inr (?s3 - 8 * length envp))"
      "on_stack base lo stack_start m4 (?s3 - 8 * length envp) (words_image (string_addrs stack_start envp) @ u64_block 0 @ words_image (pairs (rev ?kvs)) @ words_image pad @ c)"
    using push_addrs_image [OF l m3(2) room2(3) scan_sp(1)] by blast
  let ?s4 = "?s3 - 8 * length envp"
  obtain m5 where m5: "push_u64 s 0 m4 ?s4 = Some (m5, Inr (?s4 - 8))"
      "on_stack base lo stack_start m5 (?s4 - 8) (u64_block 0 @ words_image (string_addrs stack_start envp) @ u64_block 0 @ words_image (pairs (rev ?kvs)) @ words_image pad @ c)"
    using push_u64_image [OF l m4(2) room2(4), of 0] by blast
  let ?s5 = "?s4 - 8"
  obtain m6 where m6: "push_addrs s (rev argv) (argv_start envp) m5 ?s5 = Some (m6, Inr (?s5 - 8 * length argv))"
      "on_stack base lo stack_start m6 (?s5 - 8 * length argv) (words_image (string_addrs (argv_start envp) argv) @ u64_block 0
         @ words_image (string_addrs stack_start envp) @ u64_block 0 @ words_image (pairs (rev ?kvs)) @ words_image pad @ c)"
    using push_addrs_image [OF l m5(2) room2(5) scan_sp(2)] by blast
  let ?s6 = "?s5 - 8 * length argv"
  obtain m7 where m7: "push_u64 s (length argv) m6 ?s6 = Some (m7, Inr (?s6 - 8))"
      "on_stack base lo stack_start m7 (?s6 - 8) (u64_block (length argv) @ words_image (string_addrs (argv_start envp) argv) @ u64_block 0
         @ words_image (string_addrs stack_start envp) @ u64_block 0 @ words_image (pairs (rev ?kvs)) @ words_image pad @ c)"
    using push_u64_image [OF l m6(2) room2(6), of "length argv"] by blast
  have sp: "?s6 - 8 = sp - 8 * length (table_words argv envp exec_path plan)" unfolding len by simp
  have im: "u64_block (length argv) @ words_image (string_addrs (argv_start envp) argv) @ u64_block 0
         @ words_image (string_addrs stack_start envp) @ u64_block 0 @ words_image (pairs (rev ?kvs)) @ words_image pad @ c
       = words_image (table_words argv envp exec_path plan) @ c"
    by (simp add: table_words_def pad_def)
  show ?thesis
    using m7 unfolding m1(1) by (simp add: stk_bind_def m2(1) m3(1) m4(1) m5(1) m6(1) sp im del: diff_diff_left)
qed

lemma aligned_down:
  assumes "n \<le> a div 16 * 16" "n mod 16 = 0"
  shows "(a div 16 * 16 - n) mod 16 = (0 :: nat)"
  using assms by presburger

lemma table_words_even: "8 * length (table_words argv envp exec_path plan) mod 16 = 0"
proof -
  have "even (length (table_words argv envp exec_path plan))" by (simp add: table_words_def auxv_entries_def)
  then show ?thesis by presburger
qed

text \<open>C13: The initial stack of a program, in a stack region of consecutive frames with room for it. Filling it succeeds, the stack pointer
  is a multiple of 16, and from there on the memory of the program is exactly the image: the argument count, the addresses of
  the arguments and the environment, each list ended by zero, the auxiliary vector, and the strings; every address in the two lists
  is that of its string with a zero byte behind it.\<close>

theorem initial_stack_layout:
  assumes "linear s base (stack_start - USER_STACK_SIZE) stack_start" "phys_offset m \<noteq> None"
    and "length (names_image argv envp exec_path) + 15 + 8 * length (table_words argv envp exec_path plan) \<le> USER_STACK_SIZE"
  shows "\<exists>m' sp pad. fill_stack s argv envp exec_path plan m = Some (m', Inr sp) \<and> sp mod 16 = 0 \<and> length pad < 16
     \<and> sp + length (stack_image argv envp exec_path plan pad) = stack_start
     \<and> (\<forall>n < length (stack_image argv envp exec_path plan pad). user_byte m' s (sp + n) = Some (stack_image argv envp exec_path plan pad ! n))
     \<and> (\<forall>n < length argv. take (length (cstr (argv ! n))) (drop (string_addrs (argv_start envp) argv ! n - sp) (stack_image argv envp exec_path plan pad)) = cstr (argv ! n))
     \<and> (\<forall>n < length envp. take (length (cstr (envp ! n))) (drop (string_addrs stack_start envp ! n - sp) (stack_image argv envp exec_path plan pad)) = cstr (envp ! n))"
proof -
  let ?lo = "stack_start - USER_STACK_SIZE"
  let ?N = "length (names_image argv envp exec_path)" and ?T = "8 * length (table_words argv envp exec_path plan)"
  let ?r = "execfn_addr argv envp exec_path - 16"
  have lo: "?lo + USER_STACK_SIZE = stack_start"
    by (simp add: stack_start_def USER_STACK_SIZE_def USER_STACK_RESERVE_def USER_STACK_TOP_def USER_ADDRESS_END_def PAGE_SIZE_def)
  have room: "?lo + ?N \<le> stack_start" using assms(3) lo by linarith
  obtain m1 m2 m3 m4 m5 where names: "push_strings s (rev envp) m stack_start = Some (m1, Inr (argv_start envp))"
      "push_strings s (rev argv) m1 (argv_start envp) = Some (m2, Inr (argv_start envp - length (strings_image argv)))"
      "push_name s platform_name m2 (argv_start envp - length (strings_image argv)) = Some (m3, Inr (platform_addr argv envp))"
      "push_name s (as_bytes exec_path) m3 (platform_addr argv envp) = Some (m4, Inr (execfn_addr argv envp exec_path))"
      "push_block s (replicate 16 0x5A) m4 (execfn_addr argv envp exec_path) = Some (m5, Inr ?r)"
    and c5: "on_stack base ?lo stack_start m5 ?r (names_image argv envp exec_path)"
    using push_names_image [OF assms(1,2) room] by blast
  have r: "?r + ?N = stack_start" using c5 by (simp add: on_stack_def)
  have down: "?r div 16 * 16 \<le> ?r" "?r - ?r div 16 * 16 < 16" by (simp_all add: minus_div_mult_eq_mod)
  have roomT: "?lo + ?T \<le> ?r div 16 * 16" using assms(3) lo r down by linarith
  then have "?lo \<le> ?r div 16 * 16" by linarith
  then obtain pad where pad: "length pad = ?r - ?r div 16 * 16" "on_stack base ?lo stack_start m5 (?r div 16 * 16) (pad @ names_image argv envp exec_path)"
    using on_stack_down [OF c5 _ down(1)] by blast
  have scan_sp: "length (strings_image envp) \<le> stack_start" "length (strings_image argv) \<le> argv_start envp"
    using room by (auto simp: names_image_def argv_start_def)
  let ?sp = "?r div 16 * 16 - ?T"
  obtain m' where m': "fill_stack s argv envp exec_path plan m = Some (m', Inr ?sp)"
      "on_stack base ?lo stack_start m' ?sp (stack_image argv envp exec_path plan pad)"
    using push_table_image [OF assms(1) pad(2) roomT scan_sp] names
    unfolding fill_stack_def stack_start_def [symmetric] Let_def stack_image_def by (auto simp: stk_bind_def)
  have sp: "?sp + length (stack_image argv envp exec_path plan pad) = stack_start" using m'(2) by (simp add: on_stack_def)
  define pre where "pre = words_image (table_words argv envp exec_path plan) @ pad @ replicate 16 0x5A @ cstr exec_path @ platform_name @ [0]"
  have im: "stack_image argv envp exec_path plan pad = pre @ strings_image argv @ strings_image envp"
    by (simp add: stack_image_def names_image_def pre_def)
  have A: "?sp + length (pre @ strings_image argv @ strings_image envp) = argv_start envp + length (strings_image envp)"
    using sp scan_sp(1) unfolding im argv_start_def by simp
  have E: "?sp + length ((pre @ strings_image argv) @ strings_image envp @ []) = stack_start + length []"
    using sp unfolding im by simp
  have a: "\<forall>n < length argv. take (length (cstr (argv ! n))) (drop (string_addrs (argv_start envp) argv ! n - ?sp) (stack_image argv envp exec_path plan pad)) = cstr (argv ! n)"
    unfolding im using string_at_addr [OF A] by blast
  have e: "\<forall>n < length envp. take (length (cstr (envp ! n))) (drop (string_addrs stack_start envp ! n - ?sp) (stack_image argv envp exec_path plan pad)) = cstr (envp ! n)"
    unfolding im using string_at_addr [OF E] by simp
  have "?sp mod 16 = 0" using aligned_down [OF _ table_words_even] roomT by simp
  moreover have "length pad < 16" using pad(1) down(2) by simp
  moreover have "\<forall>n < length (stack_image argv envp exec_path plan pad). user_byte m' s (?sp + n) = Some (stack_image argv envp exec_path plan pad ! n)"
    using on_stack_user_byte [OF assms(1) m'(2)] by blast
  ultimately show ?thesis using m'(1) sp a e by (intro exI conjI)
qed

text \<open>A stack region of eight consecutive frames.\<close>

definition demo_stack :: address_space where
  "demo_stack = \<lparr>root_frame = 0, mappings = map (\<lambda>n. \<lparr>mp_page = stack_start - USER_STACK_SIZE + n * frame_size, mp_frame = 65536 + n * frame_size, mp_flags = 7\<rparr>) [0..<8],
     private_tables = []\<rparr>"

lemma demo_stack_linear: "linear demo_stack 65536 (stack_start - USER_STACK_SIZE) stack_start"
proof -
  let ?lo = "stack_start - USER_STACK_SIZE"
  have lo: "?lo mod frame_size = 0" "stack_start = ?lo + 8 * frame_size" "stack_start \<le> 2 ^ 47"
    by (simp_all add: stack_start_def USER_STACK_SIZE_def USER_STACK_RESERVE_def USER_STACK_TOP_def USER_ADDRESS_END_def PAGE_SIZE_def)
  have "\<exists>mp. mapping_at demo_stack a = Some mp \<and> mp_frame mp + a mod frame_size + ?lo = 65536 + a" if a: "?lo \<le> a" "a < stack_start" for a
  proof -
    obtain d where d: "a = ?lo + d" "d < 8 * frame_size" using a lo(2) le_Suc_ex [OF a(1)] by auto
    let ?n = "d div frame_size"
    have n: "?n < 8" using d(2) by (simp add: less_mult_imp_div_less)
    have q: "a div frame_size * frame_size = ?lo + ?n * frame_size" "a mod frame_size = d mod frame_size"
      using lo(1) d(1) by (simp_all add: div_add1_eq mod_eq_0_iff_dvd) (metis add_mult_distrib dvd_div_mult_self lo(1) mod_add_left_eq mod_eq_0_iff_dvd add_0)+
    have "?n \<in> {0, 1, 2, 3, 4, 5, 6, 7}" using n by auto
    then have "mapping_at demo_stack a = Some \<lparr>mp_page = ?lo + ?n * frame_size, mp_frame = 65536 + ?n * frame_size, mp_flags = 7\<rparr>"
      unfolding mapping_at_def q(1) demo_stack_def by (auto simp: upt_rec)
    moreover have "65536 + ?n * frame_size + a mod frame_size + ?lo = 65536 + a" using q(2) d(1) by simp
    ultimately show ?thesis by simp
  qed
  then show ?thesis using lo(3) unfolding linear_def by blast
qed

theorem initial_stack_layout_witness:
  "\<exists>m' sp. fill_stack demo_stack [lit ''ls''] [lit ''A=b''] (lit ''/ls'') \<lparr>plan_format = [], entry_point = 4096, segments = [], phdr_addr = 0,
       phent_size = 0, phnum = 0, interpreter = None\<rparr> demo_machine = Some (m', Inr sp)
     \<and> sp mod 16 = 0 \<and> user_byte m' demo_stack sp = Some 1"
proof -
  let ?plan = "\<lparr>plan_format = [], entry_point = 4096, segments = [], phdr_addr = 0, phent_size = 0, phnum = 0, interpreter = None\<rparr>"
  let ?argv = "[lit ''ls'']" and ?envp = "[lit ''A=b'']"
  have "length (table_words ?argv ?envp (lit ''/ls'') ?plan) = 44" by (simp add: table_words_def auxv_entries_def)
  moreover have "length (names_image ?argv ?envp (lit ''/ls'')) = 34"
    by (simp add: names_image_def cstr_def platform_name_def length_as_bytes str_len_def utf8_width_def lit_def)
  ultimately have "length (names_image ?argv ?envp (lit ''/ls'')) + 15 + 8 * length (table_words ?argv ?envp (lit ''/ls'') ?plan) \<le> USER_STACK_SIZE"
    by (simp add: USER_STACK_SIZE_def)
  from initial_stack_layout [OF demo_stack_linear _ this, of demo_machine] obtain m' sp pad where
    r: "fill_stack demo_stack ?argv ?envp (lit ''/ls'') ?plan demo_machine = Some (m', Inr sp)" "sp mod 16 = 0"
      "\<forall>n < length (stack_image ?argv ?envp (lit ''/ls'') ?plan pad). user_byte m' demo_stack (sp + n) = Some (stack_image ?argv ?envp (lit ''/ls'') ?plan pad ! n)"
    by (auto simp: demo_machine_def)
  have "stack_image ?argv ?envp (lit ''/ls'') ?plan pad ! 0 = 1" "0 < length (stack_image ?argv ?envp (lit ''/ls'') ?plan pad)"
    by (simp_all add: stack_image_def table_words_def u64_block_def le_bytes_def upt_rec)
  then have "user_byte m' demo_stack sp = Some 1" using r(3) [rule_format, of 0] by simp
  then show ?thesis using r(1,2) by (intro exI conjI)
qed

end
