(* ===== verification/Exec.thy ===== *)
theory Exec
  imports Probe User_Stack
begin

text \<open>
  The execution of programs, \<open>syscall/impls.rs\<close>. The search for the binary format is \<open>exec_probe\<close>; then the
  program is loaded into a new address space, which replaces the
  one of the task when nothing can fail any more. \<open>None\<close> is a panic. Entering user mode is the end.
\<close>

section \<open>Loading\<close>

fun load_segments ::
    "paging_crate \<Rightarrow> (nat \<Rightarrow> nat \<Rightarrow> mm_error + u8 list) \<Rightarrow> nat \<Rightarrow> load_segment list \<Rightarrow> machine \<Rightarrow> address_space
      \<Rightarrow> (machine \<times> address_space \<times> int option) option" where
  "load_segments pc read_chunk flen [] m s = Some (m, s, None)"
| "load_segments pc read_chunk flen (seg # segs) m s =
     (if flen < min (file_offset seg + file_size seg) (2 ^ 64 - 1) then Some (m, s, Some (-8))
      else case map_segment pc read_chunk m s seg of
             None \<Rightarrow> None
           | Some (m1, s1, Some _) \<Rightarrow> Some (m1, s1, Some (-5))
           | Some (m1, s1, None) \<Rightarrow> load_segments pc read_chunk flen segs m1 s1)"

text \<open>The new address space and the stack pointer; on an error the address space is dropped.\<close>

definition load_image ::
    "paging_crate \<Rightarrow> (nat \<Rightarrow> nat \<Rightarrow> mm_error + u8 list) \<Rightarrow> nat \<Rightarrow> load_plan \<Rightarrow> rstr list \<Rightarrow> rstr list \<Rightarrow> rstr \<Rightarrow> machine
      \<Rightarrow> (machine \<times> (int + address_space \<times> nat)) option" where
  "load_image pc read_chunk flen plan args envs path m =
     (case space_kernel m of
        (m1, Inl _) \<Rightarrow> Some (m1, Inl (-5))
      | (m1, Inr s1) \<Rightarrow>
          (case load_segments pc read_chunk flen (segments plan) m1 s1 of
             None \<Rightarrow> None
           | Some (m2, s2, Some e) \<Rightarrow> Some (space_drop m2 s2, Inl e)
           | Some (m2, s2, None) \<Rightarrow>
               (case build_initial_user_stack pc m2 s2 args envs path plan of
                  None \<Rightarrow> None
                | Some (m3, s3, Inl e) \<Rightarrow> Some (space_drop m3 s3, Inl e)
                | Some (m3, s3, Inr sp) \<Rightarrow> Some (m3, Inr (s3, sp)))))"

definition user_mmap_base :: nat where
  "user_mmap_base = 0x0000600000000000"

text \<open>The end of the last segment, rounded up to a page; the addition panics when it overflows.\<close>

definition image_brk :: "load_segment list \<Rightarrow> nat option" where
  "image_brk segs =
     (if segs = [] then Some 0
      else let value = Max (set (map (\<lambda>seg. min (virtual_address seg + memory_size seg) (2 ^ 64 - 1)) segs))
           in if 2 ^ 64 \<le> value + 4095 then None else Some ((value + 4095) div 4096 * 4096))"

definition prepare_task :: "u64 \<Rightarrow> 'i task \<Rightarrow> address_space \<Rightarrow> load_plan \<Rightarrow> rstr list \<Rightarrow> rstr \<Rightarrow> nat \<Rightarrow> nat \<Rightarrow> 'i task" where
  "prepare_task enter t s plan args path sp brk0 =
     (let t1 = prepare_user_exec enter (t\<lparr>t_space := s, argv := args, exec_path := path\<rparr>) (entry_point plan) sp;
          t2 = set_mmap_start (initialize_brk t1 brk0) user_mmap_base;
          c = set_address_space_root (t_context t2) (of_nat (root_paddr (t_space t2)))
      in t2\<lparr>t_context := set_context_stack_top c (of_nat (kernel_stack_top t2))\<rparr>)"

text \<open>The new image becomes active, the old address space and the files that are closed on exec are dropped.\<close>

definition exec_commit where
  "exec_commit ob enter k t s plan args path sp brk0 =
     (let (t1, closed) = task_close_on_exec (prepare_task enter t s plan args path sp brk0);
          k1 = update_task k (me k) (\<lambda>_. t1);
          k2 = k1\<lparr>k_machine := space_drop (k_machine k1) (t_space t), procs := (procs k1)\<lparr>cpu_root := root_frame s\<rparr>\<rparr>;
          (v, fs) = drop_handles ob (k_vfs k2) (files k2) closed (all_handles (tasks (procs k2)))
      in k2\<lparr>k_vfs := v, files := fs\<rparr>)"

text \<open>The branch of a loading plan: the new address space is complete before the task is touched.\<close>

definition exec_load where
  "exec_load ob pc enter k original plan req =
     (case resolve_path_from_current_cwd ob k (er_path req) of
        Inl e \<Rightarrow> Some (k, Inl (errno_from_fs e))
      | Inr inode \<Rightarrow>
          (let w = world (k_vfs k);
               read_chunk = (\<lambda>offset n. case i_read ob w inode offset n of Inl _ \<Rightarrow> Inl IoFailed | Inr bytes \<Rightarrow> Inr bytes)
           in case load_image pc read_chunk (i_size ob w inode) plan (er_argv req) (er_envp req) original (k_machine k) of
                None \<Rightarrow> None
              | Some (m1, Inl e) \<Rightarrow> Some (k\<lparr>k_machine := m1\<rparr>, Inl e)
              | Some (m1, Inr (s, sp)) \<Rightarrow>
                  (case task_of k (me k) of
                     None \<Rightarrow> Some (k\<lparr>k_machine := space_drop m1 s\<rparr>, Inl (-1))
                   | Some t \<Rightarrow>
                       (case image_brk (segments plan) of
                          None \<Rightarrow> None
                        | Some brk0 \<Rightarrow> Some (exec_commit ob enter (k\<lparr>k_machine := m1\<rparr>) t s plan (er_argv req) original sp brk0, Inr ())))))"

text \<open>When the links of the path cannot be followed, the path itself is used. \<open>Inr\<close> is the way to user mode.\<close>

definition execve_with_args where
  "execve_with_args ob pc hs enter k path args envs =
     (case resolve_absolute_from_current_cwd k path of
        Inl e \<Rightarrow> Some (k, Inl (errno_from_fs e))
      | Inr original \<Rightarrow>
          (let request_path = (case resolve_symlink_path ob (k_vfs k) original of Inl _ \<Rightarrow> original | Inr q \<Rightarrow> q)
           in case exec_probe ob hs 0 k \<lparr>er_path = request_path, er_argv = args, er_envp = envs\<rparr> of
                None \<Rightarrow> None
              | Some (k1, Inl e) \<Rightarrow> Some (k1, Inl e)
              | Some (k1, Inr (plan, req)) \<Rightarrow> exec_load ob pc enter k1 original plan req))"

definition execve where
  "execve ob pc hs enter k path = execve_with_args ob pc hs enter k path [path] []"

declare map_segment_loop.simps [simp del] map_zeroed_loop.simps [simp del]

section \<open>Ownership while a program is loaded\<close>

text \<open>The frames in \<open>out\<close> are in use by others, the frames of \<open>s\<close> by the new address space only.\<close>

definition holding :: "paging_crate \<Rightarrow> nat set \<Rightarrow> nat set \<Rightarrow> machine \<Rightarrow> address_space \<Rightarrow> bool" where
  "holding pc KT out m s \<longleftrightarrow> set (owned s) \<inter> out = {} \<and> machine_ok m KT (out \<union> set (owned s))
     \<and> (\<exists>lv. kernel_ok pc m KT lv \<and> space_ok pc m KT lv (out \<union> set (owned s)) s \<and> tree_ok pc m lv s)"

lemma holding_drop:
  assumes "holding pc KT out m s" "m_alloc m' = m_alloc m" "phys_offset m' = phys_offset m"
  shows "machine_ok (space_drop m' s) KT out"
proof -
  have o: "set (owned s) \<inter> out = {}" "machine_ok m' KT (out \<union> set (owned s))" "distinct (owned s)" "set (owned s) \<subseteq> out \<union> set (owned s) - KT"
    using assms machine_ok_cong [of m' m] by (auto simp: holding_def space_ok_def)
  have "out \<union> set (owned s) - set (owned s) = out" using o(1) by auto
  then show ?thesis using space_drop_ok [OF o(2-4)] by simp
qed

lemma holding_map_page:
  assumes "crate_ok pc" "holding pc KT out m s" "map_page pc m s page flags = (m', s', r)"
  shows "holding pc KT out m' s' \<and> (\<forall>f. r = Inr f \<longrightarrow> f \<in> set (owned s') \<and> f \<notin> tables s' \<and> f \<notin> KT)"
proof -
  obtain lv where ok: "machine_ok m KT (out \<union> set (owned s))" "kernel_ok pc m KT lv" "space_ok pc m KT lv (out \<union> set (owned s)) s"
    and tree: "tree_ok pc m lv s" and d: "set (owned s) \<inter> out = {}" using assms(2) by (auto simp: holding_def)
  from map_page_ok [OF assms(1) ok tree assms(3)] obtain new lv1 where
    step: "space_step pc KT m s (out \<union> set (owned s)) lv m' s' new lv1" and tree': "tree_ok pc m' lv1 s'"
    and q: "case r of Inl _ \<Rightarrow> mappings s' = mappings s | Inr f \<Rightarrow> f \<in> new \<and> f \<notin> tables s' \<and> shows_page pc m' s' page f (leaf_flags flags)
       \<and> mappings s' = mappings s @ [\<lparr>mp_page = page, mp_frame = f, mp_flags = leaf_flags flags\<rparr>]" by blast
  have n: "new \<inter> (out \<union> set (owned s) \<union> KT) = {}" "set (owned s') = set (owned s) \<union> new"
    and ok': "machine_ok m' KT (out \<union> set (owned s) \<union> new)" "kernel_ok pc m' KT lv1" "space_ok pc m' KT lv1 (out \<union> set (owned s) \<union> new) s'"
    using step unfolding space_step_def by blast+
  have "out \<union> set (owned s') = out \<union> set (owned s) \<union> new" "set (owned s') \<inter> out = {}" using n d by auto
  then have "holding pc KT out m' s'" using ok' tree' unfolding holding_def by auto
  moreover have "f \<in> set (owned s') \<and> f \<notin> tables s' \<and> f \<notin> KT" if "r = Inr f" for f using q that n by auto
  ultimately show ?thesis by blast
qed

lemma holding_write:
  assumes h: "holding pc KT out m s" and f: "f \<in> set (owned s)" "f \<notin> tables s" "f \<notin> KT"
    and w: "write_frame_bytes m f 0 buf = Inr m'" "length buf \<le> frame_size"
  shows "holding pc KT out m' s"
proof -
  obtain lv where ok: "machine_ok m KT (out \<union> set (owned s))" "kernel_ok pc m KT lv" "space_ok pc m KT lv (out \<union> set (owned s)) s"
    and tree: "tree_ok pc m lv s" and d: "set (owned s) \<inter> out = {}" using h by (auto simp: holding_def)
  have m': "m' = m\<lparr>pmem := \<lambda>a. if f \<le> a \<and> a < f + length buf then buf ! (a - (f + 0)) else pmem m a\<rparr>"
    using w(1) by (auto simp: write_frame_bytes_def split: option.splits)
  have al: "f mod frame_size = 0" using machine_ok_aligned [OF ok(1)] f(1) by auto
  have same: "same_frame m m' g" if g: "g mod frame_size = 0" "g \<noteq> f" for g
  proof -
    have "in_frame f a" if "f \<le> a" "a < f + length buf" for a using that w(2) by (simp add: in_frame_def)
    then show ?thesis using in_frame_unique [of f g] al g by (auto simp: same_frame_def m')
  qed
  have "machine_ok m' KT (out \<union> set (owned s))" using ok(1) machine_ok_cong [of m' m] by (simp add: m')
  moreover have "kernel_ok pc m' KT lv"
    by (rule kernel_ok_cong [OF ok(2) same]) (use machine_ok_aligned [OF ok(1)] f(3) in auto)
  moreover have "space_ok pc m' KT lv (out \<union> set (owned s)) s"
    by (rule space_ok_mem [OF ok(3) same]) (use machine_ok_aligned [OF ok(1)] f(2) tables_owned [of s] in auto)
  moreover have "tree_ok pc m' lv s"
    by (rule tree_ok_mem [OF tree same]) (use machine_ok_aligned [OF ok(1)] f(2) tables_owned [of s] in auto)
  ultimately show ?thesis using d unfolding holding_def by blast
qed

text \<open>The part of a page that a round of the loop covers, how much of it is in the file, and what the round writes.\<close>

definition segment_page :: "nat \<Rightarrow> nat \<Rightarrow> nat" where
  "segment_page end_addr a = min (frame_size - a mod frame_size) (end_addr - a)"

definition segment_file :: "load_segment \<Rightarrow> nat \<Rightarrow> nat \<Rightarrow> nat" where
  "segment_file seg end_addr a = min (segment_page end_addr a) (file_size seg - min (a - virtual_address seg) (file_size seg))"

definition segment_content :: "(nat \<Rightarrow> nat \<Rightarrow> mm_error + u8 list) \<Rightarrow> load_segment \<Rightarrow> nat \<Rightarrow> nat \<Rightarrow> mm_error + u8 list" where
  "segment_content read_chunk seg end_addr a =
     (if segment_file seg end_addr a > 0
      then (case read_chunk (min (file_offset seg + min (a - virtual_address seg) (file_size seg)) (2 ^ 64 - 1)) (segment_file seg end_addr a) of
              Inl e \<Rightarrow> Inl e
            | Inr bytes \<Rightarrow> if length bytes \<noteq> segment_file seg end_addr a then Inl IoFailed else Inr (page_buffer (a mod frame_size) bytes))
      else Inr (page_buffer 0 []))"

lemma page_buffer_length: "k + length bytes \<le> frame_size \<Longrightarrow> length (page_buffer k bytes) = frame_size"
  by (simp add: page_buffer_def)

lemma segment_file_le: "a mod frame_size + segment_file seg end_addr a \<le> frame_size"
proof -
  have "segment_file seg end_addr a \<le> segment_page end_addr a" unfolding segment_file_def by (rule min.cobounded1)
  moreover have "segment_page end_addr a \<le> frame_size - a mod frame_size" unfolding segment_page_def by (rule min.cobounded1)
  ultimately show ?thesis using mod_less_divisor [of frame_size a] by simp
qed

lemma segment_content_length:
  assumes "segment_content read_chunk seg end_addr a = Inr buf" shows "length buf = frame_size"
proof (cases "segment_file seg end_addr a > 0")
  case True
  with assms obtain bytes where "buf = page_buffer (a mod frame_size) bytes" "length bytes = segment_file seg end_addr a"
    unfolding segment_content_def by (auto split: sum.split_asm if_split_asm)
  then show ?thesis using segment_file_le [of a seg end_addr] by (simp add: page_buffer_length)
next
  case False
  with assms have "buf = page_buffer 0 []" unfolding segment_content_def by simp
  then show ?thesis by (simp add: page_buffer_length)
qed

lemma segment_round:
  assumes a: "a < end_addr" "canonical a"
    and mp: "map_page pc m s (a div frame_size * frame_size) (page_flags_from_segment (seg_flags seg)) = (m1, s1, q)"
  shows "map_segment_loop pc read_chunk seg end_addr m s a =
    (case q of
       Inl e \<Rightarrow> Some (m1, s1, Some e)
     | Inr f \<Rightarrow> (case segment_content read_chunk seg end_addr a of
           Inl e \<Rightarrow> Some (m1, s1, Some e)
         | Inr buf \<Rightarrow> (case write_frame_bytes m1 f 0 buf of
               Inl e \<Rightarrow> Some (m1, s1, Some e)
             | Inr m2 \<Rightarrow> map_segment_loop pc read_chunk seg end_addr m2 s1 (a + segment_page end_addr a))))"
  using a mp unfolding map_segment_loop.simps [of pc read_chunk seg end_addr m s a] segment_content_def segment_file_def segment_page_def Let_def
  by (cases q) (simp_all only: minus_div_mult_eq_mod if_True if_False not_True_eq_False not_False_eq_True prod.case sum.case)

lemma segment_step:
  assumes run: "map_segment_loop pc read_chunk seg end_addr m s a = Some (m', s', r)" and a: "a < end_addr"
    and mp: "map_page pc m s (a div frame_size * frame_size) (page_flags_from_segment (seg_flags seg)) = (m1, s1, q)"
  shows "m' = m1 \<and> s' = s1 \<and> r \<noteq> None
    \<or> (\<exists>f buf m2. q = Inr f \<and> segment_content read_chunk seg end_addr a = Inr buf \<and> write_frame_bytes m1 f 0 buf = Inr m2
         \<and> map_segment_loop pc read_chunk seg end_addr m2 s1 (a + segment_page end_addr a) = Some (m', s', r))"
proof -
  have can: "canonical a"
  proof (rule ccontr)
    assume "\<not> canonical a"
    with run a show False by (simp add: map_segment_loop.simps [of pc read_chunk seg end_addr m s a])
  qed
  show ?thesis using run unfolding segment_round [OF a can mp] by (auto split: sum.split_asm)
qed

lemma holding_segment_loop:
  assumes "crate_ok pc" "holding pc KT out m s" "map_segment_loop pc read_chunk seg end_addr m s a = Some (m', s', r)"
  shows "holding pc KT out m' s'"
  using assms(2,3)
proof (induction "end_addr - a" arbitrary: m s a rule: less_induct)
  case less
  show ?case
  proof (cases "a < end_addr")
    case False
    with less.prems show ?thesis by (auto simp: map_segment_loop.simps [of pc read_chunk seg end_addr m s a])
  next
    case True
    obtain m1 s1 q where mp: "map_page pc m s (a div frame_size * frame_size) (page_flags_from_segment (seg_flags seg)) = (m1, s1, q)"
      by (metis prod_cases3)
    note h = holding_map_page [OF assms(1) less.prems(1) mp]
    have p: "end_addr - (a + segment_page end_addr a) < end_addr - a"
      using True mod_less_divisor [of frame_size a] by (simp add: segment_page_def)
    from segment_step [OF less.prems(2) True mp] show ?thesis
    proof (elim disjE exE conjE)
      fix f buf m2
      assume w: "q = Inr f" "segment_content read_chunk seg end_addr a = Inr buf" "write_frame_bytes m1 f 0 buf = Inr m2"
        and nx: "map_segment_loop pc read_chunk seg end_addr m2 s1 (a + segment_page end_addr a) = Some (m', s', r)"
      have "holding pc KT out m2 s1" using h w segment_content_length [OF w(2)] by (intro holding_write [of pc KT out m1 s1 f buf m2]) auto
      from less.hyps [OF p this nx] show ?thesis .
    qed (use h in simp)
  qed
qed

lemma holding_segments:
  assumes "crate_ok pc"
  shows "holding pc KT out m s \<Longrightarrow> load_segments pc read_chunk flen segs m s = Some (m', s', r) \<Longrightarrow> holding pc KT out m' s'"
proof (induction segs arbitrary: m s)
  case (Cons seg segs)
  show ?case
  proof (cases "map_segment pc read_chunk m s seg")
    case (Some x)
    obtain m1 s1 q where x: "x = (m1, s1, q)" by (cases x)
    have "holding pc KT out m1 s1"
      using Cons.prems(1) Some x holding_segment_loop [OF assms Cons.prems(1)] by (auto simp: map_segment_def Let_def split: if_splits)
    then show ?thesis using Cons Some x by (auto split: if_splits option.splits)
  qed (use Cons.prems in \<open>auto split: if_splits\<close>)
qed simp

lemma holding_zeroed_loop:
  assumes "crate_ok pc" "holding pc KT out m s" "map_zeroed_loop pc flags end_addr m s a = Some (m', s', r)"
  shows "holding pc KT out m' s'"
  using assms(2,3)
proof (induction "end_addr - a" arbitrary: m s a rule: less_induct)
  case less
  let ?page = "a div frame_size * frame_size"
  show ?case
  proof (cases "a < end_addr")
    case False
    with less.prems show ?thesis by (auto simp: map_zeroed_loop.simps [of pc flags end_addr m s a])
  next
    case True
    obtain m1 s1 q where mp: "map_page pc m s ?page flags = (m1, s1, q)" by (metis prod_cases3)
    note h = holding_map_page [OF assms(1) less.prems(1) mp]
    have p: "end_addr - (?page + frame_size) < end_addr - a" using True dividend_less_div_times [of frame_size a] by simp
    have can: "canonical a"
    proof (rule ccontr)
      assume "\<not> canonical a"
      with less.prems(2) True show False by (simp add: map_zeroed_loop.simps [of pc flags end_addr m s a])
    qed
    have "s' = s1 \<and> m' = m1 \<or> map_zeroed_loop pc flags end_addr m1 s1 (?page + frame_size) = Some (m', s', r)"
      using less.prems(2) True can mp unfolding map_zeroed_loop.simps [of pc flags end_addr m s a]
      by (cases q) (simp_all add: Let_def split: if_split_asm)
    then show ?thesis using h less.hyps [OF p] by blast
  qed
qed

text \<open>Filling the stack changes the contents of frames only.\<close>

definition keeps_frames :: "machine \<Rightarrow> stack_result \<Rightarrow> bool" where
  "keeps_frames m x \<longleftrightarrow> (case x of None \<Rightarrow> True | Some (m', _) \<Rightarrow> m_alloc m' = m_alloc m \<and> phys_offset m' = phys_offset m)"

lemma keeps_bind: "keeps_frames m x \<Longrightarrow> (\<And>m' sp. keeps_frames m' (g m' sp)) \<Longrightarrow> keeps_frames m (stk_bind x g)"
  unfolding keeps_frames_def stk_bind_def by (fastforce split: option.splits sum.splits prod.splits)

lemma keeps_write: "keeps_frames m (stk_write s m a bytes sp)"
  by (auto simp: keeps_frames_def stk_write_def space_write_bytes_def write_frame_bytes_def Let_def split: option.splits sum.splits if_splits)

lemma keeps_done [simp]: "keeps_frames m None" "keeps_frames m (Some (m, r))"
  by (simp_all add: keeps_frames_def)

lemma keeps_cstr: "keeps_frames m (write_cstr s bytes m sp)"
  unfolding write_cstr_def by (intro keeps_bind keeps_write)

lemma keeps_string: "keeps_frames m (push_string s v m sp)"
  by (simp add: push_string_def keeps_cstr)

lemma keeps_strings: "keeps_frames m (push_strings s vs m sp)"
  by (induction vs arbitrary: m sp) (auto intro!: keeps_bind keeps_string)

lemma keeps_name: "keeps_frames m (push_name s bytes m sp)"
  by (simp add: push_name_def keeps_cstr)

lemma keeps_block: "keeps_frames m (push_block s bytes m sp)"
  by (simp add: push_block_def keeps_write)

lemma keeps_u64: "keeps_frames m (push_u64 s v m sp)"
  by (simp add: push_u64_def keeps_block)

lemma keeps_auxvs: "keeps_frames m (push_auxvs s kvs m sp)"
  by (induction kvs arbitrary: m sp) (auto simp: push_auxv_def intro!: keeps_bind keeps_u64)

lemma keeps_addrs: "keeps_frames m (push_addrs s vs scan_sp m sp)"
  by (induction vs arbitrary: scan_sp m sp) (auto intro!: keeps_bind keeps_u64)

lemma keeps_fill_stack: "keeps_frames m (fill_stack s args envs path plan m)"
  unfolding fill_stack_def Let_def
  by (intro keeps_bind keeps_strings keeps_name keeps_block keeps_auxvs keeps_addrs keeps_u64) (simp add: keeps_u64)

lemma holding_stack:
  assumes "crate_ok pc" "holding pc KT out m s" "build_initial_user_stack pc m s args envs path plan = Some (m', s', r)"
  shows "\<exists>m1. holding pc KT out m1 s' \<and> m_alloc m' = m_alloc m1 \<and> phys_offset m' = phys_offset m1"
proof -
  obtain m1 q where z: "map_zeroed_region pc m s (USER_STACK_TOP - (USER_STACK_SIZE + USER_STACK_RESERVE)) USER_STACK_MAP_SIZE WRITABLE = Some (m1, s', q)"
    and f: "(\<exists>e. q = Inl e) \<and> m' = m1 \<or> fill_stack s' args envs path plan m1 = Some (m', r)"
    using assms(3) by (auto simp: build_initial_user_stack_def split: option.splits sum.splits)
  have "holding pc KT out m1 s'"
    using assms(2) z holding_zeroed_loop [OF assms(1,2)] by (auto simp: map_zeroed_region_def Let_def split: if_splits option.splits)
  then show ?thesis using f keeps_fill_stack [of m1 s' args envs path plan] by (auto simp: keeps_frames_def)
qed

text \<open>A failed load gives all frames back, a successful one holds exactly those of the new address space.\<close>

lemma load_image_ok:
  assumes ok: "crate_ok pc" "machine_ok m KT out" "kernel_ok pc m KT lv" and kr: "kernel_root_frame m = Some kr" "kr \<in> KT" "lv kr = 4"
    and run: "load_image pc read_chunk flen plan args envs path m = Some (m', r)"
  shows "case r of
      Inl _ \<Rightarrow> machine_ok m' KT out
    | Inr (s, sp) \<Rightarrow> set (owned s) \<inter> (out \<union> KT) = {} \<and> distinct (owned s) \<and> machine_ok m' KT (out \<union> set (owned s)) \<and> machine_ok (space_drop m' s) KT out"
proof -
  obtain m1 q where k: "space_kernel m = (m1, q)" by fastforce
  note ko = space_kernel_ok [OF ok kr k]
  show ?thesis
  proof (cases q)
    case (Inl e)
    with ko run k show ?thesis by (auto simp: load_image_def)
  next
    case (Inr s1)
    have o1: "set (owned s1) = {root_frame s1}" using ko Inr by (auto simp: owned_def)
    have "tree_ok pc m1 lv' s1" for lv' using ko Inr by (simp add: tree_ok_def)
    then have "holding pc KT out m1 s1" unfolding holding_def o1 using ko Inr by auto
    note h1 = holding_segments [OF ok(1) this]
    obtain m2 s2 e where l: "load_segments pc read_chunk flen (segments plan) m1 s1 = Some (m2, s2, e)"
      using run k Inr by (cases "load_segments pc read_chunk flen (segments plan) m1 s1") (auto simp: load_image_def)
    note h2 = h1 [OF l]
    show ?thesis
    proof (cases e)
      case (Some x)
      then show ?thesis using run k Inr l holding_drop [OF h2 refl refl] by (auto simp: load_image_def)
    next
      case None
      obtain m3 s3 q3 where b: "build_initial_user_stack pc m2 s2 args envs path plan = Some (m3, s3, q3)"
        using run k Inr l None by (cases "build_initial_user_stack pc m2 s2 args envs path plan") (auto simp: load_image_def)
      obtain m0 where h3: "holding pc KT out m0 s3" "m_alloc m3 = m_alloc m0" "phys_offset m3 = phys_offset m0"
        using holding_stack [OF ok(1) h2 b] by blast
      note d = holding_drop [OF h3]
      have "set (owned s3) \<inter> (out \<union> KT) = {}" "distinct (owned s3)" "machine_ok m3 KT (out \<union> set (owned s3))"
        using h3 machine_ok_cong [OF h3(2,3)] by (auto simp: holding_def space_ok_def)
      then show ?thesis using d run k Inr l None b by (cases q3) (auto simp: load_image_def)
    qed
  qed
qed

section \<open>Properties\<close>

lemma find_update_pid:
  assumes "position (\<lambda>u. t_pid u = p) ts = Some k" "t_pid t' = p"
  shows "find (\<lambda>u. t_pid u = p') (ts[k := t']) = (if p' = p then Some t' else find (\<lambda>u. t_pid u = p') ts)"
  using assms by (induction ts arbitrary: k) (auto split: if_splits)

lemma task_of_update:
  assumes "task_by_pid s p = Some t" "t_pid t' = t_pid t"
  shows "task_by_pid (update_pid s p (\<lambda>_. t')) p' = (if p' = p then Some t' else task_by_pid s p')"
proof -
  have p: "t_pid t = p" using assms(1) by (auto simp: task_by_pid_def find_Some_iff)
  obtain k where k: "pid_index s p = Some k" using assms(1) task_by_pid_index by blast
  then have "k < length (tasks s)" by (simp add: pid_index_def position_Some)
  with k have "tasks (update_pid s p (\<lambda>_. t')) = (tasks s)[k := t']" by (simp add: update_pid_def update_index_def)
  with find_update_pid [of p "tasks s" k t' p'] k p assms(2) show ?thesis by (simp add: task_by_pid_def pid_index_def)
qed

lemma prepare_task_fields:
  "t_pid (prepare_task enter t s plan args path sp brk0) = t_pid t"
  "t_space (prepare_task enter t s plan args path sp brk0) = s"
  "fds (prepare_task enter t s plan args path sp brk0) = fds t"
  "argv (prepare_task enter t s plan args path sp brk0) = args"
  "cr3 (t_context (prepare_task enter t s plan args path sp brk0)) = of_nat (root_frame s)"
  "brk_start (prepare_task enter t s plan args path sp brk0) = brk0"
  "brk_end (prepare_task enter t s plan args path sp brk0) = brk0"
  "brk_mapped_end (prepare_task enter t s plan args path sp brk0) = brk0"
  by (simp_all add: prepare_task_def prepare_user_exec_def initialize_brk_def set_mmap_start_def set_address_space_root_def
      set_context_stack_top_def root_paddr_def Let_def)

lemma exec_commit_task:
  assumes "task_of k (me k) = Some t"
    and t'_def: "t' = fst (task_close_on_exec (prepare_task enter t s plan args path sp brk0))"
    and k'_def: "k' = exec_commit ob enter k t s plan args path sp brk0"
  shows "k_machine k' = space_drop (k_machine k) (t_space t)" "cpu_root (procs k') = root_frame s" "me k' = me k"
    "task_of k' p = (if p = me k then Some t' else task_of k p)"
    "t_space t' = s" "cr3 (t_context t') = of_nat (root_frame s)" "brk_start t' = brk0" "brk_end t' = brk0" "brk_mapped_end t' = brk0"
    "fd_view (fds t') fd = surviving (fd_view (fds t) fd)"
proof -
  let ?u = "prepare_task enter t s plan args path sp brk0"
  have t': "t' = ?u\<lparr>fds := fst (close_on_exec (fds t))\<rparr>"
    by (simp add: t'_def task_close_on_exec_def prepare_task_fields case_prod_beta)
  then show "t_space t' = s" "cr3 (t_context t') = of_nat (root_frame s)" "brk_start t' = brk0" "brk_end t' = brk0" "brk_mapped_end t' = brk0"
    "fd_view (fds t') fd = surviving (fd_view (fds t) fd)"
    by (simp_all add: prepare_task_fields fd_view_close_on_exec)
  have p: "procs k' = (update_pid (procs k) (me k) (\<lambda>_. t'))\<lparr>cpu_root := root_frame s\<rparr>"
    and m: "k_machine k' = space_drop (k_machine k) (t_space t)"
    by (simp_all add: k'_def exec_commit_def t'_def Let_def case_prod_beta update_task_def)
  show "k_machine k' = space_drop (k_machine k) (t_space t)" by (rule m)
  have "t_pid t' = t_pid t" by (simp add: t' prepare_task_fields)
  from task_of_update [OF assms(1) this, of p] show "task_of k' p = (if p = me k then Some t' else task_of k p)"
    by (simp add: p task_by_pid_def)
  show "cpu_root (procs k') = root_frame s" "me k' = me k"
    by (simp_all add: p update_pid_def update_index_def split: option.splits)
qed

lemma exec_load_ok:
  assumes ok: "crate_ok pc" "machine_ok (k_machine k) KT out" "kernel_ok pc (k_machine k) KT lv"
    and kr: "kernel_root_frame (k_machine k) = Some kr" "kr \<in> KT" "lv kr = 4"
    and old: "\<And>t. task_of k (me k) = Some t \<Longrightarrow> distinct (owned (t_space t)) \<and> set (owned (t_space t)) \<subseteq> out - KT"
    and run: "exec_load ob pc enter k original plan req = Some (k', r)"
  shows "case r of
      Inl e \<Rightarrow> k' = k\<lparr>k_machine := k_machine k'\<rparr> \<and> machine_ok (k_machine k') KT out
    | Inr _ \<Rightarrow> \<exists>t t'. task_of k (me k) = Some t \<and> (\<forall>p. task_of k' p = (if p = me k then Some t' else task_of k p))
        \<and> set (owned (t_space t')) \<inter> (out \<union> KT) = {}
        \<and> machine_ok (k_machine k') KT (out - set (owned (t_space t)) \<union> set (owned (t_space t')))
        \<and> cpu_root (procs k') = root_frame (t_space t') \<and> cr3 (t_context t') = of_nat (root_frame (t_space t'))
        \<and> brk_end t' = brk_start t' \<and> brk_mapped_end t' = brk_start t'
        \<and> (\<forall>fd. fd_view (fds t') fd = surviving (fd_view (fds t) fd))"
proof (cases "resolve_path_from_current_cwd ob k (er_path req)")
  case (Inl e)
  with run ok(2) show ?thesis by (auto simp: exec_load_def)
next
  case (Inr inode)
  let ?read = "\<lambda>offset n. case i_read ob (world (k_vfs k)) inode offset n of Inl _ \<Rightarrow> Inl IoFailed | Inr bytes \<Rightarrow> Inr bytes"
  obtain m1 q where l: "load_image pc ?read (i_size ob (world (k_vfs k)) inode) plan (er_argv req) (er_envp req) original (k_machine k) = Some (m1, q)"
    using run Inr by (cases "load_image pc ?read (i_size ob (world (k_vfs k)) inode) plan (er_argv req) (er_envp req) original (k_machine k)")
      (auto simp: exec_load_def Let_def)
  note li = load_image_ok [OF ok kr l]
  show ?thesis
  proof (cases q)
    case (Inl e)
    with run Inr l li show ?thesis by (auto simp: exec_load_def Let_def)
  next
    case q: (Inr x)
    obtain s sp where x: "x = (s, sp)" by fastforce
    note img = li [unfolded q x, simplified]
    show ?thesis
    proof (cases "task_of k (me k)")
      case None
      with run Inr l q x img show ?thesis by (auto simp: exec_load_def Let_def)
    next
      case (Some t)
      let ?k1 = "k\<lparr>k_machine := m1\<rparr>"
      obtain brk0 where e: "k' = exec_commit ob enter ?k1 t s plan (er_argv req) original sp brk0" "r = Inr ()"
        using run Inr l q x Some by (auto simp: exec_load_def Let_def split: option.splits)
      have t1: "task_of ?k1 (me ?k1) = Some t" using Some by simp
      note c = exec_commit_task [OF t1 refl e(1)]
      define t' where "t' = fst (task_close_on_exec (prepare_task enter t s plan (er_argv req) original sp brk0))"
      have "machine_ok (space_drop m1 (t_space t)) KT (out \<union> set (owned s) - set (owned (t_space t)))"
        using space_drop_ok [of m1 KT "out \<union> set (owned s)" "t_space t"] img old [OF Some] by auto
      moreover have "out \<union> set (owned s) - set (owned (t_space t)) = out - set (owned (t_space t)) \<union> set (owned s)"
        using img old [OF Some] by auto
      ultimately have m: "machine_ok (k_machine k') KT (out - set (owned (t_space t)) \<union> set (owned s))" using c(1) by simp
      show ?thesis unfolding e(2) sum.case
        by (rule exI [of _ t], rule exI [of _ t']) (use c [folded t'_def] m Some img in simp)
    qed
  qed
qed

text \<open>C6: Executing a program is all or nothing. If it fails, at whatever point, the kernel is as before: every other task is untouched, the calling
  task differs at most in unused slots of its descriptor table (the files that are probed are opened through it and closed again), no file is left
  open, the open and reference counts of all inodes are the old ones, and all frames that were taken for the new image are free again.
  If it succeeds, only the
  calling task has changed: its old address space has been given back, the new one, in frames nobody else uses, is the one
  the processor and the saved context point to, the heap is empty, and exactly the descriptors without close-on-exec are still open.
  (Hypotheses: no count is at its limit, and descriptors refer to existing open files.)\<close>

theorem exec_all_or_nothing:
  assumes "crate_ok pc" "machine_ok (k_machine k) KT out" "kernel_ok pc (k_machine k) KT lv"
    and "kernel_root_frame (k_machine k) = Some kr" "kr \<in> KT" "lv kr = 4"
    and "\<And>t. task_of k (me k) = Some t \<Longrightarrow> distinct (owned (t_space t)) \<and> set (owned (t_space t)) \<subseteq> out - KT"
    and "settled (k_vfs k)" "handles_valid k"
    and "execve_with_args ob pc hs enter k path args envs = Some (k', r)"
  shows "case r of
      Inl e \<Rightarrow> undisturbed k k' \<and> machine_ok (k_machine k') KT out
    | Inr _ \<Rightarrow> \<exists>t t'. task_of k (me k) = Some t \<and> (\<forall>p. task_of k' p = (if p = me k then Some t' else task_of k p))
        \<and> set (owned (t_space t')) \<inter> (out \<union> KT) = {}
        \<and> machine_ok (k_machine k') KT (out - set (owned (t_space t)) \<union> set (owned (t_space t')))
        \<and> cpu_root (procs k') = root_frame (t_space t') \<and> cr3 (t_context t') = of_nat (root_frame (t_space t'))
        \<and> brk_end t' = brk_start t' \<and> brk_mapped_end t' = brk_start t'
        \<and> (\<forall>fd. fd_view (fds t') fd = surviving (fd_view (fds t) fd))"
proof (cases "resolve_absolute_from_current_cwd k path")
  case (Inl e)
  with assms(2,10) undisturbed_refl [OF assms(8)] show ?thesis by (auto simp: execve_with_args_def)
next
  case (Inr original)
  let ?req = "\<lparr>er_path = (case resolve_symlink_path ob (k_vfs k) original of Inl _ \<Rightarrow> original | Inr q \<Rightarrow> q), er_argv = args, er_envp = envs\<rparr>"
  obtain k1 x where x: "exec_probe ob hs 0 k ?req = Some (k1, x)"
    using assms(10) Inr by (cases "exec_probe ob hs 0 k ?req") (auto simp: execve_with_args_def Let_def)
  have u: "undisturbed k k1" and m: "k_machine k1 = k_machine k" using exec_probe_undisturbed [OF assms(8,9) x] by auto
  note me = undisturbed_me [OF u] and tk = undisturbed_task [OF u]
  show ?thesis
  proof (cases x)
    case (Inl e)
    with assms(2,10) Inr x u m show ?thesis by (auto simp: execve_with_args_def Let_def)
  next
    case q: (Inr y)
    obtain plan req where y: "y = (plan, req)" by fastforce
    have run: "exec_load ob pc enter k1 original plan req = Some (k', r)" using assms(10) Inr x q y by (simp add: execve_with_args_def Let_def)
    have old: "distinct (owned (t_space t1)) \<and> set (owned (t_space t1)) \<subseteq> out - KT" if "task_of k1 (me k1) = Some t1" for t1
      using assms(7) tk(2) [of "me k"] that me by (auto simp: same_task_def option_rel_Some2)
    note l = exec_load_ok [OF assms(1) assms(2-6) [folded m] old run]
    show ?thesis
    proof (cases r)
      case (Inl e)
      then have "k' = k1\<lparr>k_machine := k_machine k'\<rparr>" "machine_ok (k_machine k') KT out" using l by simp_all
      moreover from this(1) u have "undisturbed k k'" unfolding undisturbed_def by (metis kernel.select_convs kernel.surjective kernel.update_convs(2))
      ultimately show ?thesis using Inl by simp
    next
      case (Inr z)
      then obtain t1 t' where t1: "task_of k1 (me k1) = Some t1" and t': "\<And>p. task_of k' p = (if p = me k1 then Some t' else task_of k1 p)"
        "set (owned (t_space t')) \<inter> (out \<union> KT) = {}"
        "machine_ok (k_machine k') KT (out - set (owned (t_space t1)) \<union> set (owned (t_space t')))"
        "cpu_root (procs k') = root_frame (t_space t')" "cr3 (t_context t') = of_nat (root_frame (t_space t'))"
        "brk_end t' = brk_start t'" "brk_mapped_end t' = brk_start t'" "\<And>fd. fd_view (fds t') fd = surviving (fd_view (fds t1) fd)"
        using l by auto
      obtain t where t: "task_of k (me k) = Some t" "same_task t t1" using tk(2) [of "me k"] t1 me by (auto simp: option_rel_Some2)
      then have "t_space t1 = t_space t" "fd_view (fds t1) = fd_view (fds t)" by (auto simp: same_task_def)
      moreover have "task_of k' p = (if p = me k then Some t' else task_of k p)" for p using t'(1) [of p] tk(1) [of p] me by simp
      ultimately show ?thesis unfolding Inr sum.case using t(1) t' by (intro exI [of _ t] exI [of _ t']) simp
    qed
  qed
qed

text \<open>A program \<open>/t\<close> of two bytes whose only segment claims three.\<close>

definition bad_plan :: load_plan where
  "bad_plan = \<lparr>plan_format = [], entry_point = 0x400000,
     segments = [\<lparr>virtual_address = 0x400000, memory_size = 3, file_offset = 0, file_size = 3, seg_flags = 5\<rparr>],
     phdr_addr = 0, phent_size = 0, phnum = 0, interpreter = None\<rparr>"

definition bad_handler :: handler where
  "bad_handler = \<lparr>h_name = [], h_inspect = (\<lambda>_ _. Some (Inr (Some (Load bad_plan))))\<rparr>"

definition exec_kernel :: "(nat, nat, unit, unit, unit) kernel" where
  "exec_kernel = demo_kernel\<lparr>procs := (procs demo_kernel)\<lparr>tasks := [(sample_task ROOT_PID Running)\<lparr>t_space := demo_space\<rparr>]\<rparr>\<rparr>"

lemma demo_open:
  "\<exists>v f. open_path demo_objects (demo_vfs []) (lit ''/t'') = (v, Inr f) \<and> (\<forall>n. file_read demo_objects v (f\<lparr>append_mode := False\<rparr>) n
      = (v, f\<lparr>append_mode := False, cursor := 2\<rparr>, Inr [47, 116]))"
proof -
  define f0 :: "(nat, nat, unit) open_file" where "f0 = new_file demo_objects 2 (Some [slash]) 0"
  define v1 where "v1 = track_open_inode (demo_vfs []) [slash] (i_ino demo_objects 2)"
  define f1 where "f1 = f0\<lparr>tracked_open := True\<rparr>"
  have f0: "mount_path f0 = Some [slash]" "of_inode f0 = 2" "of_device f0 = None" "cursor f0 = 0" by (simp_all add: f0_def new_file_def)
  have "file_filesystem demo_objects (demo_vfs []) 2 = Inr 0" by (simp add: file_filesystem_def demo_objects_def demo_vfs_def bt_get_def)
  moreover have "track_file demo_objects (demo_vfs []) f0 = (v1, f1)" by (simp add: track_file_def f0 v1_def f1_def)
  moreover have "open_device demo_objects v1 f1 = (v1, Inr f1)"
    by (simp add: open_device_def lookup_device_def f1_def f0) (simp add: demo_objects_def)
  moreover obtain v f where c: "count_ref v1 f1 = (v, f)" by fastforce
  ultimately have run: "file_new demo_objects (demo_vfs []) 2 (Some [slash]) = (v, Inr f)" by (simp add: file_new_def f0_def)
  have norm: "normalize_absolute_path (lit ''/t'') = Inr (abs_path [[116]])"
    unfolding normalize_components
    by (simp add: lit_def str_trim_def trim_start_def trim_end_def is_whitespace_def components_def split_segments_def push_def abs_path_def)
  have "open_path demo_objects (demo_vfs []) (lit ''/t'') = (v, Inr f)"
    using run unfolding open_path_def norm
    by (simp add: resolve_path_def demo_vfs_def demo_objects_def root_inode_def root_fs_def abs_path_def split_segments_def)
  moreover from c have f: "of_inode f = 2" "of_device f = None" "cursor f = 0" by (auto simp: count_ref_def Let_def f1_def f0)
  have "file_read demo_objects v (f\<lparr>append_mode := False\<rparr>) n = (v, f\<lparr>append_mode := False, cursor := 2\<rparr>, Inr [47, 116])" for n
    by (simp add: file_read_def lookup_device_def f) (simp add: demo_objects_def usize_max_def f)
  ultimately show ?thesis by blast
qed

theorem exec_all_or_nothing_witness:
  "\<exists>k'. execve_with_args demo_objects x86_crate [bad_handler] 0 exec_kernel (lit ''/t'') [] [] = Some (k', Inl (-8))
     \<and> undisturbed exec_kernel k' \<and> machine_ok (k_machine k') {4096} {8192, 12288}"
proof -
  let ?k = exec_kernel and ?req = "\<lparr>er_path = lit ''/t'', er_argv = [], er_envp = []\<rparr>"
  have m: "k_machine ?k = demo_machine" "k_vfs ?k = demo_vfs []" by (simp_all add: exec_kernel_def demo_kernel_def)
  obtain t where task: "task_of ?k (me ?k) = Some t" by (simp add: exec_kernel_def demo_kernel_def task_by_pid_def sample_task_def)
  have ok: "settled (k_vfs ?k)" "handles_valid ?k"
    by (simp_all add: m settled_def positive_def refs_positive_def open_count_of_def ref_of_def demo_vfs_def usize_max_def)
      (simp add: handles_valid_def exec_kernel_def demo_kernel_def all_handles_def handles_def sample_task_def fd_iter_def fd_new_def List.map_filter_def)
  have norm: "normalize_absolute_path (lit ''/t'') = Inr (lit ''/t'')"
    unfolding normalize_components
    by (simp add: lit_def str_trim_def trim_start_def trim_end_def is_whitespace_def components_def split_segments_def push_def abs_path_def)
  have t: "lit ''/t'' = abs_path [[116]]" by (simp add: lit_def abs_path_def)
  have abs: "resolve_absolute_from_current_cwd k (lit ''/t'') = Inr (lit ''/t'')" for k :: "(nat, nat, unit, unit, unit) kernel"
    using norm by (simp add: resolve_absolute_from_current_cwd_def lit_def str_trim_def trim_start_def trim_end_def is_whitespace_def starts_with_def)
  have sym: "resolve_symlink_path demo_objects (demo_vfs []) (lit ''/t'') = Inr (lit ''/t'')"
    using norm demo_follow_end unfolding t by (simp add: resolve_symlink_path_def)
  obtain k1 head where h: "probe_head demo_objects ?k (lit ''/t'') PROBE_READ_LIMIT = (k1, head)" by fastforce
  obtain v f where o: "open_path demo_objects (k_vfs ?k) (lit ''/t'') = (v, Inr f)"
    "\<forall>n. file_read demo_objects v (f\<lparr>append_mode := False\<rparr>) n = (v, f\<lparr>append_mode := False, cursor := 2\<rparr>, Inr [47, 116])"
    using demo_open unfolding m by blast
  have p: "undisturbed ?k k1" "k_machine k1 = demo_machine" "head = Inr [47, 116]"
    using probe_head_file [OF ok task abs o(1) h] o(2) by (simp_all add: m)
  have "probe_current demo_objects [bad_handler] ?k ?req = (k1, Some (Inr (Load bad_plan)))"
    by (simp add: probe_current_def h p(3) probe_path_def bad_handler_def)
  then have pr: "exec_probe demo_objects [bad_handler] 0 ?k ?req = Some (k1, Inr (bad_plan, ?req))"
    by (simp add: exec_probe.simps [of _ _ 0] bad_plan_def)
  have v1: "root_mount (k_vfs k1) = Some 0" "mounts (k_vfs k1) = []"
    using p(1) by (simp_all add: undisturbed_def same_vfs_def vfs_tables_def m demo_vfs_def)
  have "lookup_path_without_symlink_resolution demo_objects (k_vfs k1) (abs_path [[116]]) = Inr 2"
    by (simp add: lookup_path_without_symlink_resolution_def resolve_path_def v1 demo_objects_def root_inode_def root_fs_def abs_path_def split_segments_def)
  then have ino: "resolve_path_from_current_cwd demo_objects k1 (lit ''/t'') = Inr 2"
    using norm abs unfolding t by (simp add: resolve_path_from_current_cwd_def lookup_path_def lookup_path_with_options_def)
  have "has_free demo_machine [16384, 20480, 24576, 28672, 32768, 36864, 40960]" "phys_offset demo_machine \<noteq> None" "kernel_root_frame demo_machine = Some 4096"
    by (simp_all add: has_free_def demo_machine_def)
  then obtain m1 s1 where s1: "space_kernel demo_machine = (m1, Inr s1)" using space_kernel_free by blast
  have "i_size demo_objects w 2 = 2" for w by (simp add: demo_objects_def)
  then have load: "load_image x86_crate rd (i_size demo_objects w 2) bad_plan [] [] (lit ''/t'') demo_machine = Some (space_drop m1 s1, Inl (-8))" for rd w
    using s1 by (simp add: load_image_def bad_plan_def)
  have run: "execve_with_args demo_objects x86_crate [bad_handler] 0 ?k (lit ''/t'') [] [] = Some (k1\<lparr>k_machine := space_drop m1 s1\<rparr>, Inl (-8))"
    unfolding execve_with_args_def abs by (simp add: pr exec_load_def m sym ino load p(2) Let_def)
  have own: "distinct (owned (t_space u)) \<and> set (owned (t_space u)) \<subseteq> {8192, 12288} - {4096}" if "task_of ?k (me ?k) = Some u" for u
    using that by (auto simp: exec_kernel_def demo_kernel_def task_by_pid_def sample_task_def owned_def demo_space_def)
  have kr: "kernel_root_frame (k_machine ?k) = Some 4096" by (simp add: m demo_machine_def)
  from exec_all_or_nothing [OF crate_ok_x86 demo_ok(1,2) [folded m(1)] kr _ _ own ok run] run show ?thesis by simp
qed

end
