(* ===== verification/Load_Image.thy ===== *)
theory Load_Image
  imports Exec
begin

text \<open>
  What a loaded segment looks like to the program, through the page tables: the bytes of the file, then zeros, with the protection of the
  segment. The pages of the segment must be free; a second page at the same address takes the place of the first.
\<close>

lemma map_page_fresh:
  assumes "crate_ok pc" "holding pc KT out m s" "map_page pc m s page flags = (m', s', Inr f)"
  shows "mappings s' = mappings s @ [\<lparr>mp_page = page, mp_frame = f, mp_flags = leaf_flags flags\<rparr>]" "f mod frame_size = 0"
    "\<And>mp. mp \<in> set (mappings s) \<Longrightarrow> same_frame m m' (mp_frame mp) \<and> mp_frame mp \<noteq> f \<and> mp_frame mp mod frame_size = 0"
    "shows_page pc m' s' page f (leaf_flags flags)"
    "\<And>pg g gl. is_page page \<Longrightarrow> is_page pg \<Longrightarrow> pg \<noteq> page \<Longrightarrow> shows_page pc m s pg g gl \<Longrightarrow> shows_page pc m' s' pg g gl"
    "f \<notin> tables s'"
proof -
  obtain lv where ok: "machine_ok m KT (out \<union> set (owned s))" "kernel_ok pc m KT lv" "space_ok pc m KT lv (out \<union> set (owned s)) s"
    and tree: "tree_ok pc m lv s" using assms(2) by (auto simp: holding_def)
  from map_page_ok [OF assms(1) ok tree assms(3)] obtain new lv1 where
    step: "space_step pc KT m s (out \<union> set (owned s)) lv m' s' new lv1" and f: "f \<in> new" and ft: "f \<notin> tables s'"
    and q: "mappings s' = mappings s @ [\<lparr>mp_page = page, mp_frame = f, mp_flags = leaf_flags flags\<rparr>]"
    and sh: "shows_page pc m' s' page f (leaf_flags flags)"
    and keep: "\<And>pg g gl. is_page page \<and> is_page pg \<and> pg \<noteq> page \<and> shows_page pc m s pg g gl \<longrightarrow> shows_page pc m' s' pg g gl" by auto
  have n: "new \<inter> (out \<union> set (owned s) \<union> KT) = {}" "machine_ok m' KT (out \<union> set (owned s) \<union> new)"
    and g: "\<And>g. g \<in> out \<union> set (owned s) \<union> KT \<Longrightarrow> g \<notin> tables s \<Longrightarrow> same_frame m m' g"
    using step unfolding space_step_def by blast+
  show "mappings s' = mappings s @ [\<lparr>mp_page = page, mp_frame = f, mp_flags = leaf_flags flags\<rparr>]" by (rule q)
  show "f mod frame_size = 0" using machine_ok_aligned [OF n(2)] f by auto
  show "shows_page pc m' s' page f (leaf_flags flags)" "f \<notin> tables s'" by (rule sh, rule ft)
  show "is_page page \<Longrightarrow> is_page pg \<Longrightarrow> pg \<noteq> page \<Longrightarrow> shows_page pc m s pg g gl \<Longrightarrow> shows_page pc m' s' pg g gl" for pg g gl
    using keep by blast
  fix mp assume "mp \<in> set (mappings s)"
  then have i: "mp_frame mp \<in> mp_frame ` set (mappings s)" by (rule imageI)
  have "distinct (owned s)" using ok(3) by (simp add: space_ok_def)
  with i have mp: "mp_frame mp \<in> set (owned s)" "mp_frame mp \<notin> tables s" by (auto simp: owned_def tables_def simp del: image_iff)
  then show "same_frame m m' (mp_frame mp) \<and> mp_frame mp \<noteq> f \<and> mp_frame mp mod frame_size = 0"
    using g n(1) f machine_ok_aligned [OF ok(1)] by auto
qed

lemma shows_write:
  assumes "holding pc KT out m s" "f \<notin> tables s" "\<And>g. g mod frame_size = 0 \<Longrightarrow> g \<noteq> f \<Longrightarrow> same_frame m m' g" "shows_page pc m s pg h fl"
  shows "shows_page pc m' s pg h fl"
proof -
  obtain lv where ok: "machine_ok m KT (out \<union> set (owned s))" "kernel_ok pc m KT lv" "space_ok pc m KT lv (out \<union> set (owned s)) s"
    using assms(1) by (auto simp: holding_def)
  have "same_frame m m' t" if "t \<in> tables s" for t
  proof (rule assms(3))
    show "t mod frame_size = 0" using that machine_ok_aligned [OF ok(1), of t] tables_owned [of s] by auto
    show "t \<noteq> f" using that assms(2) by auto
  qed
  then show ?thesis using shows_kept [OF ok(2,3) private_kept_mem subset_refl refl assms(4)] by blast
qed

lemma canonical_page: "canonical a \<Longrightarrow> is_page (a div frame_size * frame_size)"
proof -
  assume c: "canonical a"
  have "a div frame_size * frame_size \<le> a" by simp
  moreover have "2 ^ 64 - 2 ^ 47 \<le> a div frame_size * frame_size" if "2 ^ 64 - 2 ^ 47 \<le> a"
    using mult_le_mono1 [OF div_le_mono [OF that, of frame_size], of frame_size] by simp
  ultimately show ?thesis using c unfolding is_page_def canonical_def by auto
qed

lemma write_frame_whole:
  assumes w: "write_frame_bytes m f 0 buf = Inr m'" "length buf = frame_size" "f mod frame_size = 0"
  shows "j < frame_size \<Longrightarrow> pmem m' (f + j) = buf ! j" "g mod frame_size = 0 \<Longrightarrow> g \<noteq> f \<Longrightarrow> same_frame m m' g"
proof -
  have m': "pmem m' = (\<lambda>a. if in_frame f a then buf ! (a - f) else pmem m a)"
    using w(1,2) by (auto simp: write_frame_bytes_def in_frame_def fun_eq_iff split: option.splits)
  show "pmem m' (f + j) = buf ! j" if "j < frame_size" using that by (simp add: m' in_frame_def)
  show "same_frame m m' g" if "g mod frame_size = 0" "g \<noteq> f"
    using that in_frame_unique [OF w(3) that(1)] by (auto simp: same_frame_def m')
qed

lemma find_snoc: "find P (xs @ [x]) = (case find P xs of None \<Rightarrow> if P x then Some x else None | Some y \<Rightarrow> Some y)"
  by (induction xs) auto

lemma mapping_at_push:
  assumes "mappings s' = mappings s @ [mp]"
  shows "mapping_at s' x = (case mapping_at s x of None \<Rightarrow> if mp_page mp = x div frame_size * frame_size then Some mp else None | Some q \<Rightarrow> Some q)"
  unfolding mapping_at_def assms find_snoc ..

text \<open>The byte at an address of the segment.\<close>

definition segment_byte :: "u8 list \<Rightarrow> load_segment \<Rightarrow> nat \<Rightarrow> u8" where
  "segment_byte file seg x =
     (let i = x - virtual_address seg in if i < file_size seg then file ! (file_offset seg + i) else 0)"

lemma page_buffer_nth:
  "k + length bytes \<le> frame_size \<Longrightarrow> k \<le> j \<Longrightarrow> j < frame_size \<Longrightarrow> page_buffer k bytes ! j = (if j - k < length bytes then bytes ! (j - k) else 0)"
  by (auto simp: page_buffer_def nth_append)

lemma segment_content_nth:
  assumes c: "segment_content (\<lambda>offset n. Inr (take n (drop offset file))) seg end_addr a = Inr buf"
    and b: "file_offset seg + file_size seg < 2 ^ 64" and a: "virtual_address seg \<le> a" and j: "j < segment_page end_addr a"
  shows "buf ! (a mod frame_size + j) = segment_byte file seg (a + j)"
proof -
  let ?l = "segment_file seg end_addr a" and ?i = "a - virtual_address seg"
  have jl: "j < ?l \<longleftrightarrow> ?i + j < file_size seg" using j by (auto simp: segment_file_def)
  have i: "a + j - virtual_address seg = ?i + j" using a by simp
  have k: "a mod frame_size + j < frame_size" using j by (auto simp: segment_page_def)
  show ?thesis
  proof (cases "?l > 0")
    case True
    then have "?i < file_size seg" by (auto simp: segment_file_def)
    then have off: "min (file_offset seg + min ?i (file_size seg)) (2 ^ 64 - 1) = file_offset seg + ?i" using b by simp
    define bytes where "bytes = take ?l (drop (file_offset seg + ?i) file)"
    have bytes: "length bytes = ?l" "buf = page_buffer (a mod frame_size) bytes"
      using c True unfolding segment_content_def off bytes_def [symmetric] by (auto split: if_splits)
    have "buf ! (a mod frame_size + j) = (if j < ?l then bytes ! j else 0)"
      unfolding bytes(2) using page_buffer_nth [of "a mod frame_size" bytes "a mod frame_size + j"] bytes(1) segment_file_le [of a seg end_addr] k by simp
    moreover have "bytes ! j = file ! (file_offset seg + (?i + j))" if "j < ?l"
      using that bytes(1) by (simp add: bytes_def add.assoc)
    ultimately show ?thesis using jl i by (simp add: segment_byte_def Let_def)
  next
    case False
    then have "buf = page_buffer 0 []" using c by (simp add: segment_content_def)
    then show ?thesis using False jl i k page_buffer_nth [of 0 "[]" "a mod frame_size + j"] by (simp add: segment_byte_def Let_def)
  qed
qed

text \<open>Where the segment is loaded: \<open>x\<close> is mapped with the protection of the segment, in the list of mappings and in the page tables, and holds its byte.\<close>

definition loaded_at :: "paging_crate \<Rightarrow> u8 list \<Rightarrow> load_segment \<Rightarrow> machine \<Rightarrow> address_space \<Rightarrow> nat \<Rightarrow> bool" where
  "loaded_at pc file seg m s x \<longleftrightarrow> is_page (x div frame_size * frame_size)
     \<and> (\<exists>mp. mapping_at s x = Some mp \<and> mp_flags mp = leaf_flags (page_flags_from_segment (seg_flags seg))
     \<and> shows_page pc m s (x div frame_size * frame_size) (mp_frame mp) (mp_flags mp)
     \<and> pmem m (mp_frame mp + x mod frame_size) = segment_byte file seg x)"

text \<open>What was mapped before stays, with its contents and its entry in the page tables.\<close>

definition kept :: "paging_crate \<Rightarrow> machine \<Rightarrow> address_space \<Rightarrow> machine \<Rightarrow> address_space \<Rightarrow> bool" where
  "kept pc m s m' s' \<longleftrightarrow> (\<forall>x mp. mapping_at s x = Some mp \<longrightarrow> mapping_at s' x = Some mp \<and> same_frame m m' (mp_frame mp)
     \<and> (\<forall>f fl. is_page (x div frame_size * frame_size) \<and> shows_page pc m s (x div frame_size * frame_size) f fl
            \<longrightarrow> shows_page pc m' s' (x div frame_size * frame_size) f fl))"

lemma kept_trans: "kept pc m s m1 s1 \<Longrightarrow> kept pc m1 s1 m2 s2 \<Longrightarrow> kept pc m s m2 s2"
  unfolding kept_def using same_frame_trans by blast

lemma kept_loaded: "kept pc m s m' s' \<Longrightarrow> loaded_at pc file seg m s x \<Longrightarrow> loaded_at pc file seg m' s' x"
proof -
  assume k: "kept pc m s m' s'" and l: "loaded_at pc file seg m s x"
  then obtain mp where mp: "mapping_at s x = Some mp" "mp_flags mp = leaf_flags (page_flags_from_segment (seg_flags seg))"
    "is_page (x div frame_size * frame_size)" "shows_page pc m s (x div frame_size * frame_size) (mp_frame mp) (mp_flags mp)"
    "pmem m (mp_frame mp + x mod frame_size) = segment_byte file seg x" by (auto simp: loaded_at_def)
  then have "mapping_at s' x = Some mp" "same_frame m m' (mp_frame mp)" "shows_page pc m' s' (x div frame_size * frame_size) (mp_frame mp) (mp_flags mp)"
    using k unfolding kept_def by blast+
  with mp show ?thesis by (simp add: loaded_at_def same_frame_def in_frame_def)
qed

lemma segment_round_loaded:
  assumes ok: "crate_ok pc" "holding pc KT out m s"
    and mp: "map_page pc m s (a div frame_size * frame_size) (page_flags_from_segment (seg_flags seg)) = (m1, s1, Inr f)"
    and c: "segment_content (\<lambda>offset n. Inr (take n (drop offset file))) seg end_addr a = Inr buf"
    and w: "write_frame_bytes m1 f 0 buf = Inr m2" and can: "canonical a"
    and b: "file_offset seg + file_size seg < 2 ^ 64" "virtual_address seg \<le> a" "a < end_addr" "mapping_at s a = None"
  shows "kept pc m s m2 s1 \<and> (\<forall>x. a \<le> x \<and> x < a + segment_page end_addr a \<longrightarrow> loaded_at pc file seg m2 s1 x)"
proof -
  note fresh = map_page_fresh [OF ok mp] and len = segment_content_length [OF c]
  note whole = write_frame_whole [OF w len fresh(2)]
  have h1: "holding pc KT out m1 s1" using holding_map_page [OF ok mp] by simp
  note sw = shows_write [OF h1 fresh(6) whole(2)]
  have pg: "is_page (a div frame_size * frame_size)" by (rule canonical_page [OF can])
  have "kept pc m s m2 s1"
    unfolding kept_def
  proof (intro allI impI)
    fix x q assume q: "mapping_at s x = Some q"
    then have ne: "x div frame_size * frame_size \<noteq> a div frame_size * frame_size" using b(4) by (auto simp: mapping_at_def)
    have "q \<in> set (mappings s)" using mapping_at_SomeD [OF q] by simp
    note fq = fresh(3) [OF this]
    have "mapping_at s1 x = Some q" using mapping_at_push [OF fresh(1)] q by simp
    moreover have "same_frame m m2 (mp_frame q)" using fq same_frame_trans [OF _ whole(2)] by simp
    moreover have "shows_page pc m2 s1 (x div frame_size * frame_size) g gl"
      if "is_page (x div frame_size * frame_size)" "shows_page pc m s (x div frame_size * frame_size) g gl" for g gl
      by (rule sw [OF _ _ fresh(5) [OF pg that(1) ne that(2)]])
    ultimately show "mapping_at s1 x = Some q \<and> same_frame m m2 (mp_frame q) \<and> (\<forall>f fl. is_page (x div frame_size * frame_size) \<and>
       shows_page pc m s (x div frame_size * frame_size) f fl \<longrightarrow> shows_page pc m2 s1 (x div frame_size * frame_size) f fl)" by blast
  qed
  moreover have "loaded_at pc file seg m2 s1 x" if x: "a \<le> x" "x < a + segment_page end_addr a" for x
  proof -
    have k: "a mod frame_size + (x - a) < frame_size" using x by (auto simp: segment_page_def)
    have "x = a div frame_size * frame_size + (a mod frame_size + (x - a))" using x(1) by simp
    with k have p: "x div frame_size = a div frame_size" "x mod frame_size = a mod frame_size + (x - a)"
      by (metis div_mult_self3 div_less add_0_right less_zeroE zero_less_numeral, metis mod_mult_self3 mod_less)
    have "mapping_at s x = None" using b(4) p(1) by (simp add: mapping_at_def)
    then have "mapping_at s1 x = Some \<lparr>mp_page = a div frame_size * frame_size, mp_frame = f, mp_flags = leaf_flags (page_flags_from_segment (seg_flags seg))\<rparr>"
      using mapping_at_push [OF fresh(1)] p(1) by simp
    moreover have "pmem m2 (f + x mod frame_size) = segment_byte file seg x"
      using whole(1) [of "x mod frame_size"] segment_content_nth [OF c b(1,2), of "x - a"] x k p(2) by simp
    moreover have "shows_page pc m2 s1 (x div frame_size * frame_size) f (leaf_flags (page_flags_from_segment (seg_flags seg)))"
      unfolding p(1) by (rule sw [OF _ _ fresh(4)])
    ultimately show ?thesis using pg by (simp add: loaded_at_def p(1))
  qed
  ultimately show ?thesis by blast
qed

lemma segment_loop_loaded:
  assumes "crate_ok pc" "holding pc KT out m s"
    and "map_segment_loop pc (\<lambda>offset n. Inr (take n (drop offset file))) seg end_addr m s a = Some (m', s', None)"
    and "virtual_address seg \<le> a" "\<And>x. a \<le> x \<Longrightarrow> x < end_addr \<Longrightarrow> mapping_at s x = None" and b: "file_offset seg + file_size seg < 2 ^ 64"
  shows "kept pc m s m' s' \<and> (\<forall>x. a \<le> x \<and> x < end_addr \<longrightarrow> loaded_at pc file seg m' s' x)"
  using assms(2-5)
proof (induction "end_addr - a" arbitrary: m s a rule: less_induct)
  case less
  let ?read = "\<lambda>offset n. Inr (take n (drop offset file))" and ?n = "segment_page end_addr a"
  show ?case
  proof (cases "a < end_addr")
    case False
    with less.prems show ?thesis by (auto simp: map_segment_loop.simps [of pc ?read seg end_addr m s a] kept_def)
  next
    case True
    obtain m1 s1 q where mp: "map_page pc m s (a div frame_size * frame_size) (page_flags_from_segment (seg_flags seg)) = (m1, s1, q)"
      by (metis prod_cases3)
    from segment_step [OF less.prems(2) True mp] obtain f buf m2 where
      w: "q = Inr f" "segment_content ?read seg end_addr a = Inr buf" "write_frame_bytes m1 f 0 buf = Inr m2"
      and nx: "map_segment_loop pc ?read seg end_addr m2 s1 (a + ?n) = Some (m', s', None)" by auto
    have free: "mapping_at s a = None" using less.prems(4) True by blast
    note mp' = mp [unfolded w(1)]
    have can: "canonical a" using less.prems(2) True by (auto simp: map_segment_loop.simps [of pc ?read seg end_addr m s a] split: if_splits)
    have r: "kept pc m s m2 s1" "\<And>x. a \<le> x \<Longrightarrow> x < a + ?n \<Longrightarrow> loaded_at pc file seg m2 s1 x"
      using segment_round_loaded [OF assms(1) less.prems(1) mp' w(2,3) can b less.prems(3) True free] by blast+
    have h: "holding pc KT out m2 s1"
      using holding_map_page [OF assms(1) less.prems(1) mp'] w segment_content_length [OF w(2)] by (intro holding_write [of pc KT out m1 s1 f buf m2]) auto
    have p: "end_addr - (a + ?n) < end_addr - a" using True mod_less_divisor [of frame_size a] by (simp add: segment_page_def)
    have "mapping_at s1 x = None" if x: "a + ?n \<le> x" "x < end_addr" for x
    proof -
      have "?n = frame_size - a mod frame_size" using x by (auto simp: segment_page_def)
      then have "a div frame_size * frame_size + frame_size \<le> x"
        using x(1) mod_less_divisor [of frame_size a] div_mult_mod_eq [of a frame_size] by linarith
      then have "a div frame_size * frame_size \<noteq> x div frame_size * frame_size" using dividend_less_div_times [of frame_size x] by auto
      moreover have "mapping_at s x = None" using less.prems(4) x by simp
      ultimately show ?thesis using mapping_at_push [OF map_page_fresh(1) [OF assms(1) less.prems(1) mp']] by simp
    qed
    from less.hyps [OF p h nx _ this] less.prems(3)
    have i: "kept pc m2 s1 m' s'" "\<And>x. a + ?n \<le> x \<Longrightarrow> x < end_addr \<Longrightarrow> loaded_at pc file seg m' s' x" by auto
    have "loaded_at pc file seg m' s' x" if "a \<le> x" "x < end_addr" for x
      using that i(2) r(2) kept_loaded [OF i(1)] by (cases "x < a + ?n") auto
    then show ?thesis using kept_trans [OF r(1) i(1)] by blast
  qed
qed

lemma segment_access:
  assumes "mapping_at s x = Some mp" "mp_flags mp = leaf_flags (page_flags_from_segment fl)"
  shows "accessible s wr x \<longleftrightarrow> (wr \<longrightarrow> fl AND PERM_WRITE = PERM_WRITE)"
  using assms by (auto simp: accessible_def leaf_flags_def page_flags_from_segment_def Let_def PRESENT_def USER_def WRITABLE_def NO_ACCESS_def)

lemma segment_flags:
  "leaf_flags (page_flags_from_segment fl) = (if fl AND PERM_WRITE = PERM_WRITE then PRESENT OR USER OR WRITABLE else PRESENT OR USER)"
  by (simp add: leaf_flags_def page_flags_from_segment_def Let_def PRESENT_def USER_def WRITABLE_def NO_ACCESS_def)

text \<open>C7: A segment that is loaded is what the program file says. When loading succeeds and no page of the segment was mapped
  before, every address of the segment is mapped: its page-table entry is the one for a frame with the flags
  present and user, and writable if and only if the segment is writable, below entries that admit the user, and the frame holds the
  byte of the file at the same distance, or zero behind the part that is in the file. The list of mappings that the kernel consults says the same. All pages
  that were mapped before keep their frames, contents and page-table entries.\<close>

theorem segment_loaded:
  assumes "crate_ok pc" "holding pc KT out m s" "file_offset seg + file_size seg < 2 ^ 64"
    and "\<And>i. i < memory_size seg \<Longrightarrow> mapping_at s (virtual_address seg + i) = None"
    and "map_segment pc (\<lambda>offset n. Inr (take n (drop offset file))) m s seg = Some (m', s', None)"
  shows "(\<forall>i < memory_size seg. \<exists>f.
        shows_page pc m' s' ((virtual_address seg + i) div frame_size * frame_size) f
          (if seg_flags seg AND PERM_WRITE = PERM_WRITE then PRESENT OR USER OR WRITABLE else PRESENT OR USER)
        \<and> pmem m' (f + (virtual_address seg + i) mod frame_size) = (if i < file_size seg then file ! (file_offset seg + i) else 0)
        \<and> user_byte m' s' (virtual_address seg + i) = Some (if i < file_size seg then file ! (file_offset seg + i) else 0)
        \<and> accessible s' False (virtual_address seg + i)
        \<and> (accessible s' True (virtual_address seg + i) \<longleftrightarrow> seg_flags seg AND PERM_WRITE = PERM_WRITE))
    \<and> (\<forall>x. mapping_at s x \<noteq> None \<longrightarrow> mapping_at s' x = mapping_at s x \<and> user_byte m' s' x = user_byte m s x
        \<and> (\<forall>f fl. is_page (x div frame_size * frame_size) \<and> shows_page pc m s (x div frame_size * frame_size) f fl
             \<longrightarrow> shows_page pc m' s' (x div frame_size * frame_size) f fl))"
proof -
  let ?va = "virtual_address seg"
  have run: "map_segment_loop pc (\<lambda>offset n. Inr (take n (drop offset file))) seg (?va + memory_size seg) m s ?va = Some (m', s', None)"
    using assms(5) by (auto simp: map_segment_def Let_def split: if_splits)
  have "mapping_at s x = None" if "?va \<le> x" "x < ?va + memory_size seg" for x using assms(4) [of "x - ?va"] that by simp
  note l = segment_loop_loaded [OF assms(1,2) run order_refl this assms(3)]
  have "\<exists>f. shows_page pc m' s' ((?va + i) div frame_size * frame_size) f
        (if seg_flags seg AND PERM_WRITE = PERM_WRITE then PRESENT OR USER OR WRITABLE else PRESENT OR USER)
      \<and> pmem m' (f + (?va + i) mod frame_size) = (if i < file_size seg then file ! (file_offset seg + i) else 0)
      \<and> user_byte m' s' (?va + i) = Some (if i < file_size seg then file ! (file_offset seg + i) else 0)
      \<and> accessible s' False (?va + i) \<and> (accessible s' True (?va + i) \<longleftrightarrow> seg_flags seg AND PERM_WRITE = PERM_WRITE)"
    if "i < memory_size seg" for i
  proof -
    have "loaded_at pc file seg m' s' (?va + i)" using l that by simp
    then obtain mp where mp: "mapping_at s' (?va + i) = Some mp" "mp_flags mp = leaf_flags (page_flags_from_segment (seg_flags seg))"
      "shows_page pc m' s' ((?va + i) div frame_size * frame_size) (mp_frame mp) (mp_flags mp)"
      "pmem m' (mp_frame mp + (?va + i) mod frame_size) = segment_byte file seg (?va + i)" by (auto simp: loaded_at_def)
    then show ?thesis using segment_access [OF mp(1,2)] segment_flags [of "seg_flags seg"]
      by (intro exI [of _ "mp_frame mp"]) (simp add: user_byte_def segment_byte_def)
  qed
  moreover have "mapping_at s' x = mapping_at s x \<and> user_byte m' s' x = user_byte m s x" if "mapping_at s x \<noteq> None" for x
    using that l by (auto simp: kept_def user_byte_def same_frame_def in_frame_def)
  moreover have "shows_page pc m' s' (x div frame_size * frame_size) f fl"
    if "mapping_at s x \<noteq> None" "is_page (x div frame_size * frame_size)" "shows_page pc m s (x div frame_size * frame_size) f fl" for x f fl
    using that l unfolding kept_def by blast
  ultimately show ?thesis by blast
qed

section \<open>An example\<close>

theorem segment_loaded_witness:
  "\<exists>m' s'. map_segment x86_crate (\<lambda>offset n. Inr (take n (drop offset [7, 9]))) demo_machine demo_space
       \<lparr>virtual_address = 0x401000, memory_size = 2, file_offset = 1, file_size = 1, seg_flags = 6\<rparr> = Some (m', s', None)
     \<and> user_byte m' s' 0x401000 = Some 9 \<and> user_byte m' s' 0x401001 = Some 0 \<and> user_byte m' s' 0x400000 = Some 42 \<and> accessible s' True 0x401000
     \<and> (\<exists>f. shows_page x86_crate m' s' 0x401000 f (PRESENT OR USER OR WRITABLE) \<and> pmem m' f = 9)"
proof -
  let ?seg = "\<lparr>virtual_address = 0x401000, memory_size = 2, file_offset = 1, file_size = 1, seg_flags = 6\<rparr> :: load_segment"
  let ?read = "\<lambda>offset n. Inr (take n (drop offset [7, 9 :: u8])) :: mm_error + u8 list"
  obtain m1 where m1: "make_user_path_private x86_crate demo_machine demo_space 0x401000 = (m1, demo_space\<lparr>private_tables := [16384, 20480, 24576]\<rparr>, None)"
    "has_free m1 [28672, 32768, 36864, 40960]" "\<forall>t \<in> {8192, 16384, 20480, 24576}. get_entry m1 t 1 = 0"
    using demo_path [of "0x401000"] by auto
  obtain m2 where m2: "new_frame m1 = (Some 28672, m2)" using has_free_new [OF m1(2)] by blast
  have tree: "tree_ok x86_crate demo_machine (\<lambda>_. 4) demo_space" by (simp add: tree_ok_def demo_space_def)
  have e: "pc_unused x86_crate (get_entry m1 t (p1_index 0x401000))" if "t \<in> tables (demo_space\<lparr>private_tables := [16384, 20480, 24576]\<rparr>)" for t
    using that m1(3) by (auto simp: tables_def demo_space_def p1_index_def x86_words)
  obtain m3 s3 where mp: "map_page x86_crate demo_machine demo_space 0x401000 (page_flags_from_segment (seg_flags ?seg)) = (m3, s3, Inr 28672)" "phys_offset m3 \<noteq> None"
    using map_page_unused [OF crate_ok_x86 demo_ok tree m1(1) m2 e] by blast
  obtain m4 where m4: "write_frame_bytes m3 28672 0 (page_buffer 0 [9]) = Inr m4" using mp(2) by (auto simp: write_frame_bytes_def)
  have c: "segment_content ?read ?seg 0x401002 0x401000 = Inr (page_buffer 0 [9])" "segment_page 0x401002 0x401000 = 2"
    by (simp_all add: segment_content_def segment_file_def segment_page_def)
  have can: "canonical 0x401000" by (simp add: canonical_def)
  have "map_segment_loop x86_crate ?read ?seg 0x401002 demo_machine demo_space 0x401000 = Some (m4, s3, None)"
    using segment_round [OF _ can, of "0x401002" x86_crate demo_machine demo_space ?seg m3 s3 "Inr 28672" ?read] mp m4 c
    by (simp add: map_segment_loop.simps [of _ _ _ _ m4])
  then have run: "map_segment x86_crate ?read demo_machine demo_space ?seg = Some (m4, s3, None)" by (simp add: map_segment_def)
  have h: "holding x86_crate {4096} {} demo_machine demo_space"
    unfolding holding_def using demo_ok tree by (intro conjI exI [of _ "\<lambda>_. 4"]) (simp_all add: owned_def demo_space_def insert_commute)
  have fr: "mapping_at demo_space (virtual_address ?seg + i) = None" if "i < memory_size ?seg" for i
    using that by (auto simp: mapping_at_def demo_space_def less_2_cases_iff)
  have b: "file_offset ?seg + file_size ?seg < 2 ^ 64" by simp
  note l = segment_loaded [OF crate_ok_x86 h b fr run, simplified]
  have old: "mapping_at demo_space 0x400000 = Some \<lparr>mp_page = 0x400000, mp_frame = 12288, mp_flags = 7\<rparr>" by (simp add: mapping_at_def demo_space_def)
  then have "user_byte demo_machine demo_space 0x400000 = Some 42" by (simp add: user_byte_def demo_machine_def)
  with l old have "user_byte m4 s3 0x400000 = Some 42" by simp
  moreover have "user_byte m4 s3 0x401000 = Some 9" "user_byte m4 s3 0x401001 = Some 0" "accessible s3 True 0x401000"
    "\<exists>f. shows_page x86_crate m4 s3 0x401000 f (PRESENT OR USER OR WRITABLE) \<and> pmem m4 f = 9"
    using spec [OF conjunct1 [OF l], of 0] spec [OF conjunct1 [OF l], of 1] by (auto simp: PERM_WRITE_def)
  ultimately show ?thesis using run by blast
qed

end
