(* ===== verification/Heap.thy ===== *)
theory Heap
  imports Process Space_Props
begin

text \<open>
  The memory calls of \<open>syscall/impls.rs\<close> that change the address space of the current task: the program break,
  anonymous mappings, and the address that is cleared when the task ends. \<open>None\<close> is a panic.
\<close>

definition user_brk_max :: nat where
  "user_brk_max = 0x00007fff00000000"

text \<open>The closure of \<open>brk\<close>.\<close>

definition task_brk :: "paging_crate \<Rightarrow> machine \<Rightarrow> 'i task \<Rightarrow> nat \<Rightarrow> (machine \<times> 'i task \<times> (int + nat)) option" where
  "task_brk pc m t addr =
     (if brk_start t = 0 then Some (m, t, Inl (-12))
      else if addr = 0 then Some (m, t, Inr (brk_end t))
      else if addr < brk_start t \<or> user_brk_max < addr then Some (m, t, Inr (brk_end t))
      else if brk_mapped_end t < addr
           then let target = (addr + PAGE_SIZE - 1) div PAGE_SIZE * PAGE_SIZE; size = target - brk_mapped_end t
                in case map_zeroed_region pc m (t_space t) (brk_mapped_end t) size WRITABLE of
                     None \<Rightarrow> None
                   | Some (m1, s1, Inl _) \<Rightarrow> Some (m1, t\<lparr>t_space := s1\<rparr>, Inl (-12))
                   | Some (m1, s1, Inr _) \<Rightarrow> Some (m1, t\<lparr>t_space := s1, brk_mapped_end := target, brk_end := addr\<rparr>, Inr addr)
           else Some (m, t\<lparr>brk_end := addr\<rparr>, Inr addr))"

definition brk where
  "brk pc k addr =
     (case task_of k (me k) of
        None \<Rightarrow> Some (k, Inl (-1))
      | Some t \<Rightarrow>
          (case task_brk pc (k_machine k) t addr of
             None \<Rightarrow> None
           | Some (m1, t1, r) \<Rightarrow> Some (update_task (k\<lparr>k_machine := m1\<rparr>) (me k) (\<lambda>_. t1), r)))"

definition brk_query where
  "brk_query k = map_option brk_end (task_of k (me k))"

definition brk_set_end where
  "brk_set_end k e =
     (case task_of k (me k) of None \<Rightarrow> (k, Inl (-1 :: int)) | Some _ \<Rightarrow> (update_task k (me k) (\<lambda>t. t\<lparr>brk_end := e\<rparr>), Inr ()))"

definition mmap_anon where
  "mmap_anon pc k addr len writable =
     (case task_of k (me k) of
        None \<Rightarrow> Some (k, Inl (-12 :: int))
      | Some t \<Rightarrow>
          (case map_zeroed_region pc (k_machine k) (t_space t) addr len (if writable then WRITABLE else 0) of
             None \<Rightarrow> None
           | Some (m1, s1, r) \<Rightarrow>
               Some (update_task (k\<lparr>k_machine := m1\<rparr>) (me k) (\<lambda>t. t\<lparr>t_space := s1\<rparr>), case r of Inl _ \<Rightarrow> Inl (-12) | Inr _ \<Rightarrow> Inr ())))"

definition set_tid_address where
  "set_tid_address k a =
     (case task_of k (me k) of
        None \<Rightarrow> (k, Inl (-1 :: int))
      | Some t \<Rightarrow> (update_task k (me k) (\<lambda>t. t\<lparr>clear_child_tid := a\<rparr>), Inr (t_pid t)))"

section \<open>Zeroed regions are recorded\<close>

lemma private_path_mappings:
  "private_path pc m s tbl idx = (m', s', r) \<Longrightarrow> mappings s' = mappings s"
proof (induction idx arbitrary: m s tbl)
  case (Cons i rest)
  from Cons.prems show ?case
    by (auto simp: Let_def split: if_splits prod.splits option.splits sum.splits dest!: Cons.IH)
qed simp

lemma map_page_mappings:
  assumes "map_page pc m s page flags = (m', s', r)"
  shows "mappings s' = mappings s @ (case r of Inl _ \<Rightarrow> [] | Inr f \<Rightarrow> [\<lparr>mp_page = page, mp_frame = f, mp_flags = leaf_flags flags\<rparr>])"
proof -
  obtain m1 s1 e where p: "make_user_path_private pc m s page = (m1, s1, e)" by (metis prod.exhaust)
  then have "mappings s1 = mappings s"
    by (auto simp: make_user_path_private_def simp del: private_path.simps split: option.splits dest: private_path_mappings)
  then show ?thesis using assms p
    by (auto simp: map_page_def Let_def split: option.splits prod.splits bool.splits)
qed

text \<open>The loop records exactly one mapping for every page that it reaches, behind the mappings there were.\<close>

lemma map_zeroed_loop_mappings:
  assumes "map_zeroed_loop pc flags end_addr m s cur = Some (m', s', r)"
  shows "\<exists>new. mappings s' = mappings s @ new \<and> (\<forall>mp \<in> set new. mp_flags mp = leaf_flags flags)
    \<and> (r = None \<longrightarrow> (\<forall>a. cur \<le> a \<and> a < end_addr \<longrightarrow> a div frame_size * frame_size \<in> mp_page ` set new))"
  using assms
proof (induction pc flags end_addr m s cur rule: map_zeroed_loop.induct)
  case (1 pc flags end_addr m s cur)
  let ?page = "cur div frame_size * frame_size"
  show ?case
  proof (cases "cur < end_addr")
    case False
    then show ?thesis using 1(2) by (subst (asm) map_zeroed_loop.simps) simp
  next
    case True
    have can: "canonical cur" using 1(2) True by (subst (asm) map_zeroed_loop.simps) (auto split: if_splits)
    obtain m1 s1 q where mp: "map_page pc m s ?page flags = (m1, s1, q)" by (metis prod.exhaust)
    show ?thesis
    proof (cases q)
      case (Inl e)
      then have "s' = s1" "r = Some e" using 1(2) True can mp by (subst (asm) map_zeroed_loop.simps, simp add: Let_def)+
      then show ?thesis using map_page_mappings [OF mp] Inl by (intro exI [of _ "[]"]) simp
    next
      case (Inr f)
      have nx: "\<not> ?page + frame_size \<ge> 2 ^ 64" "map_zeroed_loop pc flags end_addr m1 s1 (?page + frame_size) = Some (m', s', r)"
        using 1(2) True can mp Inr by (subst (asm) map_zeroed_loop.simps, auto simp: Let_def split: if_splits)+
      obtain new where new: "mappings s' = mappings s1 @ new" "\<forall>mp \<in> set new. mp_flags mp = leaf_flags flags"
          "r = None \<longrightarrow> (\<forall>a. ?page + frame_size \<le> a \<and> a < end_addr \<longrightarrow> a div frame_size * frame_size \<in> mp_page ` set new)"
        using 1(1) [OF _ _ refl mp [symmetric] refl] True can mp Inr nx by auto
      have low: "a div frame_size * frame_size = ?page" if "cur \<le> a" "a < ?page + frame_size" for a
      proof -
        have "cur div frame_size \<le> a div frame_size" using that(1) by (rule div_le_mono)
        moreover have "a div frame_size < Suc (cur div frame_size)" using that(2) by (intro div_less_iff_less_mult [THEN iffD2]) simp_all
        ultimately have "a div frame_size = cur div frame_size" by linarith
        then show ?thesis by simp
      qed
      let ?new = "\<lparr>mp_page = ?page, mp_frame = f, mp_flags = leaf_flags flags\<rparr> # new"
      have "mappings s' = mappings s @ ?new" using map_page_mappings [OF mp] new(1) Inr by simp
      moreover have "a div frame_size * frame_size \<in> mp_page ` set ?new" if "r = None" "cur \<le> a" "a < end_addr" for a
        using low [of a] new(3) that by (cases "a < ?page + frame_size") auto
      ultimately show ?thesis using new(2) by (intro exI [of _ ?new]) auto
    qed
  qed
qed

lemma map_zeroed_loop_returns:
  "end_addr \<le> 2 ^ 47 \<Longrightarrow> map_zeroed_loop pc flags end_addr m s cur \<noteq> None"
proof (induction pc flags end_addr m s cur rule: map_zeroed_loop.induct)
  case (1 pc flags end_addr m s cur)
  have p: "cur div frame_size * frame_size \<le> cur" by simp
  show ?case
  proof (cases "cur < end_addr")
    case False
    then show ?thesis by (subst map_zeroed_loop.simps) simp
  next
    case True
    then have c: "canonical cur" "\<not> cur div frame_size * frame_size + frame_size \<ge> 2 ^ 64"
      using 1(2) p by (auto simp: canonical_def)
    show ?thesis
    proof (cases "map_page pc m s (cur div frame_size * frame_size) flags")
      case (fields m1 s1 q)
      then show ?thesis using 1 True c by (subst map_zeroed_loop.simps) (cases q; simp add: Let_def)
    qed
  qed
qed

section \<open>The program break\<close>

text \<open>A task without a heap has \<open>brk_start = 0\<close>.\<close>

definition heap_ok :: "'i task \<Rightarrow> bool" where
  "heap_ok t \<longleftrightarrow> (brk_start t = 0 \<or> brk_start t \<le> brk_end t \<and> brk_end t \<le> brk_mapped_end t \<and> brk_mapped_end t \<le> user_brk_max
     \<and> brk_mapped_end t mod PAGE_SIZE = 0 \<and> (\<forall>a. brk_start t \<le> a \<and> a < brk_mapped_end t \<longrightarrow> mapping_at (t_space t) a \<noteq> None))"

lemma initialize_brk_ok: "start mod PAGE_SIZE = 0 \<Longrightarrow> start \<le> user_brk_max \<Longrightarrow> heap_ok (initialize_brk t start)"
  by (auto simp: heap_ok_def initialize_brk_def)

lemma mapping_at_append:
  assumes "mappings s' = mappings s @ new"
  shows "mapping_at s a \<noteq> None \<Longrightarrow> mapping_at s' a = mapping_at s a"
    "a div frame_size * frame_size \<in> mp_page ` set new \<Longrightarrow> mapping_at s' a \<noteq> None"
proof -
  have f: "List.find P (xs @ ys) = (case List.find P xs of None \<Rightarrow> List.find P ys | Some x \<Rightarrow> Some x)" for P and xs ys :: "mapping list"
    by (induction xs) auto
  show "mapping_at s a \<noteq> None \<Longrightarrow> mapping_at s' a = mapping_at s a" using assms by (auto simp: mapping_at_def f)
  show "mapping_at s' a \<noteq> None" if p: "a div frame_size * frame_size \<in> mp_page ` set new"
  proof
    assume "mapping_at s' a = None"
    then have "\<forall>mp \<in> set (mappings s'). mp_page mp \<noteq> a div frame_size * frame_size" by (auto simp: mapping_at_def find_None_iff)
    then show False using p assms by auto
  qed
qed

lemma page_round_up:
  fixes addr :: nat
  defines "target \<equiv> (addr + PAGE_SIZE - 1) div PAGE_SIZE * PAGE_SIZE"
  shows "addr \<le> target" "target mod PAGE_SIZE = 0" "addr \<le> user_brk_max \<Longrightarrow> target \<le> user_brk_max"
proof -
  let ?q = "(addr + PAGE_SIZE - 1) div PAGE_SIZE"
  have P: "0 < PAGE_SIZE" by (simp add: PAGE_SIZE_def)
  have "?q * PAGE_SIZE + (addr + PAGE_SIZE - 1) mod PAGE_SIZE = addr + PAGE_SIZE - 1" by simp
  moreover have "(addr + PAGE_SIZE - 1) mod PAGE_SIZE < PAGE_SIZE" using P by simp
  ultimately show "addr \<le> target" using P unfolding target_def by linarith
  show "target mod PAGE_SIZE = 0" by (simp add: target_def)
  assume "addr \<le> user_brk_max"
  then have "addr + PAGE_SIZE - 1 < Suc 34358689792 * PAGE_SIZE" by (simp add: user_brk_max_def PAGE_SIZE_def)
  then have "?q < Suc 34358689792" by (rule less_mult_imp_div_less)
  then have "?q * PAGE_SIZE \<le> 34358689792 * PAGE_SIZE" by simp
  then show "target \<le> user_brk_max" by (simp add: target_def user_brk_max_def PAGE_SIZE_def)
qed

lemma grow_heap:
  assumes ok: "heap_ok t" "brk_start t \<noteq> 0" and a: "brk_mapped_end t < addr" "addr \<le> user_brk_max"
  defines "target \<equiv> (addr + PAGE_SIZE - 1) div PAGE_SIZE * PAGE_SIZE"
  shows "\<exists>m1 s1 q new. map_zeroed_region pc m (t_space t) (brk_mapped_end t) (target - brk_mapped_end t) WRITABLE = Some (m1, s1, q)
     \<and> mappings s1 = mappings (t_space t) @ new
     \<and> (case q of Inl _ \<Rightarrow> heap_ok (t\<lparr>t_space := s1\<rparr>) | Inr _ \<Rightarrow> heap_ok (t\<lparr>t_space := s1, brk_mapped_end := target, brk_end := addr\<rparr>))"
proof -
  note t = page_round_up [of addr, folded target_def]
  let ?e = "brk_mapped_end t"
  have e: "?e + (target - ?e) = target" using a(1) t(1) by linarith
  have small: "target \<le> 2 ^ 47" using t(3) [OF a(2)] by (simp add: user_brk_max_def)
  obtain m1 s1 r where run: "map_zeroed_loop pc WRITABLE target m (t_space t) ?e = Some (m1, s1, r)"
    using map_zeroed_loop_returns [OF small, of pc WRITABLE m "t_space t" ?e] by (metis option.exhaust prod.exhaust)
  obtain new where new: "mappings s1 = mappings (t_space t) @ new"
      "r = None \<longrightarrow> (\<forall>a. ?e \<le> a \<and> a < target \<longrightarrow> a div frame_size * frame_size \<in> mp_page ` set new)"
    using map_zeroed_loop_mappings [OF run] by blast
  note h = ok(1) [unfolded heap_ok_def] ok(2)
  have old: "mapping_at s1 x \<noteq> None" if "brk_start t \<le> x" "x < ?e" for x
    using mapping_at_append(1) [OF new(1), of x] h that by auto
  have "heap_ok (t\<lparr>t_space := s1\<rparr>)" using h old unfolding heap_ok_def by simp
  moreover have "heap_ok (t\<lparr>t_space := s1, brk_mapped_end := target, brk_end := addr\<rparr>)" if "r = None"
  proof -
    have "mapping_at s1 x \<noteq> None" if "brk_start t \<le> x" "x < target" for x
      using mapping_at_append(2) [OF new(1), of x] new(2) \<open>r = None\<close> old that by (cases "x < ?e") auto
    then show ?thesis using h a t unfolding heap_ok_def by simp
  qed
  moreover have "\<not> 2 ^ 64 \<le> target" using small by simp
  ultimately show ?thesis using run new(1) e by (cases r) (auto simp: map_zeroed_region_def Let_def)
qed

text \<open>C14: The program break. On a task whose heap is consistent \<open>brk\<close> never panics and keeps the heap consistent on every outcome: all pages below the
  mapped end are mapped, and no mapping is lost. An address outside the heap's range changes nothing and returns the current break. Any other address
  becomes the new break, and every byte below it is mapped; or memory is exhausted, with ENOMEM and the break as it was, which cannot happen
  below the mapped end.\<close>

theorem brk_keeps_heap:
  assumes "heap_ok t"
  shows "\<exists>m' t' r new. task_brk pc m t addr = Some (m', t', r) \<and> heap_ok t' \<and> mappings (t_space t') = mappings (t_space t) @ new
     \<and> (if brk_start t = 0 then r = Inl (-12) \<and> t' = t
        else if addr < brk_start t \<or> user_brk_max < addr then r = Inr (brk_end t) \<and> t' = t
        else r = Inr addr \<and> brk_end t' = addr \<and> (\<forall>a. brk_start t \<le> a \<and> a < addr \<longrightarrow> mapping_at (t_space t') a \<noteq> None)
          \<or> r = Inl (-12) \<and> brk_end t' = brk_end t \<and> brk_mapped_end t < addr)"
proof -
  consider (none) "brk_start t = 0" | (out) "brk_start t \<noteq> 0" "addr < brk_start t \<or> user_brk_max < addr"
    | (within) "brk_start t \<noteq> 0" "brk_start t \<le> addr" "addr \<le> user_brk_max" "addr \<le> brk_mapped_end t"
    | (grow) "brk_start t \<noteq> 0" "brk_start t \<le> addr" "addr \<le> user_brk_max" "brk_mapped_end t < addr" by linarith
  then show ?thesis
  proof cases
    case none
    then show ?thesis using assms by (intro exI [of _ "[]"] exI) (auto simp: task_brk_def)
  next
    case out
    then show ?thesis using assms by (intro exI [of _ "[]"] exI) (auto simp: task_brk_def)
  next
    case within
    have "heap_ok (t\<lparr>brk_end := addr\<rparr>)" using assms within unfolding heap_ok_def by auto
    moreover have "\<forall>a. brk_start t \<le> a \<and> a < addr \<longrightarrow> mapping_at (t_space t) a \<noteq> None" using assms within unfolding heap_ok_def by auto
    moreover have "task_brk pc m t addr = Some (m, t\<lparr>brk_end := addr\<rparr>, Inr addr)" using within by (auto simp: task_brk_def)
    ultimately show ?thesis using within by (intro exI [of _ m] exI [of _ "t\<lparr>brk_end := addr\<rparr>"] exI [of _ "Inr addr"] exI [of _ "[]"]) auto
  next
    case grow
    obtain m1 s1 q new where z: "map_zeroed_region pc m (t_space t) (brk_mapped_end t) ((addr + PAGE_SIZE - 1) div PAGE_SIZE * PAGE_SIZE - brk_mapped_end t) WRITABLE
        = Some (m1, s1, q)" "mappings s1 = mappings (t_space t) @ new"
      and q: "case q of Inl _ \<Rightarrow> heap_ok (t\<lparr>t_space := s1\<rparr>)
        | Inr _ \<Rightarrow> heap_ok (t\<lparr>t_space := s1, brk_mapped_end := (addr + PAGE_SIZE - 1) div PAGE_SIZE * PAGE_SIZE, brk_end := addr\<rparr>)"
      using grow_heap [OF assms grow(1,4,3)] by blast
    have run: "task_brk pc m t addr = (case q of
          Inl _ \<Rightarrow> Some (m1, t\<lparr>t_space := s1\<rparr>, Inl (-12))
        | Inr _ \<Rightarrow> Some (m1, t\<lparr>t_space := s1, brk_mapped_end := (addr + PAGE_SIZE - 1) div PAGE_SIZE * PAGE_SIZE, brk_end := addr\<rparr>, Inr addr))"
      using grow z(1) by (auto simp: task_brk_def Let_def split: sum.splits)
    show ?thesis
    proof (cases q)
      case (Inl e)
      then show ?thesis using run q z(2) grow by (intro exI [of _ m1] exI [of _ "t\<lparr>t_space := s1\<rparr>"] exI [of _ "Inl (-12)"] exI [of _ new]) auto
    next
      case (Inr u)
      let ?t = "t\<lparr>t_space := s1, brk_mapped_end := (addr + PAGE_SIZE - 1) div PAGE_SIZE * PAGE_SIZE, brk_end := addr\<rparr>"
      have ok: "heap_ok ?t" using q Inr by simp
      then have "mapping_at s1 a \<noteq> None" if "brk_start t \<le> a" "a < addr" for a
        using that grow(1) page_round_up(1) [of addr] unfolding heap_ok_def by simp
      then show ?thesis using run ok z(2) grow Inr by (intro exI [of _ m1] exI [of _ ?t] exI [of _ "Inr addr"] exI [of _ new]) auto
    qed
  qed
qed

theorem brk_keeps_heap_witness:
  "\<exists>m' t' r. task_brk x86_crate demo_machine ((sample_task 3 Running)\<lparr>brk_start := 65536, brk_end := 65536, brk_mapped_end := 65536\<rparr>) 67584 = Some (m', t', r)
     \<and> (r = Inr 67584 \<and> mapping_at (t_space t') 67583 \<noteq> None \<or> r = Inl (-12) \<and> brk_end t' = 65536)"
proof -
  let ?t = "(sample_task 3 Running)\<lparr>brk_start := 65536, brk_end := 65536, brk_mapped_end := 65536\<rparr>"
  have "heap_ok ?t" by (auto simp: heap_ok_def user_brk_max_def PAGE_SIZE_def)
  from brk_keeps_heap [OF this, of x86_crate demo_machine 67584] show ?thesis by (auto simp: user_brk_max_def)
qed

end
