(* ===== verification/Line_Disc.thy ===== *)
theory Line_Disc
  imports Prelude
begin

unbundle bit_operations_syntax

text \<open>
  The terminal line discipline \<^verbatim>\<open>kernel/src/drivers/char/ldisc.rs\<close> and the pseudo-terminal
  pairs \<^verbatim>\<open>kernel/src/drivers/char/pty.rs\<close> built on it. Bytes are \<open>8 word\<close>, flags
  \<open>32 word\<close>; queues are lists with their front at the head. The registration of the two devices of
  a pair is an argument of \<open>alloc_pty\<close>.
\<close>

section \<open>Terminal settings\<close>

definition CANON_BUF_MAX :: nat where "CANON_BUF_MAX = 4096"

definition ISIG :: u32 where "ISIG = 1"
definition ICANON :: u32 where "ICANON = 2"
definition ECHO :: u32 where "ECHO = 8"
definition ICRNL :: u32 where "ICRNL = 256"
definition OPOST :: u32 where "OPOST = 1"
definition ONLCR :: u32 where "ONLCR = 4"

record termios =
  c_iflag :: u32
  c_oflag :: u32
  c_cflag :: u32
  c_lflag :: u32
  c_line :: u8
  c_cc :: "u8 list"

record termios2 =
  tios :: termios
  c_ispeed :: u32
  c_ospeed :: u32

definition termios2_default :: termios2 where
  "termios2_default =
     \<lparr>tios = \<lparr>c_iflag = ICRNL, c_oflag = OPOST OR ONLCR, c_cflag = 0x8bf, c_lflag = ISIG OR ICANON OR ECHO,
              c_line = 0, c_cc = [3, 28, 127, 21, 4, 0, 1, 0, 17, 19, 26, 0, 0, 0, 0, 0, 0, 0, 0]\<rparr>,
      c_ispeed = 38400, c_ospeed = 38400\<rparr>"

text \<open>The bytes of the ABI structures: \<open>repr(C)\<close>, little endian, no padding.\<close>

definition u32_bytes :: "u32 \<Rightarrow> u8 list" where
  "u32_bytes w = map (\<lambda>i. ucast (drop_bit (8 * i) w)) [0..<4]"

definition u32_of_bytes :: "u8 list \<Rightarrow> u32" where
  "u32_of_bytes bs = ucast (bs ! 0) OR push_bit 8 (ucast (bs ! 1)) OR push_bit 16 (ucast (bs ! 2)) OR push_bit 24 (ucast (bs ! 3))"

definition termios2_as_bytes :: "termios2 \<Rightarrow> u8 list" where
  "termios2_as_bytes t =
     u32_bytes (c_iflag (tios t)) @ u32_bytes (c_oflag (tios t)) @ u32_bytes (c_cflag (tios t))
     @ u32_bytes (c_lflag (tios t)) @ [c_line (tios t)] @ c_cc (tios t)
     @ u32_bytes (c_ispeed t) @ u32_bytes (c_ospeed t)"

text \<open>The structure after its bytes have been overwritten through \<open>as_bytes_mut\<close>.\<close>

definition termios2_from_bytes :: "u8 list \<Rightarrow> termios2" where
  "termios2_from_bytes bs =
     (let word = (\<lambda>at. u32_of_bytes (take 4 (drop at bs)))
      in \<lparr>tios = \<lparr>c_iflag = word 0, c_oflag = word 4, c_cflag = word 8, c_lflag = word 12,
                  c_line = bs ! 16, c_cc = take 19 (drop 17 bs)\<rparr>,
          c_ispeed = word 36, c_ospeed = word 40\<rparr>)"

section \<open>The discipline\<close>

record line_discipline =
  ld_settings :: termios2
  canon_buf :: "u8 list"
  read_queue :: "u8 list"

definition ld_new :: line_discipline where
  "ld_new = \<lparr>ld_settings = termios2_default, canon_buf = [], read_queue = []\<rparr>"

abbreviation lflag :: "line_discipline \<Rightarrow> u32 \<Rightarrow> bool" where
  "lflag ld f \<equiv> c_lflag (tios (ld_settings ld)) AND f \<noteq> 0"

definition set_terminal_settings :: "line_discipline \<Rightarrow> termios2 \<Rightarrow> bool \<Rightarrow> line_discipline" where
  "set_terminal_settings ld settings flush =
     (if flush then \<lparr>ld_settings = settings, canon_buf = [], read_queue = []\<rparr>
      else if lflag ld ICANON \<and> c_lflag (tios settings) AND ICANON = 0
      then \<lparr>ld_settings = settings, canon_buf = [], read_queue = read_queue ld @ canon_buf ld\<rparr>
      else ld\<lparr>ld_settings := settings\<rparr>)"

datatype echo_bytes = EchoNone | EchoOne u8 | EchoErase | EchoCtrlC | EchoKillLine

definition map_input :: "line_discipline \<Rightarrow> u8 \<Rightarrow> u8" where
  "map_input ld b = (if c_iflag (tios (ld_settings ld)) AND ICRNL \<noteq> 0 \<and> b = 13 then 10 else b)"

definition process_input :: "line_discipline \<Rightarrow> u8 \<Rightarrow> echo_bytes \<times> line_discipline" where
  "process_input ld raw =
     (let echo = lflag ld ECHO; b = map_input ld raw;
          one = (\<lambda>e. if echo then e else EchoNone)
      in if \<not> lflag ld ICANON then (one (EchoOne b), ld\<lparr>read_queue := read_queue ld @ [b]\<rparr>)
         else if b = 0x10 \<or> b = 0x0e then (EchoNone, ld\<lparr>read_queue := read_queue ld @ [b]\<rparr>)
         else if b = 0x08 \<or> b = 0x7f then
           (if canon_buf ld \<noteq> [] then (one EchoErase, ld\<lparr>canon_buf := butlast (canon_buf ld)\<rparr>)
            else (EchoNone, ld))
         else if b = 3 \<and> lflag ld ISIG then (one EchoCtrlC, ld\<lparr>canon_buf := []\<rparr>)
         else if b = 0x15 then
           ((if canon_buf ld \<noteq> [] then one EchoKillLine else EchoNone), ld\<lparr>canon_buf := []\<rparr>)
         else if b = 10 then
           (one (EchoOne 10), ld\<lparr>canon_buf := [], read_queue := read_queue ld @ canon_buf ld @ [10]\<rparr>)
         else
           (one (EchoOne b),
            if length (canon_buf ld) < CANON_BUF_MAX then ld\<lparr>canon_buf := canon_buf ld @ [b]\<rparr> else ld))"

definition read_ready :: "line_discipline \<Rightarrow> nat" where
  "read_ready ld = length (read_queue ld)"

definition ld_read :: "line_discipline \<Rightarrow> nat \<Rightarrow> u8 list \<times> line_discipline" where
  "ld_read ld n = (take n (read_queue ld), ld\<lparr>read_queue := drop n (read_queue ld)\<rparr>)"

definition process_output :: "line_discipline \<Rightarrow> u8 list \<Rightarrow> u8 list" where
  "process_output ld input =
     concat (map (\<lambda>b. if c_oflag (tios (ld_settings ld)) AND (OPOST OR ONLCR) = OPOST OR ONLCR \<and> b = 10
                     then [13, b] else [b]) input)"

definition echo_emit :: "echo_bytes \<Rightarrow> u8 list" where
  "echo_emit e = (case e of
       EchoNone \<Rightarrow> [] | EchoOne b \<Rightarrow> [b] | EchoErase \<Rightarrow> [27, 91, 68, 32, 27, 91, 68]
     | EchoCtrlC \<Rightarrow> [94, 67, 10] | EchoKillLine \<Rightarrow> [94, 85, 10])"

datatype ld_signal = Sigterm

definition echo_signal :: "echo_bytes \<Rightarrow> ld_signal option" where
  "echo_signal e = (case e of EchoCtrlC \<Rightarrow> Some Sigterm | _ \<Rightarrow> None)"

section \<open>Pseudo-terminals\<close>

definition PTY_BUF_SIZE :: nat where "PTY_BUF_SIZE = 4096"

record pty_shared =
  pty_ldisc :: line_discipline
  echo_to_mgr :: "u8 list"
  sub_to_mgr :: "u8 list"

definition pty_new :: pty_shared where
  "pty_new = \<lparr>pty_ldisc = ld_new, echo_to_mgr = [], sub_to_mgr = []\<rparr>"

definition pty_set_settings :: "pty_shared \<Rightarrow> termios2 \<Rightarrow> bool \<Rightarrow> pty_shared" where
  "pty_set_settings sh settings flush = sh\<lparr>pty_ldisc := set_terminal_settings (pty_ldisc sh) settings flush\<rparr>"

text \<open>The manager's read: echo first, then output of the application.\<close>

definition manager_read :: "pty_shared \<Rightarrow> nat \<Rightarrow> u8 list \<times> pty_shared" where
  "manager_read sh len =
     (if len = 0 then ([], sh)
      else let e = take len (echo_to_mgr sh); out = take (len - length e) (sub_to_mgr sh)
           in (e @ out, sh\<lparr>echo_to_mgr := drop len (echo_to_mgr sh),
                          sub_to_mgr := drop (len - length e) (sub_to_mgr sh)\<rparr>))"

definition manager_input :: "pty_shared \<Rightarrow> u8 \<Rightarrow> pty_shared" where
  "manager_input sh b =
     (let (echo, ld) = process_input (pty_ldisc sh) b;
          available = PTY_BUF_SIZE - length (echo_to_mgr sh)
      in sh\<lparr>pty_ldisc := ld, echo_to_mgr := echo_to_mgr sh @ take available (echo_emit echo)\<rparr>)"

definition manager_write :: "pty_shared \<Rightarrow> u8 list \<Rightarrow> nat \<times> pty_shared" where
  "manager_write sh buf = (length buf, foldl manager_input sh buf)"

definition subsidiary_read :: "pty_shared \<Rightarrow> nat \<Rightarrow> u8 list \<times> pty_shared" where
  "subsidiary_read sh len =
     (if len = 0 then ([], sh)
      else let (bs, ld) = ld_read (pty_ldisc sh) len in (bs, sh\<lparr>pty_ldisc := ld\<rparr>))"

definition subsidiary_write :: "pty_shared \<Rightarrow> u8 list \<Rightarrow> nat \<times> pty_shared" where
  "subsidiary_write sh buf =
     (let processed = process_output (pty_ldisc sh) buf;
          available = PTY_BUF_SIZE - length (sub_to_mgr sh)
      in (length buf, sh\<lparr>sub_to_mgr := sub_to_mgr sh @ take available processed\<rparr>))"

record pty_table =
  pt_entries :: "nat list"
  pt_next :: nat

definition pt_new :: pty_table where "pt_new = \<lparr>pt_entries = [], pt_next = 0\<rparr>"

definition pt_alloc :: "pty_table \<Rightarrow> nat \<times> pty_table" where
  "pt_alloc t = (pt_next t, \<lparr>pt_entries = pt_entries t @ [pt_next t], pt_next = min (pt_next t + 1) (2 ^ 64 - 1)\<rparr>)"

text \<open>\<open>alloc_pty\<close> with the answers of the two registrations; the index is taken in any case.\<close>

definition alloc_pty :: "(nat \<Rightarrow> 'e option) \<Rightarrow> (nat \<Rightarrow> 'e option) \<Rightarrow> pty_table \<Rightarrow> ('e + nat) \<times> pty_table" where
  "alloc_pty register_manager register_subsidiary t =
     (let (i, t') = pt_alloc t
      in case register_manager i of
           Some e \<Rightarrow> (Inl e, t')
         | None \<Rightarrow> (case register_subsidiary i of Some e \<Rightarrow> (Inl e, t') | None \<Rightarrow> (Inr i, t')))"

section \<open>Settings as bytes\<close>

lemma u32_roundtrip: "u32_of_bytes (u32_bytes w) = w"
proof (rule bit_word_eqI)
  fix n assume n: "n < LENGTH(32)"
  consider "n < 16" | k where "n = 16 + k" "k < 8" | k where "n = 24 + k"
  proof (cases "n < 24")
    case True
    then show ?thesis using that(1) that(2) [of "n - 16"] by (cases "n < 16") auto
  qed (use that(3) [of "n - 24"] in simp)
  then show "bit (u32_of_bytes (u32_bytes w)) n = bit w n"
    by cases (use n in \<open>auto simp: u32_of_bytes_def u32_bytes_def upt_rec bit_simps\<close>)
qed

lemma u32_bytes_length [simp]: "length (u32_bytes w) = 4"
  by (simp add: u32_bytes_def)

lemma u32_bytes_inverse:
  assumes "length bs = 4"
  shows "u32_bytes (u32_of_bytes bs) = bs"
proof -
  obtain a b c d where bs: "bs = [a, b, c, d]"
    using assms by (auto simp: length_Suc_conv numeral_eq_Suc)
  have "ucast (drop_bit (8 * i) (u32_of_bytes bs)) = bs ! i" if "i < 4" for i
  proof (rule bit_word_eqI)
    fix n assume n: "n < LENGTH(8)"
    from that have "i = 0 \<or> i = 1 \<or> i = 2 \<or> i = 3" by auto
    with n show "bit (ucast (drop_bit (8 * i) (u32_of_bytes bs)) :: u8) n = bit (bs ! i) n"
      by (auto simp: bs u32_of_bytes_def bit_simps dest: bit_imp_le_length)
  qed
  then show ?thesis by (intro nth_equalityI) (simp_all add: u32_bytes_def assms)
qed

lemma termios2_from_as_bytes: "length (c_cc (tios t)) = 19 \<Longrightarrow> termios2_from_bytes (termios2_as_bytes t) = t"
  by (simp add: termios2_from_bytes_def termios2_as_bytes_def Let_def u32_roundtrip nth_append)

lemma take_drop_split: "drop n xs = take m (drop n xs) @ drop (n + m) xs"
  by (metis append_take_drop_id drop_drop add.commute)

lemma termios2_as_from_bytes:
  assumes "length bs = 44"
  shows "termios2_as_bytes (termios2_from_bytes bs) = bs"
proof -
  have w: "u32_bytes (u32_of_bytes (take 4 (drop n bs))) = take 4 (drop n bs)" if "n \<le> 40" for n
    by (rule u32_bytes_inverse) (use that assms in simp)
  have "bs = take 4 bs @ take 4 (drop 4 bs) @ take 4 (drop 8 bs) @ take 4 (drop 12 bs) @ take 1 (drop 16 bs)
      @ take 19 (drop 17 bs) @ take 4 (drop 36 bs) @ take 4 (drop 40 bs)"
    using take_drop_split [of 0 bs 4] take_drop_split [of 4 bs 4] take_drop_split [of 8 bs 4] take_drop_split [of 12 bs 4]
      take_drop_split [of 16 bs 1] take_drop_split [of 17 bs 19] take_drop_split [of 36 bs 4] take_drop_split [of 40 bs 4] assms
    by simp
  moreover have "take 1 (drop 16 bs) = [bs ! 16]"
    using assms by (simp add: take_Suc hd_drop_conv_nth)
  ultimately show ?thesis
    using w [of 0] w [of 4] w [of 8] w [of 12] w [of 36] w [of 40]
    by (simp add: termios2_from_bytes_def termios2_as_bytes_def Let_def)
qed

section \<open>Line editing\<close>

text \<open>Feeding bytes without looking at the echo.\<close>

definition feed :: "line_discipline \<Rightarrow> u8 list \<Rightarrow> line_discipline" where
  "feed ld bs = foldl (\<lambda>ld b. snd (process_input ld b)) ld bs"

text \<open>In canonical mode with signals on or off: the bytes that are handed on at once (Ctrl-P and Ctrl-N), those that erase one
  byte, those that discard the line, and the bytes without a special meaning.\<close>

definition passes_through :: "u8 \<Rightarrow> bool" where "passes_through b \<longleftrightarrow> b = 0x10 \<or> b = 0x0e"

definition erases :: "u8 \<Rightarrow> bool" where "erases b \<longleftrightarrow> b = 0x08 \<or> b = 0x7f"

definition discards :: "bool \<Rightarrow> u8 \<Rightarrow> bool" where "discards sig b \<longleftrightarrow> b = 0x15 \<or> b = 3 \<and> sig"

definition ordinary :: "bool \<Rightarrow> u8 \<Rightarrow> bool" where
  "ordinary sig b \<longleftrightarrow> \<not> passes_through b \<and> \<not> erases b \<and> \<not> discards sig b \<and> b \<noteq> 10"

text \<open>What is left of a line, read from its end: an erasing byte takes away the nearest earlier ordinary byte that no later one
  has taken, and nothing before a discarding byte counts.\<close>

fun survivors :: "bool \<Rightarrow> nat \<Rightarrow> u8 list \<Rightarrow> u8 list" where
  "survivors sig k [] = []"
| "survivors sig k (b # bs) =
     (if erases b then survivors sig (k + 1) bs
      else if discards sig b then []
      else if \<not> ordinary sig b then survivors sig k bs
      else case k of 0 \<Rightarrow> b # survivors sig 0 bs | Suc j \<Rightarrow> survivors sig j bs)"

definition line_text :: "bool \<Rightarrow> u8 list \<Rightarrow> u8 list" where
  "line_text sig bs = rev (survivors sig 0 (rev bs))"

lemma survivors_drop: "survivors sig k bs = drop k (survivors sig 0 bs)"
proof (induction bs arbitrary: k)
  case (Cons b bs)
  show ?case using Cons [of "k + 1"] Cons [of 1] Cons [of "k - 1"] Cons [of k] by (cases k) (simp_all add: drop_Suc drop_drop)
qed simp

lemma line_text_Nil [simp]: "line_text sig [] = []"
  by (simp add: line_text_def)

lemma line_text_snoc:
  "line_text sig (bs @ [b]) =
     (if erases b then butlast (line_text sig bs) else if discards sig b then []
      else if ordinary sig b then line_text sig bs @ [b] else line_text sig bs)"
  using survivors_drop [of sig 1 "rev bs"] by (simp add: line_text_def butlast_rev drop_Suc)

lemma line_text_length: "length (line_text sig bs) \<le> length (filter (ordinary sig) bs)"
  by (induction bs rule: rev_induct) (auto simp: line_text_snoc ordinary_def)

lemma process_input_settings [simp]: "ld_settings (snd (process_input ld b)) = ld_settings ld"
  by (simp add: process_input_def Let_def)

lemma feed_Nil [simp]: "feed ld [] = ld" by (simp add: feed_def)

lemma feed_append: "feed ld (xs @ ys) = feed (feed ld xs) ys" by (simp add: feed_def)

lemma feed_settings [simp]: "ld_settings (feed ld bs) = ld_settings ld"
  by (induction bs rule: rev_induct) (simp_all add: feed_append, simp add: feed_def)

lemma feed_snoc: "feed ld (bs @ [b]) = snd (process_input (feed ld bs) b)"
  by (simp add: feed_def)

lemma map_input_settings: "ld_settings l = ld_settings ld \<Longrightarrow> map_input l = map_input ld"
  by (simp add: map_input_def fun_eq_iff)

lemma process_passes:
  "lflag ld ICANON \<Longrightarrow> passes_through (map_input ld b) \<Longrightarrow> snd (process_input ld b) = ld\<lparr>read_queue := read_queue ld @ [map_input ld b]\<rparr>"
  by (simp add: process_input_def Let_def passes_through_def)

lemma process_erases:
  "lflag ld ICANON \<Longrightarrow> erases (map_input ld b) \<Longrightarrow> snd (process_input ld b) = ld\<lparr>canon_buf := butlast (canon_buf ld)\<rparr>"
  by (cases "canon_buf ld = []") (auto simp: process_input_def Let_def erases_def)

lemma process_discards:
  "lflag ld ICANON \<Longrightarrow> discards (lflag ld ISIG) (map_input ld b) \<Longrightarrow> snd (process_input ld b) = ld\<lparr>canon_buf := []\<rparr>"
  by (auto simp: process_input_def Let_def discards_def)

lemma process_ordinary:
  "lflag ld ICANON \<Longrightarrow> ordinary (lflag ld ISIG) (map_input ld b) \<Longrightarrow> snd (process_input ld b) =
     (if length (canon_buf ld) < CANON_BUF_MAX then ld\<lparr>canon_buf := canon_buf ld @ [map_input ld b]\<rparr> else ld)"
  by (auto simp: process_input_def Let_def ordinary_def passes_through_def erases_def discards_def)

text \<open>A line that fits the buffer, before its newline.\<close>

lemma feed_open_line:
  assumes "lflag ld ICANON" "canon_buf ld = []" "10 \<notin> set (map (map_input ld) bs)"
    and "length (filter (ordinary (lflag ld ISIG)) (map (map_input ld) bs)) \<le> CANON_BUF_MAX"
  shows "feed ld bs = ld\<lparr>canon_buf := line_text (lflag ld ISIG) (map (map_input ld) bs),
      read_queue := read_queue ld @ filter passes_through (map (map_input ld) bs)\<rparr>"
  using assms(3,4)
proof (induction bs rule: rev_induct)
  case Nil
  then show ?case using assms(2) by simp
next
  case (snoc b bs)
  let ?t = "map (map_input ld) bs" and ?b = "map_input ld b" and ?s = "lflag ld ISIG"
  from snoc have ih: "feed ld bs = ld\<lparr>canon_buf := line_text ?s ?t, read_queue := read_queue ld @ filter passes_through ?t\<rparr>" by simp
  have room: "ordinary ?s ?b \<Longrightarrow> length (line_text ?s ?t) < CANON_BUF_MAX"
    using snoc.prems(2) line_text_length [of ?s ?t] by simp
  let ?l = "feed ld bs"
  have mi: "map_input ?l b = ?b" using map_input_settings [OF feed_settings] by metis
  have l: "lflag ?l ICANON" "lflag ?l ISIG = ?s" using assms(1) by simp_all
  have excl: "erases x \<Longrightarrow> \<not> passes_through x" "discards ?s x \<Longrightarrow> \<not> passes_through x \<and> \<not> erases x" "passes_through x \<Longrightarrow> \<not> ordinary ?s x"
      "ordinary ?s x \<Longrightarrow> \<not> passes_through x \<and> \<not> erases x \<and> \<not> discards ?s x" for x
    by (auto simp: passes_through_def erases_def discards_def ordinary_def)
  have "?b \<noteq> 10" using snoc.prems(1) by simp
  then consider "passes_through ?b" | "erases ?b" | "discards ?s ?b" | "ordinary ?s ?b" by (auto simp: ordinary_def)
  then show ?case
  proof cases
    case 1
    then show ?thesis unfolding feed_snoc using process_passes [OF l(1), of b] excl(1,2,3) [of ?b]
      by (simp add: mi) (auto simp: ih line_text_snoc)
  next
    case 2
    then show ?thesis unfolding feed_snoc using process_erases [OF l(1), of b] excl(1) [of ?b]
      by (simp add: mi) (simp add: ih line_text_snoc)
  next
    case 3
    then show ?thesis unfolding feed_snoc using process_discards [OF l(1), of b] excl(2) [of ?b]
      by (simp add: mi l(2)) (simp add: ih line_text_snoc)
  next
    case 4
    then show ?thesis unfolding feed_snoc using process_ordinary [OF l(1), of b] excl(4) [of ?b] room
      by (simp add: mi l(2)) (simp add: ih line_text_snoc)
  qed
qed

lemma feed_line:
  assumes "lflag ld ICANON" "canon_buf ld = []" "10 \<notin> set (map (map_input ld) bs)" "map_input ld b = 10"
    and "length (filter (ordinary (lflag ld ISIG)) (map (map_input ld) bs)) \<le> CANON_BUF_MAX"
  shows "feed ld (bs @ [b]) = ld\<lparr>read_queue := read_queue ld @ filter passes_through (map (map_input ld) bs)
      @ line_text (lflag ld ISIG) (map (map_input ld) bs) @ [10]\<rparr>"
proof -
  have mi: "map_input (feed ld bs) b = 10" using map_input_settings [OF feed_settings] assms(4) by metis
  show ?thesis unfolding feed_snoc process_input_def mi Let_def
    using feed_open_line [OF assms(1,2,3,5)] assms(1,2) by (cases ld) simp
qed

lemma feed_lines:
  assumes "lflag ld ICANON" "canon_buf ld = []" "map (map_input ld) bs = concat (map (\<lambda>l. l @ [10]) ls) @ rest"
    and "\<forall>l \<in> set (rest # ls). 10 \<notin> set l \<and> length (filter (ordinary (lflag ld ISIG)) l) \<le> CANON_BUF_MAX"
  shows "feed ld bs = ld\<lparr>canon_buf := line_text (lflag ld ISIG) rest,
      read_queue := read_queue ld @ concat (map (\<lambda>l. filter passes_through l @ line_text (lflag ld ISIG) l @ [10]) ls)
        @ filter passes_through rest\<rparr>"
  using assms
proof (induction ls arbitrary: ld bs)
  case Nil
  then show ?case using feed_open_line [of ld bs] by simp
next
  case (Cons l ls)
  let ?s = "lflag ld ISIG"
  from Cons.prems(3) obtain xs b ys where bs: "bs = xs @ b # ys" "map (map_input ld) xs = l" "map_input ld b = 10"
      "map (map_input ld) ys = concat (map (\<lambda>l. l @ [10]) ls) @ rest"
    by (fastforce simp: map_eq_append_conv [of _ _ l] map_eq_Cons_conv)
  let ?ld = "ld\<lparr>read_queue := read_queue ld @ filter passes_through l @ line_text ?s l @ [10]\<rparr>"
  have one: "feed ld (xs @ [b]) = ?ld" using feed_line [OF Cons.prems(1,2), of xs b] Cons.prems(4) bs(2,3) by simp
  have "map (map_input ?ld) ys = concat (map (\<lambda>l. l @ [10]) ls) @ rest" using bs(4) map_input_settings [of ?ld ld] by simp
  with Cons.IH [of ?ld ys] Cons.prems(1,2,4) show ?case
    unfolding bs(1) using feed_append [of ld "xs @ [b]" ys] one by simp
qed

section \<open>Bounds of the buffers\<close>

inductive pty_step :: "pty_shared \<Rightarrow> pty_shared \<Rightarrow> bool" where
  pty_settings: "pty_step sh (pty_set_settings sh settings flush)"
| pty_manager_read: "pty_step sh (snd (manager_read sh len))"
| pty_manager_write: "pty_step sh (snd (manager_write sh buf))"
| pty_subsidiary_read: "pty_step sh (snd (subsidiary_read sh len))"
| pty_subsidiary_write: "pty_step sh (snd (subsidiary_write sh buf))"

definition pty_bounded :: "pty_shared \<Rightarrow> bool" where
  "pty_bounded sh \<longleftrightarrow> length (canon_buf (pty_ldisc sh)) \<le> CANON_BUF_MAX
     \<and> length (echo_to_mgr sh) \<le> PTY_BUF_SIZE \<and> length (sub_to_mgr sh) \<le> PTY_BUF_SIZE"

lemma process_input_canon:
  "length (canon_buf ld) \<le> CANON_BUF_MAX \<Longrightarrow> length (canon_buf (snd (process_input ld b))) \<le> CANON_BUF_MAX"
  by (auto simp: process_input_def Let_def)

lemma manager_input_bounded: "pty_bounded sh \<Longrightarrow> pty_bounded (manager_input sh b)"
  using process_input_canon [of "pty_ldisc sh" b]
  by (auto simp: pty_bounded_def manager_input_def Let_def split: prod.splits)

lemma foldl_bounded: "pty_bounded sh \<Longrightarrow> pty_bounded (foldl manager_input sh buf)"
  by (induction buf arbitrary: sh) (auto intro: manager_input_bounded)

lemma pty_step_bounded: "pty_step sh sh' \<Longrightarrow> pty_bounded sh \<Longrightarrow> pty_bounded sh'"
proof (induction rule: pty_step.induct)
  case (pty_manager_write sh buf)
  then show ?case by (simp add: manager_write_def foldl_bounded)
qed (auto simp: pty_bounded_def pty_set_settings_def set_terminal_settings_def manager_read_def subsidiary_read_def
    subsidiary_write_def ld_read_def Let_def)

text \<open>The queue of input towards the application has no limit.\<close>

lemma manager_input_passes:
  assumes "lflag (pty_ldisc sh) ICANON"
  shows "read_queue (pty_ldisc (manager_input sh 0x10)) = read_queue (pty_ldisc sh) @ [0x10]"
    "ld_settings (pty_ldisc (manager_input sh 0x10)) = ld_settings (pty_ldisc sh)"
  using assms by (simp_all add: manager_input_def process_input_def map_input_def Let_def split: prod.splits)

lemma manager_write_passes:
  "lflag (pty_ldisc sh) ICANON \<Longrightarrow>
     read_queue (pty_ldisc (foldl manager_input sh (replicate n 0x10))) = read_queue (pty_ldisc sh) @ replicate n 0x10"
  by (induction n arbitrary: sh) (simp_all add: manager_input_passes)

section \<open>Properties\<close>

text \<open>C20: Canonical line editing, for any input (after the translation of carriage returns) typed from the start of a line: lines that
  end with a newline, and a rest without one. A complete line is delivered once, by its newline, in order and after editing: each backspace or
  DEL has taken away the last byte of the line that was left, Ctrl-U and (with signals on) Ctrl-C the whole line. Of the bytes before a newline only Ctrl-P and
  Ctrl-N are delivered at once; the rest of the input stays, edited, in the line buffer. This is for lines of up to 4096
  ordinary bytes; an ordinary byte typed on a line of 4096 bytes is dropped.\<close>

theorem canonical_line_editing:
  assumes "lflag ld ICANON" "canon_buf ld = []" "map (map_input ld) bs = concat (map (\<lambda>l. l @ [10]) ls) @ rest"
    and "\<forall>l \<in> set (rest # ls). 10 \<notin> set l \<and> length (filter (ordinary (lflag ld ISIG)) l) \<le> 4096"
  shows "feed ld bs = ld\<lparr>canon_buf := line_text (lflag ld ISIG) rest,
        read_queue := read_queue ld @ concat (map (\<lambda>l. filter passes_through l @ line_text (lflag ld ISIG) l @ [10]) ls)
          @ filter passes_through rest\<rparr>
     \<and> (\<forall>full b. length full = 4096 \<and> ordinary (lflag ld ISIG) (map_input ld b) \<longrightarrow>
          snd (process_input (ld\<lparr>canon_buf := full\<rparr>) b) = ld\<lparr>canon_buf := full\<rparr>)"
proof
  show "feed ld bs = ld\<lparr>canon_buf := line_text (lflag ld ISIG) rest,
      read_queue := read_queue ld @ concat (map (\<lambda>l. filter passes_through l @ line_text (lflag ld ISIG) l @ [10]) ls)
        @ filter passes_through rest\<rparr>"
    using assms by (intro feed_lines) (simp_all add: CANON_BUF_MAX_def)
  have "map_input (ld\<lparr>canon_buf := full\<rparr>) = map_input ld" for full by (rule map_input_settings) simp
  then show "\<forall>full b. length full = 4096 \<and> ordinary (lflag ld ISIG) (map_input ld b) \<longrightarrow>
      snd (process_input (ld\<lparr>canon_buf := full\<rparr>) b) = ld\<lparr>canon_buf := full\<rparr>"
    using assms(1) by (auto simp: process_input_def Let_def CANON_BUF_MAX_def ordinary_def passes_through_def erases_def discards_def)
qed

theorem canonical_line_editing_witness:
  "feed ld_new [104, 105, 0x7f, 0x10, 111, 13, 120, 0x15, 121, 8, 122] = ld_new\<lparr>canon_buf := [122], read_queue := [0x10, 104, 111, 10]\<rparr>"
proof -
  let ?bs = "[104, 105, 0x7f, 0x10, 111, 13, 120, 0x15, 121, 8, 122] :: u8 list" and ?rest = "[120, 0x15, 121, 8, 122] :: u8 list"
  have c: "lflag ld_new ICANON" "lflag ld_new ISIG" "canon_buf ld_new = []" "read_queue ld_new = []"
    by (simp_all add: ld_new_def termios2_default_def ISIG_def ICANON_def ECHO_def)
  have m: "map (map_input ld_new) ?bs = concat (map (\<lambda>l. l @ [10]) [[104, 105, 0x7f, 0x10, 111]]) @ ?rest"
    by (simp add: map_input_def ld_new_def termios2_default_def ICRNL_def)
  have fit: "\<forall>l \<in> set [?rest, [104, 105, 0x7f, 0x10, 111]]. 10 \<notin> set l \<and> length (filter (ordinary (lflag ld_new ISIG)) l) \<le> 4096"
    by (simp add: ordinary_def passes_through_def erases_def discards_def c(2))
  have t: "line_text True ?rest = [122]" "line_text True [104, 105, 0x7f, 0x10, 111] = [104, 111]"
    "filter passes_through ?rest = []" "filter passes_through [104, 105, 0x7f, 0x10, 111] = [0x10]"
    by (simp_all add: line_text_def ordinary_def passes_through_def erases_def discards_def)
  have "(lflag ld_new ISIG) = True" using c(2) by simp
  with conjunct1 [OF canonical_line_editing [OF c(1,3) m fit]] show ?thesis by (simp only: c(4) t list.map concat.simps append.simps append_Nil2)
qed

text \<open>C38: The bytes of the terminal settings read back as the same settings, and any 44 bytes
  written into the settings read back as the same bytes.\<close>

theorem termios_bytes_roundtrip:
  "(length (c_cc (tios t)) = 19 \<longrightarrow>
      termios2_from_bytes (termios2_as_bytes t) = t \<and> length (termios2_as_bytes t) = 44)
   \<and> (length bs = 44 \<longrightarrow> termios2_as_bytes (termios2_from_bytes bs) = bs)"
  using termios2_from_as_bytes [of t] termios2_as_from_bytes [of bs] by (simp add: termios2_as_bytes_def)

theorem termios_bytes_roundtrip_witness:
  "termios2_from_bytes (termios2_as_bytes termios2_default) = termios2_default"
  using termios_bytes_roundtrip [of termios2_default] by (simp add: termios2_default_def)

text \<open>C37: Whatever the two sides of a pseudo-terminal do, the line buffer and both queues towards the
  manager stay within 4096 bytes; the queue of input towards the application does not: it can grow beyond any length, and the manager's
  write accepts all of it.\<close>

theorem pty_buffers_bounded:
  "(\<forall>sh. pty_step\<^sup>*\<^sup>* pty_new sh \<longrightarrow>
      length (canon_buf (pty_ldisc sh)) \<le> 4096 \<and> length (echo_to_mgr sh) \<le> 4096 \<and> length (sub_to_mgr sh) \<le> 4096)
   \<and> (\<forall>n. \<exists>buf. fst (manager_write pty_new buf) = n \<and> length (read_queue (pty_ldisc (snd (manager_write pty_new buf)))) = n)"
proof (intro conjI allI impI)
  fix sh assume r: "pty_step\<^sup>*\<^sup>* pty_new sh"
  have "pty_bounded pty_new" by (simp add: pty_bounded_def pty_new_def ld_new_def)
  with r have "pty_bounded sh" by (induction) (auto intro: pty_step_bounded)
  then show "length (canon_buf (pty_ldisc sh)) \<le> 4096" "length (echo_to_mgr sh) \<le> 4096" "length (sub_to_mgr sh) \<le> 4096"
    by (simp_all add: pty_bounded_def CANON_BUF_MAX_def PTY_BUF_SIZE_def)
next
  fix n
  have "lflag (pty_ldisc pty_new) ICANON" "read_queue (pty_ldisc pty_new) = []"
    by (simp_all add: pty_new_def ld_new_def termios2_default_def ISIG_def ICANON_def ECHO_def)
  then show "\<exists>buf. fst (manager_write pty_new buf) = n \<and> length (read_queue (pty_ldisc (snd (manager_write pty_new buf)))) = n"
    using manager_write_passes [of pty_new n] by (intro exI [of _ "replicate n 0x10"]) (simp add: manager_write_def)
qed

theorem pty_buffers_bounded_witness:
  "length (echo_to_mgr (snd (manager_write pty_new [104, 105, 10]))) \<le> 4096
   \<and> (\<exists>buf. length (read_queue (pty_ldisc (snd (manager_write pty_new buf)))) = 4097)"
proof -
  have "pty_step\<^sup>*\<^sup>* pty_new (snd (manager_write pty_new [104, 105, 10]))" using pty_manager_write by blast
  then show ?thesis using pty_buffers_bounded by blast
qed

text \<open>C36: Output of the application: while it fits the queue, the manager reads the pending echo
  first and then the application's bytes in order, with a carriage return before each newline;
  the count reported to the application is always the length of its buffer, also when the queue
  could not take all of it.\<close>

theorem pty_output:
  assumes "subsidiary_write sh buf = (n, sh')" "c_oflag (tios (ld_settings (pty_ldisc sh))) AND (OPOST OR ONLCR) = OPOST OR ONLCR"
    and "cooked = concat (map (\<lambda>b. if b = 10 then [13, 10] else [b]) buf)"
  shows "n = length buf
     \<and> (length (sub_to_mgr sh) + length cooked \<le> PTY_BUF_SIZE \<longrightarrow>
          fst (manager_read sh' (length (echo_to_mgr sh) + length (sub_to_mgr sh) + length cooked))
            = echo_to_mgr sh @ sub_to_mgr sh @ cooked)
     \<and> (PTY_BUF_SIZE < length (sub_to_mgr sh) + length cooked \<and> length (sub_to_mgr sh) \<le> PTY_BUF_SIZE \<longrightarrow>
          length (sub_to_mgr sh') = PTY_BUF_SIZE)"
proof -
  have "process_output (pty_ldisc sh) buf = cooked"
    unfolding process_output_def assms(2,3) by (intro arg_cong [of _ _ concat] map_cong) auto
  with assms(1) have "n = length buf" "sh' = sh\<lparr>sub_to_mgr := sub_to_mgr sh @ take (PTY_BUF_SIZE - length (sub_to_mgr sh)) cooked\<rparr>"
    by (auto simp: subsidiary_write_def Let_def)
  then show ?thesis by (auto simp: manager_read_def Let_def)
qed

theorem pty_output_witness:
  "fst (manager_read (snd (subsidiary_write pty_new [97, 10])) 3) = [97, 13, 10]"
  using pty_output [of pty_new "[97, 10]" 2 "snd (subsidiary_write pty_new [97, 10])" "[97, 13, 10]"]
  by (simp add: subsidiary_write_def pty_new_def ld_new_def termios2_default_def OPOST_def ONLCR_def Let_def PTY_BUF_SIZE_def numeral_3_eq_3)

end
