(* ===== verification/Mem_File.thy ===== *)
theory Mem_File
  imports Byte_File
begin

text \<open>
  File contents of the memory file systems, \<^verbatim>\<open>kernel/src/fs/memfs.rs\<close>: the two storage
  forms (\<open>Ram\<close>, a byte vector, for ramfs; \<open>Sparse\<close>, an ordered vector of charged pages,
  for tmpfs) and their read, write, append, truncate and size operations, with the page charge
  against the file system's limit.

  Whether an allocation succeeds is decided outside this code; it is a parameter of the
  operations: \<open>ram_ok\<close> for \<open>Vec::try_reserve\<close> on the byte vector, \<open>vec_ok i\<close> and
  \<open>page_ok i\<close> for reserving room in the page vector and for \<open>OwnedPage::new\<close> when page
  \<open>i\<close> is added. A write tries each page at most once, so an answer per page index is enough.
\<close>

section \<open>Data\<close>

definition P :: nat where "P = 4096"

lemma P_pos [simp]: "0 < P" by (simp add: P_def)

lemma mod_P_less [simp]: "x mod P < P" by simp

text \<open>A chunk of a page-wise copy loop is never empty.\<close>

lemma chunk_progress: "c < n \<Longrightarrow> n - (c + min (P - x mod P) (n - c)) < n - c"
  using mod_P_less [of x] by (intro diff_less_mono2) auto

text \<open>A \<open>FilePage\<close>; its charge is the page's presence in the list.\<close>

record file_page =
  fp_index :: nat
  fp_data :: "u8 list"

datatype 'd storage =
    Directory 'd
  | Ram "u8 list"
  | Sparse nat "file_page list"

section \<open>Page search\<close>

text \<open>\<open>binary_search_by_key\<close> on pages that are strictly ordered by index: \<open>Inr\<close> the slot of
  the page, \<open>Inl\<close> the slot where it would be inserted.\<close>

definition find_slot :: "nat \<Rightarrow> file_page list \<Rightarrow> nat + nat" where
  "find_slot i pages =
     (case position (\<lambda>p. fp_index p = i) pages of
        Some s \<Rightarrow> Inr s
      | None \<Rightarrow> Inl (length (takeWhile (\<lambda>p. fp_index p < i) pages)))"

definition insert_page :: "nat \<Rightarrow> file_page \<Rightarrow> file_page list \<Rightarrow> file_page list" where
  "insert_page s p pages = take s pages @ p # drop s pages"

section \<open>Reading\<close>

text \<open>The loop of \<open>Inode::read\<close> on sparse storage, filling \<open>buf\<close> from \<open>copied\<close> on.\<close>

function sparse_read_loop ::
    "file_page list \<Rightarrow> nat \<Rightarrow> nat \<Rightarrow> u8 list \<Rightarrow> nat \<Rightarrow> u8 list" where
  "sparse_read_loop pages offset count buf copied =
     (if copied < count then
        let position = offset + copied; start = position mod P;
            len = min (P - start) (count - copied);
            buf' = (case find_slot (position div P) pages of
                      Inr s \<Rightarrow> splice buf copied (take len (drop start (fp_data (pages ! s))))
                    | Inl _ \<Rightarrow> buf)
        in sparse_read_loop pages offset count buf' (copied + len)
      else buf)"
  by pat_completeness auto
termination
  by (relation "measure (\<lambda>(pages, offset, count, buf, copied). count - copied)")
     (auto intro: chunk_progress)

text \<open>\<open>Inode::read\<close>: the first \<open>count\<close> bytes of the caller's buffer (of length \<open>buf_len\<close>)
  after the call; \<open>count\<close> is the length of the result.\<close>

definition mem_read :: "'d storage \<Rightarrow> nat \<Rightarrow> nat \<Rightarrow> u8 list fs_result" where
  "mem_read st offset buf_len =
     (case st of
        Directory _ \<Rightarrow> Inl IsADirectory
      | Ram data \<Rightarrow>
          let count = min buf_len (length data - offset) in Inr (take count (drop offset data))
      | Sparse sz pages \<Rightarrow>
          let count = min buf_len (sz - offset)
          in Inr (sparse_read_loop pages offset count (replicate count 0) 0))"

section \<open>Writing\<close>

text \<open>Adding the page \<open>i\<close>, in the order of the source: room in the vector, the charge against
  the limit, the page itself; a charge taken before a failure is given back.\<close>

definition allocate_page ::
    "(nat \<Rightarrow> bool) \<Rightarrow> (nat \<Rightarrow> bool) \<Rightarrow> nat \<Rightarrow> nat \<Rightarrow> nat \<Rightarrow> file_page fs_result" where
  "allocate_page vec_ok page_ok limit used i =
     (if \<not> vec_ok i then Inl OutOfMemory
      else if \<not> used < limit then Inl NoSpace
      else if \<not> page_ok i then Inl OutOfMemory
      else Inr \<lparr>fp_index = i, fp_data = replicate P 0\<rparr>)"

text \<open>The write loop on sparse storage. The result carries the new size, the pages and the number
  of charged pages of the whole file system.\<close>

function sparse_write_loop ::
    "(nat \<Rightarrow> bool) \<Rightarrow> (nat \<Rightarrow> bool) \<Rightarrow> nat \<Rightarrow> nat \<Rightarrow> u8 list \<Rightarrow> nat \<Rightarrow> nat \<Rightarrow> file_page list \<Rightarrow> nat
      \<Rightarrow> nat fs_result \<times> nat \<times> file_page list \<times> nat" where
  "sparse_write_loop vec_ok page_ok limit offset buf written sz pages used =
     (if written < length buf then
        let position = offset + written; i = position div P;
            start = position mod P; count = min (P - start) (length buf - written);
            put = (\<lambda>s pages used.
              sparse_write_loop vec_ok page_ok limit offset buf (written + count)
                (max sz (offset + (written + count)))
                (pages[s := (pages ! s)\<lparr>fp_data :=
                   splice (fp_data (pages ! s)) start (take count (drop written buf))\<rparr>])
                used)
        in case find_slot i pages of
             Inr s \<Rightarrow> put s pages used
           | Inl s \<Rightarrow>
               (case allocate_page vec_ok page_ok limit used i of
                  Inr page \<Rightarrow> put s (insert_page s page pages) (used + 1)
                | Inl e \<Rightarrow> ((if written = 0 then Inl e else Inr written), sz, pages, used))
      else (Inr written, sz, pages, used))"
  by pat_completeness auto
termination
  by (relation "measure (\<lambda>(v, p, l, offset, buf, written, s, ps, u). length buf - written)")
     (auto intro: chunk_progress)

text \<open>\<open>write_data\<close>: the directory test, the empty write, the size limit, then the storage.
  \<open>used\<close> is the number of charged pages of the file system.\<close>

definition write_data ::
    "bool \<Rightarrow> (nat \<Rightarrow> bool) \<Rightarrow> (nat \<Rightarrow> bool) \<Rightarrow> nat \<Rightarrow> 'd storage \<Rightarrow> nat \<Rightarrow> nat \<Rightarrow> u8 list
      \<Rightarrow> nat fs_result \<times> 'd storage \<times> nat" where
  "write_data ram_ok vec_ok page_ok limit st used offset buf =
     (case st of
        Directory _ \<Rightarrow> (Inl IsADirectory, st, used)
      | _ \<Rightarrow>
        if buf = [] then (Inr 0, st, used)
        else if isize_max < offset + length buf then (Inl FileTooLarge, st, used)
        else case st of
               Directory _ \<Rightarrow> (Inl IsADirectory, st, used)
             | Ram data \<Rightarrow>
                 let e = offset + length buf
                 in if length data < e \<and> \<not> ram_ok then (Inl OutOfMemory, st, used)
                    else let data' = (if length data < e
                                      then data @ replicate (e - length data) 0 else data)
                         in (Inr (length buf), Ram (splice data' offset buf), used)
             | Sparse sz pages \<Rightarrow>
                 let (r, sz', pages', used') =
                       sparse_write_loop vec_ok page_ok limit offset buf 0 sz pages used
                 in (r, Sparse sz' pages', used'))"

definition mem_append ::
    "bool \<Rightarrow> (nat \<Rightarrow> bool) \<Rightarrow> (nat \<Rightarrow> bool) \<Rightarrow> nat \<Rightarrow> 'd storage \<Rightarrow> nat \<Rightarrow> u8 list
      \<Rightarrow> (nat \<times> nat) fs_result \<times> 'd storage \<times> nat" where
  "mem_append ram_ok vec_ok page_ok limit st used buf =
     (let go = (\<lambda>offset. case write_data ram_ok vec_ok page_ok limit st used offset buf of
                  (Inl e, st', used') \<Rightarrow> (Inl e, st', used')
                | (Inr n, st', used') \<Rightarrow> (Inr (offset, n), st', used'))
      in case st of
           Directory _ \<Rightarrow> (Inl IsADirectory, st, used)
         | Ram data \<Rightarrow> go (length data)
         | Sparse sz _ \<Rightarrow> go sz)"

section \<open>Truncating, size and blocks\<close>

definition div_ceil :: "nat \<Rightarrow> nat \<Rightarrow> nat" where
  "div_ceil a b = (a + b - 1) div b"

text \<open>\<open>truncate\<close>: dropped pages give their charge back.\<close>

definition mem_truncate ::
    "bool \<Rightarrow> 'd storage \<Rightarrow> nat \<Rightarrow> nat \<Rightarrow> unit fs_result \<times> 'd storage \<times> nat" where
  "mem_truncate ram_ok st used new_size =
     (if isize_max < new_size then (Inl FileTooLarge, st, used)
      else case st of
             Directory _ \<Rightarrow> (Inl IsADirectory, st, used)
           | Ram data \<Rightarrow>
               if length data < new_size \<and> \<not> ram_ok then (Inl OutOfMemory, st, used)
               else (Inr (), Ram (take new_size data @ replicate (new_size - length data) 0), used)
           | Sparse sz pages \<Rightarrow>
               if new_size < sz then
                 let kept = filter (\<lambda>p. fp_index p < div_ceil new_size P) pages;
                     pages' =
                       (if new_size mod P \<noteq> 0 then
                          case find_slot (new_size div P) kept of
                            Inr s \<Rightarrow> kept[s := (kept ! s)\<lparr>fp_data :=
                              take (new_size mod P) (fp_data (kept ! s))
                              @ replicate (length (fp_data (kept ! s)) - new_size mod P) 0\<rparr>]
                          | Inl _ \<Rightarrow> kept
                        else kept)
                 in (Inr (), Sparse new_size pages', used - (length pages - length kept))
               else (Inr (), Sparse new_size pages, used))"

definition mem_size :: "('d \<Rightarrow> nat) \<Rightarrow> 'd storage \<Rightarrow> nat" where
  "mem_size entries st =
     (case st of Directory d \<Rightarrow> entries d | Ram data \<Rightarrow> length data | Sparse sz _ \<Rightarrow> sz)"

definition mem_blocks :: "'d storage \<Rightarrow> nat" where
  "mem_blocks st =
     (case st of Directory _ \<Rightarrow> 0 | Ram data \<Rightarrow> div_ceil (length data) 512
      | Sparse _ pages \<Rightarrow> length pages * (P div 512))"

declare sparse_read_loop.simps [simp del] sparse_write_loop.simps [simp del]

section \<open>The abstract view of a sparse file\<close>

text \<open>The page with a given index, and the byte at a position: holes read as zero.\<close>

definition page_of :: "file_page list \<Rightarrow> nat \<Rightarrow> file_page option" where
  "page_of pages i = List.find (\<lambda>p. fp_index p = i) pages"

definition file_byte :: "file_page list \<Rightarrow> nat \<Rightarrow> u8" where
  "file_byte pages pos =
     (case page_of pages (pos div P) of Some p \<Rightarrow> fp_data p ! (pos mod P) | None \<Rightarrow> 0)"

definition pages_wf :: "file_page list \<Rightarrow> bool" where
  "pages_wf pages \<longleftrightarrow>
     sorted_wrt (<) (map fp_index pages) \<and> (\<forall>p \<in> set pages. length (fp_data p) = P)"

text \<open>Well-formed storage: ordered full pages, no page that lies wholly behind the end of the
  file, and only zeros behind the end, so that a later extension reads as zero.\<close>

definition file_wf :: "nat \<Rightarrow> file_page list \<Rightarrow> bool" where
  "file_wf sz pages \<longleftrightarrow> pages_wf pages \<and> (\<forall>p \<in> set pages. fp_index p * P < sz)
     \<and> (\<forall>pos. sz \<le> pos \<longrightarrow> file_byte pages pos = 0)"

lemma pages_wf_inj:
  "pages_wf ps \<Longrightarrow> p \<in> set ps \<Longrightarrow> q \<in> set ps \<Longrightarrow> fp_index p = fp_index q \<Longrightarrow> p = q"
  unfolding pages_wf_def
  by (metis distinct_map inj_onD strict_sorted_iff)

lemma page_of_iff: "pages_wf ps \<Longrightarrow> page_of ps i = Some p \<longleftrightarrow> p \<in> set ps \<and> fp_index p = i"
proof
  assume "page_of ps i = Some p"
  then show "p \<in> set ps \<and> fp_index p = i"
    by (auto simp: page_of_def find_Some_iff)
next
  assume wf: "pages_wf ps" and p: "p \<in> set ps \<and> fp_index p = i"
  then obtain q where q: "page_of ps i = Some q"
    by (cases "page_of ps i") (auto simp: page_of_def find_None_iff)
  then have "q \<in> set ps \<and> fp_index q = i" by (auto simp: page_of_def find_Some_iff)
  with wf p q show "page_of ps i = Some p" by (metis pages_wf_inj)
qed

lemma page_of_None: "page_of ps i = None \<longleftrightarrow> (\<forall>p \<in> set ps. fp_index p \<noteq> i)"
  by (auto simp: page_of_def find_None_iff)

lemma find_slot_Inr:
  "find_slot i ps = Inr s \<Longrightarrow> s < length ps \<and> fp_index (ps ! s) = i \<and> page_of ps i = Some (ps ! s)"
  by (auto simp: find_slot_def page_of_def find_Some_iff position_Some split: option.splits)

lemma find_slot_Inl:
  "find_slot i ps = Inl s \<Longrightarrow>
     s = length (takeWhile (\<lambda>p. fp_index p < i) ps) \<and> page_of ps i = None"
  by (auto simp: find_slot_def page_of_None split: option.splits)

text \<open>Replacing the page at its slot, and inserting a missing page at its slot, are both a map
  update of \<open>page_of\<close>.\<close>

lemma page_of_ext:
  assumes "pages_wf ps" "pages_wf qs" "fp_index p = i"
    and "set qs = insert p {q \<in> set ps. fp_index q \<noteq> i}"
  shows "page_of qs = (page_of ps)(i \<mapsto> p)"
proof
  fix j
  show "page_of qs j = ((page_of ps)(i \<mapsto> p)) j"
  proof (cases "j = i")
    case True
    then show ?thesis using page_of_iff [OF assms(2), of i p] assms(3,4) by simp
  next
    case False
    show ?thesis
    proof (cases "page_of ps j")
      case None
      then have "page_of qs j = None" unfolding page_of_None using False assms(3,4) by auto
      with None False show ?thesis by simp
    next
      case (Some q)
      then have "q \<in> set ps" "fp_index q = j" using page_of_iff [OF assms(1)] by auto
      then have "page_of qs j = Some q" using page_of_iff [OF assms(2)] assms(4) False by auto
      with Some False show ?thesis by simp
    qed
  qed
qed

lemma update_page:
  assumes wf: "pages_wf ps" and s: "s < length ps" and p: "fp_index p = fp_index (ps ! s)" "length (fp_data p) = P"
  shows "pages_wf (ps[s := p])" "page_of (ps[s := p]) = (page_of ps)(fp_index p \<mapsto> p)"
proof -
  have m: "map fp_index (ps[s := p]) = map fp_index ps"
    using s p(1) by (simp add: map_update list_update_same_conv)
  then show wf': "pages_wf (ps[s := p])"
    using wf p(2) by (auto simp: pages_wf_def dest!: set_update_subset_insert [THEN subsetD])
  have "distinct ps" using wf by (auto simp: pages_wf_def strict_sorted_iff distinct_map)
  then have "set (ps[s := p]) = insert p (set ps - {ps ! s})"
    using s by (rule set_update_distinct)
  also have "set ps - {ps ! s} = {q \<in> set ps. fp_index q \<noteq> fp_index p}"
    using pages_wf_inj [OF wf _ nth_mem [OF s]] p(1) by auto
  finally show "page_of (ps[s := p]) = (page_of ps)(fp_index p \<mapsto> p)"
    by (intro page_of_ext [OF wf wf']) auto
qed

lemma insert_missing_page:
  assumes wf: "pages_wf ps" and none: "page_of ps (fp_index p) = None" and p: "length (fp_data p) = P"
    and s: "s = length (takeWhile (\<lambda>q. fp_index q < fp_index p) ps)"
  shows "pages_wf (insert_page s p ps)" "page_of (insert_page s p ps) = (page_of ps)(fp_index p \<mapsto> p)"
    "insert_page s p ps ! s = p" "s < length (insert_page s p ps)"
proof -
  define t where "t = takeWhile (\<lambda>q. fp_index q < fp_index p) ps"
  define d where "d = dropWhile (\<lambda>q. fp_index q < fp_index p) ps"
  have ps: "ps = t @ d" by (simp add: t_def d_def)
  have s: "s = length t" by (simp add: s t_def)
  have split: "insert_page s p ps = t @ p # d"
    by (simp add: insert_page_def s ps)
  have set: "set (insert_page s p ps) = insert p (set ps)"
    unfolding split by (auto simp: ps)
  have sorted: "sorted_wrt (<) (map fp_index t)" "sorted_wrt (<) (map fp_index d)"
    using wf by (simp_all add: pages_wf_def ps sorted_wrt_append)
  have lo: "\<forall>q \<in> set t. fp_index q < fp_index p" by (auto simp: t_def dest: set_takeWhileD)
  have hi: "\<forall>q \<in> set d. fp_index p < fp_index q"
  proof (cases d)
    case Nil
    then show ?thesis by simp
  next
    case (Cons q qs)
    then have "\<not> fp_index q < fp_index p" by (metis d_def hd_dropWhile list.distinct(1) list.sel(1))
    moreover have "fp_index q \<noteq> fp_index p" using none Cons by (auto simp: page_of_None ps)
    moreover have "\<forall>r \<in> set qs. fp_index q < fp_index r" using sorted(2) Cons by auto
    ultimately show ?thesis using Cons by auto
  qed
  have "sorted_wrt (<) (map fp_index (t @ p # d))"
    using sorted lo hi by (force simp: sorted_wrt_append)
  then show wf': "pages_wf (insert_page s p ps)"
    using wf p unfolding split by (auto simp: pages_wf_def ps)
  show "page_of (insert_page s p ps) = (page_of ps)(fp_index p \<mapsto> p)"
    using none set by (intro page_of_ext [OF wf wf']) (auto simp: page_of_None)
  show "insert_page s p ps ! s = p" "s < length (insert_page s p ps)"
    unfolding split by (simp_all add: s)
qed

section \<open>The read loop\<close>

text \<open>The positions of one page-wise chunk lie in one page.\<close>

lemma chunk_in_page:
  assumes "k < P - x mod P"
  shows "(x + k) div P = x div P" "(x + k) mod P = x mod P + k"
proof -
  have "x + k = x div P * P + (x mod P + k)" by simp
  moreover have "x mod P + k < P" using assms by simp
  ultimately show "(x + k) div P = x div P" "(x + k) mod P = x mod P + k"
    by (metis add.commute div_mult_self3 div_less add_0 P_pos less_numeral_extra(3),
        metis mod_mult_self3 mod_less)
qed

lemma sparse_read_loop_eq:
  assumes "pages_wf pages" "length buf = count" "\<And>k. copied \<le> k \<Longrightarrow> k < count \<Longrightarrow> buf ! k = 0"
  shows "sparse_read_loop pages offset count buf copied =
     map (\<lambda>k. if k < copied then buf ! k else file_byte pages (offset + k)) [0..<count]"
  using assms
proof (induction pages offset count buf copied rule: sparse_read_loop.induct)
  case (1 pages offset count buf copied)
  show ?case
  proof (cases "copied < count")
    case False
    with "1.prems"(2) show ?thesis
      by (auto simp: sparse_read_loop.simps [of pages offset count buf copied] intro!: nth_equalityI)
  next
    case True
    define pos where "pos = offset + copied"
    define len where "len = min (P - pos mod P) (count - copied)"
    define buf' where "buf' = (case find_slot (pos div P) pages of
        Inr s \<Rightarrow> splice buf copied (take len (drop (pos mod P) (fp_data (pages ! s)))) | Inl _ \<Rightarrow> buf)"
    have len: "len \<le> P - pos mod P" "copied + len \<le> count" using True by (auto simp: len_def)
    have buf': "length buf' = count \<and> (\<forall>k < count. buf' ! k =
        (if copied \<le> k \<and> k < copied + len then file_byte pages (offset + k) else buf ! k))"
    proof (cases "find_slot (pos div P) pages")
      case (Inl s)
      have "file_byte pages (offset + k) = 0" if "copied \<le> k" "k < copied + len" for k
      proof -
        have "(pos + (k - copied)) div P = pos div P"
          by (rule chunk_in_page) (use that len in linarith)
        then show ?thesis
          using find_slot_Inl [OF Inl] that by (simp add: file_byte_def pos_def)
      qed
      then show ?thesis using "1.prems"(2,3) by (auto simp: buf'_def Inl)
    next
      case (Inr s)
      let ?d = "fp_data (pages ! s)"
      define ys where "ys = take len (drop (pos mod P) ?d)"
      note s = find_slot_Inr [OF Inr]
      then have d: "length ?d = P" using "1.prems"(1) by (simp add: pages_wf_def)
      then have ys: "length ys = len" using len(1) by (simp add: ys_def)
      have "ys ! (k - copied) = file_byte pages (offset + k)" if "copied \<le> k" "k < copied + len" for k
      proof -
        have "k - copied < P - pos mod P" using that len by linarith
        from chunk_in_page [OF this] have "(offset + k) div P = pos div P"
          "(offset + k) mod P = pos mod P + (k - copied)" using that by (simp_all add: pos_def)
        then show ?thesis using s that d len by (simp add: file_byte_def ys_def)
      qed
      with "1.prems"(2) len ys show ?thesis
        by (simp add: buf'_def Inr flip: ys_def) (simp add: length_splice nth_splice)
    qed
    have IH: "sparse_read_loop pages offset count buf' (copied + len) =
        map (\<lambda>k. if k < copied + len then buf' ! k else file_byte pages (offset + k)) [0..<count]"
      using "1.IH" [OF True pos_def refl len_def buf'_def] "1.prems" buf' by simp
    have "sparse_read_loop pages offset count buf copied =
        sparse_read_loop pages offset count buf' (copied + len)"
      unfolding pos_def len_def buf'_def
      by (subst sparse_read_loop.simps) (simp add: True Let_def)
    with IH buf' show ?thesis by (auto intro!: map_cong)
  qed
qed

lemma sparse_read_eq:
  assumes "pages_wf pages"
  shows "mem_read (Sparse sz pages) offset n =
     Inr (map (\<lambda>k. file_byte pages (offset + k)) [0..<min n (sz - offset)])"
  using sparse_read_loop_eq [OF assms, of "replicate (min n (sz - offset)) 0" _ 0 offset]
  by (simp add: mem_read_def Let_def)

section \<open>The write loop\<close>

text \<open>Overwriting a part of one page changes exactly the bytes of that part.\<close>

lemma file_byte_upd:
  assumes upd: "page_of ps' = (page_of ps)(x div P \<mapsto> p)"
    and p: "fp_data p = splice d (x mod P) ys" "length d = P" "length ys \<le> P - x mod P"
    and d: "d = (case page_of ps (x div P) of Some q \<Rightarrow> fp_data q | None \<Rightarrow> replicate P 0)"
  shows "file_byte ps' pos =
     (if x \<le> pos \<and> pos < x + length ys then ys ! (pos - x) else file_byte ps pos)"
proof (cases "pos div P = x div P")
  case True
  have x: "x = x div P * P + x mod P" and pos: "pos = x div P * P + pos mod P"
    using True by (metis div_mult_mod_eq)+
  have fits: "x mod P + length ys \<le> length d" using p(2,3) mod_P_less [of x] by linarith
  have "file_byte ps' pos = splice d (x mod P) ys ! (pos mod P)"
    by (simp add: file_byte_def upd True p(1))
  also have "\<dots> = (if x mod P \<le> pos mod P \<and> pos mod P < x mod P + length ys
      then ys ! (pos mod P - x mod P) else d ! (pos mod P))"
    using fits by (simp add: nth_splice p(2))
  also have "d ! (pos mod P) = file_byte ps pos"
    by (simp add: file_byte_def True d split: option.split)
  finally show ?thesis using x pos by (smt (verit) add_diff_cancel_left nat_add_left_cancel_le
      nat_add_left_cancel_less add.assoc)
next
  case False
  have "\<not> (x \<le> pos \<and> pos < x + length ys)"
  proof
    assume "x \<le> pos \<and> pos < x + length ys"
    then have "pos - x < P - x mod P" using p(3) by linarith
    from chunk_in_page(1) [OF this] False \<open>x \<le> pos \<and> _\<close> show False by simp
  qed
  then have "?thesis \<longleftrightarrow> file_byte ps' pos = file_byte ps pos" by (simp only: if_False)
  with False show ?thesis by (simp add: file_byte_def upd)
qed

text \<open>One chunk of the write loop: the page at \<open>s\<close> holds \<open>d\<close> and is overwritten in part.\<close>

lemma put_chunk:
  assumes wf: "file_wf sz ps" and qs: "pages_wf qs" "s < length qs" "fp_index (qs ! s) = x div P"
    and upd: "page_of qs = (page_of ps)(x div P \<mapsto> qs ! s)"
    and d: "fp_data (qs ! s) = (case page_of ps (x div P) of Some q \<Rightarrow> fp_data q | None \<Rightarrow> replicate P 0)"
    and ys: "length ys \<le> P - x mod P" "ys \<noteq> []"
  defines "ps' \<equiv> qs[s := (qs ! s)\<lparr>fp_data := splice (fp_data (qs ! s)) (x mod P) ys\<rparr>]"
  shows "file_byte ps' pos =
     (if x \<le> pos \<and> pos < x + length ys then ys ! (pos - x) else file_byte ps pos)"
    and "file_wf (max sz (x + length ys)) ps'"
proof -
  let ?p = "(qs ! s)\<lparr>fp_data := splice (fp_data (qs ! s)) (x mod P) ys\<rparr>"
  have len: "length (fp_data (qs ! s)) = P" using qs by (simp add: pages_wf_def)
  moreover have "x mod P + length ys \<le> P" using ys(1) mod_P_less [of x] by linarith
  ultimately have "length (fp_data ?p) = P" by (simp add: length_splice)
  then have wf': "pages_wf ps'" and page: "page_of ps' = (page_of qs)(x div P \<mapsto> ?p)"
    using update_page [OF qs(1,2), of ?p] qs(3) by (simp_all add: ps'_def)
  have byte: "file_byte ps' pos =
      (if x \<le> pos \<and> pos < x + length ys then ys ! (pos - x) else file_byte ps pos)" for pos
    using file_byte_upd [of ps' ps x ?p "fp_data (qs ! s)" ys] page len ys(1) d by (simp add: upd)
  then show "file_byte ps' pos =
      (if x \<le> pos \<and> pos < x + length ys then ys ! (pos - x) else file_byte ps pos)" .
  have "fp_index q * P < max sz (x + length ys)" if q: "q \<in> set ps'" for q
  proof (cases "fp_index q = x div P")
    case True
    then have "fp_index q * P \<le> x" by simp
    with ys(2) show ?thesis by (cases ys) auto
  next
    case False
    with page_of_iff [OF wf', of "fp_index q" q] q have "page_of ps (fp_index q) = Some q"
      by (simp add: page upd)
    then have "q \<in> set ps" by (auto simp: page_of_def find_Some_iff)
    then have "fp_index q * P < sz" using wf by (simp add: file_wf_def)
    then show ?thesis by simp
  qed
  then show "file_wf (max sz (x + length ys)) ps'"
    using wf wf' byte by (simp add: file_wf_def)
qed

text \<open>What the write loop does from \<open>written\<close> on: it stores the bytes up to some \<open>n\<close>; it stops
  early only at a page that is missing and cannot be allocated.\<close>

definition write_outcome where
  "write_outcome vec_ok page_ok limit offset buf written sz pages used n r sz' pages' used' \<longleftrightarrow>
     written \<le> n \<and> n \<le> length buf \<and> file_wf sz' pages'
     \<and> (\<forall>pos. file_byte pages' pos =
          (if offset + written \<le> pos \<and> pos < offset + n then buf ! (pos - offset)
           else file_byte pages pos))
     \<and> sz' = (if written < n then max sz (offset + n) else sz)
     \<and> used' + length pages = used + length pages' \<and> used \<le> used' \<and> used' \<le> max used limit
     \<and> (if n = length buf then r = Inr n
        else page_of pages' ((offset + n) div P) = None
          \<and> (\<exists>e. allocate_page vec_ok page_ok limit used' ((offset + n) div P) = Inl e
                 \<and> r = (if n = 0 then Inl e else Inr n)))"

lemma write_outcome_step:
  assumes out: "write_outcome vec_ok page_ok limit offset buf (written + c) (max sz (offset + (written + c)))
       ps1 used1 n r sz' ps' used'"
    and c: "0 < c" "written + c \<le> length buf"
    and byte: "\<And>pos. file_byte ps1 pos = (if offset + written \<le> pos \<and> pos < offset + written + c
       then buf ! (pos - offset) else file_byte ps pos)"
    and used: "used1 + length ps = used + length ps1" "used \<le> used1" "used1 \<le> max used limit"
  shows "write_outcome vec_ok page_ok limit offset buf written sz ps used n r sz' ps' used'"
proof -
  have "file_byte ps' pos = (if offset + written \<le> pos \<and> pos < offset + n
      then buf ! (pos - offset) else file_byte ps pos)" for pos
    using out byte [of pos] c by (auto simp: write_outcome_def)
  then show ?thesis
    using out c used unfolding write_outcome_def by (auto split: if_splits)
qed

lemma sparse_write_loop_outcome:
  assumes "file_wf sz pages" "written \<le> length buf"
    and "sparse_write_loop vec_ok page_ok limit offset buf written sz pages used = (r, sz', pages', used')"
  shows "\<exists>n. write_outcome vec_ok page_ok limit offset buf written sz pages used n r sz' pages' used'"
  using assms
proof (induction "length buf - written" arbitrary: written sz pages used rule: less_induct)
  case less
  note unf = sparse_write_loop.simps [of vec_ok page_ok limit offset buf written sz pages used]
  show ?case
  proof (cases "written < length buf")
    case False
    then have "sz' = sz" "pages' = pages" "used' = used" "r = Inr written" "written = length buf"
      using less.prems(2,3) [unfolded unf] by simp_all
    with less.prems(1) show ?thesis
      by (intro exI [of _ written]) (auto simp: write_outcome_def)
  next
    case True
    define x where "x = offset + written"
    define c where "c = min (P - x mod P) (length buf - written)"
    define ys where "ys = take c (drop written buf)"
    have c: "0 < c" "written + c \<le> length buf" using True by (auto simp: c_def)
    have ys: "length ys = c" "length ys \<le> P - x mod P" "ys \<noteq> []"
      using c by (auto simp: ys_def c_def)
    have nth: "ys ! (pos - x) = buf ! (pos - offset)" if "x \<le> pos" "pos < x + c" for pos
      using that c(2) by (simp add: ys_def x_def)
    define put where "put s qs = qs[s := (qs ! s)\<lparr>fp_data := splice (fp_data (qs ! s)) (x mod P) ys\<rparr>]"
      for s and qs :: "file_page list"
    have goal: ?thesis
      if qs: "pages_wf qs" "s < length qs" "fp_index (qs ! s) = x div P"
        "page_of qs = (page_of pages)(x div P \<mapsto> qs ! s)"
        "fp_data (qs ! s) = (case page_of pages (x div P) of Some q \<Rightarrow> fp_data q | None \<Rightarrow> replicate P 0)"
      and used: "used1 + length pages = used + length qs" "used \<le> used1" "used1 \<le> max used limit"
      and step: "sparse_write_loop vec_ok page_ok limit offset buf (written + c)
          (max sz (offset + (written + c))) (put s qs) used1 = (r, sz', pages', used')" for s qs used1
    proof -
      note chunk = put_chunk [OF less.prems(1) qs ys(2,3), folded put_def, unfolded ys(1)]
      have "file_wf (max sz (offset + (written + c))) (put s qs)"
        using chunk(2) by (simp add: x_def add.assoc)
      moreover have "length buf - (written + c) < length buf - written" using c by linarith
      ultimately obtain n where
        out: "write_outcome vec_ok page_ok limit offset buf (written + c)
          (max sz (offset + (written + c))) (put s qs) used1 n r sz' pages' used'"
        using less.hyps c(2) step by blast
      have "length (put s qs) = length qs" by (simp add: put_def)
      moreover have "file_byte (put s qs) pos =
          (if offset + written \<le> pos \<and> pos < offset + written + c
           then buf ! (pos - offset) else file_byte pages pos)" for pos
        using chunk(1) [of pos] nth [of pos] by (simp flip: x_def)
      ultimately show ?thesis
        using write_outcome_step [OF out c] used by metis
    qed
    show ?thesis
    proof (cases "find_slot (x div P) pages")
      case (Inr s)
      have "sparse_write_loop vec_ok page_ok limit offset buf (written + c)
          (max sz (offset + (written + c))) (put s pages) used = (r, sz', pages', used')"
        using less.prems(3) True Inr
        by (simp add: unf Let_def put_def ys_def c_def flip: x_def)
      with find_slot_Inr [OF Inr] less.prems(1) show ?thesis
        by (intro goal [of pages s used]) (auto simp: file_wf_def)
    next
      case (Inl s)
      note s = find_slot_Inl [OF Inl]
      let ?p = "\<lparr>fp_index = x div P, fp_data = replicate P (0::u8)\<rparr>"
      show ?thesis
      proof (cases "allocate_page vec_ok page_ok limit used (x div P)")
        case fail: (Inl e)
        then have "sz' = sz" "pages' = pages" "used' = used" "r = (if written = 0 then Inl e else Inr written)"
          using less.prems(3) True Inl by (simp_all add: unf Let_def flip: x_def)
        with less.prems(1) True fail s show ?thesis
          by (intro exI [of _ written]) (auto simp: write_outcome_def simp flip: x_def)
      next
        case (Inr p)
        then have p: "p = ?p" "used < limit" by (auto simp: allocate_page_def split: if_splits)
        have "sparse_write_loop vec_ok page_ok limit offset buf (written + c)
            (max sz (offset + (written + c))) (put s (insert_page s ?p pages)) (used + 1) = (r, sz', pages', used')"
          using less.prems(3) True Inl Inr p(1)
          by (simp add: unf Let_def put_def ys_def c_def flip: x_def)
        moreover have "length (insert_page s ?p pages) = length pages + 1"
          by (simp add: insert_page_def)
        ultimately show ?thesis
          using insert_missing_page [of pages ?p s] s less.prems(1) p(2)
          by (intro goal [of "insert_page s ?p pages" s "used + 1"]) (auto simp: file_wf_def)
      qed
    qed
  qed
qed

section \<open>Truncation of the page list\<close>

lemma less_div_ceil: "i < div_ceil n P \<longleftrightarrow> i * P < n"
proof -
  have "i < div_ceil n P \<longleftrightarrow> Suc i * P \<le> n + P - 1"
    unfolding div_ceil_def less_eq_Suc_le by (rule less_eq_div_iff_mult_less_eq) simp
  also have "\<dots> \<longleftrightarrow> i * P < n" using P_pos by (simp only: mult_Suc) linarith
  finally show ?thesis .
qed

lemma page_of_filter:
  "page_of (filter (\<lambda>p. Q (fp_index p)) pages) i = (if Q i then page_of pages i else None)"
  by (induction pages) (auto simp: page_of_def)

lemma pages_wf_filter: "pages_wf pages \<Longrightarrow> pages_wf (filter Q pages)"
  by (auto simp: pages_wf_def sorted_wrt_map intro: sorted_wrt_filter)

lemma truncate_pages:
  fixes n :: nat
  assumes wf: "pages_wf pages"
  defines "kept \<equiv> filter (\<lambda>p. fp_index p < div_ceil n P) pages"
  defines "ps' \<equiv> (if n mod P \<noteq> 0 then case find_slot (n div P) kept of
       Inr s \<Rightarrow> kept[s := (kept ! s)\<lparr>fp_data := take (n mod P) (fp_data (kept ! s))
         @ replicate (length (fp_data (kept ! s)) - n mod P) 0\<rparr>]
     | Inl _ \<Rightarrow> kept else kept)"
  shows "file_byte ps' pos = (if pos < n then file_byte pages pos else 0)"
    and "file_wf n ps'" and "length ps' = length kept"
proof -
  have kept: "pages_wf kept" unfolding kept_def by (rule pages_wf_filter [OF wf])
  have page: "page_of kept i = (if i * P < n then page_of pages i else None)" for i
    unfolding kept_def using page_of_filter [of "\<lambda>i. i < div_ceil n P"] by (simp add: less_div_ceil)
  have keptbyte: "file_byte kept pos = (if pos div P * P < n then file_byte pages pos else 0)" for pos
    by (simp add: file_byte_def page)
  have ps': "pages_wf ps' \<and> length ps' = length kept \<and> map fp_index ps' = map fp_index kept
      \<and> (\<forall>pos. file_byte ps' pos = (if pos < n then file_byte pages pos else 0))"
  proof (cases "n mod P = 0")
    case True
    then obtain m where m: "n = P * m" by auto
    have "pos div P * P < n \<longleftrightarrow> pos < n" for pos
      unfolding m by (metis P_pos div_less_iff_less_mult mult.commute mult_less_cancel1)
    with True kept keptbyte show ?thesis by (simp add: ps'_def)
  next
    case False
    have lastp: "n div P * P < n" using False div_mult_mod_eq [of n P] by linarith
    have same: "pos < n \<longleftrightarrow> pos mod P < n mod P" if "pos div P = n div P" for pos
      using that div_mult_mod_eq [of n P] div_mult_mod_eq [of pos P] by (metis nat_add_left_cancel_less)
    have other: "pos div P * P < n \<longleftrightarrow> pos < n" if "pos div P \<noteq> n div P" for pos
      using that lastp by (metis P_pos div_le_mono div_less_iff_less_mult div_times_less_eq_dividend
          le_less_trans less_le_not_le nat_less_le nle_le)
    show ?thesis
    proof (cases "find_slot (n div P) kept")
      case (Inl s)
      then have "page_of pages (n div P) = None" using find_slot_Inl page [of "n div P"] lastp by auto
      then have "file_byte pages pos = 0" if "pos div P = n div P" for pos
        using that by (simp add: file_byte_def)
      then show ?thesis using kept keptbyte Inl False other by (auto simp: ps'_def)
    next
      case (Inr s)
      let ?d = "fp_data (kept ! s)"
      let ?p = "(kept ! s)\<lparr>fp_data := take (n mod P) ?d @ replicate (length ?d - n mod P) 0\<rparr>"
      note s = find_slot_Inr [OF Inr]
      have d: "length ?d = P" using s kept by (simp add: pages_wf_def)
      then have upd: "pages_wf (kept[s := ?p])" "page_of (kept[s := ?p]) = (page_of kept)(n div P \<mapsto> ?p)"
        using update_page [OF kept, of s ?p] s by simp_all
      have "file_byte (kept[s := ?p]) pos = (if pos < n then file_byte pages pos else 0)" for pos
      proof (cases "pos div P = n div P")
        case True
        have "page_of pages (n div P) = Some (kept ! s)" using s page [of "n div P"] lastp by simp
        then show ?thesis unfolding file_byte_def upd(2) True
          using d by (simp add: same [OF True] nth_append diff_less_mono)
      next
        case False
        then have "file_byte (kept[s := ?p]) pos = file_byte kept pos"
          unfolding file_byte_def upd(2) by simp
        then show ?thesis using keptbyte other [OF False] by simp
      qed
      then show ?thesis using upd(1) Inr False s
        by (simp add: ps'_def map_update list_update_same_conv)
    qed
  qed
  then show "file_byte ps' pos = (if pos < n then file_byte pages pos else 0)"
    "length ps' = length kept" by simp_all
  have "fp_index q * P < n" if "q \<in> set ps'" for q
    using that ps' kept_def less_div_ceil
    by (metis (mono_tags, lifting) in_set_conv_nth nth_map length_map mem_Collect_eq set_filter nth_mem)
  with ps' show "file_wf n ps'" by (simp add: file_wf_def)
qed

section \<open>Both storage forms implement byte lists\<close>

definition file_contents :: "'d storage \<Rightarrow> u8 list" where
  "file_contents st =
     (case st of Directory _ \<Rightarrow> [] | Ram data \<Rightarrow> data
      | Sparse sz pages \<Rightarrow> map (file_byte pages) [0..<sz])"

definition page_count :: "'d storage \<Rightarrow> nat" where
  "page_count st = (case st of Sparse _ pages \<Rightarrow> length pages | _ \<Rightarrow> 0)"

text \<open>A regular file whose pages are among the charged pages of the file system.\<close>

fun file_inv :: "'d storage \<times> nat \<Rightarrow> bool" where
  "file_inv (Directory _, used) = False"
| "file_inv (Ram data, used) = True"
| "file_inv (Sparse sz pages, used) = (file_wf sz pages \<and> length pages \<le> used)"

lemma slice_map_upt: "take n (drop offset (map g [0..<m])) = map (\<lambda>k. g (offset + k)) [0..<min n (m - offset)]"
  by (intro nth_equalityI) auto

lemma mem_read_slice:
  "file_inv (st, used) \<Longrightarrow> mem_read st offset n = Inr (take n (drop offset (file_contents st)))"
proof (cases st)
  case (Sparse sz pages)
  moreover assume "file_inv (st, used)"
  ultimately have "pages_wf pages" by (simp add: file_wf_def)
  then show ?thesis
    unfolding Sparse sparse_read_eq [OF \<open>pages_wf pages\<close>]
    by (simp add: file_contents_def slice_map_upt)
next
  case (Ram data)
  have "take (min n (length (drop offset data))) (drop offset data) = take n (drop offset data)"
    by (cases "n \<le> length (drop offset data)") (simp_all only: min_absorb1 min_absorb2 nle_le take_all)
  then show ?thesis by (simp add: Ram mem_read_def file_contents_def)
qed (simp add: mem_read_def)

lemma overwrite_Ram:
  assumes "buf \<noteq> []"
  shows "splice (if length data < offset + length buf
      then data @ replicate (offset + length buf - length data) 0 else data) offset buf
     = overwrite data offset buf"
proof -
  define data' where "data' = (if length data < offset + length buf
      then data @ replicate (offset + length buf - length data) 0 else data)"
  have len: "length data' = max (length data) (offset + length buf)" by (simp add: data'_def)
  have nth: "data' ! k = (if k < length data then data ! k else 0)" if "k < length data'" for k
    using that by (auto simp: data'_def nth_append split: if_splits)
  have "offset + length buf \<le> length data'" using len by simp
  then have "splice data' offset buf = overwrite data offset buf"
    using assms len nth
    by (intro nth_equalityI) (simp_all add: length_splice nth_splice length_overwrite nth_overwrite)
  then show ?thesis by (simp only: data'_def)
qed

lemma outcome_contents:
  assumes "write_outcome vec_ok page_ok limit offset buf 0 sz pages used n r sz' pages' used'"
    and "file_wf sz pages"
  shows "map (file_byte pages') [0..<sz'] = overwrite (map (file_byte pages) [0..<sz]) offset (take n buf)"
proof (cases "n = 0")
  case True
  then show ?thesis using assms(1)
    by (auto simp: write_outcome_def overwrite_def split: if_splits)
next
  case False
  then have n: "length (take n buf) = n" "take n buf \<noteq> []" and sz': "sz' = max sz (offset + n)"
    and byte: "\<And>pos. file_byte pages' pos = (if offset \<le> pos \<and> pos < offset + n
       then buf ! (pos - offset) else file_byte pages pos)"
    using assms(1) by (auto simp: write_outcome_def)
  have zero: "sz \<le> pos \<Longrightarrow> file_byte pages pos = 0" for pos using assms(2) by (simp add: file_wf_def)
  show ?thesis
  proof (rule nth_equalityI)
    fix k assume "k < length (map (file_byte pages') [0..<sz'])"
    then have "k < max sz (offset + n)" using sz' by simp
    moreover have "offset \<le> k \<Longrightarrow> k < offset + n \<Longrightarrow> take n buf ! (k - offset) = buf ! (k - offset)" by simp
    ultimately show "map (file_byte pages') [0..<sz'] ! k = overwrite (map (file_byte pages) [0..<sz]) offset (take n buf) ! k"
      using n zero by (auto simp: nth_overwrite byte sz')
  qed (use n in \<open>auto simp: length_overwrite sz'\<close>)
qed

lemma write_data_sparse:
  assumes "file_wf sz pages" "buf \<noteq> []" "offset + length buf \<le> isize_max"
    and "write_data ram_ok vec_ok page_ok limit (Sparse sz pages) used offset buf = (r, st', used')"
  shows "\<exists>n sz' pages'. st' = Sparse sz' pages' \<and>
     write_outcome vec_ok page_ok limit offset buf 0 sz pages used n r sz' pages' used'"
proof -
  obtain r2 sz' pages' u2 where
    loop: "sparse_write_loop vec_ok page_ok limit offset buf 0 sz pages used = (r2, sz', pages', u2)"
    by (metis prod_cases4)
  then have "(r2, Sparse sz' pages', u2) = (r, st', used')"
    using assms(2-) by (simp add: write_data_def)
  with loop sparse_write_loop_outcome [OF assms(1) _ loop] show ?thesis by blast
qed

lemma write_data_Ram:
  assumes "buf \<noteq> []" "offset + length buf \<le> isize_max"
  shows "write_data ram_ok vec_ok page_ok limit (Ram data) used offset buf =
     (if length data < offset + length buf \<and> \<not> ram_ok then (Inl OutOfMemory, Ram data, used)
      else (Inr (length buf), Ram (overwrite data offset buf), used))"
  unfolding overwrite_Ram [OF assms(1), symmetric] using assms
  by (simp add: write_data_def Let_def)

lemma write_data_early:
  "file_inv (st, used) \<Longrightarrow> buf = [] \<or> isize_max < offset + length buf \<Longrightarrow>
   write_data ram_ok vec_ok page_ok limit st used offset buf =
     (if buf = [] then Inr 0 else Inl FileTooLarge, st, used)"
  by (cases st) (auto simp: write_data_def)

lemma write_data_post:
  assumes "file_inv (st, used)" "write_data ram_ok vec_ok page_ok limit st used offset buf = (r, st', used')"
  shows "file_inv (st', used')"
    and "\<And>n. r = Inr n \<Longrightarrow> n \<le> length buf \<and> file_contents st' = overwrite (file_contents st) offset (take n buf)"
    and "\<And>e. r = Inl e \<Longrightarrow> file_contents st' = file_contents st"
proof -
  have "file_inv (st', used') \<and>
     (case r of Inr n \<Rightarrow> n \<le> length buf \<and> file_contents st' = overwrite (file_contents st) offset (take n buf)
      | Inl e \<Rightarrow> file_contents st' = file_contents st)"
  proof (cases "buf = [] \<or> isize_max < offset + length buf")
    case True
    then have "st' = st" "used' = used" "r = Inr 0 \<and> buf = [] \<or> r = Inl FileTooLarge"
      using write_data_early [OF assms(1) True] assms(2) by (auto split: if_splits)
    with assms(1) show ?thesis by (auto simp: overwrite_def)
  next
    case False
    then have buf: "buf \<noteq> []" "offset + length buf \<le> isize_max" by auto
    show ?thesis
    proof (cases st)
      case (Sparse sz pages)
      then have wf: "file_wf sz pages" "length pages \<le> used" using assms(1) by simp_all
      from write_data_sparse [OF wf(1) buf] assms(2) Sparse obtain n sz' pages' where
        st': "st' = Sparse sz' pages'"
        and out: "write_outcome vec_ok page_ok limit offset buf 0 sz pages used n r sz' pages' used'"
        by blast
      have "file_inv (st', used')" using out wf st' by (auto simp: write_outcome_def)
      moreover have "n \<le> length buf" "r = Inr n \<or> n = 0 \<and> (\<exists>e. r = Inl e)"
        using out by (auto simp: write_outcome_def split: if_splits)
      ultimately show ?thesis
        using outcome_contents [OF out wf(1)]
        by (auto simp: st' Sparse file_contents_def overwrite_def)
    next
      case (Ram data)
      let ?fail = "length data < offset + length buf \<and> \<not> ram_ok"
      have "r = (if ?fail then Inl OutOfMemory else Inr (length buf))"
        "st' = (if ?fail then st else Ram (overwrite data offset buf))" "used' = used"
        using assms(2) unfolding Ram write_data_Ram [OF buf] by (auto split: if_splits)
      then show ?thesis using assms(1) by (simp add: file_contents_def Ram)
    qed (use assms(1) in simp)
  qed
  then show "file_inv (st', used')"
    and "\<And>n. r = Inr n \<Longrightarrow> n \<le> length buf \<and> file_contents st' = overwrite (file_contents st) offset (take n buf)"
    and "\<And>e. r = Inl e \<Longrightarrow> file_contents st' = file_contents st"
    by auto
qed

lemma mem_truncate_sparse:
  assumes "file_wf sz pages" "length pages \<le> used" "n \<le> isize_max"
  shows "\<exists>pages' used'. mem_truncate ram_ok (Sparse sz pages :: 'd storage) used n = (Inr (), Sparse n pages', used')
     \<and> file_wf n pages' \<and> used' + length pages = used + length pages' \<and> length pages' \<le> used'
     \<and> map (file_byte pages') [0..<n] = resize_bytes n (map (file_byte pages) [0..<sz])"
proof (cases "n < sz")
  case True
  define kept where "kept = filter (\<lambda>p. fp_index p < div_ceil n P) pages"
  define pages' where "pages' = (if n mod P \<noteq> 0 then case find_slot (n div P) kept of
       Inr s \<Rightarrow> kept[s := (kept ! s)\<lparr>fp_data := take (n mod P) (fp_data (kept ! s))
         @ replicate (length (fp_data (kept ! s)) - n mod P) 0\<rparr>]
     | Inl _ \<Rightarrow> kept else kept)"
  have "pages_wf pages" using assms(1) by (simp add: file_wf_def)
  note t = truncate_pages [OF this, where n = n, folded kept_def, folded pages'_def]
  have "mem_truncate ram_ok (Sparse sz pages :: 'd storage) used n =
      (Inr (), Sparse n pages', used - (length pages - length kept))"
    unfolding pages'_def kept_def using True assms(3) by (simp add: mem_truncate_def Let_def)
  moreover have "length kept \<le> length pages" by (simp add: kept_def)
  moreover have "map (file_byte pages') [0..<n] = resize_bytes n (map (file_byte pages) [0..<sz])"
    using True t(1) by (intro nth_equalityI) (simp_all add: nth_resize_bytes)
  ultimately show ?thesis using t(2,3) assms(2)
    by (intro exI [of _ pages'] exI [of _ "used - (length pages - length kept)"]) simp
next
  case False
  then have "file_wf n pages"
    using assms(1) unfolding file_wf_def by (meson le_trans less_le_trans not_less)
  moreover have "map (file_byte pages) [0..<n] = resize_bytes n (map (file_byte pages) [0..<sz])"
    using False assms(1) by (intro nth_equalityI) (simp_all add: nth_resize_bytes file_wf_def)
  ultimately show ?thesis using False assms(2,3) by (simp add: mem_truncate_def)
qed

lemma mem_truncate_post:
  assumes "file_inv (st, used)" "mem_truncate ram_ok st used n = (r, st', used')"
  shows "file_inv (st', used')"
    and "\<And>u. r = Inr u \<Longrightarrow> file_contents st' = resize_bytes n (file_contents st)"
    and "\<And>e. r = Inl e \<Longrightarrow> file_contents st' = file_contents st"
proof -
  have "file_inv (st', used') \<and> (case r of Inr _ \<Rightarrow> file_contents st' = resize_bytes n (file_contents st)
      | Inl _ \<Rightarrow> file_contents st' = file_contents st)"
  proof (cases "isize_max < n")
    case True
    then show ?thesis using assms by (auto simp: mem_truncate_def)
  next
    case False
    show ?thesis
    proof (cases st)
      case (Sparse sz pages)
      then obtain pages' u where t: "mem_truncate ram_ok st used n = (Inr (), Sparse n pages', u)"
        and *: "file_wf n pages'" "length pages' \<le> u"
          "map (file_byte pages') [0..<n] = resize_bytes n (map (file_byte pages) [0..<sz])"
        using mem_truncate_sparse [of sz pages used n ram_ok] assms(1) False by auto
      have "r = Inr ()" "st' = Sparse n pages'" "used' = u" using t assms(2) by simp_all
      with * show ?thesis by (simp add: Sparse file_contents_def)
    next
      case (Ram data)
      with assms False show ?thesis
        by (auto simp: mem_truncate_def file_contents_def resize_bytes_def split: if_splits)
    qed (use assms(1) in simp)
  qed
  then show "file_inv (st', used')"
    and "\<And>u. r = Inr u \<Longrightarrow> file_contents st' = resize_bytes n (file_contents st)"
    and "\<And>e. r = Inl e \<Longrightarrow> file_contents st' = file_contents st"
    by auto
qed

text \<open>Both storage forms meet the contract of a regular file, for every outcome of the
  allocations and every page limit.\<close>

interpretation mf: byte_file file_inv "\<lambda>(st, used). file_contents st" "\<lambda>(st, used). mem_read st"
    "\<lambda>(st, used). write_data ram_ok vec_ok page_ok limit st used" "\<lambda>(st, used). mem_truncate ram_ok st used"
proof unfold_locales
qed (auto simp: mem_read_slice dest: write_data_post mem_truncate_post)

section \<open>The charges\<close>

lemma write_data_quota:
  assumes "file_inv (st, used)" "used \<le> limit"
    and "write_data ram_ok vec_ok page_ok limit st used offset buf = (r, st', used')"
  shows "used' \<le> limit \<and> used' + page_count st = used + page_count st'
     \<and> (ram_ok \<and> (\<forall>i. vec_ok i \<and> page_ok i) \<and> offset + length buf \<le> isize_max
          \<longrightarrow> r = Inr (length buf) \<or> used' = limit)"
proof (cases st)
  case (Sparse sz pages)
  then have wf: "file_wf sz pages" using assms(1) by simp
  show ?thesis
  proof (cases "buf = [] \<or> isize_max < offset + length buf")
    case True
    then show ?thesis
      using assms(2,3) write_data_early [OF assms(1) True] by (auto split: if_splits)
  next
    case False
    then obtain n sz' pages' where st': "st' = Sparse sz' pages'"
      and out: "write_outcome vec_ok page_ok limit offset buf 0 sz pages used n r sz' pages' used'"
      using write_data_sparse [OF wf] assms(3) Sparse by (metis not_le)
    have "allocate_page vec_ok page_ok limit used' i = Inl e \<Longrightarrow> \<forall>i. vec_ok i \<and> page_ok i \<Longrightarrow> limit \<le> used'" for i e
      by (auto simp: allocate_page_def split: if_splits)
    with out assms(2) show ?thesis
      by (auto simp: write_outcome_def page_count_def st' Sparse split: if_splits)
  qed
next
  case (Ram data)
  show ?thesis
  proof (cases "buf = [] \<or> isize_max < offset + length buf")
    case True
    then show ?thesis
      using assms(2,3) write_data_early [OF assms(1) True] by (auto split: if_splits)
  next
    case False
    then have "buf \<noteq> []" "offset + length buf \<le> isize_max" by auto
    note eq = write_data_Ram [OF this]
    show ?thesis
      using assms(2,3) unfolding Ram eq by (auto simp: page_count_def split: if_splits)
  qed
qed (use assms(1) in simp)

lemma mem_truncate_charge:
  assumes "file_inv (st, used)" "mem_truncate ram_ok st used n = (r, st', used')"
  shows "file_inv (st', used') \<and> used' + page_count st = used + page_count st'
     \<and> (case r of Inr _ \<Rightarrow> file_contents st' = resize_bytes n (file_contents st)
        | Inl _ \<Rightarrow> st' = st \<and> (isize_max < n \<or> \<not> ram_ok))"
proof (cases st)
  case (Sparse sz pages)
  show ?thesis
  proof (cases "isize_max < n")
    case True
    then show ?thesis using assms by (auto simp: mem_truncate_def)
  next
    case False
    then obtain pages' u where "mem_truncate ram_ok st used n = (Inr (), Sparse n pages', u)"
      "u + length pages = used + length pages'"
      using mem_truncate_sparse [of sz pages used n ram_ok] assms(1) Sparse by auto
    then have "r = Inr ()" "st' = Sparse n pages'" "used' + length pages = used + length pages'"
      using assms(2) by simp_all
    then show ?thesis using mem_truncate_post [OF assms] by (simp add: page_count_def Sparse)
  qed
next
  case (Ram data)
  show ?thesis
    using mem_truncate_post [OF assms] assms(2)
    by (cases r) (auto simp: mem_truncate_def page_count_def Ram split: if_splits)
qed (use assms(1) in simp)

section \<open>Properties\<close>

text \<open>C16: A write to a regular file keeps the storage well formed and, when it reports \<open>n\<close> bytes,
  has replaced exactly the first \<open>n\<close> bytes of the caller's buffer at the offset, with zeros between
  the old end and the offset; when it reports an error the contents are unchanged.\<close>

theorem memfs_write_refines:
  assumes "file_inv (st, used)"
    and "write_data ram_ok vec_ok page_ok limit st used offset buf = (r, st', used')"
  shows "file_inv (st', used')
     \<and> (case r of
          Inr n \<Rightarrow> n \<le> length buf \<and> file_contents st' = overwrite (file_contents st) offset (take n buf)
        | Inl _ \<Rightarrow> file_contents st' = file_contents st)"
  using write_data_post [OF assms] by (cases r) auto

theorem memfs_write_refines_witness:
  "file_inv (Sparse 0 [] :: unit storage, 0)
   \<and> (\<exists>r st' used'. write_data True (\<lambda>_. True) (\<lambda>_. True) 4 (Sparse 0 [] :: unit storage) 0 5000 [7, 8] = (r, st', used')
        \<and> r = Inr 2 \<and> used' = 1 \<and> file_contents st' = replicate 5000 0 @ [7, 8])"
proof -
  let ?st = "Sparse 0 [] :: unit storage"
  have inv: "file_inv (?st, 0)" by (simp add: file_wf_def pages_wf_def file_byte_def page_of_def)
  obtain st' where w: "write_data True (\<lambda>_. True) (\<lambda>_. True) 4 ?st 0 5000 [7, 8] = (Inr 2, st', 1)"
    by (simp add: write_data_def isize_max_def sparse_write_loop.simps P_def find_slot_def position_def
        allocate_page_def Let_def insert_page_def)
  then have "file_contents st' = overwrite [] 5000 [7, 8]"
    using memfs_write_refines [OF inv w] by (simp add: file_contents_def)
  with inv w show ?thesis by (simp add: overwrite_def)
qed

text \<open>C24: Writes respect the page limit of a tmpfs: the charged pages of the file system change by
  exactly the pages the file gained and stay within the limit, and when no allocation fails a
  write within the size limit is short only if it has used the last page.\<close>

theorem memfs_write_quota:
  assumes "file_inv (st, used)" "used \<le> limit"
    and "write_data ram_ok vec_ok page_ok limit st used offset buf = (r, st', used')"
  shows "used' \<le> limit \<and> used' + page_count st = used + page_count st'
     \<and> (ram_ok \<and> (\<forall>i. vec_ok i \<and> page_ok i) \<and> offset + length buf \<le> isize_max
          \<longrightarrow> r = Inr (length buf) \<or> used' = limit)"
  by (rule write_data_quota [OF assms])

theorem memfs_write_quota_witness:
  "\<exists>r st' used'. write_data True (\<lambda>_. True) (\<lambda>_. True) 1 (Ram [1, 2] :: unit storage) 1 1 [7, 8] = (r, st', used')
     \<and> st' = Ram [1, 7, 8] \<and> used' \<le> 1 \<and> (r = Inr 2 \<or> used' = 1)"
proof -
  have w: "write_data True (\<lambda>_. True) (\<lambda>_. True) 1 (Ram [1, 2] :: unit storage) 1 1 [7, 8] = (Inr 2, Ram [1, 7, 8], 1)"
    by (simp add: write_data_def isize_max_def Let_def splice_def)
  show ?thesis using memfs_write_quota [OF _ _ w] w by simp
qed

text \<open>C26: What a write stored is what a read at the same offset returns, and a read of any other
  stored part of the file is not affected.\<close>

theorem memfs_read_after_write:
  assumes "file_inv (st, used)"
    and "write_data ram_ok vec_ok page_ok limit st used offset buf = (Inr n, st', used')"
  shows "mem_read st' offset n = Inr (take n buf)
     \<and> (\<forall>a k. (a + k \<le> offset \<or> offset + n \<le> a) \<and> a + k \<le> length (file_contents st)
          \<longrightarrow> mem_read st' a k = mem_read st a k)"
  using mf.read_after_write [of "(st, used)" ram_ok vec_ok page_ok limit offset buf n "(st', used')"]
    mf.read_elsewhere [of "(st, used)" ram_ok vec_ok page_ok limit offset buf n "(st', used')"] assms
  by simp

theorem memfs_read_after_write_witness:
  "mem_read (Ram [1, 2, 0, 9, 8] :: unit storage) 3 2 = Inr [9, 8]
   \<and> mem_read (Ram [1, 2, 0, 9, 8] :: unit storage) 0 2 = mem_read (Ram [1, 2] :: unit storage) 0 2"
proof -
  have w: "write_data True (\<lambda>_. True) (\<lambda>_. True) 1 (Ram [1, 2] :: unit storage) 0 3 [9, 8] = (Inr 2, Ram [1, 2, 0, 9, 8], 0)"
    by (simp add: write_data_def isize_max_def Let_def splice_def)
  show ?thesis
    using memfs_read_after_write [OF _ w] by (simp add: file_contents_def)
qed

text \<open>C25: Truncation cuts the contents or extends them with zeros and gives back exactly the
  charges of the dropped pages; it fails only for a size above the limit, and in ramfs when the
  vector cannot grow, and then changes nothing.\<close>

theorem memfs_truncate_refines:
  assumes "file_inv (st, used)" "mem_truncate ram_ok st used n = (r, st', used')"
  shows "file_inv (st', used') \<and> used' + page_count st = used + page_count st'
     \<and> (case r of Inr _ \<Rightarrow> file_contents st' = resize_bytes n (file_contents st)
        | Inl _ \<Rightarrow> st' = st \<and> (isize_max < n \<or> \<not> ram_ok))"
  by (rule mem_truncate_charge [OF assms])

theorem memfs_truncate_refines_witness:
  "mem_truncate True (Ram [1, 2, 3] :: unit storage) 0 2 = (Inr (), Ram [1, 2], 0)
   \<and> file_contents (Ram [1, 2] :: unit storage) = resize_bytes 2 [1, 2, 3]"
proof -
  have t: "mem_truncate True (Ram [1, 2, 3] :: unit storage) 0 2 = (Inr (), Ram [1, 2], 0)"
    by (simp add: mem_truncate_def isize_max_def)
  show ?thesis using memfs_truncate_refines [OF _ t] t by (simp add: file_contents_def)
qed

end
