(* ===== verification/Mem_Dir.thy ===== *)
theory Mem_Dir
  imports Mem_File Rust_Str
begin

text \<open>
  The namespace of the memory file systems, \<^verbatim>\<open>kernel/src/fs/memfs.rs\<close>: inodes with
  their parent, link count and metadata, the inode and page charges against the limits of a tmpfs,
  and the operations create, lookup, unlink, rename, readdir, set_metadata and statfs.

  Inodes are held by reference counts in the code. The state keeps the live inodes in a map, the
  references held outside the file system (open files, the mounted root, the caller of an
  operation) in \<open>mf_handles\<close>, and frees an inode when neither a directory nor a handle refers to
  it. The vector of weak references is \<open>mf_ns\<close>; a dead entry is one that is not in the map.

  The locks matter in \<open>rename\<close>, which takes the lock of an inode while it holds that of
  others; the result \<open>Hang\<close> says that the call never returns. Link counts are unbounded integers
  here; the invariant bounds them by the number of entries.
\<close>

section \<open>State\<close>

record tmpfs_options =
  to_size :: nat
  to_nr_inodes :: nat
  to_mode :: nat
  to_uid :: nat
  to_gid :: nat

definition tmpfs_default :: tmpfs_options where
  "tmpfs_default = \<lparr>to_size = 16 * 1024 * 1024, to_nr_inodes = 1024, to_mode = 493, to_uid = 0, to_gid = 0\<rparr>"

type_synonym entries = "(rstr \<times> nat) list"

text \<open>\<open>MemoryInode\<close> with its \<open>InodeData\<close>.\<close>

record mnode =
  mn_parent :: nat
  mn_links :: int
  mn_type :: file_type
  mn_uid :: nat
  mn_gid :: nat
  mn_mode :: nat
  mn_storage :: "entries storage"

text \<open>\<open>Shared\<close> and the root of \<open>MemoryFs\<close>.\<close>

record memfs =
  mf_limits :: "tmpfs_options option"
  mf_pages :: nat
  mf_inodes :: nat
  mf_ns :: "nat list"
  mf_next :: nat
  mf_root :: nat
  mf_nodes :: "nat \<Rightarrow> mnode option"
  mf_handles :: "nat \<Rightarrow> nat"

text \<open>Whether the allocations of one operation succeed.\<close>

record alloc_env =
  ae_name :: bool
  ae_entries :: bool
  ae_nodes :: bool
  ae_arc :: bool

datatype 'a outcome = Ret 'a | Hang

definition page_limit :: "memfs \<Rightarrow> nat" where
  "page_limit fs = (case mf_limits fs of Some l \<Rightarrow> to_size l div P | None \<Rightarrow> usize_max)"

definition inode_limit :: "memfs \<Rightarrow> nat" where
  "inode_limit fs = (case mf_limits fs of Some l \<Rightarrow> to_nr_inodes l | None \<Rightarrow> usize_max)"

definition node_at :: "memfs \<Rightarrow> nat \<Rightarrow> mnode" where
  "node_at fs i = the (mf_nodes fs i)"

definition set_node :: "memfs \<Rightarrow> nat \<Rightarrow> mnode \<Rightarrow> memfs" where
  "set_node fs i n = fs\<lparr>mf_nodes := (mf_nodes fs)(i \<mapsto> n)\<rparr>"

definition set_entries :: "memfs \<Rightarrow> nat \<Rightarrow> entries \<Rightarrow> memfs" where
  "set_entries fs i es = set_node fs i ((node_at fs i)\<lparr>mn_storage := Directory es\<rparr>)"

definition set_links :: "memfs \<Rightarrow> nat \<Rightarrow> int \<Rightarrow> memfs" where
  "set_links fs i l = set_node fs i ((node_at fs i)\<lparr>mn_links := l\<rparr>)"

section \<open>References\<close>

definition entries_of :: "memfs \<Rightarrow> nat \<Rightarrow> entries" where
  "entries_of fs i =
     (case mf_nodes fs i of Some n \<Rightarrow> (case mn_storage n of Directory es \<Rightarrow> es | _ \<Rightarrow> []) | None \<Rightarrow> [])"

definition referenced :: "memfs \<Rightarrow> nat \<Rightarrow> bool" where
  "referenced fs i \<longleftrightarrow> (\<exists>d \<in> set (mf_ns fs). i \<in> snd ` set (entries_of fs d))"

text \<open>The end of an inode's last reference: its charge and those of its pages are dropped.\<close>

definition free_if_dead :: "memfs \<Rightarrow> nat \<Rightarrow> memfs" where
  "free_if_dead fs i =
     (if mf_handles fs i = 0 \<and> \<not> referenced fs i then
        fs\<lparr>mf_nodes := (mf_nodes fs)(i := None), mf_inodes := mf_inodes fs - 1,
           mf_pages := mf_pages fs - page_count (mn_storage (node_at fs i))\<rparr>
      else fs)"

definition take_handle :: "memfs \<Rightarrow> nat \<Rightarrow> memfs" where
  "take_handle fs i = fs\<lparr>mf_handles := (mf_handles fs)(i := mf_handles fs i + 1)\<rparr>"

definition drop_handle :: "memfs \<Rightarrow> nat \<Rightarrow> memfs" where
  "drop_handle fs i = free_if_dead (fs\<lparr>mf_handles := (mf_handles fs)(i := mf_handles fs i - 1)\<rparr>) i"

section \<open>Creating inodes and file systems\<close>

text \<open>\<open>MemoryInode::new\<close>: the inode charge, then the inode; the returned reference is the
  caller's.\<close>

definition new_node :: "memfs \<Rightarrow> file_type \<Rightarrow> nat \<Rightarrow> mnode" where
  "new_node fs ft parent =
     (let options = (case mf_limits fs of Some l \<Rightarrow> l | None \<Rightarrow> tmpfs_default)
      in \<lparr>mn_parent = parent, mn_links = (if ft = FtDirectory then 2 else 1), mn_type = ft,
          mn_uid = to_uid options, mn_gid = to_gid options,
          mn_mode = (if parent = 0 then to_mode options else if ft = FtDirectory then 493
                     else if ft = FtRegular then 420 else 511),
          mn_storage = (if ft = FtDirectory then Directory []
                        else if mf_limits fs \<noteq> None then Sparse 0 [] else Ram [])\<rparr>)"

definition inode_new :: "bool \<Rightarrow> memfs \<Rightarrow> file_type \<Rightarrow> nat \<Rightarrow> nat fs_result \<times> memfs" where
  "inode_new arc_ok fs ft parent =
     (if \<not> mf_inodes fs < inode_limit fs then (Inl NoSpace, fs)
      else if \<not> arc_ok then (Inl OutOfMemory, fs\<lparr>mf_next := mf_next fs + 1\<rparr>)
      else (Inr (mf_next fs),
            fs\<lparr>mf_next := mf_next fs + 1, mf_inodes := mf_inodes fs + 1,
               mf_nodes := (mf_nodes fs)(mf_next fs \<mapsto> new_node fs ft parent),
               mf_handles := (mf_handles fs)(mf_next fs := 1)\<rparr>))"

definition memfs_build :: "bool \<Rightarrow> alloc_env \<Rightarrow> nat \<Rightarrow> tmpfs_options option \<Rightarrow> memfs fs_result" where
  "memfs_build shared_ok env next_ino limits =
     (if \<not> shared_ok then Inl OutOfMemory
      else let fs = \<lparr>mf_limits = limits, mf_pages = 0, mf_inodes = 0, mf_ns = [], mf_next = next_ino,
                     mf_root = next_ino, mf_nodes = (\<lambda>_. None), mf_handles = (\<lambda>_. 0)\<rparr>
           in case inode_new (ae_arc env) fs FtDirectory 0 of
                (Inl e, _) \<Rightarrow> Inl e
              | (Inr root, fs') \<Rightarrow>
                  if \<not> ae_nodes env then Inl OutOfMemory
                  else Inr (fs'\<lparr>mf_ns := [root], mf_root := root\<rparr>))"

definition memfs_tmpfs :: "bool \<Rightarrow> alloc_env \<Rightarrow> nat \<Rightarrow> tmpfs_options \<Rightarrow> memfs fs_result" where
  "memfs_tmpfs shared_ok env next_ino options =
     (if to_size options = 0 \<or> to_size options mod P \<noteq> 0 \<or> to_nr_inodes options = 0
         \<or> 4095 < to_mode options
      then Inl InvalidArgument
      else memfs_build shared_ok env next_ino (Some options))"

section \<open>Operations\<close>

definition validate_name :: "rstr \<Rightarrow> unit fs_result" where
  "validate_name name =
     (if name = [] \<or> name = [dot] \<or> name = [dot, dot] \<or> slash \<in> set name \<or> 0 \<in> set name
      then Inl InvalidArgument
      else if 255 < str_len name then Inl NameTooLong
      else Inr ())"

definition dir_entries :: "memfs \<Rightarrow> nat \<Rightarrow> entries fs_result" where
  "dir_entries fs d =
     (case mn_storage (node_at fs d) of Directory es \<Rightarrow> Inr es | _ \<Rightarrow> Inl NotADirectory)"

definition mem_lookup :: "memfs \<Rightarrow> nat \<Rightarrow> rstr \<Rightarrow> nat fs_result \<times> memfs" where
  "mem_lookup fs d name =
     (case dir_entries fs d of
        Inl e \<Rightarrow> (Inl e, fs)
      | Inr es \<Rightarrow> (case map_of es name of
            Some i \<Rightarrow> (Inr i, take_handle fs i)
          | None \<Rightarrow> (Inl NotFound, fs)))"

definition mem_create ::
    "alloc_env \<Rightarrow> memfs \<Rightarrow> nat \<Rightarrow> rstr \<Rightarrow> file_type \<Rightarrow> nat fs_result \<times> memfs" where
  "mem_create env fs d name ft =
     (case validate_name name of
        Inl e \<Rightarrow> (Inl e, fs)
      | Inr _ \<Rightarrow>
        if ft \<notin> {FtRegular, FtDirectory, FtSymlink} then (Inl NotSupported, fs)
        else if mn_links (node_at fs d) = 0 then (Inl NotFound, fs)
        else case dir_entries fs d of
          Inl e \<Rightarrow> (Inl e, fs)
        | Inr es \<Rightarrow>
          if name \<in> fst ` set es then (Inl AlreadyExists, fs)
          else if \<not> ae_name env \<or> \<not> ae_entries env then (Inl OutOfMemory, fs)
          else
            let fs1 = fs\<lparr>mf_ns := filter (\<lambda>i. mf_nodes fs i \<noteq> None) (mf_ns fs)\<rparr> in
            if \<not> ae_nodes env then (Inl OutOfMemory, fs1)
            else case inode_new (ae_arc env) fs1 ft d of
              (Inl e, fs2) \<Rightarrow> (Inl e, fs2)
            | (Inr i, fs2) \<Rightarrow>
                let fs3 = fs2\<lparr>mf_ns := mf_ns fs2 @ [i]\<rparr>;
                    fs4 = (if ft = FtDirectory then set_links fs3 d (mn_links (node_at fs3 d) + 1) else fs3)
                in (Inr i, set_entries fs4 d (es @ [(name, i)])))"

definition detach :: "memfs \<Rightarrow> nat \<Rightarrow> nat \<Rightarrow> memfs" where
  "detach fs d c =
     (let fs1 = set_links fs c 0
      in if mn_type (node_at fs c) = FtDirectory then set_links fs1 d (mn_links (node_at fs1 d) - 1) else fs1)"

definition mem_unlink :: "memfs \<Rightarrow> nat \<Rightarrow> rstr \<Rightarrow> bool \<Rightarrow> unit fs_result \<times> memfs" where
  "mem_unlink fs d name directory =
     (case validate_name name of
        Inl e \<Rightarrow> (Inl e, fs)
      | Inr _ \<Rightarrow> case dir_entries fs d of
          Inl e \<Rightarrow> (Inl e, fs)
        | Inr es \<Rightarrow> case position (\<lambda>e. fst e = name) es of
            None \<Rightarrow> (Inl NotFound, fs)
          | Some ix \<Rightarrow>
              let c = snd (es ! ix); child = node_at fs c in
              if mn_type child = FtDirectory \<and> \<not> directory then (Inl IsADirectory, fs)
              else if mn_type child = FtDirectory \<and> entries_of fs c \<noteq> [] then (Inl NotEmpty, fs)
              else if mn_type child \<noteq> FtDirectory \<and> directory then (Inl NotADirectory, fs)
              else (Inr (), free_if_dead (set_entries (detach fs d c) d (remove_nth ix es)) c))"

text \<open>The walk from the destination to the root; it is a loop without a bound in the code.\<close>

partial_function (option) ancestor_check :: "memfs \<Rightarrow> nat \<Rightarrow> nat \<Rightarrow> unit fs_result option" where
  "ancestor_check fs source ancestor =
     (if ancestor = 0 then Some (Inr ())
      else if ancestor = source then Some (Inl InvalidArgument)
      else if ancestor \<notin> set (mf_ns fs) then Some (Inl NotFound)
      else case mf_nodes fs ancestor of
             None \<Rightarrow> Some (Inl NotFound)
           | Some n \<Rightarrow> ancestor_check fs source (mn_parent n))"

text \<open>\<open>can_replace\<close>, called with the locks \<open>held\<close>; it locks the target when both are
  directories.\<close>

definition can_replace :: "nat set \<Rightarrow> memfs \<Rightarrow> nat \<Rightarrow> nat \<Rightarrow> unit fs_result outcome" where
  "can_replace held fs source target =
     (case (mn_type (node_at fs source), mn_type (node_at fs target)) of
        (FtDirectory, FtDirectory) \<Rightarrow>
          if target \<in> held then Hang
          else if entries_of fs target \<noteq> [] then Ret (Inl NotEmpty) else Ret (Inr ())
      | (FtDirectory, _) \<Rightarrow> Ret (Inl NotADirectory)
      | (_, FtDirectory) \<Rightarrow> Ret (Inl IsADirectory)
      | _ \<Rightarrow> Ret (Inr ()))"

text \<open>The destination as the caller passes it: an inode of this file system, one of another file
  system, or one that has this file system's id but is not a memory inode.\<close>

datatype dest_ref = This_Fs nat | Other_Fs | Foreign

definition rename_within :: "memfs \<Rightarrow> nat \<Rightarrow> entries \<Rightarrow> nat \<Rightarrow> rstr \<Rightarrow> (unit fs_result \<times> memfs) outcome" where
  "rename_within fs d es source new_name =
     (let finish = (\<lambda>fs es. case position (\<lambda>e. snd e = source) es of
              None \<Rightarrow> (Inl NotFound, set_entries fs d es)
            | Some k \<Rightarrow> (Inr (), set_entries fs d (es[k := (new_name, source)])))
      in case position (\<lambda>e. fst e = new_name) es of
           None \<Rightarrow> Ret (finish fs es)
         | Some t \<Rightarrow> (case can_replace {d} fs source (snd (es ! t)) of
               Hang \<Rightarrow> Hang
             | Ret (Inl e) \<Rightarrow> Ret (Inl e, fs)
             | Ret (Inr _) \<Rightarrow>
                 let (r, fs') = finish (detach fs d (snd (es ! t))) (remove_nth t es)
                 in Ret (r, free_if_dead fs' (snd (es ! t)))))"

text \<open>The update that moves the entry: out of \<open>d\<close>, the link counts, the parent, into \<open>dst\<close>.\<close>

definition move_entry :: "memfs \<Rightarrow> nat \<Rightarrow> entries \<Rightarrow> nat \<Rightarrow> nat \<Rightarrow> entries \<Rightarrow> rstr \<Rightarrow> memfs" where
  "move_entry fs d es source dst des new_name =
     (let fs1 = set_entries fs d es;
          fs2 = (if mn_type (node_at fs1 source) = FtDirectory then
                   let fsa = set_links fs1 d (mn_links (node_at fs1 d) - 1)
                   in set_links fsa dst (mn_links (node_at fsa dst) + 1)
                 else fs1);
          fs3 = set_node fs2 source ((node_at fs2 source)\<lparr>mn_parent := dst\<rparr>)
      in set_entries fs3 dst (des @ [(new_name, source)]))"

definition rename_across ::
    "alloc_env \<Rightarrow> memfs \<Rightarrow> nat \<Rightarrow> entries \<Rightarrow> nat \<Rightarrow> nat \<Rightarrow> nat \<Rightarrow> rstr \<Rightarrow> (unit fs_result \<times> memfs) outcome" where
  "rename_across env fs d es ix source dst new_name =
     (case dir_entries fs dst of
        Inl e \<Rightarrow> Ret (Inl e, fs)
      | Inr des \<Rightarrow>
          (case position (\<lambda>e. fst e = new_name) des of
             None \<Rightarrow>
               if \<not> ae_entries env then Ret (Inl OutOfMemory, fs)
               else Ret (Inr (), move_entry fs d (remove_nth ix es) source dst des new_name)
           | Some t \<Rightarrow> (case can_replace {d, dst} fs source (snd (des ! t)) of
                 Hang \<Rightarrow> Hang
               | Ret (Inl e) \<Rightarrow> Ret (Inl e, fs)
               | Ret (Inr _) \<Rightarrow>
                   Ret (Inr (), free_if_dead
                          (move_entry (detach fs dst (snd (des ! t))) d (remove_nth ix es) source dst
                             (remove_nth t des) new_name)
                          (snd (des ! t))))))"

definition mem_rename ::
    "alloc_env \<Rightarrow> memfs \<Rightarrow> nat \<Rightarrow> rstr \<Rightarrow> dest_ref \<Rightarrow> rstr \<Rightarrow> (unit fs_result \<times> memfs) outcome" where
  "mem_rename env fs d name dest new_name =
     (case validate_name name of Inl e \<Rightarrow> Ret (Inl e, fs) | Inr _ \<Rightarrow>
      case validate_name new_name of Inl e \<Rightarrow> Ret (Inl e, fs) | Inr _ \<Rightarrow>
      case dest of Other_Fs \<Rightarrow> Ret (Inl CrossDevice, fs) | Foreign \<Rightarrow> Ret (Inl NotSupported, fs)
      | This_Fs dst \<Rightarrow>
        if mn_links (node_at fs dst) = 0 then Ret (Inl NotFound, fs)
        else case dir_entries fs d of Inl e \<Rightarrow> Ret (Inl e, fs)
        | Inr es \<Rightarrow> case position (\<lambda>e. fst e = name) es of None \<Rightarrow> Ret (Inl NotFound, fs)
          | Some ix \<Rightarrow>
              let source = snd (es ! ix) in
              if d = dst \<and> name = new_name then Ret (Inr (), fs)
              else case (if mn_type (node_at fs source) = FtDirectory
                         then ancestor_check fs source dst else Some (Inr ())) of
                  None \<Rightarrow> Hang
                | Some (Inl e) \<Rightarrow> Ret (Inl e, fs)
                | Some (Inr _) \<Rightarrow>
                    if \<not> ae_name env then Ret (Inl OutOfMemory, fs)
                    else if d = dst then rename_within fs d es source new_name
                    else rename_across env fs d es ix source dst new_name)"

section \<open>Contents and metadata of an inode\<close>

text \<open>The file operations on an inode, with the page limit and the page counter of the file
  system.\<close>

definition store :: "memfs \<Rightarrow> nat \<Rightarrow> 'r \<times> entries storage \<times> nat \<Rightarrow> 'r \<times> memfs" where
  "store fs i = (\<lambda>(r, st, used). (r, (set_node fs i ((node_at fs i)\<lparr>mn_storage := st\<rparr>))\<lparr>mf_pages := used\<rparr>))"

definition node_write ::
    "bool \<Rightarrow> (nat \<Rightarrow> bool) \<Rightarrow> (nat \<Rightarrow> bool) \<Rightarrow> memfs \<Rightarrow> nat \<Rightarrow> nat \<Rightarrow> u8 list \<Rightarrow> nat fs_result \<times> memfs" where
  "node_write ram_ok vec_ok page_ok fs i offset buf =
     store fs i (write_data ram_ok vec_ok page_ok (page_limit fs) (mn_storage (node_at fs i)) (mf_pages fs) offset buf)"

definition node_append ::
    "bool \<Rightarrow> (nat \<Rightarrow> bool) \<Rightarrow> (nat \<Rightarrow> bool) \<Rightarrow> memfs \<Rightarrow> nat \<Rightarrow> u8 list \<Rightarrow> (nat \<times> nat) fs_result \<times> memfs" where
  "node_append ram_ok vec_ok page_ok fs i buf =
     store fs i (mem_append ram_ok vec_ok page_ok (page_limit fs) (mn_storage (node_at fs i)) (mf_pages fs) buf)"

definition node_truncate :: "bool \<Rightarrow> memfs \<Rightarrow> nat \<Rightarrow> nat \<Rightarrow> unit fs_result \<times> memfs" where
  "node_truncate ram_ok fs i n =
     store fs i (mem_truncate ram_ok (mn_storage (node_at fs i)) (mf_pages fs) n)"

record set_metadata =
  sm_uid :: "nat option"
  sm_gid :: "nat option"
  sm_mode :: "nat option"

definition mem_set_metadata :: "memfs \<Rightarrow> nat \<Rightarrow> set_metadata \<Rightarrow> unit fs_result \<times> memfs" where
  "mem_set_metadata fs i m =
     (if (case sm_mode m of Some mode \<Rightarrow> 4095 < mode | None \<Rightarrow> False) then (Inl InvalidArgument, fs)
      else let n = node_at fs i in
        (Inr (), set_node fs i (n\<lparr>
           mn_uid := (case sm_uid m of Some u \<Rightarrow> u | None \<Rightarrow> mn_uid n),
           mn_gid := (case sm_gid m of Some g \<Rightarrow> g | None \<Rightarrow> mn_gid n),
           mn_mode := (case sm_mode m of Some x \<Rightarrow> x | None \<Rightarrow> mn_mode n)\<rparr>)))"

text \<open>\<open>readdir\<close>: the visitor is a function of its own state; the result is the number of entries
  shown and the new cursor.\<close>

record dir_entry =
  de_name :: rstr
  de_type :: file_type
  de_ino :: nat
  de_uid :: nat
  de_gid :: nat
  de_mode :: nat

definition entry_of :: "memfs \<Rightarrow> rstr \<times> nat \<Rightarrow> dir_entry" where
  "entry_of fs e = (let n = node_at fs (snd e) in
     \<lparr>de_name = fst e, de_type = mn_type n, de_ino = snd e, de_uid = mn_uid n, de_gid = mn_gid n, de_mode = mn_mode n\<rparr>)"

fun visit_entries :: "('s \<Rightarrow> dir_entry \<Rightarrow> bool \<times> 's) \<Rightarrow> memfs \<Rightarrow> entries \<Rightarrow> 's \<Rightarrow> nat \<times> 's" where
  "visit_entries visit fs [] s = (0, s)"
| "visit_entries visit fs (e # es) s =
     (let (go_on, s') = visit s (entry_of fs e)
      in if go_on then let (n, s'') = visit_entries visit fs es s' in (n + 1, s'') else (1, s'))"

definition mem_readdir ::
    "('s \<Rightarrow> dir_entry \<Rightarrow> bool \<times> 's) \<Rightarrow> memfs \<Rightarrow> nat \<Rightarrow> nat \<Rightarrow> 's \<Rightarrow> (nat \<times> nat \<times> 's) fs_result" where
  "mem_readdir visit fs d cursor s =
     (case dir_entries fs d of
        Inl e \<Rightarrow> Inl e
      | Inr es \<Rightarrow> let (n, s') = visit_entries visit fs (drop cursor es) s in Inr (n, cursor + n, s'))"

record fs_stats =
  st_magic :: nat
  st_block_size :: nat
  st_blocks :: nat
  st_blocks_free :: nat
  st_files :: nat
  st_files_free :: nat
  st_name_max :: nat

definition mem_statfs :: "memfs \<Rightarrow> fs_stats fs_result" where
  "mem_statfs fs =
     (case mf_limits fs of
        None \<Rightarrow> Inl NotSupported
      | Some l \<Rightarrow> Inr \<lparr>st_magic = 16914836, st_block_size = P, st_blocks = to_size l div P,
                      st_blocks_free = to_size l div P - mf_pages fs, st_files = to_nr_inodes l,
                      st_files_free = to_nr_inodes l - mf_inodes fs, st_name_max = 255\<rparr>)"

end
