(* ===== verification/Mem_Tree.thy ===== *)
theory Mem_Tree
  imports Mem_Dir
begin

text \<open>
  The shape of a directory tree as the memory file systems keep it, on plain functions: which
  inodes are live, their parents, link counts and kinds, and the entries of each directory. The
  lemmas say that adding a fresh child, unlinking an empty one, renaming an entry, moving one and
  dropping an unlinked inode keep the shape; they carry the invariant of \<^verbatim>\<open>memfs.rs\<close>.
\<close>

section \<open>The shape of the tree\<close>

text \<open>The parent chain of an inode ends at the parent number of the root, 0.\<close>

inductive rooted :: "(nat \<Rightarrow> bool) \<Rightarrow> (nat \<Rightarrow> nat) \<Rightarrow> nat \<Rightarrow> bool" for live par where
  rooted_0: "rooted live par 0"
| rooted_step: "live i \<Longrightarrow> rooted live par (par i) \<Longrightarrow> rooted live par i"

definition subdirs :: "(nat \<Rightarrow> bool) \<Rightarrow> entries \<Rightarrow> int" where
  "subdirs isdir es = int (length (filter (\<lambda>e. isdir (snd e)) es))"

text \<open>The tree, on the live inodes, their parents, link counts, kinds and entries: an entry refers
  to a live linked inode that names the directory as its parent, names and inodes occur once, a
  linked inode is an entry of its parent and reaches the root, an unlinked one is empty, and the
  link count is two plus the subdirectories, or one for a file.\<close>

definition tree_ok ::
    "nat \<Rightarrow> (nat \<Rightarrow> bool) \<Rightarrow> (nat \<Rightarrow> nat) \<Rightarrow> (nat \<Rightarrow> int) \<Rightarrow> (nat \<Rightarrow> bool) \<Rightarrow> (nat \<Rightarrow> entries) \<Rightarrow> bool" where
  "tree_ok root live par lnk isdir E \<longleftrightarrow>
     \<not> live 0 \<and> live root \<and> isdir root \<and> par root = 0 \<and> lnk root \<noteq> 0
   \<and> (\<forall>d e. e \<in> set (E d) \<longrightarrow> live d \<and> isdir d \<and> live (snd e) \<and> par (snd e) = d \<and> lnk (snd e) \<noteq> 0 \<and> snd e \<noteq> root)
   \<and> (\<forall>d. distinct (map fst (E d)) \<and> distinct (map snd (E d)))
   \<and> (\<forall>i. live i \<and> lnk i \<noteq> 0 \<and> i \<noteq> root \<longrightarrow> i \<in> snd ` set (E (par i)))
   \<and> (\<forall>i. live i \<and> lnk i = 0 \<longrightarrow> E i = [])
   \<and> (\<forall>i. live i \<and> lnk i \<noteq> 0 \<longrightarrow> lnk i = (if isdir i then 2 + subdirs isdir (E i) else 1))
   \<and> (\<forall>i. live i \<and> lnk i \<noteq> 0 \<longrightarrow> rooted live par i)"

lemma tree_okD:
  assumes "tree_ok root live par lnk isdir E"
  shows "\<not> live 0" "live root" "isdir root" "par root = 0" "lnk root \<noteq> 0"
    and "e \<in> set (E d) \<Longrightarrow> live d" "e \<in> set (E d) \<Longrightarrow> isdir d" "e \<in> set (E d) \<Longrightarrow> live (snd e)"
      "e \<in> set (E d) \<Longrightarrow> par (snd e) = d" "e \<in> set (E d) \<Longrightarrow> lnk (snd e) \<noteq> 0" "e \<in> set (E d) \<Longrightarrow> snd e \<noteq> root"
    and "distinct (map fst (E d))" "distinct (map snd (E d))"
    and "live i \<Longrightarrow> lnk i \<noteq> 0 \<Longrightarrow> i \<noteq> root \<Longrightarrow> i \<in> snd ` set (E (par i))"
    and "live i \<Longrightarrow> lnk i = 0 \<Longrightarrow> E i = []"
    and "live i \<Longrightarrow> lnk i \<noteq> 0 \<Longrightarrow> lnk i = (if isdir i then 2 + subdirs isdir (E i) else 1)"
    and "live i \<Longrightarrow> lnk i \<noteq> 0 \<Longrightarrow> rooted live par i"
  using assms unfolding tree_ok_def by blast+

lemma tree_okI:
  assumes "\<not> live 0" "live root" "isdir root" "par root = 0" "lnk root \<noteq> 0"
    and "\<And>d e. e \<in> set (E d) \<Longrightarrow> live d \<and> isdir d \<and> live (snd e) \<and> par (snd e) = d \<and> lnk (snd e) \<noteq> 0 \<and> snd e \<noteq> root"
    and "\<And>d. distinct (map fst (E d)) \<and> distinct (map snd (E d))"
    and "\<And>i. live i \<Longrightarrow> lnk i \<noteq> 0 \<Longrightarrow> i \<noteq> root \<Longrightarrow> i \<in> snd ` set (E (par i))"
    and "\<And>i. live i \<Longrightarrow> lnk i = 0 \<Longrightarrow> E i = []"
    and "\<And>i. live i \<Longrightarrow> lnk i \<noteq> 0 \<Longrightarrow> lnk i = (if isdir i then 2 + subdirs isdir (E i) else 1)"
    and "\<And>i. live i \<Longrightarrow> lnk i \<noteq> 0 \<Longrightarrow> rooted live par i"
  shows "tree_ok root live par lnk isdir E"
  unfolding tree_ok_def
  by (intro conjI) (assumption | rule assms | (intro allI impI, (elim conjE)?, erule assms, (assumption)+)
    | (intro allI, rule assms) | (intro allI impI, erule assms))+

lemma rooted_cong:
  assumes "rooted live par i" "\<And>j. live j \<Longrightarrow> live' j \<and> par' j = par j"
  shows "rooted live' par' i"
  using assms(1)
proof induction
  case (rooted_step i)
  with assms(2) [of i] show ?case by (metis rooted.rooted_step)
qed (rule rooted_0)

text \<open>A directory is never its own entry.\<close>

lemma rooted_par_neq: "rooted live par i \<Longrightarrow> \<not> live 0 \<Longrightarrow> live i \<Longrightarrow> par i \<noteq> i"
  by (induction rule: rooted.induct) metis+

lemma subdirs_simps [simp]:
  "subdirs f [] = 0" "subdirs f (e # es) = (if f (snd e) then 1 else 0) + subdirs f es"
  "subdirs f (es @ es') = subdirs f es + subdirs f es'"
  by (auto simp: subdirs_def)

lemma subdirs_cong: "(\<And>e. e \<in> set es \<Longrightarrow> f (snd e) = g (snd e)) \<Longrightarrow> subdirs f es = subdirs g es"
  by (induction es) auto

lemma subdirs_nonneg: "0 \<le> subdirs f es" by (simp add: subdirs_def)

lemma subdirs_remove_nth:
  assumes "k < length es"
  shows "subdirs f (remove_nth k es) = subdirs f es - (if f (snd (es ! k)) then 1 else 0)"
proof -
  have "subdirs f es = subdirs f (take k es @ es ! k # drop (Suc k) es)"
    using id_take_nth_drop [OF assms] by simp
  then show ?thesis by (simp add: remove_nth_def)
qed

lemma tree_ok_links_pos: "tree_ok root live par lnk isdir E \<Longrightarrow> live i \<Longrightarrow> lnk i \<noteq> 0 \<Longrightarrow> 0 < lnk i"
  using tree_okD(16) [of root live par lnk isdir E i] subdirs_nonneg [of isdir "E i"]
  by (cases "isdir i") simp_all

text \<open>Adding a fresh child.\<close>

lemma tree_ok_add:
  assumes t: "tree_ok root live par lnk isdir E" and d: "live d" "isdir d" "lnk d \<noteq> 0"
    and c: "\<not> live c" "c \<noteq> 0" and name: "name \<notin> fst ` set (E d)"
    and live': "\<And>x. live' x \<longleftrightarrow> x = c \<or> live x"
    and par': "\<And>x. par' x = (if x = c then d else par x)"
    and lnk': "\<And>x. lnk' x = (if x = c then if f then 2 else 1 else if x = d then lnk d + (if f then 1 else 0) else lnk x)"
    and isdir': "\<And>x. isdir' x = (if x = c then f else isdir x)"
    and E': "\<And>x. E' x = (if x = c then [] else if x = d then E d @ [(name, c)] else E x)"
  shows "tree_ok root live' par' lnk' isdir' E'"
proof -
  note D = tree_okD [OF t]
  have cd: "c \<noteq> d" "c \<noteq> root" using c d D(2) by auto
  have Ec: "snd e \<noteq> c" "x \<noteq> c" if "e \<in> set (E x)" for e x using c D(6,8) [OF that] by auto
  have c_new: "c \<notin> snd ` set (E d)" using Ec(1) by blast
  have sub: "subdirs isdir' (E x) = subdirs isdir (E x)" for x
    by (rule subdirs_cong) (use Ec in \<open>simp add: isdir'\<close>)
  have r: "rooted live' par' i" if "rooted live par i" for i
    by (rule rooted_cong [OF that]) (use c in \<open>auto simp: live' par'\<close>)
  have links: "lnk d + 1 \<noteq> 0" using tree_ok_links_pos [OF t d(1,3)] by simp
  show ?thesis
  proof (rule tree_okI)
    fix i assume i: "live' i" "lnk' i \<noteq> 0"
    show "rooted live' par' i"
    proof (cases "i = c")
      case True
      then show ?thesis using r [OF D(17) [OF d(1,3)]] i(1) par' [of c]
        by (intro rooted_step [of live' i par']) simp_all
    next
      case False
      then have "lnk i \<noteq> 0" "live i" using i d(3) by (auto simp: live' lnk' split: if_splits)
      then show ?thesis using r [OF D(17)] by blast
    qed
    show "lnk' i = (if isdir' i then 2 + subdirs isdir' (E' i) else 1)"
    proof (cases "i = c \<or> i = d")
      case True
      then show ?thesis using D(16) [OF d(1,3)] d(2) cd
        by (elim disjE) (simp_all add: lnk' isdir' E' sub)
    next
      case False
      then show ?thesis using i D(16) [of i] by (simp add: live' lnk' isdir' E' sub)
    qed
  next
    fix i assume "live' i" "lnk' i \<noteq> 0" "i \<noteq> root"
    moreover from this have "i \<noteq> c \<Longrightarrow> i \<in> snd ` set (E (par i))"
      using D(14) [of i] d(3) by (auto simp: live' lnk' split: if_splits)
    moreover have "i \<noteq> c \<Longrightarrow> i \<in> snd ` set (E (par i)) \<Longrightarrow> par i \<noteq> c" using Ec(2) by blast
    ultimately show "i \<in> snd ` set (E' (par' i))"
      using cd by (auto simp: E' par')
  next
    fix i assume "live' i" "lnk' i = 0"
    then show "E' i = []" using D(15) [of i] d(3) links by (auto simp: live' lnk' E' split: if_splits)
  next
    fix x show "distinct (map fst (E' x)) \<and> distinct (map snd (E' x))"
      using D(12,13) [of x] name c_new by (cases "x = d") (simp_all add: E')
  next
    fix x e assume "e \<in> set (E' x)"
    show "live' x \<and> isdir' x \<and> live' (snd e) \<and> par' (snd e) = x \<and> lnk' (snd e) \<noteq> 0 \<and> snd e \<noteq> root"
    proof (cases "e \<in> set (E x)")
      case True
      then show ?thesis using D(6-11) [OF True] Ec [OF True] links
          d(3) by (auto simp: live' isdir' par' lnk')
    next
      case False
      with \<open>e \<in> set (E' x)\<close> have "e = (name, c)" "x = d" by (auto simp: E' split: if_splits)
      then show ?thesis using cd d by (simp add: live' isdir' par' lnk')
    qed
  qed (use D(1-5) c cd links in \<open>auto simp: live' par' isdir' lnk'\<close>)
qed

text \<open>Unlinking an empty child; it stays live as long as a handle refers to it.\<close>

lemma tree_ok_unlink:
  assumes t: "tree_ok root live par lnk isdir E" and k: "k < length (E d)"
    and c: "c = snd (E d ! k)" "E c = []"
    and lnk': "\<And>x. lnk' x = (if x = c then 0 else if x = d then lnk d - (if isdir c then 1 else 0) else lnk x)"
    and E': "\<And>x. E' x = (if x = d then remove_nth k (E d) else E x)"
  shows "tree_ok root live par lnk' isdir E'" and "lnk' d \<noteq> 0"
proof -
  note D = tree_okD [OF t]
  have e: "E d ! k \<in> set (E d)" using k by simp
  note De = D(6-11) [OF e, folded c(1)]
  have cd: "c \<noteq> d" using c(2) k by auto
  have d0: "lnk d \<noteq> 0" using D(15) [OF De(1)] k by auto
  have sub: "lnk d = 2 + subdirs isdir (E d)" using D(16) [OF De(1) d0] De(2) by simp
  have sub': "subdirs isdir (remove_nth k (E d)) = subdirs isdir (E d) - (if isdir c then 1 else 0)"
    using subdirs_remove_nth [OF k] c(1) by simp
  show ne: "lnk' d \<noteq> 0"
    using sub sub' subdirs_nonneg [of isdir "remove_nth k (E d)"] cd by (simp add: lnk' split: if_splits)
  have rm: "set (remove_nth k (E d)) = {e \<in> set (E d). snd e \<noteq> c}"
    using set_remove_nth_distinct [OF k D(13)] c(1) by simp
  show "tree_ok root live par lnk' isdir E'"
  proof (rule tree_okI)
    fix i assume i: "live i" "lnk' i \<noteq> 0"
    then have l: "lnk i \<noteq> 0" "i \<noteq> c" using d0 by (auto simp: lnk' split: if_splits)
    then show "rooted live par i" using D(17) i by blast
    show "lnk' i = (if isdir i then 2 + subdirs isdir (E' i) else 1)"
      using D(16) [OF i(1) l(1)] l(2) sub sub' De(2) by (cases "i = d") (simp_all add: lnk' E')
  next
    fix i assume i: "live i" "lnk' i \<noteq> 0" "i \<noteq> root"
    then have l: "lnk i \<noteq> 0" "i \<noteq> c" using d0 by (auto simp: lnk' split: if_splits)
    from D(14) [OF i(1) l(1) i(3)] obtain e where "e \<in> set (E (par i))" "i = snd e" by blast
    then show "i \<in> snd ` set (E' (par i))" using l(2) rm by (auto simp: E')
  next
    fix i assume i: "live i" "lnk' i = 0"
    then show "E' i = []" using ne D(15) [OF i(1)] c(2) cd by (auto simp: lnk' E' split: if_splits)
  next
    fix x show "distinct (map fst (E' x)) \<and> distinct (map snd (E' x))"
      using D(12,13) [of x] distinct_remove_nth [of "map fst (E d)" k] distinct_remove_nth [of "map snd (E d)" k]
      by (cases "x = d") (simp_all add: E' map_remove_nth)
  next
    fix x e assume "e \<in> set (E' x)"
    then have e: "e \<in> set (E x)" "x = d \<Longrightarrow> snd e \<noteq> c" using rm by (auto simp: E' split: if_splits)
    moreover have "snd e \<noteq> c" using e D(9) [OF e(1)] De(4) by blast
    ultimately show "live x \<and> isdir x \<and> live (snd e) \<and> par (snd e) = x \<and> lnk' (snd e) \<noteq> 0 \<and> snd e \<noteq> root"
      using D(6-11) [OF e(1)] ne by (auto simp: lnk' split: if_splits)
  qed (use D(1-5) De ne in \<open>auto simp: lnk'\<close>)
qed

text \<open>Giving an entry a name that is free.\<close>

lemma tree_ok_rename:
  assumes t: "tree_ok root live par lnk isdir E" and k: "k < length (E d)"
    and name: "name \<notin> fst ` set (E d) - {fst (E d ! k)}"
    and E': "\<And>x. E' x = (if x = d then (E d)[k := (name, snd (E d ! k))] else E x)"
  shows "tree_ok root live par lnk isdir E'"
proof -
  note D = tree_okD [OF t]
  have snds: "map snd (E' x) = map snd (E x)" for x
    using k by (simp add: E' map_update list_update_same_conv)
  have sset: "snd ` set (E' x) = snd ` set (E x)" for x using arg_cong [OF snds, of set x] by simp
  have mem: "\<exists>e' \<in> set (E x). snd e' = snd e" if "e \<in> set (E' x)" for e x
    using that sset [of x] by (metis imageE imageI)
  have "subdirs isdir xs = int (length (filter isdir (map snd xs)))" for xs
    by (simp add: subdirs_def filter_map o_def)
  then have sub: "subdirs isdir (E' x) = subdirs isdir (E x)" for x by (simp only: snds)
  have fsts: "distinct (map fst (E' x))" for x
  proof (cases "x = d")
    case True
    have "distinct ((map fst (E d))[k := name])"
      by (rule distinct_list_update [OF D(12)]) (use name k in simp)
    then show ?thesis using True by (simp add: E' map_update)
  qed (use D(12) in \<open>simp add: E'\<close>)
  have nil: "E' x = [] \<longleftrightarrow> E x = []" for x by (simp add: E')
  show ?thesis
  proof (rule tree_okI)
    fix x e assume "e \<in> set (E' x)"
    then show "live x \<and> isdir x \<and> live (snd e) \<and> par (snd e) = x \<and> lnk (snd e) \<noteq> 0 \<and> snd e \<noteq> root"
      using mem D(6-11) by metis
  next
    fix i assume "live i" "lnk i \<noteq> 0"
    from D(16) [OF this] show "lnk i = (if isdir i then 2 + subdirs isdir (E' i) else 1)" by (simp only: sub)
  qed (use D(1-5,13-15,17) fsts sset snds nil in \<open>simp_all\<close>)
qed

text \<open>Moving an entry to another directory, under a name that is free there; a directory only to a
  place whose ancestors do not include it.\<close>

lemma tree_ok_move:
  assumes t: "tree_ok root live par lnk isdir E" and k: "k < length (E d)" and dst: "live dst" "isdir dst" "lnk dst \<noteq> 0" "dst \<noteq> d"
    and s: "s = snd (E d ! k)" and name: "name \<notin> fst ` set (E dst)"
    and par': "\<And>x. par' x = (if x = s then dst else par x)"
    and chain: "isdir s \<Longrightarrow> rooted live par' dst"
    and lnk': "\<And>x. lnk' x = lnk x + (if isdir s then (if x = dst then 1 else if x = d then -1 else 0) else 0)"
    and E': "\<And>x. E' x = (if x = d then remove_nth k (E d) else if x = dst then E dst @ [(name, s)] else E x)"
  shows "tree_ok root live par' lnk' isdir E'"
proof -
  note D = tree_okD [OF t]
  have e: "E d ! k \<in> set (E d)" using k by simp
  note De = D(6-11) [OF e, folded s]
  have d0: "lnk d \<noteq> 0" using D(15) [OF De(1)] k by auto
  have sub: "lnk d = 2 + subdirs isdir (E d)" using D(16) [OF De(1) d0] De(2) by simp
  have sub': "subdirs isdir (remove_nth k (E d)) = subdirs isdir (E d) - (if isdir s then 1 else 0)"
    using subdirs_remove_nth [OF k] s by simp
  have ne: "lnk' x \<noteq> 0 \<longleftrightarrow> lnk x \<noteq> 0" if "live x" for x
    using sub sub' subdirs_nonneg [of isdir "remove_nth k (E d)"] tree_ok_links_pos [OF t dst(1,3)] dst(3) d0
    by (auto simp: lnk')
  have rm: "set (remove_nth k (E d)) = {e \<in> set (E d). snd e \<noteq> s}"
    using set_remove_nth_distinct [OF k D(13)] s by simp
  have new: "s \<notin> snd ` set (E dst)" using D(9) De(4) dst(4) by blast
  have root: "rooted live par' i" if "live i" "lnk i \<noteq> 0" for i
  proof (cases "isdir s")
    case True
    from D(17) [OF that] show ?thesis
    proof induction
      case (rooted_step i)
      then show ?case using chain [OF True] par' [of i] by (cases "i = s") (auto intro: rooted.rooted_step)
    qed (rule rooted_0)
  next
    case False
    have par_dir: "live i \<Longrightarrow> lnk i \<noteq> 0 \<Longrightarrow> i \<noteq> root \<Longrightarrow> live (par i) \<and> isdir (par i) \<and> lnk (par i) \<noteq> 0" for i
      using D(14) [of i] D(6,7,15) by fastforce
    have dirs: "live i \<longrightarrow> lnk i \<noteq> 0 \<longrightarrow> isdir i \<longrightarrow> rooted live par' i" if "rooted live par i" for i
      using that
    proof induction
      case (rooted_step i)
      then show ?case using par_dir [of i] False par' [of i] D(4) rooted_0
        by (metis rooted.rooted_step)
    qed (use D(1) in simp)
    show ?thesis
    proof (cases "i = root")
      case True
      then show ?thesis using dirs [OF D(17)] D(2,3,5) by blast
    next
      case False
      then show ?thesis
        using that par_dir [OF that] dirs [OF D(17)] dst par' [of i] rooted.rooted_step by metis
    qed
  qed
  show ?thesis
  proof (rule tree_okI)
    fix i assume i: "live i" "lnk' i \<noteq> 0"
    then have l: "lnk i \<noteq> 0" using ne by blast
    then show "rooted live par' i" using root i by blast
    show "lnk' i = (if isdir i then 2 + subdirs isdir (E' i) else 1)"
      using D(16) [OF i(1) l] sub sub' De(2) dst(2,4) by (simp add: lnk' E')
  next
    fix i assume i: "live i" "lnk' i \<noteq> 0" "i \<noteq> root"
    then have l: "lnk i \<noteq> 0" using ne by blast
    from D(14) [OF i(1) l i(3)] obtain e where "e \<in> set (E (par i))" "i = snd e" by blast
    then show "i \<in> snd ` set (E' (par' i))" using rm dst(4) by (cases "i = s") (auto simp: E' par')
  next
    fix i assume i: "live i" "lnk' i = 0"
    then have "lnk i = 0" using ne by blast
    then show "E' i = []" using D(15) [OF i(1)] d0 dst(3) by (auto simp: E')
  next
    fix x show "distinct (map fst (E' x)) \<and> distinct (map snd (E' x))"
      using D(12,13) [of x] distinct_remove_nth [of "map fst (E d)" k] distinct_remove_nth [of "map snd (E d)" k] name new
      by (cases "x = d"; cases "x = dst") (simp_all add: E' map_remove_nth)
  next
    fix x e assume e': "e \<in> set (E' x)"
    show "live x \<and> isdir x \<and> live (snd e) \<and> par' (snd e) = x \<and> lnk' (snd e) \<noteq> 0 \<and> snd e \<noteq> root"
    proof (cases "e \<in> set (E x) \<and> snd e \<noteq> s")
      case True
      then show ?thesis using D(6-11) [of e x] ne [of "snd e"] by (simp add: par')
    next
      case False
      then have "x = dst" "snd e = s"
        using e' rm D(9) [of e x] De(4) by (auto simp: E' split: if_splits)
      then show ?thesis using dst De ne [of s] by (simp add: par')
    qed
  qed (use D(1-5) De ne [OF D(2)] in \<open>simp_all add: par'\<close>)
qed

text \<open>Dropping an unlinked inode.\<close>

lemma tree_ok_free:
  assumes t: "tree_ok root live par lnk isdir E" and c: "c \<noteq> root" "live c \<Longrightarrow> lnk c = 0"
    and live': "\<And>x. live' x \<longleftrightarrow> live x \<and> x \<noteq> c"
    and same: "\<And>x. x \<noteq> c \<Longrightarrow> par' x = par x" "\<And>x. x \<noteq> c \<Longrightarrow> lnk' x = lnk x" "\<And>x. x \<noteq> c \<Longrightarrow> isdir' x = isdir x"
    and E': "\<And>x. E' x = (if x = c then [] else E x)"
  shows "tree_ok root live' par' lnk' isdir' E'"
proof -
  note D = tree_okD [OF t]
  have Ec: "x \<noteq> c \<and> snd e \<noteq> c" if "e \<in> set (E x)" for e x
    using D(6,8,10) [OF that] D(15) c that by fastforce
  have sub: "subdirs isdir' (E x) = subdirs isdir (E x)" for x
    by (rule subdirs_cong) (use Ec same in metis)
  have r: "rooted live par i \<Longrightarrow> live i \<longrightarrow> lnk i \<noteq> 0 \<longrightarrow> rooted live' par' i" for i
  proof (induction rule: rooted.induct)
    case (rooted_step i)
    show ?case
    proof (intro impI)
      assume i: "live i" "lnk i \<noteq> 0"
      then have ic: "i \<noteq> c" using c by blast
      have "rooted live' par' (par i)"
      proof (cases "i = root")
        case True
        then show ?thesis using D(4) rooted_0 by simp
      next
        case False
        from D(14) [OF i False] obtain e where "e \<in> set (E (par i))" by blast
        then have "live (par i)" "lnk (par i) \<noteq> 0" using D(6,15) by fastforce+
        then show ?thesis using rooted_step.IH by blast
      qed
      then show "rooted live' par' i" using i ic same(1) live' by (metis rooted.rooted_step)
    qed
  qed (use D(1) in simp)
  show ?thesis
  proof (rule tree_okI)
    fix i assume i: "live' i" "lnk' i \<noteq> 0"
    then have l: "live i" "i \<noteq> c" "lnk i \<noteq> 0" using live' same by auto
    then show "rooted live' par' i" using r [OF D(17)] by blast
    show "lnk' i = (if isdir' i then 2 + subdirs isdir' (E' i) else 1)"
      using D(16) [OF l(1,3)] l(2) same by (simp add: E' sub)
  next
    fix i assume i: "live' i" "lnk' i \<noteq> 0" "i \<noteq> root"
    then have l: "live i" "i \<noteq> c" "lnk i \<noteq> 0" using live' same by auto
    from D(14) [OF l(1,3) i(3)] obtain e where "e \<in> set (E (par i))" "i = snd e" by blast
    then show "i \<in> snd ` set (E' (par' i))" using l same Ec by (auto simp: E')
  next
    fix i assume "live' i" "lnk' i = 0"
    then show "E' i = []" using D(15) [of i] live' same by (auto simp: E')
  next
    fix x show "distinct (map fst (E' x)) \<and> distinct (map snd (E' x))"
      using D(12,13) [of x] by (simp add: E')
  next
    fix x e assume "e \<in> set (E' x)"
    then have e: "e \<in> set (E x)" by (simp add: E' split: if_splits)
    then show "live' x \<and> isdir' x \<and> live' (snd e) \<and> par' (snd e) = x \<and> lnk' (snd e) \<noteq> 0 \<and> snd e \<noteq> root"
      using D(6-11) [OF e] Ec [OF e] same live' by simp
  qed (use D(1-5) c live' same in simp_all)
qed

end
