(* ===== verification/Mem_Inv.thy ===== *)
theory Mem_Inv
  imports Mem_Tree
begin

text \<open>
  The invariant of a memory file system (\<^verbatim>\<open>kernel/src/fs/memfs.rs\<close>) and that every
  operation keeps it: the directories form a tree with exact link counts, the inode and page
  counters are exact and within the limits, and an inode without a reference is gone.
\<close>

section \<open>The invariant\<close>

definition fs_tree :: "memfs \<Rightarrow> bool" where
  "fs_tree fs \<longleftrightarrow> tree_ok (mf_root fs) (\<lambda>i. mf_nodes fs i \<noteq> None) (\<lambda>i. mn_parent (node_at fs i))
     (\<lambda>i. mn_links (node_at fs i)) (\<lambda>i. mn_type (node_at fs i) = FtDirectory) (entries_of fs)"

definition node_ok :: "memfs \<Rightarrow> nat \<Rightarrow> mnode \<Rightarrow> bool" where
  "node_ok fs i n \<longleftrightarrow> i < mf_next fs \<and> i \<in> set (mf_ns fs)
     \<and> (mn_type n = FtDirectory \<longleftrightarrow> (\<exists>es. mn_storage n = Directory es))
     \<and> (case mn_storage n of Sparse sz pages \<Rightarrow> file_wf sz pages | _ \<Rightarrow> True)"

text \<open>The counters are exact and within the limits.\<close>

definition charges_ok :: "memfs \<Rightarrow> bool" where
  "charges_ok fs \<longleftrightarrow> mf_inodes fs = card (dom (mf_nodes fs)) \<and> mf_inodes fs \<le> inode_limit fs
     \<and> mf_pages fs = (\<Sum>i \<in> dom (mf_nodes fs). page_count (mn_storage (node_at fs i)))
     \<and> mf_pages fs \<le> page_limit fs"

definition handles_ok :: "memfs \<Rightarrow> bool" where
  "handles_ok fs \<longleftrightarrow> 0 < mf_handles fs (mf_root fs) \<and> (\<forall>i. mf_nodes fs i = None \<longrightarrow> mf_handles fs i = 0)"

definition base_inv :: "memfs \<Rightarrow> bool" where
  "base_inv fs \<longleftrightarrow> fs_tree fs \<and> (\<forall>i n. mf_nodes fs i = Some n \<longrightarrow> node_ok fs i n)
     \<and> charges_ok fs \<and> handles_ok fs"

text \<open>An inode without a handle is linked.\<close>

definition no_garbage :: "nat set \<Rightarrow> memfs \<Rightarrow> bool" where
  "no_garbage X fs \<longleftrightarrow>
     (\<forall>i. mf_nodes fs i \<noteq> None \<and> i \<notin> X \<longrightarrow> 0 < mf_handles fs i \<or> mn_links (node_at fs i) \<noteq> 0)"

definition memfs_inv :: "memfs \<Rightarrow> bool" where
  "memfs_inv fs \<longleftrightarrow> base_inv fs \<and> no_garbage {} fs"

lemma set_node_fields [simp]:
  "mf_nodes (set_node fs i n) = (mf_nodes fs)(i \<mapsto> n)" "mf_limits (set_node fs i n) = mf_limits fs"
  "mf_pages (set_node fs i n) = mf_pages fs" "mf_inodes (set_node fs i n) = mf_inodes fs"
  "mf_ns (set_node fs i n) = mf_ns fs" "mf_next (set_node fs i n) = mf_next fs"
  "mf_root (set_node fs i n) = mf_root fs" "mf_handles (set_node fs i n) = mf_handles fs"
  by (simp_all add: set_node_def)

lemma free_if_dead_fields [simp]:
  "mf_limits (free_if_dead fs i) = mf_limits fs" "mf_ns (free_if_dead fs i) = mf_ns fs"
  "mf_next (free_if_dead fs i) = mf_next fs" "mf_root (free_if_dead fs i) = mf_root fs"
  "mf_handles (free_if_dead fs i) = mf_handles fs"
  by (simp_all add: free_if_dead_def)

lemma node_at_set_node [simp]: "node_at (set_node fs i n) j = (if j = i then n else node_at fs j)"
  by (simp add: node_at_def)

lemma entries_of_set_node [simp]:
  "entries_of (set_node fs i n) j =
     (if j = i then case mn_storage n of Directory es \<Rightarrow> es | _ \<Rightarrow> [] else entries_of fs j)"
  by (simp add: entries_of_def)

lemma node_at_SomeI: "mf_nodes fs i = Some n \<Longrightarrow> node_at fs i = n"
  by (simp add: node_at_def)

lemma base_invD:
  assumes "base_inv fs"
  shows "fs_tree fs" "\<And>i n. mf_nodes fs i = Some n \<Longrightarrow> node_ok fs i n" "charges_ok fs" "handles_ok fs"
  using assms by (auto simp: base_inv_def)

lemma dir_entries_Inr:
  "dir_entries fs d = Inr es \<longleftrightarrow> mn_storage (node_at fs d) = Directory es"
  by (auto simp: dir_entries_def split: storage.splits)

lemma dir_entriesD:
  assumes "base_inv fs" "mf_nodes fs d \<noteq> None" "dir_entries fs d = Inr es"
  shows "entries_of fs d = es" "mn_type (node_at fs d) = FtDirectory" "mn_storage (node_at fs d) = Directory es"
proof -
  obtain n where n: "mf_nodes fs d = Some n" using assms(2) by auto
  from assms(3) n have st: "mn_storage n = Directory es" by (simp add: dir_entries_Inr node_at_def)
  with base_invD(2) [OF assms(1) n] n
  show "entries_of fs d = es" "mn_type (node_at fs d) = FtDirectory" "mn_storage (node_at fs d) = Directory es"
    by (auto simp: entries_of_def node_at_def node_ok_def)
qed

lemma finite_nodes: "base_inv fs \<Longrightarrow> finite (dom (mf_nodes fs))"
  by (rule finite_subset [of _ "set (mf_ns fs)"]) (auto dest: base_invD(2) simp: node_ok_def)

text \<open>Updates of inodes that keep kinds, limits and page lists keep everything but the tree.\<close>

lemma base_invI_same:
  assumes inv: "base_inv fs" and dom: "dom (mf_nodes fs') = dom (mf_nodes fs)"
    and same: "mf_limits fs' = mf_limits fs" "mf_pages fs' = mf_pages fs" "mf_inodes fs' = mf_inodes fs"
      "mf_ns fs' = mf_ns fs" "mf_next fs' = mf_next fs" "mf_root fs' = mf_root fs" "mf_handles fs' = mf_handles fs"
    and ok: "\<And>i n. mf_nodes fs' i = Some n \<Longrightarrow> node_ok fs i n"
    and pc: "\<And>i. mf_nodes fs i \<noteq> None \<Longrightarrow> page_count (mn_storage (node_at fs' i)) = page_count (mn_storage (node_at fs i))"
    and tree: "fs_tree fs'"
  shows "base_inv fs'"
proof -
  note I = base_invD [OF inv]
  have "mf_nodes fs' i = None \<longleftrightarrow> mf_nodes fs i = None" for i using dom by (metis domIff)
  then have "handles_ok fs'" using I(4) same by (simp add: handles_ok_def)
  moreover have "charges_ok fs'"
    using I(3) same dom pc by (auto simp: charges_ok_def inode_limit_def page_limit_def intro!: sum.cong)
  moreover have "\<forall>i n. mf_nodes fs' i = Some n \<longrightarrow> node_ok fs' i n"
    using ok same by (simp add: node_ok_def)
  ultimately show ?thesis using tree by (simp add: base_inv_def)
qed

lemma referenced_iff:
  assumes inv: "base_inv fs" and i: "mf_nodes fs i \<noteq> None" "i \<noteq> mf_root fs"
  shows "referenced fs i \<longleftrightarrow> mn_links (node_at fs i) \<noteq> 0"
proof
  note T = tree_okD [OF base_invD(1) [OF inv, unfolded fs_tree_def]]
  show "mn_links (node_at fs i) \<noteq> 0" if "referenced fs i"
    using that T(10) by (auto simp: referenced_def)
  show "referenced fs i" if "mn_links (node_at fs i) \<noteq> 0"
  proof -
    from T(14) [OF i(1) that i(2)] obtain e where e: "e \<in> set (entries_of fs (mn_parent (node_at fs i)))" "i = snd e"
      by blast
    then obtain n where "mf_nodes fs (mn_parent (node_at fs i)) = Some n" using T(6) by blast
    then have "mn_parent (node_at fs i) \<in> set (mf_ns fs)" using base_invD(2) [OF inv] by (auto simp: node_ok_def)
    then show ?thesis using e by (auto simp: referenced_def)
  qed
qed

lemma free_if_dead_inv:
  assumes inv: "base_inv fs" and g: "no_garbage {c} fs" and c: "mf_nodes fs c \<noteq> None"
  shows "memfs_inv (free_if_dead fs c)"
proof (cases "mf_handles fs c = 0 \<and> \<not> referenced fs c")
  case False
  then have "c = mf_root fs \<or> 0 < mf_handles fs c \<or> mn_links (node_at fs c) \<noteq> 0"
    using referenced_iff [OF inv c] by auto
  moreover have "0 < mf_handles fs (mf_root fs)" using base_invD(4) [OF inv] by (simp add: handles_ok_def)
  ultimately have "no_garbage {} fs" using g by (auto simp: no_garbage_def)
  moreover have "free_if_dead fs c = fs" using False by (auto simp: free_if_dead_def)
  ultimately show ?thesis using inv by (simp add: memfs_inv_def)
next
  case True
  note I = base_invD [OF inv]
  have root: "c \<noteq> mf_root fs" using True I(4) by (auto simp: handles_ok_def)
  have l0: "mn_links (node_at fs c) = 0" using True referenced_iff [OF inv c root] by simp
  let ?fs' = "free_if_dead fs c"
  have fs': "?fs' = fs\<lparr>mf_nodes := (mf_nodes fs)(c := None), mf_inodes := mf_inodes fs - 1,
           mf_pages := mf_pages fs - page_count (mn_storage (node_at fs c))\<rparr>"
    using True by (simp add: free_if_dead_def)
  have at: "x \<noteq> c \<Longrightarrow> node_at ?fs' x = node_at fs x" for x by (simp add: fs' node_at_def)
  have "fs_tree ?fs'"
    unfolding fs_tree_def free_if_dead_fields
    by (rule tree_ok_free [where c = c, OF base_invD(1) [OF inv, unfolded fs_tree_def]])
      (use root l0 at in \<open>auto simp: fs' entries_of_def\<close>)
  moreover have "charges_ok ?fs'"
  proof -
    let ?A = "dom (mf_nodes fs)" and ?pc = "\<lambda>fs i. page_count (mn_storage (node_at fs i))"
    have A: "finite ?A" "c \<in> ?A" using finite_nodes [OF inv] c by auto
    have dom: "dom (mf_nodes ?fs') = ?A - {c}" by (simp add: fs')
    have "sum (?pc ?fs') (?A - {c}) = sum (?pc fs) (?A - {c})" by (rule sum.cong) (use at in auto)
    moreover have "sum (?pc fs) ?A = ?pc fs c + sum (?pc fs) (?A - {c})" by (rule sum.remove [OF A])
    moreover have "mf_inodes ?fs' = mf_inodes fs - 1" "mf_pages ?fs' = mf_pages fs - ?pc fs c"
      "inode_limit ?fs' = inode_limit fs" "page_limit ?fs' = page_limit fs"
      by (simp_all add: fs' inode_limit_def page_limit_def)
    ultimately show ?thesis
      using I(3) A by (auto simp: charges_ok_def dom)
  qed
  moreover have "\<forall>i n. mf_nodes ?fs' i = Some n \<longrightarrow> node_ok ?fs' i n"
    using I(2) by (auto simp: fs' node_ok_def split: if_splits)
  moreover have "handles_ok ?fs'" using I(4) True by (auto simp: fs' handles_ok_def)
  moreover have "no_garbage {} ?fs'" using g at by (auto simp: no_garbage_def fs')
  ultimately show ?thesis by (simp add: memfs_inv_def base_inv_def)
qed

section \<open>The operations keep the invariant\<close>

lemma unlink_base:
  assumes inv: "base_inv fs" and d: "mf_nodes fs d \<noteq> None" "dir_entries fs d = Inr es"
    and k: "k < length es" and c: "c = snd (es ! k)" "entries_of fs c = []"
  defines "fs' \<equiv> set_entries (detach fs d c) d (remove_nth k es)"
  shows "base_inv fs'" and "mf_nodes fs' x = None \<longleftrightarrow> mf_nodes fs x = None"
    and "no_garbage X fs \<Longrightarrow> no_garbage (insert c X) fs'"
    and "entries_of fs' x = (if x = d then remove_nth k es else entries_of fs x)"
    and "mn_type (node_at fs' x) = mn_type (node_at fs x)" "mn_parent (node_at fs' x) = mn_parent (node_at fs x)"
    and "mn_links (node_at fs' x) = (if x = c then 0 else if x = d \<and> mn_type (node_at fs c) = FtDirectory
      then mn_links (node_at fs d) - 1 else mn_links (node_at fs x))"
    and "mf_root fs' = mf_root fs" "mf_ns fs' = mf_ns fs" "c \<noteq> d" "mf_nodes fs c \<noteq> None"
    and "mn_links (node_at fs' d) \<noteq> 0"
proof -
  note T = base_invD(1) [OF inv, unfolded fs_tree_def]
  note De = dir_entriesD [OF inv d]
  have mem: "es ! k \<in> set (entries_of fs d)" using k De(1) by simp
  show cd: "c \<noteq> d" using c(2) k De(1) by auto
  show live: "mf_nodes fs c \<noteq> None" using tree_okD(8) [OF T mem] c(1) by simp
  show nodes: "mf_nodes fs' x = None \<longleftrightarrow> mf_nodes fs x = None" for x
    using live d(1) by (auto simp: fs'_def detach_def set_links_def set_entries_def Let_def)
  show E: "entries_of fs' x = (if x = d then remove_nth k es else entries_of fs x)" for x
    using cd live by (auto simp: fs'_def detach_def set_links_def set_entries_def Let_def entries_of_def node_at_def)
  show ty: "mn_type (node_at fs' x) = mn_type (node_at fs x)" for x
    using cd by (simp add: fs'_def detach_def set_links_def set_entries_def Let_def)
  show par: "mn_parent (node_at fs' x) = mn_parent (node_at fs x)" for x
    using cd by (simp add: fs'_def detach_def set_links_def set_entries_def Let_def)
  show lnk: "mn_links (node_at fs' x) = (if x = c then 0 else if x = d \<and> mn_type (node_at fs c) = FtDirectory
      then mn_links (node_at fs d) - 1 else mn_links (node_at fs x))" for x
    using cd by (simp add: fs'_def detach_def set_links_def set_entries_def Let_def)
  have fields: "mf_limits fs' = mf_limits fs" "mf_pages fs' = mf_pages fs" "mf_inodes fs' = mf_inodes fs"
      "mf_ns fs' = mf_ns fs" "mf_next fs' = mf_next fs" "mf_root fs' = mf_root fs" "mf_handles fs' = mf_handles fs"
    by (simp_all add: fs'_def detach_def set_links_def set_entries_def Let_def)
  then show "mf_root fs' = mf_root fs" "mf_ns fs' = mf_ns fs" by simp_all
  have t': "tree_ok (mf_root fs) (\<lambda>i. mf_nodes fs i \<noteq> None) (\<lambda>i. mn_parent (node_at fs i))
     (\<lambda>i. mn_links (node_at fs' i)) (\<lambda>i. mn_type (node_at fs i) = FtDirectory) (entries_of fs')"
    and ne: "mn_links (node_at fs' d) \<noteq> 0"
    by (rule tree_ok_unlink [OF T, of k d c "\<lambda>i. mn_links (node_at fs' i)" "entries_of fs'"];
        use k c De in \<open>simp add: lnk E\<close>)+
  then show "mn_links (node_at fs' d) \<noteq> 0" by simp
  have tree: "fs_tree fs'"
    unfolding fs_tree_def fields(6) par ty nodes by (rule t')
  show "no_garbage X fs \<Longrightarrow> no_garbage (insert c X) fs'"
    using lnk nodes fields ne unfolding no_garbage_def by (metis insertCI)
  show "base_inv fs'"
  proof (rule base_invI_same [OF inv _ fields])
    show "dom (mf_nodes fs') = dom (mf_nodes fs)" using nodes by (auto simp: dom_def)
    show "node_ok fs i n" if "mf_nodes fs' i = Some n" for i n
      using that base_invD(2) [OF inv] live d(1) De
      by (auto simp: fs'_def detach_def set_links_def set_entries_def Let_def node_ok_def node_at_def split: if_splits)
    show "page_count (mn_storage (node_at fs' i)) = page_count (mn_storage (node_at fs i))" for i
      using De(3) by (simp add: fs'_def detach_def set_links_def set_entries_def Let_def page_count_def)
  qed (rule tree)
qed

lemma memfs_invD:
  "memfs_inv fs \<Longrightarrow> base_inv fs" "memfs_inv fs \<Longrightarrow> no_garbage X fs"
  by (auto simp: memfs_inv_def no_garbage_def)

lemma memfs_invI: "base_inv fs \<Longrightarrow> no_garbage {} fs \<Longrightarrow> memfs_inv fs"
  by (simp add: memfs_inv_def)

lemma fresh_ino:
  assumes "base_inv fs" shows "mf_nodes fs (mf_next fs) = None" "mf_next fs \<noteq> 0"
proof -
  show "mf_nodes fs (mf_next fs) = None"
    using base_invD(2) [OF assms, of "mf_next fs"] by (cases "mf_nodes fs (mf_next fs)") (auto simp: node_ok_def)
  have "mf_nodes fs (mf_root fs) \<noteq> None"
    using tree_okD(2) [OF base_invD(1) [OF assms, unfolded fs_tree_def]] .
  then show "mf_next fs \<noteq> 0" using base_invD(2) [OF assms] by (fastforce simp: node_ok_def)
qed

text \<open>Neither a change of the inode counter nor dropping dead weak references matters.\<close>

lemma memfs_inv_ns:
  assumes inv: "memfs_inv fs" and ns: "set ns = {i \<in> set (mf_ns fs). mf_nodes fs i \<noteq> None}" and n: "mf_next fs \<le> n"
  shows "memfs_inv (fs\<lparr>mf_ns := ns, mf_next := n\<rparr>)"
proof -
  let ?fs = "fs\<lparr>mf_ns := ns, mf_next := n\<rparr>"
  have [simp]: "node_at ?fs = node_at fs" "entries_of ?fs = entries_of fs"
    by (auto simp: node_at_def entries_of_def fun_eq_iff)
  show ?thesis
    using inv ns n
    by (fastforce simp: memfs_inv_def base_inv_def fs_tree_def charges_ok_def handles_ok_def node_ok_def
        no_garbage_def inode_limit_def page_limit_def)
qed

definition add_child :: "memfs \<Rightarrow> nat \<Rightarrow> entries \<Rightarrow> rstr \<Rightarrow> file_type \<Rightarrow> memfs" where
  "add_child fs d es name ft =
     (let i = mf_next fs; dir = (ft = FtDirectory) in
      fs\<lparr>mf_next := i + 1, mf_inodes := mf_inodes fs + 1, mf_ns := mf_ns fs @ [i], mf_handles := (mf_handles fs)(i := 1),
         mf_nodes := (mf_nodes fs)(i \<mapsto> new_node fs ft d, d \<mapsto> (node_at fs d)\<lparr>
             mn_links := mn_links (node_at fs d) + (if dir then 1 else 0), mn_storage := Directory (es @ [(name, i)])\<rparr>)\<rparr>)"

lemma add_child_inv:
  assumes inv: "memfs_inv fs" and d: "mf_nodes fs d \<noteq> None" "dir_entries fs d = Inr es" "mn_links (node_at fs d) \<noteq> 0"
    and name: "name \<notin> fst ` set es" and room: "mf_inodes fs < inode_limit fs"
  shows "memfs_inv (add_child fs d es name ft)"
proof -
  note B = memfs_invD(1) [OF inv]
  note I = base_invD [OF B]
  note T = I(1) [unfolded fs_tree_def]
  note De = dir_entriesD [OF B d(1,2)]
  let ?i = "mf_next fs" and ?fs' = "add_child fs d es name ft"
  have i: "mf_nodes fs ?i = None" "?i \<noteq> 0" "?i \<noteq> d" using fresh_ino [OF B] d(1) by auto
  have nodes: "mf_nodes ?fs' = (mf_nodes fs)(?i \<mapsto> new_node fs ft d, d \<mapsto> (node_at fs d)\<lparr>
      mn_links := mn_links (node_at fs d) + (if ft = FtDirectory then 1 else 0), mn_storage := Directory (es @ [(name, ?i)])\<rparr>)"
    by (simp add: add_child_def Let_def)
  have new: "mn_parent (new_node fs ft d) = d" "mn_links (new_node fs ft d) = (if ft = FtDirectory then 2 else 1)"
    "mn_type (new_node fs ft d) = ft"
    by (simp_all add: new_node_def Let_def)
  have st: "page_count (mn_storage (new_node fs ft d)) = 0"
     "(case mn_storage (new_node fs ft d) of Sparse sz pages \<Rightarrow> file_wf sz pages | _ \<Rightarrow> True)"
     "ft = FtDirectory \<longleftrightarrow> (\<exists>es. mn_storage (new_node fs ft d) = Directory es)"
     "(case mn_storage (new_node fs ft d) of Directory es \<Rightarrow> es | _ \<Rightarrow> []) = []"
    by (auto simp: new_node_def Let_def page_count_def file_wf_def pages_wf_def file_byte_def page_of_def)
  have at: "node_at ?fs' x = (if x = d then (node_at fs d)\<lparr>
      mn_links := mn_links (node_at fs d) + (if ft = FtDirectory then 1 else 0), mn_storage := Directory (es @ [(name, ?i)])\<rparr>
      else if x = ?i then new_node fs ft d else node_at fs x)" for x
    by (simp add: node_at_def nodes)
  have E: "entries_of ?fs' x = (if x = ?i then [] else if x = d then es @ [(name, ?i)] else entries_of fs x)" for x
    using i st(4) by (simp add: entries_of_def nodes)
  have fields: "mf_root ?fs' = mf_root fs" "mf_ns ?fs' = mf_ns fs @ [?i]" "mf_next ?fs' = ?i + 1"
    "mf_handles ?fs' = (mf_handles fs)(?i := 1)" "mf_inodes ?fs' = mf_inodes fs + 1" "mf_pages ?fs' = mf_pages fs"
    "inode_limit ?fs' = inode_limit fs" "page_limit ?fs' = page_limit fs"
    by (simp_all add: add_child_def Let_def inode_limit_def page_limit_def)
  have tree: "fs_tree ?fs'"
    unfolding fs_tree_def fields(1)
    by (rule tree_ok_add [OF T, of d ?i name _ _ _ "ft = FtDirectory"];
        use d De i name new in \<open>auto simp: at E nodes\<close>)
  have "node_ok ?fs' x n" if "mf_nodes ?fs' x = Some n" for x n
    using that I(2) [of x] I(2) [of d] d(1) De(2) st new(3) i
    by (auto simp: nodes node_ok_def fields node_at_def less_Suc_eq split: if_splits)
  moreover have "charges_ok ?fs'"
  proof -
    let ?pc = "\<lambda>fs x. page_count (mn_storage (node_at fs x))"
    have dom: "dom (mf_nodes ?fs') = insert ?i (dom (mf_nodes fs))" using d(1) by (auto simp: nodes)
    have "sum (?pc ?fs') (dom (mf_nodes fs)) = sum (?pc fs) (dom (mf_nodes fs))"
      by (rule sum.cong) (use i De(3) in \<open>auto simp: at page_count_def\<close>)
    moreover have "?pc ?fs' ?i = 0" using i st(1) by (simp add: at)
    moreover have "?i \<notin> dom (mf_nodes fs)" using i(1) by (simp add: domIff)
    ultimately show ?thesis
      using I(3) finite_nodes [OF B] room by (auto simp: charges_ok_def dom fields)
  qed
  moreover have "handles_ok ?fs'" using I(4) d(1) by (auto simp: handles_ok_def fields nodes)
  moreover have "no_garbage {} ?fs'"
    using memfs_invD(2) [OF inv, of "{}"] tree_ok_links_pos [OF T d(1,3)] i
    by (auto simp: no_garbage_def fields nodes at)
  ultimately show ?thesis using tree by (simp add: memfs_inv_def base_inv_def)
qed

lemma mem_create_eq:
  assumes inv: "memfs_inv fs" and d: "mf_nodes fs d \<noteq> None" and r: "mem_create env fs d name ft = (Inr i, fs')"
  shows "\<exists>es. validate_name name = Inr () \<and> dir_entries fs d = Inr es \<and> mn_links (node_at fs d) \<noteq> 0 \<and> name \<notin> fst ` set es
     \<and> mf_inodes fs < inode_limit fs \<and> i = mf_next fs
     \<and> fs' = add_child (fs\<lparr>mf_ns := filter (\<lambda>i. mf_nodes fs i \<noteq> None) (mf_ns fs)\<rparr>) d es name ft"
proof -
  have "mf_next fs \<noteq> d" using fresh_ino [OF memfs_invD(1) [OF inv]] d by auto
  with r show ?thesis
    by (auto simp: mem_create_def inode_new_def add_child_def Let_def set_links_def set_entries_def set_node_def
        node_at_def inode_limit_def new_node_def split: sum.splits if_splits)
qed

lemma mem_create_inv:
  assumes inv: "memfs_inv fs" and d: "mf_nodes fs d \<noteq> None"
  shows "memfs_inv (snd (mem_create env fs d name ft))"
proof (cases "mem_create env fs d name ft")
  case (Pair r fs')
  let ?ns = "filter (\<lambda>i. mf_nodes fs i \<noteq> None) (mf_ns fs)"
  have ns: "memfs_inv (fs\<lparr>mf_ns := ?ns, mf_next := n\<rparr>)" if "mf_next fs \<le> n" for n
    by (rule memfs_inv_ns [OF inv _ that]) auto
  have ns0: "memfs_inv (fs\<lparr>mf_ns := ?ns\<rparr>)" using ns [of "mf_next fs"] by simp
  show ?thesis
  proof (cases r)
    case (Inl e)
    with Pair have "fs' = fs \<or> fs' = fs\<lparr>mf_ns := ?ns\<rparr> \<or> fs' = fs\<lparr>mf_ns := ?ns, mf_next := mf_next fs + 1\<rparr>"
      by (auto simp: mem_create_def inode_new_def Let_def split: sum.splits if_splits prod.splits)
    then show ?thesis using inv ns0 ns [of "mf_next fs + 1"] Pair by auto
  next
    case (Inr i)
    from mem_create_eq [OF inv d Pair [unfolded Inr]] obtain es where
      "dir_entries fs d = Inr es" "mn_links (node_at fs d) \<noteq> 0" "name \<notin> fst ` set es" "mf_inodes fs < inode_limit fs"
      "fs' = add_child (fs\<lparr>mf_ns := ?ns\<rparr>) d es name ft" by blast
    with add_child_inv [OF ns0, of d es name ft] d Pair show ?thesis
      by (simp add: dir_entries_def node_at_def inode_limit_def)
  qed
qed

lemma file_no_entries:
  assumes "base_inv fs" "mn_type (node_at fs c) \<noteq> FtDirectory"
  shows "entries_of fs c = []"
  using tree_okD(7) [OF base_invD(1) [OF assms(1), unfolded fs_tree_def]] assms(2)
  by (metis hd_in_set)

lemma mem_unlink_Inr:
  assumes "mem_unlink fs d name directory = (Inr (), fs')"
  shows "\<exists>es ix. validate_name name = Inr () \<and> dir_entries fs d = Inr es \<and> position (\<lambda>e. fst e = name) es = Some ix
     \<and> (mn_type (node_at fs (snd (es ! ix))) = FtDirectory \<longleftrightarrow> directory)
     \<and> (mn_type (node_at fs (snd (es ! ix))) = FtDirectory \<longrightarrow> entries_of fs (snd (es ! ix)) = [])
     \<and> fs' = free_if_dead (set_entries (detach fs d (snd (es ! ix))) d (remove_nth ix es)) (snd (es ! ix))"
  using assms
  by (auto simp: mem_unlink_def Let_def simp del: position_None split: sum.splits option.splits if_splits)

lemma mem_unlink_inv:
  assumes inv: "memfs_inv fs" and d: "mf_nodes fs d \<noteq> None"
  shows "memfs_inv (snd (mem_unlink fs d name directory))"
proof -
  note B = memfs_invD(1) [OF inv]
  show ?thesis
  proof (cases "fst (mem_unlink fs d name directory) = Inr ()")
    case False
    then have "snd (mem_unlink fs d name directory) = fs"
      by (auto simp: mem_unlink_def Let_def simp del: position_None split: sum.splits option.splits if_splits)
    with inv show ?thesis by simp
  next
    case True
    then obtain es ix where es: "dir_entries fs d = Inr es" and ix: "position (\<lambda>e. fst e = name) es = Some ix"
      and c: "mn_type (node_at fs (snd (es ! ix))) = FtDirectory \<Longrightarrow> entries_of fs (snd (es ! ix)) = []"
      and fs': "snd (mem_unlink fs d name directory) =
        free_if_dead (set_entries (detach fs d (snd (es ! ix))) d (remove_nth ix es)) (snd (es ! ix))"
      using mem_unlink_Inr [of fs d name directory "snd (mem_unlink fs d name directory)"]
      by (metis prod.collapse)
    let ?c = "snd (es ! ix)"
    have "entries_of fs ?c = []" using c file_no_entries [OF B] by blast
    note U = unlink_base [OF B d es position_SomeD(1) [OF ix] refl this]
    show ?thesis unfolding fs'
      by (rule free_if_dead_inv [OF U(1)]) (use U(2,3,11) memfs_invD(2) [OF inv] in auto)
  qed
qed

text \<open>The ancestor walk: it ends on a rooted chain, and success says that the chain avoids the
  source.\<close>

lemma ancestor_check_ends:
  assumes "rooted (\<lambda>i. mf_nodes fs i \<noteq> None) (\<lambda>i. mn_parent (node_at fs i)) a" "dom (mf_nodes fs) \<subseteq> set (mf_ns fs)"
  shows "\<exists>r. ancestor_check fs s a = Some r"
  using assms(1)
proof induction
  case rooted_0
  then show ?case by (subst ancestor_check.simps) simp
next
  case (rooted_step i)
  then show ?case by (subst ancestor_check.simps) (auto simp: node_at_def)
qed

lemma ancestor_check_rooted:
  assumes "rooted (\<lambda>i. mf_nodes fs i \<noteq> None) (\<lambda>i. mn_parent (node_at fs i)) a"
    "ancestor_check fs s a = Some (Inr ())"
    and par': "\<And>i. i \<noteq> s \<Longrightarrow> par' i = mn_parent (node_at fs i)"
  shows "rooted (\<lambda>i. mf_nodes fs i \<noteq> None) par' a"
  using assms(1,2)
proof induction
  case (rooted_step i)
  show ?case
  proof (cases "i = 0")
    case False
    with rooted_step.prems have "i \<noteq> s" "ancestor_check fs s (mn_parent (node_at fs i)) = Some (Inr ())"
      using rooted_step.hyps(1)
      by (subst (asm) ancestor_check.simps; auto simp: node_at_def split: if_splits)+
    then show ?thesis
      using rooted_step.IH rooted_step.hyps(1) par' [of i]
      by (intro rooted.rooted_step [of "\<lambda>i. mf_nodes fs i \<noteq> None" i par']) simp_all
  qed (simp add: rooted_0)
qed (rule rooted_0)

text \<open>Giving an entry a new name in its directory.\<close>

lemma rename_base:
  assumes inv: "base_inv fs" and d: "mf_nodes fs d \<noteq> None" "mn_storage (node_at fs d) = Directory es"
    and k: "k < length es" and name: "name \<notin> fst ` set es - {fst (es ! k)}"
  defines "fs' \<equiv> set_entries fs d (es[k := (name, snd (es ! k))])"
  shows "base_inv fs'" "no_garbage X fs \<Longrightarrow> no_garbage X fs'"
    "\<And>x. mf_nodes fs' x = None \<longleftrightarrow> mf_nodes fs x = None"
proof -
  note T = base_invD(1) [OF inv, unfolded fs_tree_def]
  have es: "entries_of fs d = es" "mn_type (node_at fs d) = FtDirectory"
    using dir_entriesD [OF inv d(1)] d(2) by (simp_all add: dir_entries_def)
  show nodes: "mf_nodes fs' x = None \<longleftrightarrow> mf_nodes fs x = None" for x
    using d(1) by (auto simp: fs'_def set_entries_def)
  have at: "mn_parent (node_at fs' x) = mn_parent (node_at fs x)" "mn_links (node_at fs' x) = mn_links (node_at fs x)"
    "mn_type (node_at fs' x) = mn_type (node_at fs x)" for x
    by (simp_all add: fs'_def set_entries_def)
  have fields: "mf_limits fs' = mf_limits fs" "mf_pages fs' = mf_pages fs" "mf_inodes fs' = mf_inodes fs"
      "mf_ns fs' = mf_ns fs" "mf_next fs' = mf_next fs" "mf_root fs' = mf_root fs" "mf_handles fs' = mf_handles fs"
    by (simp_all add: fs'_def set_entries_def)
  have tree: "fs_tree fs'"
    unfolding fs_tree_def fields(6) at nodes
    by (rule tree_ok_rename [OF T, of k d name]; use k name es in \<open>simp add: fs'_def set_entries_def\<close>)
  show "no_garbage X fs \<Longrightarrow> no_garbage X fs'" by (simp add: no_garbage_def nodes at fields)
  show "base_inv fs'"
  proof (rule base_invI_same [OF inv _ fields])
    show "dom (mf_nodes fs') = dom (mf_nodes fs)" using nodes by (auto simp: dom_def)
    show "node_ok fs i n" if "mf_nodes fs' i = Some n" for i n
      using that base_invD(2) [OF inv] d(1) es(2)
      by (auto simp: fs'_def set_entries_def node_ok_def node_at_def split: if_splits)
    show "page_count (mn_storage (node_at fs' i)) = page_count (mn_storage (node_at fs i))" for i
      using d(2) by (simp add: fs'_def set_entries_def page_count_def)
  qed (rule tree)
qed

lemma can_replace_Inr:
  assumes "base_inv fs" "can_replace held fs s t = Ret (Inr ())"
  shows "entries_of fs t = []" "mn_type (node_at fs s) = FtDirectory \<longleftrightarrow> mn_type (node_at fs t) = FtDirectory"
  using assms(2) file_no_entries [OF assms(1), of t]
  by (cases "mn_type (node_at fs s)"; cases "mn_type (node_at fs t)"; simp add: can_replace_def split: if_splits)+

lemma outcome_not_Inr:
  assumes "r \<noteq> Ret (Inr ())" obtains "r = Hang" | e where "r = Ret (Inl e)"
proof (cases r)
  case (Ret x)
  with assms that show ?thesis by (cases x) auto
qed (use that in blast)

lemma position_key:
  assumes "distinct (map f xs)" "k < length xs"
  shows "position (\<lambda>x. f x = f (xs ! k)) xs = Some k"
  using assms by (auto simp: position_Some distinct_conv_nth)

lemma set_entries_set_entries: "set_entries (set_entries fs d es) d es' = set_entries fs d es'"
  by (simp add: set_entries_def set_node_def node_at_def)

lemma mn_storage_set_entries [simp]: "mn_storage (node_at (set_entries fs d es) d) = Directory es"
  by (simp add: set_entries_def)

text \<open>Replacing an entry of the same directory.\<close>

lemma rename_within_inv:
  assumes inv: "memfs_inv fs" and d: "mf_nodes fs d \<noteq> None" "dir_entries fs d = Inr es"
    and s: "position (\<lambda>e. fst e = name) es = Some ix" "s = snd (es ! ix)" and neq: "name \<noteq> new_name"
    and r: "rename_within fs d es s new_name = Ret (r, fs')"
  shows "memfs_inv fs'"
proof -
  note B = memfs_invD(1) [OF inv]
  note De = dir_entriesD [OF B d]
  note T = base_invD(1) [OF B, unfolded fs_tree_def]
  have dist: "distinct (map fst es)" "distinct (map snd es)" using tree_okD(12,13) [OF T, of d] De(1) by simp_all
  note ix = position_SomeD [OF s(1)]
  show ?thesis
  proof (cases "position (\<lambda>e. fst e = new_name) es")
    case None
    have pos: "position (\<lambda>e. snd e = s) es = Some ix" using position_key [OF dist(2) ix(1)] s(2) by simp
    have "fs' = set_entries fs d (es[ix := (new_name, s)])"
      using r None pos by (simp add: rename_within_def Let_def del: position_None)
    then show ?thesis
      using rename_base [OF B d(1) De(3) ix(1), of new_name] None memfs_invD(2) [OF inv] s(2)
      by (auto intro!: memfs_invI)
  next
    case (Some t)
    note t = position_SomeD(1,2) [OF Some]
    show ?thesis
    proof (cases "can_replace {d} fs s (snd (es ! t)) = Ret (Inr ())")
      case False
      then have "fs' = fs" using r Some
        by (elim outcome_not_Inr) (simp_all add: rename_within_def Let_def)
      with inv show ?thesis by simp
    next
      case True
      let ?c = "snd (es ! t)" and ?es = "remove_nth t es"
      define fs1 where "fs1 = set_entries (detach fs d ?c) d ?es"
      note U = unlink_base [OF B d t(1) refl can_replace_Inr(1) [OF B True], folded fs1_def]
      have "t \<noteq> ix" using t(2) ix(2) neq by auto
      then have "s \<noteq> ?c" using dist(2) t(1) ix(1) s(2) by (auto simp: distinct_conv_nth)
      moreover have "es ! ix \<in> set es" using ix(1) by simp
      ultimately have "es ! ix \<in> set ?es"
        using set_remove_nth_distinct [OF t(1) dist(2)] s(2) by simp
      then obtain k where k: "k < length ?es" "?es ! k = es ! ix" by (metis in_set_conv_nth)
      have d1: "mf_nodes fs1 d \<noteq> None" "mn_storage (node_at fs1 d) = Directory ?es"
        using U(2) d(1) by (simp_all add: fs1_def)
      have free: "new_name \<notin> fst ` set ?es"
        unfolding set_remove_nth_distinct [OF t(1) dist(1)] t(2) by blast
      have "distinct (map snd ?es)" using dist(2) distinct_remove_nth by (metis map_remove_nth)
      from position_key [OF this k(1)] have pos: "position (\<lambda>e. snd e = s) ?es = Some k" using k(2) s(2) by simp
      have fs': "fs' = free_if_dead (set_entries fs1 d (?es[k := (new_name, snd (?es ! k))])) ?c"
        using r Some True pos k(2) s(2)
        by (simp add: rename_within_def Let_def fs1_def set_entries_set_entries del: position_None)
      have "new_name \<notin> fst ` set ?es - {fst (?es ! k)}" using free by blast
      note R = rename_base [OF U(1) d1 k(1) this]
      show ?thesis
        unfolding fs'
        by (rule free_if_dead_inv [OF R(1)]) (use R(2,3) U(2,3,11) memfs_invD(2) [OF inv] in auto)
    qed
  qed
qed

text \<open>Moving an entry to another directory.\<close>

lemma move_entry_over:
  assumes "dst \<noteq> d"
  shows "move_entry (set_entries fs dst X) d es s dst des name = move_entry fs d es s dst des name"
  using assms
  by (auto simp: move_entry_def set_entries_def set_links_def set_node_def node_at_def Let_def fun_eq_iff
      intro!: memfs.equality)

lemma move_base:
  assumes inv: "base_inv fs" and d: "mf_nodes fs d \<noteq> None" "dir_entries fs d = Inr es"
    and dst: "mf_nodes fs dst \<noteq> None" "dir_entries fs dst = Inr des" "mn_links (node_at fs dst) \<noteq> 0" "dst \<noteq> d"
    and k: "k < length es" and s: "s = snd (es ! k)" and name: "name \<notin> fst ` set des"
    and chain: "mn_type (node_at fs s) = FtDirectory \<Longrightarrow>
      rooted (\<lambda>i. mf_nodes fs i \<noteq> None) (\<lambda>i. if i = s then dst else mn_parent (node_at fs i)) dst"
  defines "fs' \<equiv> move_entry fs d (remove_nth k es) s dst des name"
  shows "base_inv fs'" "no_garbage X fs \<Longrightarrow> no_garbage X fs'" "mf_nodes fs' x = None \<longleftrightarrow> mf_nodes fs x = None"
proof -
  note T = base_invD(1) [OF inv, unfolded fs_tree_def]
  note D1 = dir_entriesD [OF inv d] and D2 = dir_entriesD [OF inv dst(1,2)]
  have e: "es ! k \<in> set (entries_of fs d)" using k D1 by simp
  have live: "mf_nodes fs s \<noteq> None" "mn_parent (node_at fs s) = d" "mn_links (node_at fs s) \<noteq> 0"
    using tree_okD(8-10) [OF T e] s by simp_all
  have sd: "s \<noteq> d" using live rooted_par_neq [OF tree_okD(17) [OF T live(1,3)] tree_okD(1) [OF T] live(1)] by auto
  have sdst: "s \<noteq> dst"
  proof
    assume "s = dst"
    with chain D2 have "rooted (\<lambda>i. mf_nodes fs i \<noteq> None) (\<lambda>i. if i = s then dst else mn_parent (node_at fs i)) dst" by simp
    from rooted_par_neq [OF this tree_okD(1) [OF T] dst(1)] \<open>s = dst\<close> show False by simp
  qed
  note defs = fs'_def move_entry_def set_entries_def set_links_def Let_def
  show nodes: "mf_nodes fs' x = None \<longleftrightarrow> mf_nodes fs x = None" for x
    using live d(1) dst(1) by (auto simp: defs)
  have E: "entries_of fs' x = (if x = d then remove_nth k es else if x = dst then des @ [(name, s)] else entries_of fs x)" for x
    using sd sdst dst(4) live(1) by (auto simp: defs entries_of_def node_at_def)
  have ty: "mn_type (node_at fs' x) = mn_type (node_at fs x)" for x
    using sd sdst dst(4) by (simp add: defs)
  have par: "mn_parent (node_at fs' x) = (if x = s then dst else mn_parent (node_at fs x))" for x
    using sd sdst dst(4) by (simp add: defs)
  have lnk: "mn_links (node_at fs' x) = mn_links (node_at fs x) + (if mn_type (node_at fs s) = FtDirectory
      then (if x = dst then 1 else if x = d then -1 else 0) else 0)" for x
    using sd sdst dst(4) by (simp add: defs)
  have fields: "mf_limits fs' = mf_limits fs" "mf_pages fs' = mf_pages fs" "mf_inodes fs' = mf_inodes fs"
      "mf_ns fs' = mf_ns fs" "mf_next fs' = mf_next fs" "mf_root fs' = mf_root fs" "mf_handles fs' = mf_handles fs"
    by (simp_all add: defs)
  have t': "tree_ok (mf_root fs) (\<lambda>i. mf_nodes fs i \<noteq> None) (\<lambda>i. mn_parent (node_at fs' i))
     (\<lambda>i. mn_links (node_at fs' i)) (\<lambda>i. mn_type (node_at fs i) = FtDirectory) (entries_of fs')"
    by (rule tree_ok_move [OF T, of k d dst s name]; use k s name D1 D2 dst chain in \<open>simp add: lnk par E\<close>)
  then have tree: "fs_tree fs'"
    unfolding fs_tree_def fields(6) ty nodes .
  have ne: "mn_links (node_at fs' x) \<noteq> 0" if "mf_nodes fs x \<noteq> None" "mn_links (node_at fs x) \<noteq> 0" for x
  proof (cases "x = d")
    case True
    have "mn_links (node_at fs d) = 2 + subdirs (\<lambda>i. mn_type (node_at fs i) = FtDirectory) es"
      using tree_okD(16) [OF T that] True D1 by simp
    moreover have "mn_type (node_at fs s) = FtDirectory \<Longrightarrow> 0 < subdirs (\<lambda>i. mn_type (node_at fs i) = FtDirectory) es"
      using k s unfolding subdirs_def by (auto simp: filter_empty_conv) 
    ultimately show ?thesis using True dst(4) that(2) by (auto simp: lnk)
  next
    case False
    then show ?thesis using tree_ok_links_pos [OF T that] that by (auto simp: lnk)
  qed
  show "no_garbage X fs \<Longrightarrow> no_garbage X fs'"
    unfolding no_garbage_def nodes fields using ne by blast
  show "base_inv fs'"
  proof (rule base_invI_same [OF inv _ fields])
    show "dom (mf_nodes fs') = dom (mf_nodes fs)" using nodes by (auto simp: dom_def)
    show "node_ok fs i n" if "mf_nodes fs' i = Some n" for i n
      using that base_invD(2) [OF inv] d(1) dst live(1) D1(2) D2(2) sd sdst
      by (auto simp: defs node_ok_def node_at_def split: if_splits)
    show "page_count (mn_storage (node_at fs' i)) = page_count (mn_storage (node_at fs i))" for i
      using D1(3) D2(3) sd sdst dst(4) by (simp add: defs page_count_def)
  qed (rule tree)
qed

lemma rename_across_inv:
  assumes inv: "memfs_inv fs" and d: "mf_nodes fs d \<noteq> None" "dir_entries fs d = Inr es"
    and dst: "mf_nodes fs dst \<noteq> None" "mn_links (node_at fs dst) \<noteq> 0" "dst \<noteq> d"
    and ix: "ix < length es" and s: "s = snd (es ! ix)"
    and anc: "mn_type (node_at fs s) = FtDirectory \<Longrightarrow> ancestor_check fs s dst = Some (Inr ())"
    and r: "rename_across env fs d es ix s dst new_name = Ret (r, fs')"
  shows "memfs_inv fs'"
proof (cases "dir_entries fs dst")
  case (Inl e)
  with r inv show ?thesis by (simp add: rename_across_def)
next
  case (Inr des)
  note B = memfs_invD(1) [OF inv]
  note T = base_invD(1) [OF B, unfolded fs_tree_def]
  note D1 = dir_entriesD [OF B d] and D2 = dir_entriesD [OF B dst(1) Inr]
  have chain: "rooted (\<lambda>i. mf_nodes fs i \<noteq> None) (\<lambda>i. if i = s then dst else mn_parent (node_at fs i)) dst"
    if "mn_type (node_at fs s) = FtDirectory"
    by (rule ancestor_check_rooted [OF tree_okD(17) [OF T dst(1,2)] anc [OF that]]) simp
  show ?thesis
  proof (cases "position (\<lambda>e. fst e = new_name) des")
    case None
    note M = move_base [OF B d dst(1) Inr dst(2,3) ix s _ chain, of new_name]
    from r Inr None have "fs' = fs \<or> fs' = move_entry fs d (remove_nth ix es) s dst des new_name"
      by (auto simp: rename_across_def simp del: position_None split: if_splits)
    moreover have "new_name \<notin> fst ` set des" using None by auto
    ultimately show ?thesis using M memfs_invD(2) [OF inv] inv memfs_invI by blast
  next
    case (Some t)
    note t = position_SomeD(1,2) [OF Some]
    let ?c = "snd (des ! t)"
    show ?thesis
    proof (cases "can_replace {d, dst} fs s ?c = Ret (Inr ())")
      case False
      then have "fs' = fs" using r Some Inr
        by (elim outcome_not_Inr) (simp_all add: rename_across_def)
      with inv show ?thesis by simp
    next
      case True
      note cr = can_replace_Inr [OF B True]
      define fs1 where "fs1 = set_entries (detach fs dst ?c) dst (remove_nth t des)"
      note U = unlink_base [OF B dst(1) Inr t(1) refl cr(1), folded fs1_def]
      have cd: "?c \<noteq> d" using cr(1) D1(1) ix by auto
      have fs': "fs' = free_if_dead (move_entry fs1 d (remove_nth ix es) s dst (remove_nth t des) new_name) ?c"
        using r Some Inr True by (simp add: rename_across_def fs1_def move_entry_over [OF dst(3)])
      have d1: "mf_nodes fs1 d \<noteq> None" "dir_entries fs1 d = Inr es"
        using U(2) d(1) D1(3) dst(3) cd
        by (auto simp: fs1_def dir_entries_Inr set_entries_def detach_def set_links_def Let_def)
      have dst1: "mf_nodes fs1 dst \<noteq> None" "dir_entries fs1 dst = Inr (remove_nth t des)" "mn_links (node_at fs1 dst) \<noteq> 0"
        using U(2,12) dst by (simp_all add: fs1_def dir_entries_Inr)
      have name: "new_name \<notin> fst ` set (remove_nth t des)"
        using set_remove_nth_distinct [OF t(1), of fst] tree_okD(12) [OF T, of dst] D2(1) t(2) by fastforce
      have "rooted (\<lambda>i. mf_nodes fs1 i \<noteq> None) (\<lambda>i. if i = s then dst else mn_parent (node_at fs1 i)) dst"
        if "mn_type (node_at fs1 s) = FtDirectory"
        using chain that unfolding U(2,5,6) .
      note M = move_base [OF U(1) d1 dst1 dst(3) ix s name this]
      show ?thesis unfolding fs'
        by (rule free_if_dead_inv [OF M(1)]) (use M(2,3) U(2,3,11) memfs_invD(2) [OF inv] in auto)
    qed
  qed
qed

text \<open>The part of \<open>rename\<close> behind its checks.\<close>

lemma mem_rename_checked:
  assumes v: "validate_name name = Inr ()" "validate_name new_name = Inr ()" and l: "mn_links (node_at fs dst) \<noteq> 0"
    and es: "dir_entries fs d = Inr es" and ix: "position (\<lambda>e. fst e = name) es = Some ix" and ne: "\<not> (d = dst \<and> name = new_name)"
  shows "mem_rename env fs d name (This_Fs dst) new_name =
     (case (if mn_type (node_at fs (snd (es ! ix))) = FtDirectory then ancestor_check fs (snd (es ! ix)) dst else Some (Inr ())) of
        None \<Rightarrow> Hang
      | Some (Inl e) \<Rightarrow> Ret (Inl e, fs)
      | Some (Inr _) \<Rightarrow>
          if \<not> ae_name env then Ret (Inl OutOfMemory, fs)
          else if d = dst then rename_within fs d es (snd (es ! ix)) new_name
          else rename_across env fs d es ix (snd (es ! ix)) dst new_name)"
  using assms by (simp only: mem_rename_def sum.case dest_ref.case option.case Let_def if_False)

lemma mem_rename_unchecked:
  assumes "\<not> (validate_name name = Inr () \<and> validate_name new_name = Inr ()
     \<and> (\<exists>dst es ix. dest = This_Fs dst \<and> mn_links (node_at fs dst) \<noteq> 0 \<and> dir_entries fs d = Inr es
         \<and> position (\<lambda>e. fst e = name) es = Some ix \<and> \<not> (d = dst \<and> name = new_name)))"
  shows "\<exists>r. mem_rename env fs d name dest new_name = Ret (r, fs)"
proof (cases "\<exists>dst. dest = This_Fs dst \<and> validate_name name = Inr () \<and> validate_name new_name = Inr () \<and> mn_links (node_at fs dst) \<noteq> 0")
  case False
  then show ?thesis
    by (cases dest; cases "validate_name name"; cases "validate_name new_name") (simp_all add: mem_rename_def)
next
  case True
  then obtain dst where dst: "dest = This_Fs dst" "validate_name name = Inr ()" "validate_name new_name = Inr ()" "mn_links (node_at fs dst) \<noteq> 0"
    by blast
  show ?thesis
  proof (cases "dir_entries fs d")
    case (Inl e)
    with dst show ?thesis by (simp add: mem_rename_def)
  next
    case (Inr es)
    with dst assms show ?thesis
      by (cases "position (\<lambda>e. fst e = name) es") (simp_all add: mem_rename_def Let_def del: position_None)
  qed
qed

lemma mem_rename_inv:
  assumes inv: "memfs_inv fs" and d: "mf_nodes fs d \<noteq> None" and dst: "\<And>x. dest = This_Fs x \<Longrightarrow> mf_nodes fs x \<noteq> None"
    and r: "mem_rename env fs d name dest new_name = Ret (r, fs')"
  shows "memfs_inv fs'"
proof (cases "validate_name name = Inr () \<and> validate_name new_name = Inr ()
     \<and> (\<exists>dst es ix. dest = This_Fs dst \<and> mn_links (node_at fs dst) \<noteq> 0 \<and> dir_entries fs d = Inr es
         \<and> position (\<lambda>e. fst e = name) es = Some ix \<and> \<not> (d = dst \<and> name = new_name))")
  case False
  from mem_rename_unchecked [OF this, of env] r have "fs' = fs" by auto
  with inv show ?thesis by simp
next
  case True
  then obtain x es ix where v: "validate_name name = Inr ()" "validate_name new_name = Inr ()"
    and x: "dest = This_Fs x" and l: "mn_links (node_at fs x) \<noteq> 0" and es: "dir_entries fs d = Inr es"
    and ix: "position (\<lambda>e. fst e = name) es = Some ix" and ne: "\<not> (d = x \<and> name = new_name)" by blast
  let ?s = "snd (es ! ix)"
  define a where "a = (if mn_type (node_at fs ?s) = FtDirectory then ancestor_check fs ?s x else Some (Inr ()))"
  note eq = mem_rename_checked [OF v l es ix ne, of env, folded a_def x]
  show ?thesis
  proof (cases "a = Some (Inr ()) \<and> ae_name env")
    case False
    have "fs' = fs"
    proof (cases a)
      case None
      with r eq show ?thesis by simp
    next
      case (Some u)
      with False r eq show ?thesis by (cases u) auto
    qed
    with inv show ?thesis by simp
  next
    case True
    then have anc: "mn_type (node_at fs ?s) = FtDirectory \<Longrightarrow> ancestor_check fs ?s x = Some (Inr ())"
      by (simp add: a_def)
    show ?thesis
    proof (cases "d = x")
      case True
      with rename_within_inv [OF inv d es ix refl _, of new_name r fs'] ne r eq \<open>a = _ \<and> _\<close> show ?thesis by simp
    next
      case False
      with rename_across_inv [OF inv d es dst [OF x] l _ position_SomeD(1) [OF ix] refl anc] r eq \<open>a = _ \<and> _\<close>
      show ?thesis by auto
    qed
  qed
qed

text \<open>References from outside.\<close>

lemma memfs_inv_handles:
  assumes inv: "memfs_inv fs" and h: "0 < h (mf_root fs)" "\<And>i. mf_nodes fs i = None \<Longrightarrow> h i = 0"
  shows "base_inv (fs\<lparr>mf_handles := h\<rparr>)"
proof -
  let ?fs = "fs\<lparr>mf_handles := h\<rparr>"
  have [simp]: "node_at ?fs = node_at fs" "entries_of ?fs = entries_of fs"
    by (auto simp: node_at_def entries_of_def fun_eq_iff)
  show ?thesis
    using memfs_invD(1) [OF inv] h
    by (simp add: base_inv_def fs_tree_def charges_ok_def handles_ok_def node_ok_def inode_limit_def page_limit_def)
qed

lemma take_handle_inv:
  assumes inv: "memfs_inv fs" and i: "mf_nodes fs i \<noteq> None"
  shows "memfs_inv (take_handle fs i)"
proof -
  have "base_inv (take_handle fs i)"
    unfolding take_handle_def
    by (rule memfs_inv_handles [OF inv]) (use base_invD(4) [OF memfs_invD(1) [OF inv]] i in \<open>auto simp: handles_ok_def\<close>)
  moreover have "no_garbage {} (take_handle fs i)"
    using memfs_invD(2) [OF inv, of "{}"] by (auto simp: no_garbage_def take_handle_def node_at_def)
  ultimately show ?thesis by (rule memfs_invI)
qed

lemma drop_handle_inv:
  assumes inv: "memfs_inv fs" and i: "mf_nodes fs i \<noteq> None" and h: "i = mf_root fs \<Longrightarrow> 1 < mf_handles fs i"
  shows "memfs_inv (drop_handle fs i)"
  unfolding drop_handle_def
proof (rule free_if_dead_inv)
  let ?fs = "fs\<lparr>mf_handles := (mf_handles fs)(i := mf_handles fs i - 1)\<rparr>"
  show "base_inv ?fs"
    by (rule memfs_inv_handles [OF inv]) (use base_invD(4) [OF memfs_invD(1) [OF inv]] h i in \<open>auto simp: handles_ok_def\<close>)
  show "no_garbage {i} ?fs"
    using memfs_invD(2) [OF inv, of "{}"] by (auto simp: no_garbage_def node_at_def)
  show "mf_nodes ?fs i \<noteq> None" using i by simp
qed

lemma mem_lookup_inv:
  assumes inv: "memfs_inv fs" and d: "mf_nodes fs d \<noteq> None"
  shows "memfs_inv (snd (mem_lookup fs d name))"
proof (cases "dir_entries fs d")
  case (Inr es)
  have "mf_nodes fs i \<noteq> None" if "map_of es name = Some i" for i
    using tree_okD(8) [OF base_invD(1) [OF memfs_invD(1) [OF inv], unfolded fs_tree_def], of "(name, i)" d]
      dir_entriesD(1) [OF memfs_invD(1) [OF inv] d Inr] map_of_SomeD [OF that] by simp
  then show ?thesis using take_handle_inv [OF inv] inv Inr
    by (auto simp: mem_lookup_def split: option.split)
qed (use inv in \<open>simp add: mem_lookup_def\<close>)

text \<open>New contents of a file.\<close>

lemma store_inv:
  assumes inv: "memfs_inv fs" and i: "mf_nodes fs i \<noteq> None"
    and st: "st = mn_storage (node_at fs i) \<or> (\<forall>es. st \<noteq> Directory es \<and> mn_storage (node_at fs i) \<noteq> Directory es)"
      "(case st of Sparse sz pages \<Rightarrow> file_wf sz pages | _ \<Rightarrow> True)"
    and used: "used + page_count (mn_storage (node_at fs i)) = mf_pages fs + page_count st" "used \<le> page_limit fs"
  shows "memfs_inv (snd (store fs i (r, st, used)))"
proof -
  note B = memfs_invD(1) [OF inv]
  note I = base_invD [OF B]
  obtain n where n: "mf_nodes fs i = Some n" using i by auto
  then have at: "node_at fs i = n" by (simp add: node_at_def)
  let ?fs = "snd (store fs i (r, st, used))"
  have nodes: "mf_nodes ?fs = (mf_nodes fs)(i \<mapsto> n\<lparr>mn_storage := st\<rparr>)" by (simp add: store_def at)
  have nat: "node_at ?fs x = (if x = i then n\<lparr>mn_storage := st\<rparr> else node_at fs x)" for x
    by (simp add: node_at_def nodes)
  have fields: "mf_root ?fs = mf_root fs" "mf_ns ?fs = mf_ns fs" "mf_next ?fs = mf_next fs" "mf_handles ?fs = mf_handles fs"
    "mf_inodes ?fs = mf_inodes fs" "mf_pages ?fs = used" "inode_limit ?fs = inode_limit fs" "page_limit ?fs = page_limit fs"
    by (simp_all add: store_def inode_limit_def page_limit_def)
  have E: "entries_of ?fs x = entries_of fs x" for x
    unfolding entries_of_def nodes using st(1) n at by (cases "mn_storage n"; cases st) auto
  have same: "mn_parent (node_at ?fs x) = mn_parent (node_at fs x)" "mn_links (node_at ?fs x) = mn_links (node_at fs x)"
    "mn_type (node_at ?fs x) = mn_type (node_at fs x)" "mf_nodes ?fs x = None \<longleftrightarrow> mf_nodes fs x = None" for x
    using at n by (simp_all add: nat nodes)
  have "fs_tree ?fs" using I(1) unfolding fs_tree_def fields same by (simp add: E [abs_def])
  moreover have "node_ok ?fs x m" if "mf_nodes ?fs x = Some m" for x m
    using that I(2) [of x] I(2) [OF n] st at by (cases "x = i") (auto simp: nodes node_ok_def fields)
  moreover have "charges_ok ?fs"
  proof -
    let ?A = "dom (mf_nodes fs)" and ?pc = "\<lambda>fs i. page_count (mn_storage (node_at fs i))"
    have A: "finite ?A" "i \<in> ?A" using finite_nodes [OF B] i by auto
    have dom: "dom (mf_nodes ?fs) = ?A" using n by (auto simp: nodes)
    have "sum (?pc ?fs) (?A - {i}) = sum (?pc fs) (?A - {i})" by (rule sum.cong) (auto simp: nat)
    then have "sum (?pc ?fs) ?A + ?pc fs i = sum (?pc fs) ?A + ?pc ?fs i"
      using sum.remove [OF A, of "?pc ?fs"] sum.remove [OF A, of "?pc fs"] by simp
    then show ?thesis using I(3) used at by (simp add: charges_ok_def dom fields nat)
  qed
  moreover have "handles_ok ?fs" using I(4) n by (auto simp: handles_ok_def fields nodes)
  moreover have "no_garbage {} ?fs" using memfs_invD(2) [OF inv, of "{}"] unfolding no_garbage_def fields same .
  ultimately show ?thesis by (simp add: memfs_inv_def base_inv_def)
qed


lemma node_file_inv:
  assumes inv: "memfs_inv fs" and i: "mf_nodes fs i \<noteq> None" and st: "\<forall>es. mn_storage (node_at fs i) \<noteq> Directory es"
  shows "file_inv (mn_storage (node_at fs i), mf_pages fs)"
proof -
  note B = memfs_invD(1) [OF inv]
  obtain n where n: "mf_nodes fs i = Some n" using i by auto
  have "page_count (mn_storage (node_at fs i)) \<le> (\<Sum>i \<in> dom (mf_nodes fs). page_count (mn_storage (node_at fs i)))"
    by (rule member_le_sum) (use i finite_nodes [OF B] in auto)
  then have "page_count (mn_storage (node_at fs i)) \<le> mf_pages fs"
    using base_invD(3) [OF B] by (simp add: charges_ok_def)
  then show ?thesis
    using base_invD(2) [OF B n] st n by (cases "mn_storage n") (auto simp: node_ok_def node_at_def page_count_def)
qed

lemma write_data_Directory: "write_data ro vo po limit (Directory es) used offset buf = (Inl IsADirectory, Directory es, used)"
  by (simp add: write_data_def)

text \<open>A storage update that obeys the contract of files keeps the invariant.\<close>

lemma store_file_inv:
  assumes inv: "memfs_inv fs" and i: "mf_nodes fs i \<noteq> None"
    and dir: "\<And>es. mn_storage (node_at fs i) = Directory es \<Longrightarrow> st' = Directory es \<and> used' = mf_pages fs"
    and reg: "file_inv (mn_storage (node_at fs i), mf_pages fs) \<Longrightarrow> file_inv (st', used')
       \<and> used' + page_count (mn_storage (node_at fs i)) = mf_pages fs + page_count st' \<and> used' \<le> page_limit fs"
  shows "memfs_inv (snd (store fs i (r, st', used')))"
proof (cases "\<exists>es. mn_storage (node_at fs i) = Directory es")
  case True
  have "mf_pages fs \<le> page_limit fs" using base_invD(3) [OF memfs_invD(1) [OF inv]] by (simp add: charges_ok_def)
  with True dir show ?thesis by (intro store_inv [OF inv i]) auto
next
  case False
  then have f: "file_inv (st', used')" "used' + page_count (mn_storage (node_at fs i)) = mf_pages fs + page_count st'"
    "used' \<le> page_limit fs" using reg node_file_inv [OF inv i] by auto
  then have "\<forall>es. st' \<noteq> Directory es" "(case st' of Sparse sz pages \<Rightarrow> file_wf sz pages | _ \<Rightarrow> True)"
    by (cases st'; auto)+
  with False f show ?thesis by (intro store_inv [OF inv i]) auto
qed

end
