(* ===== verification/Mem_Fs.thy ===== *)
theory Mem_Fs
  imports Mem_Inv
begin

text \<open>
  The memory file systems as a state machine (\<^verbatim>\<open>kernel/src/fs/memfs.rs\<close>): every state
  that operations can reach from a new file system satisfies the invariant; what create, unlink
  and rename do to the names; and exactly when \<open>rename\<close> never returns.
\<close>

section \<open>Contents\<close>

lemma node_write_inv:
  assumes inv: "memfs_inv fs" and i: "mf_nodes fs i \<noteq> None"
  shows "memfs_inv (snd (node_write ro vo po fs i offset buf))"
proof -
  obtain r st' used' where w: "write_data ro vo po (page_limit fs) (mn_storage (node_at fs i)) (mf_pages fs) offset buf = (r, st', used')"
    by (metis prod_cases3)
  have lim: "mf_pages fs \<le> page_limit fs" using base_invD(3) [OF memfs_invD(1) [OF inv]] by (simp add: charges_ok_def)
  show ?thesis unfolding node_write_def w
  proof (rule store_file_inv [OF inv i])
    show "st' = Directory es \<and> used' = mf_pages fs" if "mn_storage (node_at fs i) = Directory es" for es
      using w that by (simp add: write_data_Directory)
    show "file_inv (st', used') \<and> used' + page_count (mn_storage (node_at fs i)) = mf_pages fs + page_count st' \<and> used' \<le> page_limit fs"
      if "file_inv (mn_storage (node_at fs i), mf_pages fs)"
      using write_data_post(1) [OF that w] write_data_quota [OF that lim w] by blast
  qed
qed

lemma mem_append_write:
  "snd (mem_append ro vo po limit st used buf) =
     snd (write_data ro vo po limit st used (mem_size (\<lambda>_. 0) st) buf)"
  by (cases st) (simp_all add: mem_append_def mem_size_def write_data_Directory Let_def split: prod.split sum.split)

lemma store_snd: "snd a = snd b \<Longrightarrow> snd (store fs i a) = snd (store fs i b)"
  by (cases a; cases b) (simp add: store_def)

lemma node_append_inv:
  assumes "memfs_inv fs" "mf_nodes fs i \<noteq> None"
  shows "memfs_inv (snd (node_append ro vo po fs i buf))"
proof -
  have "snd (node_append ro vo po fs i buf) =
      snd (node_write ro vo po fs i (mem_size (\<lambda>_. 0) (mn_storage (node_at fs i))) buf)"
    unfolding node_append_def node_write_def by (rule store_snd [OF mem_append_write])
  with node_write_inv [OF assms] show ?thesis by simp
qed

lemma mem_truncate_used: "mem_truncate ro st used n = (r, st', used') \<Longrightarrow> used' \<le> used"
  by (cases st) (auto simp: mem_truncate_def Let_def le_diff_conv split: if_splits)

lemma node_truncate_inv:
  assumes inv: "memfs_inv fs" and i: "mf_nodes fs i \<noteq> None"
  shows "memfs_inv (snd (node_truncate ro fs i n))"
proof -
  obtain r st' used' where t: "mem_truncate ro (mn_storage (node_at fs i)) (mf_pages fs) n = (r, st', used')"
    by (metis prod_cases3)
  have lim: "mf_pages fs \<le> page_limit fs" using base_invD(3) [OF memfs_invD(1) [OF inv]] by (simp add: charges_ok_def)
  show ?thesis unfolding node_truncate_def t
  proof (rule store_file_inv [OF inv i])
    show "st' = Directory es \<and> used' = mf_pages fs" if "mn_storage (node_at fs i) = Directory es" for es
      using t that by (simp add: mem_truncate_def split: if_splits)
    show "file_inv (st', used') \<and> used' + page_count (mn_storage (node_at fs i)) = mf_pages fs + page_count st' \<and> used' \<le> page_limit fs"
      if "file_inv (mn_storage (node_at fs i), mf_pages fs)"
      using mem_truncate_charge [OF that t] mem_truncate_used [OF t] lim by simp
  qed
qed

lemma mem_set_metadata_inv:
  assumes inv: "memfs_inv fs" and i: "mf_nodes fs i \<noteq> None"
  shows "memfs_inv (snd (mem_set_metadata fs i m))"
proof (cases "snd (mem_set_metadata fs i m) = fs")
  case False
  note B = memfs_invD(1) [OF inv]
  define fs' where "fs' = snd (mem_set_metadata fs i m)"
  obtain n where n: "mf_nodes fs i = Some n" using i by auto
  from False obtain u g md where fs': "fs' = set_node fs i (n\<lparr>mn_uid := u, mn_gid := g, mn_mode := md\<rparr>)"
    using n by (auto simp: fs'_def mem_set_metadata_def Let_def node_at_def split: if_splits)
  have at: "mn_parent (node_at fs' x) = mn_parent (node_at fs x)" "mn_links (node_at fs' x) = mn_links (node_at fs x)"
    "mn_type (node_at fs' x) = mn_type (node_at fs x)" "mn_storage (node_at fs' x) = mn_storage (node_at fs x)"
    "mf_nodes fs' x = None \<longleftrightarrow> mf_nodes fs x = None" "entries_of fs' x = entries_of fs x" for x
    using n by (simp_all add: fs' node_at_def entries_of_def)
  have fields: "mf_limits fs' = mf_limits fs" "mf_pages fs' = mf_pages fs" "mf_inodes fs' = mf_inodes fs"
      "mf_ns fs' = mf_ns fs" "mf_next fs' = mf_next fs" "mf_root fs' = mf_root fs" "mf_handles fs' = mf_handles fs"
    by (simp_all add: fs')
  have "fs_tree fs'"
    using base_invD(1) [OF B] unfolding fs_tree_def fields at(1-3,5) by (simp add: at(6) [abs_def])
  then have "base_inv fs'"
    by (intro base_invI_same [OF B _ fields])
      (use base_invD(2) [OF B] n at(4) in \<open>auto simp: fs' node_ok_def split: if_splits\<close>)
  moreover have "no_garbage {} fs'"
    using memfs_invD(2) [OF inv, of "{}"] unfolding no_garbage_def fields at .
  ultimately show ?thesis unfolding fs'_def by (rule memfs_invI)
qed (use inv in simp)

section \<open>The state machine\<close>

text \<open>One operation on inodes the caller holds; the last handle of the root belongs to the mounted
  file system and is not dropped.\<close>

inductive memfs_step :: "memfs \<Rightarrow> memfs \<Rightarrow> bool" where
  step_lookup: "0 < mf_handles fs d \<Longrightarrow> memfs_step fs (snd (mem_lookup fs d name))"
| step_create: "0 < mf_handles fs d \<Longrightarrow> memfs_step fs (snd (mem_create env fs d name ft))"
| step_unlink: "0 < mf_handles fs d \<Longrightarrow> memfs_step fs (snd (mem_unlink fs d name directory))"
| step_rename: "0 < mf_handles fs d \<Longrightarrow> (\<And>x. dest = This_Fs x \<Longrightarrow> 0 < mf_handles fs x) \<Longrightarrow>
    mem_rename env fs d name dest new_name = Ret (r, fs') \<Longrightarrow> memfs_step fs fs'"
| step_write: "0 < mf_handles fs i \<Longrightarrow> memfs_step fs (snd (node_write ro vo po fs i offset buf))"
| step_append: "0 < mf_handles fs i \<Longrightarrow> memfs_step fs (snd (node_append ro vo po fs i buf))"
| step_truncate: "0 < mf_handles fs i \<Longrightarrow> memfs_step fs (snd (node_truncate ro fs i n))"
| step_metadata: "0 < mf_handles fs i \<Longrightarrow> memfs_step fs (snd (mem_set_metadata fs i m))"
| step_drop: "0 < mf_handles fs i \<Longrightarrow> (i = mf_root fs \<Longrightarrow> 1 < mf_handles fs i) \<Longrightarrow> memfs_step fs (drop_handle fs i)"

lemma held_live: "memfs_inv fs \<Longrightarrow> 0 < mf_handles fs i \<Longrightarrow> mf_nodes fs i \<noteq> None"
  using base_invD(4) [OF memfs_invD(1)] by (fastforce simp: handles_ok_def)

lemma memfs_step_inv: "memfs_step fs fs' \<Longrightarrow> memfs_inv fs \<Longrightarrow> memfs_inv fs'"
proof (induction rule: memfs_step.induct)
  case (step_rename fs d dest env name new_name r fs')
  then show ?case using mem_rename_inv [OF _ _ _ step_rename.hyps(3)] held_live by blast
next
  case (step_drop fs i)
  then show ?case by (intro drop_handle_inv held_live) auto
qed (simp_all add: held_live mem_lookup_inv mem_create_inv mem_unlink_inv node_write_inv node_append_inv
    node_truncate_inv mem_set_metadata_inv del: not_None_eq)

lemma memfs_build_inv:
  assumes "0 < next_ino" "memfs_build shared_ok env next_ino limits = Inr fs"
  shows "memfs_inv fs"
proof -
  let ?n = "\<lparr>mn_parent = 0, mn_links = 2, mn_type = FtDirectory, mn_uid = to_uid (case limits of Some l \<Rightarrow> l | None \<Rightarrow> tmpfs_default),
    mn_gid = to_gid (case limits of Some l \<Rightarrow> l | None \<Rightarrow> tmpfs_default),
    mn_mode = to_mode (case limits of Some l \<Rightarrow> l | None \<Rightarrow> tmpfs_default), mn_storage = Directory []\<rparr>"
  have fs: "fs = \<lparr>mf_limits = limits, mf_pages = 0, mf_inodes = 1, mf_ns = [next_ino], mf_next = next_ino + 1,
      mf_root = next_ino, mf_nodes = [next_ino \<mapsto> ?n], mf_handles = (\<lambda>_. 0)(next_ino := 1)\<rparr>"
    and lim: "0 < inode_limit fs"
    using assms(2)
    by (auto simp: memfs_build_def inode_new_def new_node_def Let_def inode_limit_def split: if_splits)
  have E: "entries_of fs x = []" for x by (simp add: fs entries_of_def)
  have root: "node_at fs next_ino = ?n" by (simp add: fs node_at_def)
  have live: "mf_nodes fs x = None \<longleftrightarrow> x \<noteq> next_ino" for x by (simp add: fs)
  have "rooted (\<lambda>i. mf_nodes fs i \<noteq> None) (\<lambda>i. mn_parent (node_at fs i)) next_ino"
    by (rule rooted_step) (simp_all add: live root rooted_0 del: not_None_eq)
  moreover have "mf_root fs = next_ino" by (simp add: fs)
  ultimately have "fs_tree fs"
    unfolding fs_tree_def
    by (intro tree_okI) (use assms(1) root E live in \<open>auto simp del: not_None_eq\<close>)
  then show ?thesis
    using assms(1) lim by (auto simp: memfs_inv_def base_inv_def charges_ok_def handles_ok_def node_ok_def no_garbage_def
        fs node_at_def page_count_def split: if_splits)
qed

section \<open>Names\<close>

lemma position_map_of: "map_of es k = map_option (\<lambda>i. snd (es ! i)) (position (\<lambda>e. fst e = k) es)"
  by (induction es) (auto simp: option.map_comp o_def)

lemma map_of_remove_nth:
  assumes "distinct (map fst es)" "position (\<lambda>e. fst e = k) es = Some i"
  shows "map_of (remove_nth i es) k' = (if k' = k then None else map_of es k')"
proof -
  note i = position_SomeD [OF assms(2)]
  have es: "es = take i es @ es ! i # drop (Suc i) es" using id_take_nth_drop [OF i(1)] .
  have rm: "set (remove_nth i es) = {x \<in> set es. fst x \<noteq> k}"
    using set_remove_nth_distinct [OF i(1) assms(1)] i(2) by simp
  have "k \<notin> fst ` set (remove_nth i es)" unfolding rm by blast
  then have "map_of (remove_nth i es) k = None" by (simp add: map_of_eq_None_iff)
  moreover have "map_of (remove_nth i es) k' = map_of es k'" if "k' \<noteq> k"
    using arg_cong [OF es, of "\<lambda>l. map_of l k'"] that i(2) by (cases "es ! i") (simp add: remove_nth_def map_add_def split: option.split)
  ultimately show ?thesis by simp
qed

lemma map_of_append_fresh:
  assumes "k \<notin> fst ` set es"
  shows "map_of (es @ [(k, v)]) = (map_of es)(k \<mapsto> v)"
proof
  fix x
  have "map_of es k = None" using assms by (simp add: map_of_eq_None_iff)
  then show "map_of (es @ [(k, v)]) x = ((map_of es)(k \<mapsto> v)) x"
    by (cases "x = k") (simp_all add: map_add_def split: option.split)
qed

text \<open>The names a directory shows.\<close>

abbreviation names_of :: "memfs \<Rightarrow> nat \<Rightarrow> rstr \<Rightarrow> nat option" where
  "names_of fs d \<equiv> map_of (entries_of fs d)"

lemma entries_of_free:
  "entries_of (free_if_dead fs c) x = (if x = c \<and> mf_handles fs c = 0 \<and> \<not> referenced fs c then [] else entries_of fs x)"
  by (simp add: free_if_dead_def entries_of_def)

lemma names_create:
  assumes inv: "memfs_inv fs" and d: "mf_nodes fs d \<noteq> None" and r: "mem_create env fs d name ft = (Inr i, fs')"
  shows "names_of fs' x = (if x = d then (names_of fs d)(name \<mapsto> i) else names_of fs x)"
    "names_of fs d name = None" "mf_nodes fs i = None" "node_at fs' i = new_node fs ft d"
proof -
  from mem_create_eq [OF inv d r] obtain es where es: "dir_entries fs d = Inr es" "name \<notin> fst ` set es" "i = mf_next fs"
    and fs': "fs' = add_child (fs\<lparr>mf_ns := filter (\<lambda>i. mf_nodes fs i \<noteq> None) (mf_ns fs)\<rparr>) d es name ft" by blast
  have i: "mf_nodes fs i = None" using fresh_ino(1) [OF memfs_invD(1) [OF inv]] es(3) by simp
  then have id: "i \<noteq> d" using d by auto
  note D = dir_entriesD [OF memfs_invD(1) [OF inv] d es(1)]
  show "names_of fs d name = None" using es(2) D(1) by (simp add: map_of_eq_None_iff)
  show "mf_nodes fs i = None" by (fact i)
  show "node_at fs' i = new_node fs ft d"
    using id es(3) by (simp add: fs' add_child_def Let_def node_at_def new_node_def)
  have "entries_of fs' x = (if x = d then es @ [(name, i)] else entries_of fs x)"
    using id es(3) i by (auto simp: fs' add_child_def Let_def entries_of_def new_node_def node_at_def)
  moreover have "map_of (es @ [(name, i)]) = (map_of es)(name \<mapsto> i)"
    using map_of_append_fresh [OF es(2)] .
  ultimately show "names_of fs' x = (if x = d then (names_of fs d)(name \<mapsto> i) else names_of fs x)" using D(1) by simp
qed

lemma names_unlink:
  assumes inv: "memfs_inv fs" and d: "mf_nodes fs d \<noteq> None" and r: "mem_unlink fs d name directory = (Inr (), fs')"
  shows "names_of fs' x = (if x = d then (names_of fs d)(name := None) else names_of fs x)"
    "\<exists>c. names_of fs d name = Some c \<and> entries_of fs c = [] \<and> (mn_type (node_at fs c) = FtDirectory \<longleftrightarrow> directory)
       \<and> (mf_nodes fs' c = None \<longleftrightarrow> mf_handles fs c = 0)"
proof -
  note B = memfs_invD(1) [OF inv]
  from mem_unlink_Inr [OF r] obtain es ix where es: "dir_entries fs d = Inr es" and ix: "position (\<lambda>e. fst e = name) es = Some ix"
    and ty: "mn_type (node_at fs (snd (es ! ix))) = FtDirectory \<longleftrightarrow> directory"
    and emp: "mn_type (node_at fs (snd (es ! ix))) = FtDirectory \<longrightarrow> entries_of fs (snd (es ! ix)) = []"
    and fs': "fs' = free_if_dead (set_entries (detach fs d (snd (es ! ix))) d (remove_nth ix es)) (snd (es ! ix))" by blast
  let ?c = "snd (es ! ix)"
  have c0: "entries_of fs ?c = []" using emp file_no_entries [OF B] by blast
  define fs1 where "fs1 = set_entries (detach fs d ?c) d (remove_nth ix es)"
  note fs' = fs' [folded fs1_def]
  note U = unlink_base [OF B d es position_SomeD(1) [OF ix] refl c0, folded fs1_def]
  note D = dir_entriesD [OF B d es]
  have dist: "distinct (map fst es)" using tree_okD(12) [OF base_invD(1) [OF B, unfolded fs_tree_def], of d] D(1) by simp
  have "entries_of fs' x = (if x = d then remove_nth ix es else entries_of fs x)"
    unfolding fs' entries_of_free U(4) using U(10) c0 by auto
  then show "names_of fs' x = (if x = d then (names_of fs d)(name := None) else names_of fs x)"
    using map_of_remove_nth [OF dist ix] D(1) by (cases "x = d") (simp_all add: fun_eq_iff)
  have root: "?c \<noteq> mf_root fs"
    using tree_okD(11) [OF base_invD(1) [OF B, unfolded fs_tree_def], of "es ! ix" d] D(1) position_SomeD(1) [OF ix] by simp
  have "\<not> referenced fs1 ?c" using referenced_iff [OF U(1), of ?c] U(2) [of ?c] U(7) [of ?c] U(8,11) root by simp
  moreover have "mf_handles fs1 = mf_handles fs"
    by (simp add: fs1_def set_entries_def detach_def set_links_def Let_def)
  ultimately have "mf_nodes fs' ?c = None \<longleftrightarrow> mf_handles fs ?c = 0"
    using U(2) [of ?c] U(11) unfolding fs' free_if_dead_def by simp
  moreover have "names_of fs d name = Some ?c" using position_map_of [of es name] ix D(1) by simp
  ultimately show "\<exists>c. names_of fs d name = Some c \<and> entries_of fs c = [] \<and> (mn_type (node_at fs c) = FtDirectory \<longleftrightarrow> directory)
       \<and> (mf_nodes fs' c = None \<longleftrightarrow> mf_handles fs c = 0)"
    using c0 ty by (intro exI [of _ ?c] conjI)
qed

text \<open>The names after a move: the entry of the directory under the new name, gone under the old
  one, an entry it replaced gone, all else as before.\<close>

lemma names_move_entry:
  assumes dist: "distinct (map fst es)" "distinct (map snd es)" and ix: "position (\<lambda>e. fst e = name) es = Some ix" and ne: "dst \<noteq> d"
    and s: "s = snd (es ! ix)" "s \<noteq> d" "s \<noteq> dst" and E: "mf_nodes fs s \<noteq> None" and new: "new_name \<notin> fst ` set des"
  shows "map_of (entries_of (move_entry fs d (remove_nth ix es) s dst des new_name) x) =
     (if x = d then (map_of es)(name := None) else if x = dst then (map_of des)(new_name \<mapsto> s) else names_of fs x)"
proof -
  have "entries_of (move_entry fs d (remove_nth ix es) s dst des new_name) x =
     (if x = d then remove_nth ix es else if x = dst then des @ [(new_name, s)] else entries_of fs x)"
    using s ne E by (auto simp: move_entry_def set_entries_def set_links_def Let_def entries_of_def node_at_def)
  then show ?thesis
    using map_of_remove_nth [OF dist(1) ix] map_of_append_fresh [OF new] by (auto simp: fun_eq_iff)
qed

lemma map_of_rekey:
  assumes "distinct (map fst es)" "k < length es" "new \<notin> fst ` set (remove_nth k es)"
  shows "map_of (es[k := (new, v)]) = ((map_of es)(fst (es ! k) := None))(new \<mapsto> v)"
proof -
  have pos: "position (\<lambda>e. fst e = fst (es ! k)) es = Some k" by (rule position_key [OF assms(1,2)])
  have "distinct es" using assms(1) by (simp add: distinct_map)
  have rm: "set (remove_nth k es) = set es - {es ! k}"
    using set_remove_nth_distinct [of k es "\<lambda>x. x"] \<open>distinct es\<close> assms(2) by auto
  have s: "set (es[k := (new, v)]) = set ((new, v) # remove_nth k es)"
    using set_update_distinct [OF \<open>distinct es\<close> assms(2)] rm by simp
  have d: "distinct (map fst (remove_nth k es))" using assms(1) by (simp add: map_remove_nth distinct_remove_nth)
  have "distinct (map fst (es[k := (new, v)]))"
    unfolding map_update
  proof (rule distinct_list_update [OF assms(1)])
    show "fst (new, v) \<notin> set (map fst es) - {map fst es ! k}"
      using assms(2,3) rm by auto
  qed
  then have "map_of (es[k := (new, v)]) = map_of ((new, v) # remove_nth k es)"
    using map_of_inject_set [of "es[k := (new, v)]" "(new, v) # remove_nth k es"] s d assms(3) by simp
  then show ?thesis using map_of_remove_nth [OF assms(1) pos] by (auto simp: fun_eq_iff)
qed

text \<open>The effect of \<open>rename\<close> on the names.\<close>

definition renamed :: "memfs \<Rightarrow> nat \<Rightarrow> rstr \<Rightarrow> nat \<Rightarrow> rstr \<Rightarrow> nat \<Rightarrow> memfs \<Rightarrow> bool" where
  "renamed fs d name dst new_name s fs' \<longleftrightarrow>
     (\<forall>x k. names_of fs' x k =
        (if (x, k) = (dst, new_name) then Some s else if (x, k) = (d, name) then None else names_of fs x k))"

lemma names_rename_within:
  assumes inv: "memfs_inv fs" and d: "mf_nodes fs d \<noteq> None" "dir_entries fs d = Inr es"
    and s: "position (\<lambda>e. fst e = name) es = Some ix" "s = snd (es ! ix)" and neq: "name \<noteq> new_name"
    and r: "rename_within fs d es s new_name = Ret (Inr (), fs')"
  shows "renamed fs d name d new_name s fs'"
proof -
  note B = memfs_invD(1) [OF inv]
  note De = dir_entriesD [OF B d]
  note T = base_invD(1) [OF B, unfolded fs_tree_def]
  have dist: "distinct (map fst es)" "distinct (map snd es)" using tree_okD(12,13) [OF T, of d] De(1) by simp_all
  note ix = position_SomeD [OF s(1)]
  have rm: "set (remove_nth ix es) = {x \<in> set es. fst x \<noteq> name}"
    using set_remove_nth_distinct [OF ix(1) dist(1)] ix(2) by simp
  show ?thesis
  proof (cases "position (\<lambda>e. fst e = new_name) es")
    case None
    have pos: "position (\<lambda>e. snd e = s) es = Some ix" using position_key [OF dist(2) ix(1)] s(2) by simp
    have fs': "fs' = set_entries fs d (es[ix := (new_name, s)])"
      using r None pos by (simp add: rename_within_def Let_def del: position_None)
    have E: "entries_of fs' x = (if x = d then es[ix := (new_name, s)] else entries_of fs x)" for x
      by (simp add: fs' set_entries_def)
    have "new_name \<notin> fst ` set (remove_nth ix es)" unfolding rm using None by auto
    from map_of_rekey [OF dist(1) ix(1) this] ix(2) neq De(1) show ?thesis
      by (auto simp: renamed_def E)
  next
    case (Some t)
    note t = position_SomeD(1,2) [OF Some]
    let ?c = "snd (es ! t)" and ?es = "remove_nth t es"
    have cr: "can_replace {d} fs s ?c = Ret (Inr ())"
    proof (rule ccontr)
      assume "\<not> ?thesis"
      then show False using r Some by (elim outcome_not_Inr) (simp_all add: rename_within_def Let_def)
    qed
    have "t \<noteq> ix" using t(2) ix(2) neq by auto
    then have "s \<noteq> ?c" using dist(2) t(1) ix(1) s(2) by (auto simp: distinct_conv_nth)
    moreover have "es ! ix \<in> set es" using ix(1) by simp
    ultimately have "es ! ix \<in> set ?es"
      using set_remove_nth_distinct [OF t(1) dist(2)] s(2) by simp
    then obtain k where k: "k < length ?es" "?es ! k = es ! ix" by (metis in_set_conv_nth)
    have d': "distinct (map fst ?es)" "distinct (map snd ?es)"
      using dist distinct_remove_nth by (metis map_remove_nth)+
    from position_key [OF d'(2) k(1)] have pos: "position (\<lambda>e. snd e = s) ?es = Some k" using k(2) s(2) by simp
    have fs': "fs' = free_if_dead (set_entries (detach fs d ?c) d (?es[k := (new_name, s)])) ?c"
      using r Some cr pos by (simp add: rename_within_def Let_def del: position_None)
    note c0 = can_replace_Inr(1) [OF B cr]
    have cd: "?c \<noteq> d" using c0 De(1) t(1) by auto
    have cn: "mf_nodes fs ?c \<noteq> None" using tree_okD(8) [OF T, of "es ! t" d] De(1) t(1) by simp
    have "entries_of (set_entries (detach fs d ?c) d (?es[k := (new_name, s)])) x =
       (if x = d then ?es[k := (new_name, s)] else entries_of fs x)" for x
      using cd cn by (auto simp: detach_def set_links_def set_entries_def Let_def entries_of_def node_at_def)
    then have E: "entries_of fs' x = (if x = d then ?es[k := (new_name, s)] else entries_of fs x)" for x
      unfolding fs' entries_of_free using c0 cd by auto
    have "set (remove_nth k ?es) \<subseteq> set ?es" by (rule set_remove_nth_subset)
    moreover have "new_name \<notin> fst ` set ?es"
      unfolding set_remove_nth_distinct [OF t(1) dist(1)] t(2) by blast
    ultimately have "new_name \<notin> fst ` set (remove_nth k ?es)" by blast
    from map_of_rekey [OF d'(1) k(1) this, of s] map_of_remove_nth [OF dist(1) Some] k(2) ix(2) De(1) neq
    show ?thesis by (auto simp: renamed_def E)
  qed
qed


lemma child_facts:
  assumes inv: "memfs_inv fs" and d: "mf_nodes fs d \<noteq> None" "dir_entries fs d = Inr es" and k: "k < length es"
  shows "mf_nodes fs (snd (es ! k)) \<noteq> None" "mn_parent (node_at fs (snd (es ! k))) = d" "snd (es ! k) \<noteq> d"
    "mn_links (node_at fs (snd (es ! k))) \<noteq> 0"
proof -
  note T = base_invD(1) [OF memfs_invD(1) [OF inv], unfolded fs_tree_def]
  have e: "es ! k \<in> set (entries_of fs d)" using k dir_entriesD(1) [OF memfs_invD(1) [OF inv] d] by simp
  show live: "mf_nodes fs (snd (es ! k)) \<noteq> None" "mn_parent (node_at fs (snd (es ! k))) = d"
    "mn_links (node_at fs (snd (es ! k))) \<noteq> 0"
    using tree_okD(8-10) [OF T e] by simp_all
  show "snd (es ! k) \<noteq> d"
    using rooted_par_neq [OF tree_okD(17) [OF T live(1,3)] tree_okD(1) [OF T] live(1)] live(2) by auto
qed

lemma names_rename_across:
  assumes inv: "memfs_inv fs" and d: "mf_nodes fs d \<noteq> None" "dir_entries fs d = Inr es"
    and dst: "mf_nodes fs dst \<noteq> None" "dst \<noteq> d"
    and ix: "position (\<lambda>e. fst e = name) es = Some ix" and s: "s = snd (es ! ix)" "s \<noteq> dst"
    and r: "rename_across env fs d es ix s dst new_name = Ret (Inr (), fs')"
  shows "renamed fs d name dst new_name s fs'"
proof (cases "dir_entries fs dst")
  case (Inl e)
  with r show ?thesis by (simp add: rename_across_def)
next
  case (Inr des)
  note B = memfs_invD(1) [OF inv]
  note T = base_invD(1) [OF B, unfolded fs_tree_def]
  note D1 = dir_entriesD [OF B d] and D2 = dir_entriesD [OF B dst(1) Inr]
  have dist: "distinct (map fst es)" "distinct (map snd es)" "distinct (map fst des)"
    using tree_okD(12,13) [OF T, of d] tree_okD(12) [OF T, of dst] D1(1) D2(1) by simp_all
  note c = child_facts [OF inv d position_SomeD(1) [OF ix], folded s(1)]
  show ?thesis
  proof (cases "position (\<lambda>e. fst e = new_name) des")
    case None
    then have fs': "fs' = move_entry fs d (remove_nth ix es) s dst des new_name"
      using r Inr by (simp add: rename_across_def del: position_None split: if_splits)
    have "new_name \<notin> fst ` set des" using None by auto
    from names_move_entry [OF dist(1,2) ix dst(2) s(1) c(3) s(2) c(1) this, folded fs'] D1(1) D2(1) dst(2)
    show ?thesis by (auto simp: renamed_def)
  next
    case (Some t)
    note t = position_SomeD(1,2) [OF Some]
    let ?c = "snd (des ! t)"
    have cr: "can_replace {d, dst} fs s ?c = Ret (Inr ())"
    proof (rule ccontr)
      assume "\<not> ?thesis"
      then show False using r Some Inr by (elim outcome_not_Inr) (simp_all add: rename_across_def)
    qed
    have fs': "fs' = free_if_dead (move_entry (detach fs dst ?c) d (remove_nth ix es) s dst (remove_nth t des) new_name) ?c"
      using r Some Inr cr by (simp add: rename_across_def)
    note c0 = can_replace_Inr(1) [OF B cr]
    note ct = child_facts [OF inv dst(1) Inr t(1)]
    have cd: "?c \<noteq> d" using c0 D1(1) position_SomeD(1) [OF ix] by auto
    have cs: "?c \<noteq> s" using c(2) ct(2) dst(2) by auto
    let ?fs1 = "detach fs dst ?c"
    have E1: "entries_of ?fs1 x = entries_of fs x" for x
      using ct dst(1) by (auto simp: detach_def set_links_def Let_def entries_of_def node_at_def)
    have live: "mf_nodes ?fs1 s \<noteq> None" using c(1) by (auto simp: detach_def set_links_def Let_def)
    have "new_name \<notin> fst ` set (remove_nth t des)"
      unfolding set_remove_nth_distinct [OF t(1) dist(3)] t(2) by blast
    note N = names_move_entry [OF dist(1,2) ix dst(2) s(1) c(3) s(2) live this]
    have c1: "names_of (move_entry ?fs1 d (remove_nth ix es) s dst (remove_nth t des) new_name) ?c = Map.empty"
      unfolding N using cd ct(3) E1 c0 by simp
    have "names_of fs' x = names_of (move_entry ?fs1 d (remove_nth ix es) s dst (remove_nth t des) new_name) x" for x
      unfolding fs' entries_of_free using c1 by auto
    then show ?thesis
      using N map_of_remove_nth [OF dist(3) Some] D1(1) D2(1) dst(2) E1 by (simp add: renamed_def fun_eq_iff)
  qed
qed

lemma ancestor_check_self: "ancestor_check fs s s = Some (Inr ()) \<Longrightarrow> s = 0"
  by (subst (asm) ancestor_check.simps) (auto split: if_splits)


section \<open>A rename that never returns\<close>

lemma can_replace_hang:
  "can_replace held fs s t = Hang \<longleftrightarrow>
     mn_type (node_at fs s) = FtDirectory \<and> mn_type (node_at fs t) = FtDirectory \<and> t \<in> held"
  by (cases "mn_type (node_at fs s)"; cases "mn_type (node_at fs t)"; simp add: can_replace_def)

lemma rename_within_hang:
  assumes inv: "memfs_inv fs" and d: "mf_nodes fs d \<noteq> None" "dir_entries fs d = Inr es"
  shows "rename_within fs d es s new_name \<noteq> Hang"
proof (cases "position (\<lambda>e. fst e = new_name) es")
  case (Some t)
  from child_facts(3) [OF inv d position_SomeD(1) [OF Some]]
  have "can_replace {d} fs s (snd (es ! t)) \<noteq> Hang" by (simp add: can_replace_hang)
  with Some show ?thesis
    by (cases "can_replace {d} fs s (snd (es ! t))") (auto simp: rename_within_def Let_def split: sum.splits prod.splits)
qed (simp add: rename_within_def Let_def del: position_None)

lemma rename_across_hang:
  assumes inv: "memfs_inv fs" and d: "mf_nodes fs d \<noteq> None" "mn_type (node_at fs d) = FtDirectory" and dst: "mf_nodes fs dst \<noteq> None"
  shows "rename_across env fs d es ix s dst new_name = Hang \<longleftrightarrow>
     mn_type (node_at fs s) = FtDirectory \<and> names_of fs dst new_name = Some d"
proof (cases "dir_entries fs dst")
  case (Inl e)
  then have "entries_of fs dst = []"
    using dst by (auto simp: entries_of_def dir_entries_def node_at_def split: storage.splits)
  with Inl show ?thesis by (simp add: rename_across_def)
next
  case (Inr des)
  note D = dir_entriesD(1) [OF memfs_invD(1) [OF inv] dst Inr]
  show ?thesis
  proof (cases "position (\<lambda>e. fst e = new_name) des")
    case None
    then show ?thesis using Inr D position_map_of [of des new_name]
      by (simp add: rename_across_def del: position_None)
  next
    case (Some t)
    let ?c = "snd (des ! t)"
    have "rename_across env fs d es ix s dst new_name = Hang \<longleftrightarrow> can_replace {d, dst} fs s ?c = Hang"
      using Some Inr by (cases "can_replace {d, dst} fs s ?c") (auto simp: rename_across_def split: sum.splits)
    also have "\<dots> \<longleftrightarrow> mn_type (node_at fs s) = FtDirectory \<and> ?c = d"
      using child_facts(3) [OF inv dst Inr position_SomeD(1) [OF Some]] d(2) by (auto simp: can_replace_hang)
    finally show ?thesis using position_map_of [of des new_name] Some D by auto
  qed
qed

text \<open>The two outcomes of \<open>rename\<close>: a check fails and nothing changes, or the entry is looked
  at.\<close>

lemma mem_rename_cases:
  assumes d: "mf_nodes fs d \<noteq> None"
  obtains (failed) r where "mem_rename env fs d name (This_Fs dst) new_name = Ret (r, fs)"
      "\<not> (validate_name name = Inr () \<and> validate_name new_name = Inr () \<and> mn_links (node_at fs dst) \<noteq> 0
        \<and> dst \<noteq> d \<and> (\<exists>s. names_of fs d name = Some s))"
      "\<not> (d = dst \<and> name = new_name) \<Longrightarrow> r \<noteq> Inr ()"
  | (checked) es ix where "validate_name name = Inr ()" "validate_name new_name = Inr ()" "mn_links (node_at fs dst) \<noteq> 0"
      "dir_entries fs d = Inr es" "position (\<lambda>e. fst e = name) es = Some ix" "\<not> (d = dst \<and> name = new_name)"
proof (cases "validate_name name = Inr () \<and> validate_name new_name = Inr () \<and> mn_links (node_at fs dst) \<noteq> 0")
  case False
  have "\<exists>e. mem_rename env fs d name (This_Fs dst) new_name = Ret (Inl e, fs)"
    using False by (cases "validate_name name"; cases "validate_name new_name") (simp_all add: mem_rename_def)
  with False failed show thesis by auto
next
  case True
  show thesis
  proof (cases "dir_entries fs d")
    case (Inl e)
    then have "entries_of fs d = []"
      using d by (auto simp: entries_of_def dir_entries_def node_at_def split: storage.splits)
    with True Inl show thesis by (intro failed [of "Inl e"]) (simp_all add: mem_rename_def)
  next
    case (Inr es)
    then have es: "entries_of fs d = es"
      using d by (auto simp: entries_of_def dir_entries_def node_at_def split: storage.splits)
    show thesis
    proof (cases "position (\<lambda>e. fst e = name) es")
      case None
      with True Inr es position_map_of [of es name] show thesis
        by (intro failed [of "Inl NotFound"]) (simp_all add: mem_rename_def del: position_None)
    next
      case (Some ix)
      show thesis
      proof (cases "d = dst \<and> name = new_name")
        case True
        with Some Inr \<open>_ \<and> _ \<and> mn_links (node_at fs dst) \<noteq> 0\<close> show thesis
          by (intro failed [of "Inr ()"]) (simp_all add: mem_rename_def Let_def)
      qed (use checked True Inr Some in blast)
    qed
  qed
qed

section \<open>A small file system\<close>

definition env_ok :: alloc_env where
  "env_ok = \<lparr>ae_name = True, ae_entries = True, ae_nodes = True, ae_arc = True\<rparr>"

definition demo_options :: tmpfs_options where
  "demo_options = \<lparr>to_size = 0, to_nr_inodes = 8, to_mode = 5, to_uid = 0, to_gid = 0\<rparr>"

definition demo_root :: memfs where
  "demo_root = (case memfs_build True env_ok 1 (Some demo_options) of Inr fs \<Rightarrow> fs)"

definition demo_tree :: memfs where
  "demo_tree = (let mk = (\<lambda>fs d name. snd (mem_create env_ok fs d name FtDirectory))
     in mk (mk (mk demo_root 1 (lit ''a'')) 2 (lit ''b'')) 3 (lit ''d''))"

lemmas demo_defs = demo_tree_def demo_root_def demo_options_def memfs_build_def inode_new_def env_ok_def
  inode_limit_def mem_create_def validate_name_def lit_def str_len_def utf8_width_def dir_entries_def node_at_def
  new_node_def Let_def set_entries_def set_links_def set_node_def

lemma demo_root_build: "memfs_build True env_ok 1 (Some demo_options) = Inr demo_root"
  by (simp add: demo_defs)

lemma demo_tree_inv: "memfs_inv demo_tree"
proof -
  have "memfs_inv demo_root" using memfs_build_inv [OF _ demo_root_build] by simp
  then show ?thesis
    unfolding demo_tree_def Let_def by (intro mem_create_inv) (simp_all add: demo_defs)
qed

section \<open>Properties\<close>

text \<open>C1: Every state that the operations reach from a new file system satisfies the invariant: the
  linked inodes form a tree under the root with unique names and exact link counts, the inode and
  page counters are exact and never exceed the limits of the mount, file contents are well formed,
  and an inode that nothing refers to is freed.\<close>

theorem memfs_reachable_invariant:
  assumes "0 < next_ino" "memfs_build shared_ok env next_ino limits = Inr fs0" "memfs_step\<^sup>*\<^sup>* fs0 fs"
  shows "memfs_inv fs"
  using assms(3) memfs_build_inv [OF assms(1,2)] by (induction) (auto intro: memfs_step_inv)

theorem memfs_reachable_invariant_witness:
  "memfs_inv (snd (mem_create env_ok demo_root 1 (lit ''a'') FtDirectory))
   \<and> fst (mem_create env_ok demo_root 1 (lit ''a'') FtDirectory) = Inr 2"
proof -
  have "memfs_step demo_root (snd (mem_create env_ok demo_root 1 (lit ''a'') FtDirectory))"
    by (rule step_create) (simp add: demo_defs)
  then have "memfs_inv (snd (mem_create env_ok demo_root 1 (lit ''a'') FtDirectory))"
    using memfs_reachable_invariant [OF _ demo_root_build r_into_rtranclp] by simp
  moreover have "fst (mem_create env_ok demo_root 1 (lit ''a'') FtDirectory) = Inr 2"
    by (simp add: demo_defs)
  ultimately show ?thesis ..
qed

text \<open>C22: A rename that succeeds moves the entry: the new name refers to the inode the old name
  referred to, the old name is gone, and every other name of every directory is as before.\<close>

theorem memfs_rename_names:
  assumes inv: "memfs_inv fs" and d: "mf_nodes fs d \<noteq> None" "mf_nodes fs dst \<noteq> None"
    and ne: "\<not> (d = dst \<and> name = new_name)"
    and r: "mem_rename env fs d name (This_Fs dst) new_name = Ret (Inr (), fs')"
  shows "\<exists>s. names_of fs d name = Some s \<and> (\<forall>x k. names_of fs' x k =
     (if (x, k) = (dst, new_name) then Some s else if (x, k) = (d, name) then None else names_of fs x k))"
proof (rule mem_rename_cases [OF d(1), of env name dst new_name])
  fix es ix assume c: "validate_name name = Inr ()" "validate_name new_name = Inr ()" "mn_links (node_at fs dst) \<noteq> 0"
    "dir_entries fs d = Inr es" "position (\<lambda>e. fst e = name) es = Some ix" "\<not> (d = dst \<and> name = new_name)"
  let ?s = "snd (es ! ix)"
  note eq = mem_rename_checked [OF c, of env]
  have es: "entries_of fs d = es" using dir_entriesD(1) [OF memfs_invD(1) [OF inv] d(1) c(4)] .
  then have s: "names_of fs d name = Some ?s" using position_map_of [of es name] c(5) by simp
  have anc: "mn_type (node_at fs ?s) = FtDirectory \<Longrightarrow> ancestor_check fs ?s dst = Some (Inr ())" and
    r': "(if d = dst then rename_within fs d es ?s new_name else rename_across env fs d es ix ?s dst new_name) = Ret (Inr (), fs')"
    using r unfolding eq by (auto split: option.splits sum.splits if_splits)
  have "renamed fs d name dst new_name ?s fs'"
  proof (cases "d = dst")
    case True
    with names_rename_within [OF inv d(1) c(4,5) refl] c(6) r' show ?thesis by auto
  next
    case False
    have "?s \<noteq> dst"
    proof
      assume "?s = dst"
      show False
      proof (cases "mn_type (node_at fs ?s) = FtDirectory")
        case True
        from anc [OF this] \<open>?s = dst\<close> have "?s = 0" using ancestor_check_self by simp
        then show False
          using tree_okD(1) [OF base_invD(1) [OF memfs_invD(1) [OF inv], unfolded fs_tree_def]]
            child_facts(1) [OF inv d(1) c(4) position_SomeD(1) [OF c(5)]] by simp
      next
        case False
        then have "dir_entries fs dst = Inl NotADirectory"
          using dir_entriesD(2) [OF memfs_invD(1) [OF inv] d(2)] \<open>?s = dst\<close>
          by (auto simp: dir_entries_def split: storage.splits)
        with r' \<open>d \<noteq> dst\<close> show False by (simp add: rename_across_def)
      qed
    qed
    with names_rename_across [OF inv d(1) c(4) d(2) _ c(5) refl] False r' show ?thesis by auto
  qed
  with s show ?thesis by (auto simp: renamed_def)
qed (use r ne in auto)

theorem memfs_rename_names_witness:
  "\<exists>fs'. mem_rename env_ok demo_tree 3 (lit ''d'') (This_Fs 1) (lit ''e'') = Ret (Inr (), fs')
     \<and> names_of fs' 1 (lit ''e'') = Some 4 \<and> names_of fs' 3 (lit ''d'') = None \<and> names_of fs' 1 (lit ''a'') = Some 2"
proof -
  have "\<exists>fs'. mem_rename env_ok demo_tree 3 (lit ''d'') (This_Fs 1) (lit ''e'') = Ret (Inr (), fs')"
    by (simp add: demo_defs mem_rename_def rename_across_def ancestor_check.simps)
  then obtain fs' where r: "mem_rename env_ok demo_tree 3 (lit ''d'') (This_Fs 1) (lit ''e'') = Ret (Inr (), fs')" ..
  have names: "names_of demo_tree 3 (lit ''d'') = Some 4" "names_of demo_tree 1 (lit ''a'') = Some 2"
    by (simp_all add: demo_defs entries_of_def)
  show ?thesis
    using memfs_rename_names [OF demo_tree_inv _ _ _ r] r names by (auto simp: demo_defs)
qed

text \<open>C19: On a consistent file system \<open>rename\<close> always returns, with one exception: it never returns
  when a directory is renamed onto the directory it is in, because it waits for a lock that it
  holds itself.\<close>

theorem memfs_rename_hang:
  assumes inv: "memfs_inv fs" and d: "mf_nodes fs d \<noteq> None" "mf_nodes fs dst \<noteq> None"
  shows "mem_rename env fs d name (This_Fs dst) new_name = Hang \<longleftrightarrow>
     validate_name name = Inr () \<and> validate_name new_name = Inr () \<and> mn_links (node_at fs dst) \<noteq> 0
     \<and> dst \<noteq> d \<and> ae_name env \<and> names_of fs dst new_name = Some d
     \<and> (\<exists>s. names_of fs d name = Some s \<and> mn_type (node_at fs s) = FtDirectory \<and> ancestor_check fs s dst = Some (Inr ()))"
proof (rule mem_rename_cases [OF d(1), of env name dst new_name])
  fix es ix assume c: "validate_name name = Inr ()" "validate_name new_name = Inr ()" "mn_links (node_at fs dst) \<noteq> 0"
    "dir_entries fs d = Inr es" "position (\<lambda>e. fst e = name) es = Some ix" "\<not> (d = dst \<and> name = new_name)"
  let ?s = "snd (es ! ix)"
  define a where "a = (if mn_type (node_at fs ?s) = FtDirectory then ancestor_check fs ?s dst else Some (Inr ()))"
  note eq = mem_rename_checked [OF c, of env, folded a_def]
  note B = memfs_invD(1) [OF inv]
  note D = dir_entriesD [OF B d(1) c(4)]
  have s: "names_of fs d name = Some ?s" using position_map_of [of es name] c(5) D(1) by simp
  have "dom (mf_nodes fs) \<subseteq> set (mf_ns fs)" using base_invD(2) [OF B] by (auto simp: node_ok_def)
  from ancestor_check_ends [OF tree_okD(17) [OF base_invD(1) [OF B, unfolded fs_tree_def] d(2) c(3)] this, of ?s]
  obtain u where u: "a = Some u" by (cases "mn_type (node_at fs ?s) = FtDirectory") (auto simp: a_def)
  note h = rename_within_hang [OF inv d(1) c(4), of ?s new_name] rename_across_hang [OF inv d(1) D(2) d(2), of env es ix ?s new_name]
  show ?thesis
  proof (cases u)
    case (Inl e)
    then have "\<not> (mn_type (node_at fs ?s) = FtDirectory \<and> ancestor_check fs ?s dst = Some (Inr ()))"
      using u by (auto simp: a_def)
    with Inl u s show ?thesis unfolding eq by auto
  next
    case (Inr v)
    with u have "mem_rename env fs d name (This_Fs dst) new_name = Hang \<longleftrightarrow>
        ae_name env \<and> dst \<noteq> d \<and> mn_type (node_at fs ?s) = FtDirectory \<and> names_of fs dst new_name = Some d"
      unfolding eq using h by auto
    moreover have "mn_type (node_at fs ?s) = FtDirectory \<Longrightarrow> ancestor_check fs ?s dst = Some (Inr ())"
      using u Inr by (simp add: a_def)
    ultimately show ?thesis using c(1-3) s by auto
  qed
qed auto

theorem memfs_rename_hang_witness:
  "mem_rename env_ok demo_tree 3 (lit ''d'') (This_Fs 2) (lit ''b'') = Hang"
proof -
  have "mf_nodes demo_tree 3 \<noteq> None" "mf_nodes demo_tree 2 \<noteq> None" by (simp_all add: demo_defs)
  from memfs_rename_hang [OF demo_tree_inv this, of env_ok "lit ''d''" "lit ''b''"] show ?thesis
    by (simp add: demo_defs entries_of_def ancestor_check.simps)
qed

text \<open>C23: Creating a name that was free gives a fresh inode of the requested kind under that name;
  unlinking needs an empty directory or a file, removes the name, and frees the inode exactly
  when no open handle is left. Neither touches any other name.\<close>

theorem memfs_create_unlink_names:
  assumes inv: "memfs_inv fs" and d: "mf_nodes fs d \<noteq> None"
  shows "(\<forall>i fs'. mem_create env fs d name ft = (Inr i, fs') \<longrightarrow>
       names_of fs d name = None \<and> mf_nodes fs i = None \<and> mn_type (node_at fs' i) = ft
       \<and> (\<forall>x. names_of fs' x = (if x = d then (names_of fs d)(name \<mapsto> i) else names_of fs x)))
   \<and> (\<forall>fs'. mem_unlink fs d name directory = (Inr (), fs') \<longrightarrow>
       (\<exists>c. names_of fs d name = Some c \<and> entries_of fs c = []
          \<and> (mn_type (node_at fs c) = FtDirectory \<longleftrightarrow> directory) \<and> (mf_nodes fs' c = None \<longleftrightarrow> mf_handles fs c = 0))
       \<and> (\<forall>x. names_of fs' x = (if x = d then (names_of fs d)(name := None) else names_of fs x)))"
proof (intro conjI allI impI)
  fix i fs' assume "mem_create env fs d name ft = (Inr i, fs')"
  from names_create [OF inv d this] show "names_of fs d name = None" "mf_nodes fs i = None" "mn_type (node_at fs' i) = ft"
    "\<And>x. names_of fs' x = (if x = d then (names_of fs d)(name \<mapsto> i) else names_of fs x)"
    by (simp_all add: new_node_def Let_def)
next
  fix fs' assume "mem_unlink fs d name directory = (Inr (), fs')"
  from names_unlink [OF inv d this] show
    "\<exists>c. names_of fs d name = Some c \<and> entries_of fs c = []
       \<and> (mn_type (node_at fs c) = FtDirectory \<longleftrightarrow> directory) \<and> (mf_nodes fs' c = None \<longleftrightarrow> mf_handles fs c = 0)"
    "\<And>x. names_of fs' x = (if x = d then (names_of fs d)(name := None) else names_of fs x)" by simp_all
qed

theorem memfs_create_unlink_names_witness:
  "\<exists>fs'. mem_unlink demo_tree 3 (lit ''d'') True = (Inr (), fs')
     \<and> names_of fs' 3 (lit ''d'') = None \<and> names_of fs' 2 (lit ''b'') = Some 3"
proof -
  have r: "fst (mem_unlink demo_tree 3 (lit ''d'') True) = Inr ()"
    by (simp add: demo_defs mem_unlink_def entries_of_def)
  then obtain fs' where r: "mem_unlink demo_tree 3 (lit ''d'') True = (Inr (), fs')" by (metis prod.collapse)
  have names: "names_of demo_tree 2 (lit ''b'') = Some 3" "mf_nodes demo_tree 3 \<noteq> None"
    by (simp_all add: demo_defs entries_of_def)
  show ?thesis
    using memfs_create_unlink_names [OF demo_tree_inv names(2), of env_ok "lit ''d''" FtRegular True] r names by simp
qed

end
