(* ===== verification/Rust_Num.thy ===== *)
theory Rust_Num
  imports Rust_Str
begin

text \<open>
  Numbers as text: \<open>from_str_radix\<close> of the unsigned integer types, whose case of radix ten is \<open>parse\<close>, and
  the decimal and hexadecimal digits of a number.
\<close>

definition digit_val :: "nat \<Rightarrow> nat \<Rightarrow> nat option" where
  "digit_val radix c =
     (let v = (if 48 \<le> c \<and> c \<le> 57 then Some (c - 48)
               else if 97 \<le> c \<and> c \<le> 122 then Some (c - 87)
               else if 65 \<le> c \<and> c \<le> 90 then Some (c - 55) else None)
      in case v of None \<Rightarrow> None | Some d \<Rightarrow> if d < radix then Some d else None)"

fun digits_val :: "nat \<Rightarrow> nat \<Rightarrow> rstr \<Rightarrow> nat option" where
  "digits_val radix acc [] = Some acc"
| "digits_val radix acc (c # s) = (case digit_val radix c of None \<Rightarrow> None | Some d \<Rightarrow> digits_val radix (acc * radix + d) s)"

text \<open>A sign \<open>+\<close> is accepted; no digits, another character and a value above \<open>mx\<close> are errors.\<close>

definition from_str_radix :: "nat \<Rightarrow> nat \<Rightarrow> rstr \<Rightarrow> nat option" where
  "from_str_radix radix mx s =
     (let t = (case s of [] \<Rightarrow> [] | c # u \<Rightarrow> if c = 43 then u else s)
      in if t = [] then None
         else case digits_val radix 0 t of None \<Rightarrow> None | Some v \<Rightarrow> if v \<le> mx then Some v else None)"

text \<open>The digits that \<open>Display\<close> prints.\<close>

fun decimal :: "nat \<Rightarrow> rstr" where
  "decimal n = (if n < 10 then [48 + n] else decimal (n div 10) @ [48 + n mod 10])"

declare decimal.simps [simp del]

lemma digits_val_append: "digits_val r acc (s @ t) = (case digits_val r acc s of None \<Rightarrow> None | Some v \<Rightarrow> digits_val r v t)"
  by (induction s arbitrary: acc) (auto split: option.split)

lemma digit_val_decimal: "d < 10 \<Longrightarrow> digit_val 10 (48 + d) = Some d"
  by (simp add: digit_val_def Let_def)

lemma digits_val_decimal: "digits_val 10 0 (decimal n) = Some n"
proof (induction n rule: decimal.induct)
  case (1 n)
  show ?case
  proof (cases "n < 10")
    case True
    then show ?thesis using digit_val_decimal [of n] by (subst decimal.simps) simp
  next
    case False
    then show ?thesis using 1 digit_val_decimal [of "n mod 10"] by (subst decimal.simps) (simp add: digits_val_append)
  qed
qed

lemma decimal_digits: "c \<in> set (decimal n) \<Longrightarrow> 48 \<le> c \<and> c \<le> 57"
  by (induction n rule: decimal.induct) (subst (asm) (2) decimal.simps, auto split: if_splits)

lemma decimal_not_Nil [simp]: "decimal n \<noteq> []"
  by (subst decimal.simps) simp

lemma parse_decimal: "n \<le> mx \<Longrightarrow> from_str_radix 10 mx (decimal n) = Some n"
proof -
  assume n: "n \<le> mx"
  obtain c u where c: "decimal n = c # u" by (cases "decimal n") auto
  have "c \<noteq> 43" using decimal_digits [of c n] c by auto
  then show ?thesis using n c digits_val_decimal [of n] by (simp add: from_str_radix_def)
qed

text \<open>Eight lower-case hexadecimal digits.\<close>

definition hex_digit :: "nat \<Rightarrow> nat" where
  "hex_digit d = (if d < 10 then 48 + d else 87 + d)"

fun hex_fixed :: "nat \<Rightarrow> nat \<Rightarrow> rstr" where
  "hex_fixed 0 n = []"
| "hex_fixed (Suc k) n = hex_fixed k (n div 16) @ [hex_digit (n mod 16)]"

lemma length_hex_fixed [simp]: "length (hex_fixed k n) = k"
  by (induction k arbitrary: n) simp_all

lemma digit_val_hex: "d < 16 \<Longrightarrow> digit_val 16 (hex_digit d) = Some d"
  by (auto simp: digit_val_def hex_digit_def Let_def)

lemma hex_fixed_chars: "c \<in> set (hex_fixed k n) \<Longrightarrow> 48 \<le> c \<and> c \<le> 102"
proof (induction k arbitrary: n)
  case (Suc k)
  have "n mod 16 < 16" by simp
  with Suc show ?case by (auto simp: hex_digit_def)
qed simp

lemma digits_val_hex: "n < 16 ^ k \<Longrightarrow> digits_val 16 0 (hex_fixed k n) = Some n"
proof (induction k arbitrary: n)
  case (Suc k)
  then have "n div 16 < 16 ^ k" by (simp add: less_mult_imp_div_less mult.commute)
  with Suc show ?case using digit_val_hex [of "n mod 16"] by (simp add: digits_val_append)
qed simp

lemma parse_hex: "0 < k \<Longrightarrow> n < 16 ^ k \<Longrightarrow> n \<le> mx \<Longrightarrow> from_str_radix 16 mx (hex_fixed k n) = Some n"
proof -
  assume a: "0 < k" "n < 16 ^ k" "n \<le> mx"
  obtain c u where c: "hex_fixed k n = c # u" using a(1) length_hex_fixed [of k n] by (cases "hex_fixed k n") auto
  have "c \<noteq> 43" using hex_fixed_chars [of c k n] c by auto
  then show ?thesis using a c digits_val_hex [OF a(2)] by (simp add: from_str_radix_def)
qed

end
