(* ===== verification/Initrd.thy ===== *)
theory Initrd
  imports Vfs_Path Utf8 Rust_Num User_Paging
begin

text \<open>
  The initial RAM disk (\<open>fs/initrd.rs\<close>): a cpio archive in the format \<open>newc\<close> is parsed into a tree of
  read-only inodes. The reference is a writer of such archives.
\<close>

unbundle bit_operations_syntax

section \<open>Inodes\<close>

datatype initrd_inode =
    InitrdFile file_type "u8 list"
  | InitrdDirectory "(rstr \<times> initrd_inode) list"

definition initrd_read :: "initrd_inode \<Rightarrow> nat \<Rightarrow> nat \<Rightarrow> u8 list fs_result" where
  "initrd_read i offset n =
     (case i of
        InitrdFile _ bytes \<Rightarrow>
          if offset \<ge> length bytes then Inr [] else Inr (take (min n (length bytes - offset)) (drop offset bytes))
      | InitrdDirectory _ \<Rightarrow> Inl IsADirectory)"

definition initrd_write :: "initrd_inode \<Rightarrow> nat \<Rightarrow> u8 list \<Rightarrow> nat fs_result" where
  "initrd_write i offset bytes = Inl NotSupported"

definition initrd_lookup :: "initrd_inode \<Rightarrow> rstr \<Rightarrow> initrd_inode fs_result" where
  "initrd_lookup i name =
     (case i of
        InitrdDirectory children \<Rightarrow> (case List.find (\<lambda>c. fst c = name) children of None \<Rightarrow> Inl NotFound | Some c \<Rightarrow> Inr (snd c))
      | InitrdFile _ _ \<Rightarrow> Inl NotADirectory)"

definition initrd_create :: "initrd_inode \<Rightarrow> rstr \<Rightarrow> file_type \<Rightarrow> initrd_inode fs_result" where
  "initrd_create i name ft = Inl NotSupported"

definition initrd_file_type :: "initrd_inode \<Rightarrow> file_type" where
  "initrd_file_type i = (case i of InitrdFile ft _ \<Rightarrow> ft | InitrdDirectory _ \<Rightarrow> FtDirectory)"

definition initrd_size :: "initrd_inode \<Rightarrow> nat" where
  "initrd_size i = (case i of InitrdFile _ bytes \<Rightarrow> length bytes | InitrdDirectory children \<Rightarrow> length children)"

text \<open>\<open>readdir\<close>: \<open>visit n\<close> answers whether to go on after the \<open>n\<close>-th entry. The result is the entries that
  were visited and the new cursor.\<close>

function readdir_loop :: "(rstr \<times> initrd_inode) list \<Rightarrow> (nat \<Rightarrow> bool) \<Rightarrow> nat \<Rightarrow> (rstr \<times> file_type) list \<times> nat" where
  "readdir_loop children visit index =
     (if \<not> index < length children then ([], index)
      else let (name, inode) = children ! index; e = (name, initrd_file_type inode)
           in if visit index then (let (es, n) = readdir_loop children visit (index + 1) in (e # es, n)) else ([e], index + 1))"
  by pat_completeness auto
termination by (relation "measure (\<lambda>(cs, _, i). length cs - i)") auto

definition initrd_readdir :: "initrd_inode \<Rightarrow> nat \<Rightarrow> (nat \<Rightarrow> bool) \<Rightarrow> ((rstr \<times> file_type) list \<times> nat) fs_result" where
  "initrd_readdir i cursor visit =
     (case i of InitrdDirectory children \<Rightarrow> Inr (readdir_loop children visit cursor) | InitrdFile _ _ \<Rightarrow> Inl NotADirectory)"

section \<open>The builder\<close>

datatype builder_node =
    BuilderFile file_type "u8 list"
  | BuilderDirectory "(rstr \<times> builder_node) list"

definition node_file_type :: "builder_node \<Rightarrow> file_type" where
  "node_file_type n = (case n of BuilderFile ft _ \<Rightarrow> ft | BuilderDirectory _ \<Rightarrow> FtDirectory)"

definition directory :: builder_node where
  "directory = BuilderDirectory []"

text \<open>The children with the index of the child, which is appended when there is none.\<close>

definition get_or_create_dir :: "builder_node \<Rightarrow> rstr \<Rightarrow> ((rstr \<times> builder_node) list \<times> nat) fs_result" where
  "get_or_create_dir n name =
     (case n of
        BuilderDirectory children \<Rightarrow>
          (case position (\<lambda>c. fst c = name) children of
             Some index \<Rightarrow> if node_file_type (snd (children ! index)) \<noteq> FtDirectory then Inl NotADirectory else Inr (children, index)
           | None \<Rightarrow> Inr (children @ [(name, directory)], length children))
      | BuilderFile _ _ \<Rightarrow> Inl NotADirectory)"

definition insert_child :: "builder_node \<Rightarrow> rstr \<Rightarrow> file_type \<Rightarrow> u8 list \<Rightarrow> builder_node fs_result" where
  "insert_child n name ft contents =
     (case n of
        BuilderDirectory children \<Rightarrow>
          (case List.find (\<lambda>c. fst c = name) children of
             Some c \<Rightarrow> if node_file_type (snd c) = FtDirectory \<and> ft = FtDirectory then Inr n else Inl AlreadyExists
           | None \<Rightarrow> Inr (BuilderDirectory (children @ [(name, if ft = FtDirectory then directory else BuilderFile ft contents)])))
      | BuilderFile _ _ \<Rightarrow> Inl NotADirectory)"

text \<open>The loop of \<open>insert\<close> over the segments; the changed child is put back.\<close>

fun insert_segments :: "builder_node \<Rightarrow> rstr list \<Rightarrow> file_type \<Rightarrow> u8 list \<Rightarrow> builder_node fs_result" where
  "insert_segments n [] ft contents = Inr n"
| "insert_segments n [segment] ft contents = insert_child n segment ft contents"
| "insert_segments n (segment # segment' # rest) ft contents =
     (case get_or_create_dir n segment of
        Inl e \<Rightarrow> Inl e
      | Inr (children, index) \<Rightarrow>
          (case insert_segments (snd (children ! index)) (segment' # rest) ft contents of
             Inl e \<Rightarrow> Inl e
           | Inr child \<Rightarrow> Inr (BuilderDirectory (children[index := (segment, child)]))))"

definition builder_insert :: "builder_node \<Rightarrow> rstr \<Rightarrow> file_type \<Rightarrow> u8 list \<Rightarrow> builder_node fs_result" where
  "builder_insert n path ft contents = insert_segments n (split_on slash path) ft contents"

fun into_inode :: "builder_node \<Rightarrow> initrd_inode" where
  "into_inode (BuilderFile ft contents) = InitrdFile ft contents"
| "into_inode (BuilderDirectory children) = InitrdDirectory (map (\<lambda>(name, child). (name, into_inode child)) children)"

section \<open>Parsing\<close>

definition CPIO_NEWC_MAGIC :: "u8 list" where "CPIO_NEWC_MAGIC = [48, 55, 48, 55, 48, 49]"
definition CPIO_HEADER_LEN :: nat where "CPIO_HEADER_LEN = 110"
definition S_IFMT :: u32 where "S_IFMT = 61440"

definition parse_hex_u32 :: "u8 list \<Rightarrow> u32 fs_result" where
  "parse_hex_u32 bytes =
     (case from_utf8 bytes of
        None \<Rightarrow> Inl IoError
      | Some s \<Rightarrow> (case from_str_radix 16 (2 ^ 32 - 1) s of None \<Rightarrow> Inl IoError | Some v \<Rightarrow> Inr (of_nat v)))"

definition parse_hex_usize :: "u8 list \<Rightarrow> nat fs_result" where
  "parse_hex_usize bytes = (case parse_hex_u32 bytes of Inl e \<Rightarrow> Inl e | Inr v \<Rightarrow> Inr (unat v))"

definition align_up :: "nat \<Rightarrow> nat \<Rightarrow> nat fs_result" where
  "align_up v a =
     (if a = 0 then Inl IoError
      else if usize_max < v + (a - 1) then Inl IoError
      else Inr (unat ((of_nat (v + (a - 1)) :: u64) AND NOT (of_nat (a - 1)))))"

definition mode_to_file_type :: "u32 \<Rightarrow> file_type fs_result" where
  "mode_to_file_type mode =
     (let t = mode AND S_IFMT
      in if t = 32768 then Inr FtRegular
         else if t = 16384 then Inr FtDirectory
         else if t = 8192 then Inr FtCharDevice
         else if t = 24576 then Inr FtBlockDevice
         else if t = 40960 then Inr FtSymlink
         else Inl NotSupported)"

text \<open>\<open>data.get(a..b)\<close> after a checked addition for \<open>b\<close>.\<close>

definition get_range :: "u8 list \<Rightarrow> nat \<Rightarrow> nat \<Rightarrow> u8 list fs_result" where
  "get_range bytes a n = (if usize_max < a + n \<or> length bytes < a + n then Inl IoError else Inr (take n (drop a bytes)))"

record parsed_entry =
  pe_name :: rstr
  pe_file_type :: file_type
  pe_contents :: "u8 list"
  next_offset :: nat

definition fs_bind :: "'a fs_result \<Rightarrow> ('a \<Rightarrow> 'b fs_result) \<Rightarrow> 'b fs_result" where
  "fs_bind r f = (case r of Inl e \<Rightarrow> Inl e | Inr x \<Rightarrow> f x)"

definition parse_entry :: "u8 list \<Rightarrow> nat \<Rightarrow> parsed_entry fs_result" where
  "parse_entry bytes offset =
     fs_bind (get_range bytes offset CPIO_HEADER_LEN) (\<lambda>header.
     if take 6 header \<noteq> CPIO_NEWC_MAGIC then Inl IoError else
     fs_bind (parse_hex_u32 (take 8 (drop 14 header))) (\<lambda>mode.
     fs_bind (parse_hex_usize (take 8 (drop 54 header))) (\<lambda>filesize.
     fs_bind (parse_hex_usize (take 8 (drop 94 header))) (\<lambda>namesize.
     if namesize = 0 then Inl IoError else
     let name_start = offset + CPIO_HEADER_LEN in
     fs_bind (get_range bytes name_start namesize) (\<lambda>raw_name.
     if last raw_name \<noteq> 0 then Inl IoError else
     case from_utf8 (butlast raw_name) of
       None \<Rightarrow> Inl IoError
     | Some name \<Rightarrow>
         fs_bind (align_up (name_start + namesize) 4) (\<lambda>file_start.
         fs_bind (get_range bytes file_start filesize) (\<lambda>contents.
         fs_bind (align_up (file_start + filesize) 4) (\<lambda>nxt.
         fs_bind (mode_to_file_type mode) (\<lambda>ft.
         Inr \<lparr>pe_name = name, pe_file_type = ft, pe_contents = contents, next_offset = nxt\<rparr>)))))))))"

definition initrd_normalize_path :: "rstr \<Rightarrow> rstr" where
  "initrd_normalize_path path =
     (let trimmed = trim_end ((=) slash) (trim_start ((=) slash) path)
      in if trimmed = [dot] then []
         else join_with slash (filter (\<lambda>segment. segment \<noteq> [] \<and> segment \<noteq> [dot]) (split_on slash trimmed)))"

lemma fs_bind_Inr [simp]: "fs_bind r f = Inr y \<longleftrightarrow> (\<exists>x. r = Inr x \<and> f x = Inr y)" "fs_bind (Inr x) g = g x"
  by (simp_all add: fs_bind_def split: sum.split)

lemma align_up_4: "align_up v 4 = (if usize_max < v + 3 then Inl IoError else Inr ((v + 3) div 4 * 4))"
proof -
  have "unat ((of_nat (v + 3) :: u64) AND NOT 3) = (v + 3) div 4 * 4" if "v + 3 \<le> usize_max"
  proof -
    have "unat (of_nat (v + 3) :: u64) = v + 3" using that by (simp add: usize_max_def unat_of_nat del: of_nat_add)
    then show ?thesis using unat_and_not_mask [of 2 "of_nat (v + 3)"] by (simp del: of_nat_add)
  qed
  then show ?thesis by (simp add: align_up_def)
qed

lemma parse_entry_advances: "parse_entry bytes offset = Inr e \<Longrightarrow> offset < next_offset e"
  by (auto simp: parse_entry_def Let_def align_up_4 split: if_splits option.splits)

definition TRAILER :: rstr where "TRAILER = lit ''TRAILER!!!''"

text \<open>The loop of \<open>InitrdFs::new\<close>, with whether the trailer was found.\<close>

function initrd_loop :: "u8 list \<Rightarrow> nat \<Rightarrow> builder_node \<Rightarrow> (builder_node \<times> bool) fs_result" where
  "initrd_loop bytes offset builder =
     (if \<not> offset < length bytes then Inr (builder, False)
      else case parse_entry bytes offset of
             Inl e \<Rightarrow> Inl e
           | Inr entry \<Rightarrow>
               if pe_name entry = TRAILER then Inr (builder, True)
               else let path = initrd_normalize_path (pe_name entry)
                    in if path = []
                       then if pe_file_type entry \<noteq> FtDirectory then Inl IoError else initrd_loop bytes (next_offset entry) builder
                       else case builder_insert builder path (pe_file_type entry) (pe_contents entry) of
                              Inl e \<Rightarrow> Inl e
                            | Inr builder' \<Rightarrow> initrd_loop bytes (next_offset entry) builder')"
  by pat_completeness auto
termination
  by (relation "measure (\<lambda>(bytes, offset, _). length bytes - offset)") (auto dest!: parse_entry_advances)

declare initrd_loop.simps [simp del] readdir_loop.simps [simp del]

definition initrd_new :: "u8 list \<Rightarrow> initrd_inode fs_result" where
  "initrd_new bytes =
     (case initrd_loop bytes 0 directory of
        Inl e \<Rightarrow> Inl e
      | Inr (builder, found_trailer) \<Rightarrow> if \<not> found_trailer then Inl IoError else Inr (into_inode builder))"

section \<open>Archives\<close>

text \<open>A member of an archive: its path, its mode and contents, and the fields that are not looked at. The path of
  the root is written as a dot.\<close>

record cpio_entry =
  ce_path :: "rstr list"
  ce_mode :: nat
  ce_contents :: "u8 list"
  ce_ino :: "u8 list"
  ce_ids :: "u8 list"
  ce_devs :: "u8 list"
  ce_check :: "u8 list"

definition ce_name :: "cpio_entry \<Rightarrow> rstr" where
  "ce_name e = (if ce_path e = [] then [dot] else join_with slash (ce_path e))"

definition ce_type :: "cpio_entry \<Rightarrow> file_type" where
  "ce_type e = (case mode_to_file_type (of_nat (ce_mode e)) of Inr ft \<Rightarrow> ft | Inl _ \<Rightarrow> FtRegular)"

definition pad4 :: "u8 list \<Rightarrow> u8 list" where
  "pad4 bytes = bytes @ replicate ((length bytes + 3) div 4 * 4 - length bytes) 0"

definition cpio_member :: "rstr \<Rightarrow> cpio_entry \<Rightarrow> u8 list" where
  "cpio_member name e =
     pad4 (CPIO_NEWC_MAGIC @ ce_ino e @ as_bytes (hex_fixed 8 (ce_mode e)) @ ce_ids e @ as_bytes (hex_fixed 8 (length (ce_contents e)))
       @ ce_devs e @ as_bytes (hex_fixed 8 (length (as_bytes name) + 1)) @ ce_check e @ as_bytes name @ [0])
     @ pad4 (ce_contents e)"

definition cpio_archive :: "cpio_entry list \<Rightarrow> u8 list" where
  "cpio_archive es = concat (map (\<lambda>e. cpio_member (ce_name e) e) es)"

definition member_ok :: "rstr \<Rightarrow> cpio_entry \<Rightarrow> bool" where
  "member_ok name e \<longleftrightarrow> length (ce_ino e) = 8 \<and> length (ce_ids e) = 32 \<and> length (ce_devs e) = 32 \<and> length (ce_check e) = 8
     \<and> ce_mode e < 2 ^ 32 \<and> mode_to_file_type (of_nat (ce_mode e)) \<noteq> Inl NotSupported \<and> length (ce_contents e) < 2 ^ 32
     \<and> length (as_bytes name) + 1 < 2 ^ 32 \<and> (\<forall>c \<in> set name. is_scalar c)"

lemma length_pad4: "length (pad4 bytes) = (length bytes + 3) div 4 * 4"
  by (simp add: pad4_def)

lemma pad4_le: "length bytes \<le> length (pad4 bytes)" "length (pad4 bytes) mod 4 = 0"
  by (simp_all add: length_pad4)

lemma hex_bytes:
  assumes "n < 2 ^ 32"
  shows "length (as_bytes (hex_fixed 8 n)) = 8" "parse_hex_u32 (as_bytes (hex_fixed 8 n)) = Inr (of_nat n)"
    "parse_hex_usize (as_bytes (hex_fixed 8 n)) = Inr n"
proof -
  have c: "c < 128" if "c \<in> set (hex_fixed 8 n)" for c using hex_fixed_chars [OF that] by simp
  have "map utf8_width (hex_fixed 8 n) = map (\<lambda>_. 1) (hex_fixed 8 n)" using c by (intro map_cong) (auto simp: utf8_width_def)
  then have "str_len (hex_fixed 8 n) = length (hex_fixed 8 n)" unfolding str_len_def by (simp only: sum_list_triv) simp
  then show "length (as_bytes (hex_fixed 8 n)) = 8" by (simp add: length_as_bytes)
  have "from_utf8 (as_bytes (hex_fixed 8 n)) = Some (hex_fixed 8 n)" using c by (intro from_utf8_as_bytes) (force simp: is_scalar_def)
  then show p: "parse_hex_u32 (as_bytes (hex_fixed 8 n)) = Inr (of_nat n)"
    using assms parse_hex [of 8 n "2 ^ 32 - 1"] by (simp add: parse_hex_u32_def)
  show "parse_hex_usize (as_bytes (hex_fixed 8 n)) = Inr n" using assms p by (simp add: parse_hex_usize_def unat_of_nat)
qed

text \<open>The header and the name of a member.\<close>

definition cpio_head :: "rstr \<Rightarrow> cpio_entry \<Rightarrow> u8 list" where
  "cpio_head name e = CPIO_NEWC_MAGIC @ ce_ino e @ as_bytes (hex_fixed 8 (ce_mode e)) @ ce_ids e @ as_bytes (hex_fixed 8 (length (ce_contents e)))
       @ ce_devs e @ as_bytes (hex_fixed 8 (length (as_bytes name) + 1)) @ ce_check e"

lemma cpio_head_fields:
  assumes "member_ok name e"
  shows "length (cpio_head name e) = 110" "take 6 (cpio_head name e) = CPIO_NEWC_MAGIC"
    "take 8 (drop 14 (cpio_head name e)) = as_bytes (hex_fixed 8 (ce_mode e))"
    "take 8 (drop 54 (cpio_head name e)) = as_bytes (hex_fixed 8 (length (ce_contents e)))"
    "take 8 (drop 94 (cpio_head name e)) = as_bytes (hex_fixed 8 (length (as_bytes name) + 1))"
proof -
  have l: "length (ce_ino e) = 8" "length (ce_ids e) = 32" "length (ce_devs e) = 32" "length (ce_check e) = 8"
    "length (as_bytes (hex_fixed 8 (ce_mode e))) = 8" "length (as_bytes (hex_fixed 8 (length (ce_contents e)))) = 8"
    "length (as_bytes (hex_fixed 8 (length (as_bytes name) + 1))) = 8" "length CPIO_NEWC_MAGIC = 6"
    using assms hex_bytes(1) by (simp_all add: member_ok_def CPIO_NEWC_MAGIC_def)
  show "length (cpio_head name e) = 110" "take 6 (cpio_head name e) = CPIO_NEWC_MAGIC"
    "take 8 (drop 14 (cpio_head name e)) = as_bytes (hex_fixed 8 (ce_mode e))"
    "take 8 (drop 54 (cpio_head name e)) = as_bytes (hex_fixed 8 (length (ce_contents e)))"
    "take 8 (drop 94 (cpio_head name e)) = as_bytes (hex_fixed 8 (length (as_bytes name) + 1))"
    unfolding cpio_head_def using l by simp_all
qed

lemma length_cpio_member:
  "member_ok name e \<Longrightarrow> length (cpio_member name e) = (length (as_bytes name) + 114) div 4 * 4 + (length (ce_contents e) + 3) div 4 * 4"
  using cpio_head_fields(1) [of name e] by (simp add: cpio_member_def cpio_head_def length_pad4)

lemma get_range_at:
  "length pre + length xs + length post \<le> usize_max \<Longrightarrow> get_range (pre @ xs @ post) (length pre) (length xs) = Inr xs"
  by (simp add: get_range_def)

lemma round4: "a mod 4 = 0 \<Longrightarrow> (a + n + 3) div 4 * 4 = a + (n + ((n + 3) div 4 * 4 - n))" for a n :: nat
  by presburger

lemma mode_to_file_type_Inl: "mode_to_file_type w = Inl er \<Longrightarrow> er = NotSupported"
  by (auto simp: mode_to_file_type_def Let_def split: if_splits)

lemma parse_member:
  assumes ok: "member_ok name e" and al: "length pre mod 4 = 0" and small: "length (pre @ cpio_member name e @ post) \<le> isize_max"
  shows "parse_entry (pre @ cpio_member name e @ post) (length pre)
    = Inr \<lparr>pe_name = name, pe_file_type = ce_type e, pe_contents = ce_contents e, next_offset = length pre + length (cpio_member name e)\<rparr>"
proof -
  let ?d = "pre @ cpio_member name e @ post" and ?h = "cpio_head name e" and ?n = "as_bytes name @ [0]" and ?c = "ce_contents e"
  define z1 :: "u8 list" where "z1 = replicate ((length (?h @ ?n) + 3) div 4 * 4 - length (?h @ ?n)) 0"
  define z2 :: "u8 list" where "z2 = replicate ((length ?c + 3) div 4 * 4 - length ?c) 0"
  note f = cpio_head_fields [OF ok]
  have m: "cpio_member name e = ?h @ ?n @ z1 @ ?c @ z2"
    by (simp add: cpio_member_def cpio_head_def pad4_def z1_def z2_def)
  have max: "length ?d + 3 \<le> usize_max" using small by (simp add: isize_max_def usize_max_def)
  have g1: "get_range ?d (length pre) CPIO_HEADER_LEN = Inr ?h"
    using get_range_at [of pre ?h "?n @ z1 @ ?c @ z2 @ post"] max f(1) by (simp add: m CPIO_HEADER_LEN_def)
  have g2: "get_range ?d (length pre + CPIO_HEADER_LEN) (length (as_bytes name) + 1) = Inr ?n"
    using get_range_at [of "pre @ ?h" ?n "z1 @ ?c @ z2 @ post"] max f(1) by (simp add: m CPIO_HEADER_LEN_def)
  let ?a = "length pre + CPIO_HEADER_LEN + (length (as_bytes name) + 1)"
  have la: "?a = length (pre @ ?h @ ?n)" using f(1) by (simp add: CPIO_HEADER_LEN_def)
  have r1: "(length (pre @ ?h @ ?n) + 3) div 4 * 4 = length (pre @ ?h @ ?n @ z1)"
    using round4 [OF al, of "length (?h @ ?n)"] unfolding z1_def by (simp only: length_append length_replicate add.assoc)
  then have a1: "align_up ?a 4 = Inr (length (pre @ ?h @ ?n @ z1))"
    using max unfolding la by (simp add: align_up_4 m)
  have g3: "get_range ?d (length (pre @ ?h @ ?n @ z1)) (length ?c) = Inr ?c"
    using get_range_at [of "pre @ ?h @ ?n @ z1" ?c "z2 @ post"] max by (simp add: m)
  have al1: "length (pre @ ?h @ ?n @ z1) mod 4 = 0" unfolding r1 [symmetric] by (rule mod_mult_self2_is_0)
  have "(length (pre @ ?h @ ?n @ z1 @ ?c) + 3) div 4 * 4 = length (pre @ ?h @ ?n @ z1 @ ?c @ z2)"
    using round4 [OF al1, of "length ?c"] unfolding z2_def by (simp only: length_append length_replicate add.assoc)
  then have a2: "align_up (length (pre @ ?h @ ?n @ z1) + length ?c) 4 = Inr (length (pre @ ?h @ ?n @ z1 @ ?c @ z2))"
    using max by (simp add: align_up_4 m add.assoc)
  have sizes: "ce_mode e < 2 ^ 32" "length ?c < 2 ^ 32" "length (as_bytes name) + 1 < 2 ^ 32" "from_utf8 (as_bytes name) = Some name"
    using ok from_utf8_as_bytes [of name] by (auto simp: member_ok_def)
  have ty: "mode_to_file_type (of_nat (ce_mode e)) = Inr (ce_type e)"
    using ok mode_to_file_type_Inl by (fastforce simp: member_ok_def ce_type_def split: sum.splits)
  show ?thesis
    unfolding parse_entry_def
    using f g1 g2 a1 g3 a2 sizes ty hex_bytes(2) [OF sizes(1)] hex_bytes(3) [OF sizes(2)] hex_bytes(3) [OF sizes(3)]
    by (simp add: Let_def m)
qed

text \<open>Names: components without separators, none of them a dot; the root is a directory.\<close>

definition entry_ok :: "cpio_entry \<Rightarrow> bool" where
  "entry_ok e \<longleftrightarrow> member_ok (ce_name e) e \<and> ce_name e \<noteq> TRAILER \<and> (\<forall>s \<in> set (ce_path e). s \<noteq> [] \<and> s \<noteq> [dot] \<and> slash \<notin> set s)
     \<and> (ce_path e = [] \<longrightarrow> ce_type e = FtDirectory)"

lemma hd_join: "ps \<noteq> [] \<Longrightarrow> hd ps \<noteq> [] \<Longrightarrow> join_with c ps \<noteq> [] \<and> hd (join_with c ps) = hd (hd ps)"
  by (cases "(c, ps)" rule: join_with.cases) auto

lemma last_join: "ps \<noteq> [] \<Longrightarrow> (\<And>p. p \<in> set ps \<Longrightarrow> p \<noteq> []) \<Longrightarrow> last (join_with c ps) = last (last ps)"
proof (induction c ps rule: join_with.induct)
  case (3 c p q ps)
  have "join_with c (q # ps) \<noteq> []" using hd_join [of "q # ps" c] 3(3) by simp
  with 3 show ?case by simp
qed simp_all

lemma normalize_join:
  assumes "ps \<noteq> []" and ps: "\<And>p. p \<in> set ps \<Longrightarrow> p \<noteq> [] \<and> p \<noteq> [dot] \<and> slash \<notin> set p"
  shows "initrd_normalize_path (join_with slash ps) = join_with slash ps" "join_with slash ps \<noteq> []"
proof -
  let ?j = "join_with slash ps"
  have j: "?j \<noteq> []" "hd ?j = hd (hd ps)" "last ?j = last (last ps)"
    using assms(1) ps hd_join [of ps slash] last_join [of ps slash] by auto
  have e: "hd ?j \<noteq> slash" "last ?j \<noteq> slash"
    using j ps [OF hd_in_set [OF assms(1)]] ps [OF last_in_set [OF assms(1)]] by (metis hd_in_set, metis last_in_set)
  have ts: "trim_start ((=) slash) ?j = ?j" using j(1) e(1) by (cases ?j) (auto simp: trim_start_def)
  have te: "trim_end ((=) slash) ?j = ?j" using j(1) e(2) by (cases ?j rule: rev_cases) (auto simp: trim_end_def)
  have sp: "split_on slash ?j = ps" using assms by (intro split_join) auto
  have "?j \<noteq> [dot]"
  proof
    assume "?j = [dot]"
    then have "ps = [[dot]]" using sp by simp
    then show False using ps by auto
  qed
  moreover have "filter (\<lambda>p. p \<noteq> [] \<and> p \<noteq> [dot]) ps = ps" using ps by (simp add: filter_id_conv)
  ultimately show "initrd_normalize_path ?j = ?j" by (simp add: initrd_normalize_path_def ts te sp)
  show "?j \<noteq> []" by (rule j(1))
qed

fun insert_entries :: "builder_node \<Rightarrow> cpio_entry list \<Rightarrow> builder_node fs_result" where
  "insert_entries b [] = Inr b"
| "insert_entries b (e # es) =
     (if ce_path e = [] then insert_entries b es
      else case insert_segments b (ce_path e) (ce_type e) (ce_contents e) of Inl er \<Rightarrow> Inl er | Inr b' \<Rightarrow> insert_entries b' es)"

lemma cpio_member_aligned: "length (cpio_member name e) mod 4 = 0" "0 < length (cpio_member name e)"
proof -
  show "length (cpio_member name e) mod 4 = 0" unfolding cpio_member_def length_append length_pad4 by simp
  show "0 < length (cpio_member name e)" by (simp add: cpio_member_def pad4_def CPIO_NEWC_MAGIC_def)
qed

lemma initrd_loop_archive:
  assumes "\<And>e. e \<in> set es \<Longrightarrow> entry_ok e" "member_ok TRAILER tr" "length pre mod 4 = 0"
    and "length (pre @ cpio_archive es @ cpio_member TRAILER tr @ post) \<le> isize_max"
  shows "initrd_loop (pre @ cpio_archive es @ cpio_member TRAILER tr @ post) (length pre) b
    = (case insert_entries b es of Inl er \<Rightarrow> Inl er | Inr b' \<Rightarrow> Inr (b', True))"
  using assms
proof (induction es arbitrary: pre b)
  case Nil
  then have "parse_entry (pre @ cpio_member TRAILER tr @ post) (length pre)
      = Inr \<lparr>pe_name = TRAILER, pe_file_type = ce_type tr, pe_contents = ce_contents tr, next_offset = length pre + length (cpio_member TRAILER tr)\<rparr>"
    by (intro parse_member) (simp_all add: cpio_archive_def)
  then show ?case using cpio_member_aligned(2) [of TRAILER tr] by (simp add: cpio_archive_def initrd_loop.simps [of _ "length pre"])
next
  case (Cons e es)
  let ?m = "cpio_member (ce_name e) e" and ?rest = "cpio_archive es @ cpio_member TRAILER tr @ post"
  let ?d = "pre @ ?m @ ?rest"
  have ok: "entry_ok e" using Cons.prems(1) by simp
  have d: "pre @ cpio_archive (e # es) @ cpio_member TRAILER tr @ post = ?d" by (simp add: cpio_archive_def)
  have p: "parse_entry ?d (length pre)
      = Inr \<lparr>pe_name = ce_name e, pe_file_type = ce_type e, pe_contents = ce_contents e, next_offset = length pre + length ?m\<rparr>"
    using ok Cons.prems(3,4) d by (intro parse_member) (simp_all add: entry_ok_def)
  have ih: "initrd_loop ?d (length pre + length ?m) b' = (case insert_entries b' es of Inl er \<Rightarrow> Inl er | Inr b'' \<Rightarrow> Inr (b'', True))" for b'
    using Cons.IH [of "pre @ ?m" b'] Cons.prems cpio_member_aligned(1) [of "ce_name e" e] d by (simp add: mod_add_eq [symmetric, of "length pre"])
  have lt: "length pre < length ?d" using cpio_member_aligned(2) [of "ce_name e" e] by simp
  show ?case
  proof (cases "ce_path e = []")
    case True
    then have "initrd_normalize_path (ce_name e) = []" by (simp add: ce_name_def initrd_normalize_path_def trim_start_def trim_end_def)
    then show ?thesis using ok lt p ih True unfolding d initrd_loop.simps [of ?d "length pre"] by (simp add: entry_ok_def Let_def)
  next
    case False
    have ps: "\<And>s. s \<in> set (ce_path e) \<Longrightarrow> s \<noteq> [] \<and> s \<noteq> [dot] \<and> slash \<notin> set s" using ok by (simp add: entry_ok_def)
    note nj = normalize_join [OF False ps]
    have n: "ce_name e = join_with slash (ce_path e)" using False by (simp add: ce_name_def)
    have sp: "split_on slash (join_with slash (ce_path e)) = ce_path e" using False ps by (intro split_join) auto
    show ?thesis using ok lt p ih False nj n sp unfolding d initrd_loop.simps [of ?d "length pre"]
      by (simp add: entry_ok_def Let_def builder_insert_def split: sum.split)
  qed
qed

section \<open>The tree\<close>

text \<open>What is at a path: a file with its type and contents, or a directory.\<close>

fun kind_at :: "builder_node \<Rightarrow> rstr list \<Rightarrow> (file_type \<times> u8 list + unit) option" where
  "kind_at n [] = Some (case n of BuilderFile ft c \<Rightarrow> Inl (ft, c) | BuilderDirectory _ \<Rightarrow> Inr ())"
| "kind_at n (s # p) =
     (case n of
        BuilderFile _ _ \<Rightarrow> None
      | BuilderDirectory cs \<Rightarrow> (case find (\<lambda>c. fst c = s) cs of None \<Rightarrow> None | Some c \<Rightarrow> kind_at (snd c) p))"

lemma kind_directory [simp]: "kind_at directory p = (if p = [] then Some (Inr ()) else None)"
  by (cases p) (simp_all add: directory_def)

lemma position_find: "position P xs = Some i \<Longrightarrow> find P xs = Some (xs ! i)"
  by (induction xs arbitrary: i) (auto split: if_splits)

lemma find_position_None: "position P xs = None \<Longrightarrow> find P xs = None"
  by (induction xs) (auto split: if_splits)

lemma find_snoc_named: "find P (xs @ [x]) = (case find P xs of None \<Rightarrow> if P x then Some x else None | Some y \<Rightarrow> Some y)"
  by (induction xs) auto

lemma find_update_named:
  "position (\<lambda>c. fst c = s) cs = Some i \<Longrightarrow> find (\<lambda>c. fst c = s') (cs[i := (s, v)]) = (if s' = s then Some (s, v) else find (\<lambda>c. fst c = s') cs)"
  by (induction cs arbitrary: i) (auto split: if_splits)

lemma position_snoc: "position P xs = None \<Longrightarrow> P x \<Longrightarrow> position P (xs @ [x]) = Some (length xs)"
  by (induction xs) (auto split: if_splits)

lemma get_or_create_dir_kind:
  assumes "kind_at n [] = Some (Inr ())" "kind_at n [s] = None \<or> kind_at n [s] = Some (Inr ())"
  shows "\<exists>cs i. get_or_create_dir n s = Inr (cs, i) \<and> position (\<lambda>c. fst c = s) cs = Some i
    \<and> (\<forall>q. kind_at (snd (cs ! i)) q = (if q = [] then Some (Inr ()) else kind_at n (s # q)))
    \<and> (\<forall>s' q. s' \<noteq> s \<longrightarrow> kind_at (BuilderDirectory cs) (s' # q) = kind_at n (s' # q))"
proof -
  obtain cs where n: "n = BuilderDirectory cs" using assms(1) by (cases n) auto
  show ?thesis
  proof (cases "position (\<lambda>c. fst c = s) cs")
    case None
    then have "find (\<lambda>c. fst c = s) cs = None" by (rule find_position_None)
    then show ?thesis using None position_snoc [OF None, of "(s, directory)"] n
      by (intro exI [of _ "cs @ [(s, directory)]"] exI [of _ "length cs"]) (auto simp: get_or_create_dir_def find_snoc_named simp del: position_None split: option.split)
  next
    case (Some i)
    note f = position_find [OF Some]
    have d: "kind_at (snd (cs ! i)) [] = Some (Inr ())" using assms(2) f n by simp
    then have "node_file_type (snd (cs ! i)) = FtDirectory" by (cases "snd (cs ! i)") (auto simp: node_file_type_def)
    then show ?thesis using Some f n d by (intro exI [of _ cs] exI [of _ i]) (auto simp: get_or_create_dir_def)
  qed
qed

lemma insert_child_kind:
  assumes "kind_at n [] = Some (Inr ())" "kind_at n [s] = None \<or> ft = FtDirectory \<and> kind_at n [s] = Some (Inr ())"
  shows "\<exists>n'. insert_child n s ft c = Inr n' \<and> (\<forall>q. kind_at n' q =
    (if prefix q [s] then (if q = [s] \<and> ft \<noteq> FtDirectory then Some (Inl (ft, c)) else Some (Inr ())) else kind_at n q))"
proof -
  obtain cs where n: "n = BuilderDirectory cs" using assms(1) by (cases n) auto
  show ?thesis
  proof (cases "find (\<lambda>c. fst c = s) cs")
    case None
    let ?x = "if ft = FtDirectory then directory else BuilderFile ft c"
    have "kind_at (BuilderDirectory (cs @ [(s, ?x)])) q =
        (if prefix q [s] then (if q = [s] \<and> ft \<noteq> FtDirectory then Some (Inl (ft, c)) else Some (Inr ())) else kind_at n q)" for q
    proof (cases q)
      case (Cons s' q')
      then show ?thesis using None n by (cases q') (auto simp: find_snoc_named directory_def split: option.split)
    qed simp
    then show ?thesis using None n by (intro exI [of _ "BuilderDirectory (cs @ [(s, ?x)])"]) (simp add: insert_child_def)
  next
    case (Some d)
    then have d: "kind_at (snd d) [] = Some (Inr ())" "ft = FtDirectory" using assms(2) n by auto
    then have "node_file_type (snd d) = FtDirectory" by (cases "snd d") (auto simp: node_file_type_def)
    moreover have "kind_at n q = Some (Inr ())" if "prefix q [s]" for q
      using that d(1) Some n assms(1) by (cases q) auto
    ultimately show ?thesis using Some n d(2) by (intro exI [of _ n]) (auto simp: insert_child_def)
  qed
qed

lemma insert_segments_kind:
  assumes "p \<noteq> []" "\<And>q. strict_prefix q p \<Longrightarrow> q \<noteq> [] \<Longrightarrow> kind_at n q = None \<or> kind_at n q = Some (Inr ())" "kind_at n [] = Some (Inr ())"
    and "kind_at n p = None \<or> ft = FtDirectory \<and> kind_at n p = Some (Inr ())"
  shows "\<exists>n'. insert_segments n p ft c = Inr n' \<and> (\<forall>q. kind_at n' q =
    (if prefix q p then (if q = p \<and> ft \<noteq> FtDirectory then Some (Inl (ft, c)) else Some (Inr ())) else kind_at n q))"
  using assms
proof (induction n p ft c rule: insert_segments.induct)
  case (2 n s ft c)
  then show ?case using insert_child_kind [of n s ft c] by simp
next
  case (3 n s s' rest ft c)
  have "kind_at n [s] = None \<or> kind_at n [s] = Some (Inr ())" using 3(3) [of "[s]"] by (simp add: strict_prefix_def)
  from get_or_create_dir_kind [OF 3(4) this] obtain cs i where
    g: "get_or_create_dir n s = Inr (cs, i)" "position (\<lambda>c. fst c = s) cs = Some i"
    and k: "\<And>q. kind_at (snd (cs ! i)) q = (if q = [] then Some (Inr ()) else kind_at n (s # q))"
    and o: "\<And>u q. u \<noteq> s \<Longrightarrow> kind_at (BuilderDirectory cs) (u # q) = kind_at n (u # q)" by blast
  have "\<exists>n'. insert_segments (snd (cs ! i)) (s' # rest) ft c = Inr n' \<and> (\<forall>q. kind_at n' q =
    (if prefix q (s' # rest) then (if q = s' # rest \<and> ft \<noteq> FtDirectory then Some (Inl (ft, c)) else Some (Inr ())) else kind_at (snd (cs ! i)) q))"
  proof (rule 3(1) [OF g(1) refl])
    show "kind_at (snd (cs ! i)) q = None \<or> kind_at (snd (cs ! i)) q = Some (Inr ())" if "strict_prefix q (s' # rest)" "q \<noteq> []" for q
      using 3(3) [of "s # q"] that unfolding k by simp
    show "kind_at (snd (cs ! i)) (s' # rest) = None \<or> ft = FtDirectory \<and> kind_at (snd (cs ! i)) (s' # rest) = Some (Inr ())"
      using 3(5) unfolding k by simp
    show "kind_at (snd (cs ! i)) [] = Some (Inr ())" using k [of "[]"] by (simp only: simp_thms if_True)
  qed simp_all
  then obtain m where m: "insert_segments (snd (cs ! i)) (s' # rest) ft c = Inr m" and km: "\<And>q. kind_at m q =
    (if prefix q (s' # rest) then (if q = s' # rest \<and> ft \<noteq> FtDirectory then Some (Inl (ft, c)) else Some (Inr ())) else kind_at (snd (cs ! i)) q)" by blast
  let ?n = "BuilderDirectory (cs[i := (s, m)])"
  have "kind_at ?n q = (if prefix q (s # s' # rest) then (if q = s # s' # rest \<and> ft \<noteq> FtDirectory then Some (Inl (ft, c)) else Some (Inr ())) else kind_at n q)" for q
  proof (cases q)
    case (Cons u v)
    then show ?thesis using km [of v] k [of v] o [of u v] find_update_named [OF g(2), of u m] by (cases "u = s") auto
  qed simp
  then show ?case using g(1) m by (intro exI [of _ ?n]) simp
qed simp

section \<open>Properties\<close>

text \<open>What an archive says is at a path. Directories above a member need no member of their own.\<close>

definition archive_at :: "cpio_entry list \<Rightarrow> rstr list \<Rightarrow> (file_type \<times> u8 list + unit) option" where
  "archive_at es p =
     (case find (\<lambda>e. ce_path e = p \<and> ce_type e \<noteq> FtDirectory) es of
        Some e \<Rightarrow> Some (Inl (ce_type e, ce_contents e))
      | None \<Rightarrow> if p = [] \<or> (\<exists>e \<in> set es. prefix p (ce_path e)) then Some (Inr ()) else None)"

text \<open>A member that is not a directory is neither above another member nor at the same path.\<close>

definition consistent :: "cpio_entry list \<Rightarrow> bool" where
  "consistent es \<longleftrightarrow> (\<forall>i < length es. \<forall>j < length es. i \<noteq> j \<and> ce_type (es ! i) \<noteq> FtDirectory \<longrightarrow> \<not> prefix (ce_path (es ! i)) (ce_path (es ! j)))"

lemma consistent_snoc:
  assumes "consistent (es @ [e])"
  shows "consistent es" "\<And>e'. e' \<in> set es \<Longrightarrow> ce_type e' \<noteq> FtDirectory \<Longrightarrow> \<not> prefix (ce_path e') (ce_path e)"
    "\<And>e'. e' \<in> set es \<Longrightarrow> ce_type e \<noteq> FtDirectory \<Longrightarrow> \<not> prefix (ce_path e) (ce_path e')"
proof -
  have c: "\<not> prefix (ce_path ((es @ [e]) ! i)) (ce_path ((es @ [e]) ! j))"
    if "i < Suc (length es)" "j < Suc (length es)" "i \<noteq> j" "ce_type ((es @ [e]) ! i) \<noteq> FtDirectory" for i j
    using assms that by (simp add: consistent_def)
  show "consistent es"
    unfolding consistent_def
  proof (intro allI impI)
    fix i j assume "i < length es" "j < length es" "i \<noteq> j \<and> ce_type (es ! i) \<noteq> FtDirectory"
    then show "\<not> prefix (ce_path (es ! i)) (ce_path (es ! j))" using c [of i j] by (simp add: nth_append)
  qed
  fix e' assume "e' \<in> set es"
  then obtain i where i: "i < length es" "es ! i = e'" by (auto simp: in_set_conv_nth)
  show "ce_type e' \<noteq> FtDirectory \<Longrightarrow> \<not> prefix (ce_path e') (ce_path e)" using c [of i "length es"] i by (simp add: nth_append)
  show "ce_type e \<noteq> FtDirectory \<Longrightarrow> \<not> prefix (ce_path e) (ce_path e')" using c [of "length es" i] i by (simp add: nth_append)
qed

lemma insert_entries_snoc:
  "insert_entries b (es @ [e]) = (case insert_entries b es of Inl er \<Rightarrow> Inl er | Inr b' \<Rightarrow> insert_entries b' [e])"
  by (induction es arbitrary: b) (auto split: sum.split)

lemma archive_at_snoc:
  assumes "consistent (es @ [e])" "ce_path e = [] \<longrightarrow> ce_type e = FtDirectory"
  shows "archive_at (es @ [e]) q = (if ce_path e \<noteq> [] \<and> prefix q (ce_path e)
    then (if q = ce_path e \<and> ce_type e \<noteq> FtDirectory then Some (Inl (ce_type e, ce_contents e)) else Some (Inr ()))
    else archive_at es q)"
proof (cases "find (\<lambda>e. ce_path e = q \<and> ce_type e \<noteq> FtDirectory) es")
  case (Some e')
  then have "e' \<in> set es" "ce_path e' = q" "ce_type e' \<noteq> FtDirectory" by (auto simp: find_Some_iff)
  then have "\<not> prefix q (ce_path e)" using consistent_snoc(2) [OF assms(1)] by blast
  then show ?thesis using Some by (auto simp: archive_at_def find_snoc_named)
next
  case None
  then show ?thesis using assms(2) by (auto simp: archive_at_def find_snoc_named)
qed

lemma insert_entries_kind:
  assumes "\<And>e. e \<in> set es \<Longrightarrow> entry_ok e" "consistent es"
  shows "\<exists>b. insert_entries directory es = Inr b \<and> (\<forall>q. kind_at b q = archive_at es q)"
  using assms
proof (induction es rule: rev_induct)
  case Nil
  then show ?case by (auto simp: archive_at_def)
next
  case (snoc e es)
  note cs = consistent_snoc [OF snoc.prems(2)]
  obtain b where b: "insert_entries directory es = Inr b" "\<And>q. kind_at b q = archive_at es q" using snoc cs(1) by auto
  have root: "kind_at b [] = Some (Inr ())"
  proof -
    have "\<not> (ce_path e' = [] \<and> ce_type e' \<noteq> FtDirectory)" if "e' \<in> set es" for e' using snoc.prems(1) [of e'] that by (simp add: entry_ok_def)
    then have "find (\<lambda>e. ce_path e = [] \<and> ce_type e \<noteq> FtDirectory) es = None" unfolding find_None_iff by blast
    then show ?thesis using b(2) [of "[]"] by (simp add: archive_at_def)
  qed
  have dir: "ce_path e = [] \<longrightarrow> ce_type e = FtDirectory" using snoc.prems(1) [of e] by (simp add: entry_ok_def)
  show ?case
  proof (cases "ce_path e = []")
    case True
    then have "archive_at (es @ [e]) q = archive_at es q" for q using archive_at_snoc [OF snoc.prems(2) dir, of q] by simp
    then show ?thesis using b True by (simp add: insert_entries_snoc)
  next
    case False
    have above: "archive_at es q = None \<or> archive_at es q = Some (Inr ())" if "prefix q (ce_path e)" for q
    proof -
      have "find (\<lambda>e. ce_path e = q \<and> ce_type e \<noteq> FtDirectory) es = None" unfolding find_None_iff using cs(2) that by blast
      then show ?thesis by (simp add: archive_at_def)
    qed
    have self: "archive_at es (ce_path e) = None" if "ce_type e \<noteq> FtDirectory"
      using above [of "ce_path e"] cs(3) that False by (auto simp: archive_at_def split: option.splits)
    have p: "\<And>q. strict_prefix q (ce_path e) \<Longrightarrow> q \<noteq> [] \<Longrightarrow> kind_at b q = None \<or> kind_at b q = Some (Inr ())"
      unfolding b(2) using above by (simp add: strict_prefix_def)
    have s: "kind_at b (ce_path e) = None \<or> ce_type e = FtDirectory \<and> kind_at b (ce_path e) = Some (Inr ())"
      unfolding b(2) using above [of "ce_path e"] self by (cases "ce_type e = FtDirectory") auto
    obtain b' where b': "insert_segments b (ce_path e) (ce_type e) (ce_contents e) = Inr b'" and k: "\<And>q. kind_at b' q =
        (if prefix q (ce_path e) then (if q = ce_path e \<and> ce_type e \<noteq> FtDirectory then Some (Inl (ce_type e, ce_contents e)) else Some (Inr ())) else kind_at b q)"
      using insert_segments_kind [OF False p root s, of "ce_contents e"] by blast
    have "kind_at b' q = archive_at (es @ [e]) q" for q
      unfolding archive_at_snoc [OF snoc.prems(2) dir] k b(2) using False by simp
    then show ?thesis using b(1) b' False by (simp add: insert_entries_snoc)
  qed
qed

text \<open>Following a path from the root with \<open>lookup\<close>.\<close>

fun initrd_find :: "initrd_inode \<Rightarrow> rstr list \<Rightarrow> initrd_inode fs_result" where
  "initrd_find i [] = Inr i"
| "initrd_find i (s # p) = fs_bind (initrd_lookup i s) (\<lambda>j. initrd_find j p)"

definition inode_kind :: "initrd_inode fs_result \<Rightarrow> (file_type \<times> u8 list + unit) option" where
  "inode_kind r = (case r of Inl _ \<Rightarrow> None | Inr (InitrdFile ft c) \<Rightarrow> Some (Inl (ft, c)) | Inr (InitrdDirectory _) \<Rightarrow> Some (Inr ()))"

lemma find_into_inode:
  "find (\<lambda>c. fst c = s) (map (\<lambda>(name, child). (name, into_inode child)) cs) = map_option (\<lambda>c. (fst c, into_inode (snd c))) (find (\<lambda>c. fst c = s) cs)"
  by (induction cs) auto

lemma initrd_find_kind: "inode_kind (initrd_find (into_inode n) p) = kind_at n p"
proof (induction p arbitrary: n)
  case Nil
  then show ?case by (cases n) (simp_all add: inode_kind_def)
next
  case (Cons s p)
  show ?case
  proof (cases n)
    case (BuilderDirectory cs)
    then show ?thesis using Cons by (cases "find (\<lambda>c. fst c = s) cs") (simp_all add: initrd_lookup_def find_into_inode fs_bind_def, simp add: inode_kind_def)
  qed (simp add: initrd_lookup_def fs_bind_def inode_kind_def)
qed

text \<open>C40: Loading an archive gives exactly its contents. An archive of well-formed, consistent members in any order, whatever
  follows its trailer, is accepted, and below the resulting root a path leads to a file exactly if it is the path of
  a member that is not a directory, with the type of that member, to a directory exactly if it is the root, a member or above one, and
  nowhere otherwise. Reading such a file at any offset gives the bytes of the member there.\<close>

theorem initrd_archive_exact:
  assumes "\<And>e. e \<in> set es \<Longrightarrow> entry_ok e" "consistent es" "member_ok TRAILER tr"
    and "length (cpio_archive es @ cpio_member TRAILER tr @ post) \<le> isize_max"
  shows "\<exists>root. initrd_new (cpio_archive es @ cpio_member TRAILER tr @ post) = Inr root
    \<and> (\<forall>p. inode_kind (initrd_find root p) = archive_at es p)
    \<and> (\<forall>e \<in> set es. ce_type e \<noteq> FtDirectory \<longrightarrow> (\<exists>i. initrd_find root (ce_path e) = Inr i \<and> initrd_file_type i = ce_type e
          \<and> (\<forall>offset n. initrd_read i offset n = Inr (take n (drop offset (ce_contents e))))))"
proof -
  obtain b where b: "insert_entries directory es = Inr b" "\<And>q. kind_at b q = archive_at es q" using insert_entries_kind [OF assms(1,2)] by blast
  have "initrd_loop (cpio_archive es @ cpio_member TRAILER tr @ post) 0 directory = Inr (b, True)"
    using initrd_loop_archive [OF assms(1,3), of es "[]" post directory] assms(4) b(1) by simp
  then have run: "initrd_new (cpio_archive es @ cpio_member TRAILER tr @ post) = Inr (into_inode b)" by (simp add: initrd_new_def)
  have k: "inode_kind (initrd_find (into_inode b) p) = archive_at es p" for p unfolding initrd_find_kind by (rule b(2))
  have "\<exists>i. initrd_find (into_inode b) (ce_path e) = Inr i \<and> initrd_file_type i = ce_type e
      \<and> (\<forall>offset n. initrd_read i offset n = Inr (take n (drop offset (ce_contents e))))" if e: "e \<in> set es" "ce_type e \<noteq> FtDirectory" for e
  proof -
    have "find (\<lambda>d. ce_path d = ce_path e \<and> ce_type d \<noteq> FtDirectory) es = Some e"
    proof -
      obtain i where i: "i < length es" "es ! i = e" using e(1) by (auto simp: in_set_conv_nth)
      have "\<not> (ce_path (es ! j) = ce_path e \<and> ce_type (es ! j) \<noteq> FtDirectory)" if "j < i" for j
        using assms(2) i that unfolding consistent_def by (metis less_trans less_irrefl prefix_order.order_refl)
      then show ?thesis unfolding find_Some_iff using i e(2) by blast
    qed
    then have "inode_kind (initrd_find (into_inode b) (ce_path e)) = Some (Inl (ce_type e, ce_contents e))" unfolding k by (simp add: archive_at_def)
    then have "initrd_find (into_inode b) (ce_path e) = Inr (InitrdFile (ce_type e) (ce_contents e))"
      by (auto simp: inode_kind_def split: sum.splits initrd_inode.splits)
    moreover have "take (min n (length c - offset)) (drop offset c) = take n (drop offset c)" for n offset and c :: "u8 list"
      using take_take [of n "length (drop offset c)" "drop offset c"] by simp
    ultimately show ?thesis by (auto simp: initrd_file_type_def initrd_read_def)
  qed
  then show ?thesis using run k by blast
qed

text \<open>An archive with the file \<open>bin/sh\<close> of three bytes.\<close>

definition sample_entry :: "rstr list \<Rightarrow> nat \<Rightarrow> u8 list \<Rightarrow> cpio_entry" where
  "sample_entry p mode c = \<lparr>ce_path = p, ce_mode = mode, ce_contents = c, ce_ino = replicate 8 48, ce_ids = replicate 32 48,
     ce_devs = replicate 32 48, ce_check = replicate 8 48\<rparr>"

theorem initrd_archive_exact_witness:
  "\<exists>root i. initrd_new (cpio_archive [sample_entry [lit ''bin'', lit ''sh''] 33261 [1, 2, 3], sample_entry [lit ''bin''] 16877 []]
       @ cpio_member TRAILER (sample_entry [] 32768 [])) = Inr root
     \<and> initrd_find root [lit ''bin'', lit ''sh''] = Inr i \<and> initrd_read i 1 5 = Inr [2, 3]
     \<and> inode_kind (initrd_find root [lit ''bin'']) = Some (Inr ()) \<and> inode_kind (initrd_find root [lit ''sh'']) = None"
proof -
  let ?a = "sample_entry [lit ''bin'', lit ''sh''] 33261 [1, 2, 3]" and ?b = "sample_entry [lit ''bin''] 16877 []" and ?tr = "sample_entry [] 32768 []"
  have ty: "ce_type ?a = FtRegular" "ce_type ?b = FtDirectory" "ce_type ?tr = FtRegular"
    by (simp_all add: ce_type_def mode_to_file_type_def sample_entry_def S_IFMT_def Let_def)
  have bin: "lit ''bin'' = [98, 105, 110]" "lit ''sh'' = [115, 104]" "TRAILER = [84, 82, 65, 73, 76, 69, 82, 33, 33, 33]"
    by (simp_all add: lit_def TRAILER_def)
  have nm: "ce_name ?a = [98, 105, 110, 47, 115, 104]" "ce_name ?b = [98, 105, 110]" by (simp_all add: ce_name_def sample_entry_def bin)
  have len: "length (as_bytes (ce_name ?a)) = 6" "length (as_bytes (ce_name ?b)) = 3" "length (as_bytes TRAILER) = 10"
    by (simp_all add: length_as_bytes nm bin(3) str_len_def utf8_width_def)
  have ok: "member_ok (ce_name ?a) ?a" "member_ok (ce_name ?b) ?b" "member_ok TRAILER ?tr"
    using len unfolding member_ok_def nm bin(3)
    by (simp_all add: sample_entry_def mode_to_file_type_def S_IFMT_def Let_def is_scalar_def)
  have eok: "entry_ok e" if "e \<in> set [?a, ?b]" for e
    using that ok nm ty by (auto simp: entry_ok_def bin) (auto simp: sample_entry_def)
  have cons: "consistent [?a, ?b]"
    unfolding consistent_def using ty by (auto simp: less_Suc_eq sample_entry_def)
  have small: "length (cpio_archive [?a, ?b] @ cpio_member TRAILER ?tr @ []) \<le> isize_max"
    using ok len by (simp add: cpio_archive_def length_cpio_member) (simp add: sample_entry_def isize_max_def)
  obtain root where root: "initrd_new (cpio_archive [?a, ?b] @ cpio_member TRAILER ?tr) = Inr root"
    "\<And>p. inode_kind (initrd_find root p) = archive_at [?a, ?b] p"
    "\<exists>i. initrd_find root (ce_path ?a) = Inr i \<and> initrd_file_type i = ce_type ?a \<and> (\<forall>offset n. initrd_read i offset n = Inr (take n (drop offset (ce_contents ?a))))"
    using initrd_archive_exact [OF eok cons ok(3) small] ty(1) by auto
  obtain i where i: "initrd_find root [lit ''bin'', lit ''sh''] = Inr i" "\<And>offset n. initrd_read i offset n = Inr (take n (drop offset [1, 2, 3]))"
    using root(3) by (auto simp: sample_entry_def)
  have "inode_kind (initrd_find root [lit ''bin'']) = Some (Inr ())" "inode_kind (initrd_find root [lit ''sh'']) = None"
    unfolding root(2) archive_at_def using ty by (simp_all add: sample_entry_def bin)
  then show ?thesis using root(1) i(1) i(2) [of 1 5] by auto
qed

end
