(* ===== verification/Boot_Settings.thy ===== *)
theory Boot_Settings
  imports Mem_Dir Rust_Num "HOL-Library.Sublist"
begin

text \<open>
  The boot configuration and the table of file systems, \<open>boot_settings.rs\<close>. Both are parsed line by line; an error is the
  message of the code. Printed settings are parsed back, and an accepted table lists every mount point after those above it.
\<close>

section \<open>Text\<close>

text \<open>\<open>str::lines\<close>: lines end with a newline, before which one carriage return is dropped.\<close>

definition strip_cr :: "rstr \<Rightarrow> rstr" where
  "strip_cr l = (if l \<noteq> [] \<and> last l = 13 then butlast l else l)"

definition str_lines :: "rstr \<Rightarrow> rstr list" where
  "str_lines s = (let ps = split_on 10 s in map strip_cr (butlast ps) @ (if last ps = [] then [] else [last ps]))"

definition to_ascii_lowercase :: "rstr \<Rightarrow> rstr" where
  "to_ascii_lowercase s = map (\<lambda>c. if 65 \<le> c \<and> c \<le> 90 then c + 32 else c) s"

abbreviation quote :: nat where "quote \<equiv> 34"
abbreviation backslash :: nat where "backslash \<equiv> 92"
abbreviation hash :: nat where "hash \<equiv> 35"

definition MAX_CONFIG_BYTES :: nat where "MAX_CONFIG_BYTES = 16 * 1024"
definition DEFAULT_VIRTUAL_CONSOLES :: nat where "DEFAULT_VIRTUAL_CONSOLES = 6"
definition MAX_VIRTUAL_CONSOLES :: nat where "MAX_VIRTUAL_CONSOLES = 12"

definition canonical_path :: "rstr \<Rightarrow> bool" where
  "canonical_path path \<longleftrightarrow> str_trim path = path
     \<and> (path = [slash]
        \<or> starts_with [slash] path \<and> \<not> ends_with [slash] path
          \<and> \<not> (\<exists>c \<in> set path. is_control c \<or> c = quote \<or> c = backslash)
          \<and> (\<forall>part \<in> set (split_on slash (drop 1 path)). part \<noteq> [] \<and> part \<noteq> [dot] \<and> part \<noteq> [dot, dot]))"

section \<open>Options of tmpfs\<close>

definition size_suffix :: "rstr \<Rightarrow> rstr \<times> nat" where
  "size_suffix v =
     (if v = [] then (v, 1)
      else if last v \<in> {107, 75} then (butlast v, 1024)
      else if last v \<in> {109, 77} then (butlast v, 1024 ^ 2)
      else if last v \<in> {103, 71} then (butlast v, 1024 ^ 3)
      else (v, 1))"

definition tmpfs_set :: "tmpfs_options \<Rightarrow> rstr \<Rightarrow> rstr \<Rightarrow> rstr + tmpfs_options" where
  "tmpfs_set opts key v =
     (if key = lit ''size'' then
        (let (number, multiplier) = size_suffix v
         in case from_str_radix 10 usize_max number of
              None \<Rightarrow> Inl (lit ''invalid tmpfs size'')
            | Some n \<Rightarrow>
                if usize_max < n * multiplier \<or> n * multiplier = 0 then Inl (lit ''invalid tmpfs size'')
                else if usize_max < n * multiplier + 4095 then Inl (lit ''tmpfs size overflow'')
                else Inr (opts\<lparr>to_size := (n * multiplier + 4095) div 4096 * 4096\<rparr>))
      else if key = lit ''nr_inodes'' then
        (case from_str_radix 10 usize_max v of
           None \<Rightarrow> Inl (lit ''invalid tmpfs inode limit'')
         | Some n \<Rightarrow> if n = 0 then Inl (lit ''invalid tmpfs inode limit'') else Inr (opts\<lparr>to_nr_inodes := n\<rparr>))
      else if key = lit ''mode'' then
        (case from_str_radix 8 (2 ^ 16 - 1) v of
           None \<Rightarrow> Inl (lit ''invalid tmpfs mode'')
         | Some n \<Rightarrow> if n \<le> 4095 then Inr (opts\<lparr>to_mode := n\<rparr>) else Inl (lit ''invalid tmpfs mode''))
      else if key = lit ''uid'' then
        (case from_str_radix 10 (2 ^ 32 - 1) v of None \<Rightarrow> Inl (lit ''invalid tmpfs uid'') | Some n \<Rightarrow> Inr (opts\<lparr>to_uid := n\<rparr>))
      else if key = lit ''gid'' then
        (case from_str_radix 10 (2 ^ 32 - 1) v of None \<Rightarrow> Inl (lit ''invalid tmpfs gid'') | Some n \<Rightarrow> Inr (opts\<lparr>to_gid := n\<rparr>))
      else Inl (lit ''unsupported tmpfs mount option''))"

section \<open>Boot settings\<close>

record boot_settings =
  log_level :: rstr
  shell_port :: nat
  shell_console :: rstr
  virtual_consoles :: nat
  syscall_trace :: bool
  root_fs :: rstr
  root_device :: rstr
  bs_init :: "rstr option"

definition boot_default :: boot_settings where
  "boot_default = \<lparr>log_level = lit ''info'', shell_port = 1, shell_console = lit ''auto'', virtual_consoles = DEFAULT_VIRTUAL_CONSOLES,
     syscall_trace = False, root_fs = lit ''ext4'', root_device = lit ''/dev/sda'', bs_init = None\<rparr>"

definition validate :: "boot_settings \<Rightarrow> rstr + unit" where
  "validate s =
     (if (case bs_init s of None \<Rightarrow> False
          | Some path \<Rightarrow> \<not> canonical_path path \<or> path = [slash] \<or> (\<exists>c \<in> set path. is_control c \<or> c = quote \<or> c = backslash))
      then Inl (lit ''init requires a canonical absolute executable path'')
      else if root_fs s = lit ''ramfs'' then
        (if root_device s \<noteq> [] \<and> root_device s \<noteq> lit ''none''
         then Inl (lit ''ramfs root requires root_device = '' @ [quote] @ lit ''none'' @ [quote]) else Inr ())
      else if root_fs s = lit ''ext4'' \<or> root_fs s = lit ''fat'' then
        (if \<not> starts_with (lit ''/dev/'') (root_device s) \<or> \<not> canonical_path (root_device s)
         then Inl (lit ''disk root requires an absolute /dev/... root_device'') else Inr ())
      else Inl (lit ''unsupported root filesystem''))"

definition line_error :: "string \<Rightarrow> nat \<Rightarrow> string \<Rightarrow> rstr" where
  "line_error what index reason = lit what @ decimal (index + 1) @ lit '': '' @ lit reason"

abbreviation boot_error :: "nat \<Rightarrow> string \<Rightarrow> rstr" where
  "boot_error \<equiv> line_error ''boot configuration line ''"

definition parse_value :: "nat \<Rightarrow> rstr \<Rightarrow> rstr + rstr" where
  "parse_value index raw =
     (case raw of
        c # quoted \<Rightarrow>
          if c = quote
          then (case split_once quote quoted of
                  None \<Rightarrow> Inl (boot_error index ''unclosed string'')
                | Some (v, tail) \<Rightarrow>
                    if backslash \<in> set v \<or> \<not> (str_trim tail = [] \<or> starts_with [hash] (str_trim tail))
                    then Inl (boot_error index ''unsupported string syntax'') else Inr v)
          else Inr (str_trim (hd (split_on hash raw)))
      | [] \<Rightarrow> Inr (str_trim (hd (split_on hash raw))))"

definition LOG_LEVELS :: "rstr set" where
  "LOG_LEVELS = {lit ''off'', lit ''error'', lit ''warn'', lit ''info'', lit ''debug'', lit ''trace''}"

definition apply_setting :: "nat \<Rightarrow> boot_settings \<Rightarrow> rstr \<Rightarrow> rstr \<Rightarrow> rstr + boot_settings" where
  "apply_setting index s key v =
     (if key = lit ''log_level'' \<and> (v = lit ''warning'' \<or> v \<in> LOG_LEVELS)
      then Inr (s\<lparr>log_level := if v = lit ''warning'' then lit ''warn'' else v\<rparr>)
      else if key = lit ''shell_port'' \<and> v \<in> {lit ''1'', lit ''2''}
      then (case from_str_radix 10 255 v of None \<Rightarrow> Inl (boot_error index ''invalid port'') | Some n \<Rightarrow> Inr (s\<lparr>shell_port := n\<rparr>))
      else if key = lit ''shell_console'' \<and> v \<in> {lit ''auto'', lit ''serial'', lit ''framebuffer''}
      then Inr (s\<lparr>shell_console := v\<rparr>)
      else if key = lit ''virtual_consoles''
      then (case from_str_radix 10 usize_max v of
              None \<Rightarrow> Inl (boot_error index ''expected unsigned integer'')
            | Some n \<Rightarrow> Inr (s\<lparr>virtual_consoles := min (max n 1) MAX_VIRTUAL_CONSOLES\<rparr>))
      else if key = lit ''syscall_trace''
      then (let l = to_ascii_lowercase v
            in if l \<in> {lit ''1'', lit ''true'', lit ''yes'', lit ''on''} then Inr (s\<lparr>syscall_trace := True\<rparr>)
               else if l \<in> {lit ''0'', lit ''false'', lit ''no'', lit ''off''} then Inr (s\<lparr>syscall_trace := False\<rparr>)
               else Inl (boot_error index ''invalid syscall_trace boolean''))
      else if key = lit ''root_fs'' \<and> v \<in> {lit ''ext4'', lit ''fat'', lit ''ramfs''} then Inr (s\<lparr>root_fs := v\<rparr>)
      else if key = lit ''root_device'' then Inr (s\<lparr>root_device := v\<rparr>)
      else if key = lit ''init'' then Inr (s\<lparr>bs_init := Some v\<rparr>)
      else Inl (boot_error index ''unknown setting or invalid value''))"

fun parse_lines :: "rstr list \<Rightarrow> boot_settings \<Rightarrow> nat \<Rightarrow> rstr list \<Rightarrow> rstr + boot_settings" where
  "parse_lines keys s index [] = Inr s"
| "parse_lines keys s index (full # rest) =
     (let line = str_trim full
      in if line = [] \<or> starts_with [hash] line then parse_lines keys s (index + 1) rest
         else case split_once 61 line of
                None \<Rightarrow> Inl (boot_error index ''expected key = value'')
              | Some (k, r) \<Rightarrow>
                  let key = str_trim k
                  in if key \<in> set keys then Inl (boot_error index ''duplicate key'')
                     else case parse_value index (str_trim r) of
                            Inl e \<Rightarrow> Inl e
                          | Inr v \<Rightarrow>
                              (case apply_setting index s key v of
                                 Inl e \<Rightarrow> Inl e
                               | Inr s' \<Rightarrow> parse_lines (keys @ [key]) s' (index + 1) rest))"

definition parse_with_defaults :: "rstr \<Rightarrow> boot_settings \<Rightarrow> rstr + boot_settings" where
  "parse_with_defaults contents s =
     (if str_len contents > MAX_CONFIG_BYTES then Inl (lit ''boot configuration exceeds 16 KiB'')
      else case parse_lines [] s 0 (str_lines contents) of
             Inl e \<Rightarrow> Inl e
           | Inr s' \<Rightarrow> (case validate s' of Inl e \<Rightarrow> Inl e | Inr _ \<Rightarrow> Inr s'))"

definition boot_parse :: "rstr \<Rightarrow> rstr + boot_settings" where
  "boot_parse contents = parse_with_defaults contents boot_default"

definition quoted_line :: "string \<Rightarrow> rstr \<Rightarrow> rstr" where
  "quoted_line key v = lit key @ lit '' = '' @ [quote] @ v @ [quote]"

definition plain_line :: "string \<Rightarrow> rstr \<Rightarrow> rstr" where
  "plain_line key v = lit key @ lit '' = '' @ v"

definition to_toml :: "boot_settings \<Rightarrow> rstr" where
  "to_toml s = concat (map (\<lambda>l. l @ [10])
     ([quoted_line ''log_level'' (log_level s), plain_line ''shell_port'' (decimal (shell_port s)),
       quoted_line ''shell_console'' (shell_console s), plain_line ''virtual_consoles'' (decimal (virtual_consoles s)),
       plain_line ''syscall_trace'' (lit (if syscall_trace s then ''true'' else ''false'')),
       quoted_line ''root_fs'' (root_fs s), quoted_line ''root_device'' (root_device s)]
      @ (case bs_init s of None \<Rightarrow> [] | Some path \<Rightarrow> [quoted_line ''init'' path])))"

definition default_fstab :: "boot_settings \<Rightarrow> rstr" where
  "default_fstab s =
     lit ''# Generated by krust; root is mounted before this file is read.'' @ [10]
     @ (if root_fs s = lit ''ramfs'' then lit ''none''
        else concat (map (\<lambda>c. if c = 32 then backslash # lit ''040'' else [c]) (root_device s)))
     @ lit '' / '' @ root_fs s @ lit '' defaults 0 0'' @ [10] @ lit ''proc /proc proc defaults 0 0'' @ [10]
     @ lit ''dev /dev dev defaults 0 0'' @ [10]"

section \<open>The table of file systems\<close>

record fstab_entry =
  fe_source :: rstr
  fe_target :: rstr
  fe_filesystem :: rstr
  fe_noauto :: bool
  fe_tmpfs :: tmpfs_options

fun decode_field :: "rstr \<Rightarrow> rstr + rstr" where
  "decode_field [] = Inr []"
| "decode_field (c # s) =
     (if c \<noteq> backslash then (case decode_field s of Inl e \<Rightarrow> Inl e | Inr v \<Rightarrow> Inr (c # v))
      else case s of
             a # b # d # rest \<Rightarrow>
               (case (if [a, b, d] = lit ''040'' then Some 32 else if [a, b, d] = lit ''011'' then Some 9
                      else if [a, b, d] = lit ''134'' then Some backslash else None) of
                  None \<Rightarrow> Inl (lit ''unsupported fstab escape'')
                | Some x \<Rightarrow> (case decode_field rest of Inl e \<Rightarrow> Inl e | Inr v \<Rightarrow> Inr (x # v)))
           | _ \<Rightarrow> Inl (lit ''unsupported fstab escape''))"

abbreviation fstab_error :: "nat \<Rightarrow> string \<Rightarrow> rstr" where
  "fstab_error \<equiv> line_error ''fstab line ''"

definition fstab_line_error :: "nat \<Rightarrow> rstr \<Rightarrow> rstr" where
  "fstab_line_error index reason = lit ''fstab line '' @ decimal (index + 1) @ lit '': '' @ reason"

text \<open>The options of one line: whether \<open>noauto\<close> is given, and those of tmpfs.\<close>

fun parse_options :: "nat \<Rightarrow> rstr \<Rightarrow> rstr list \<Rightarrow> bool \<Rightarrow> tmpfs_options \<Rightarrow> rstr list \<Rightarrow> rstr + bool \<times> tmpfs_options" where
  "parse_options index fs keys noauto opts [] = Inr (noauto, opts)"
| "parse_options index fs keys noauto opts (opt # rest) =
     (if opt = lit ''defaults'' then parse_options index fs keys noauto opts rest
      else if opt = lit ''noauto'' then parse_options index fs keys True opts rest
      else if fs = lit ''tmpfs'' then
        (case split_once 61 opt of
           None \<Rightarrow> Inl (fstab_error index ''unsupported tmpfs mount option'')
         | Some (key, v) \<Rightarrow>
             if key \<in> set keys then Inl (fstab_error index ''duplicate tmpfs mount option'')
             else case tmpfs_set opts key v of
                    Inl e \<Rightarrow> Inl (fstab_line_error index e)
                  | Inr opts' \<Rightarrow> parse_options index fs (keys @ [key]) noauto opts' rest)
      else Inl (fstab_error index ''unsupported mount option (only defaults and noauto are supported)''))"

definition source_ok :: "rstr \<Rightarrow> rstr \<Rightarrow> bool" where
  "source_ok fs source \<longleftrightarrow>
     fs \<in> {lit ''fat'', lit ''ext4''} \<and> starts_with (lit ''/dev/'') source \<and> canonical_path source
     \<or> fs \<in> {lit ''ramfs'', lit ''tmpfs'', lit ''proc'', lit ''dev''} \<and> (source = lit ''none'' \<or> source = fs)"

definition parse_entry_fields :: "nat \<Rightarrow> fstab_entry list \<Rightarrow> rstr list \<Rightarrow> rstr + fstab_entry" where
  "parse_entry_fields index entries parts =
     (if length parts \<noteq> 6 then Inl (fstab_error index ''expected six fields'')
      else (case decode_field (parts ! 0) of
        Inl e \<Rightarrow> Inl (fstab_line_error index e)
      | Inr source \<Rightarrow> (case decode_field (parts ! 1) of
        Inl e \<Rightarrow> Inl (fstab_line_error index e)
      | Inr target \<Rightarrow>
          if \<not> canonical_path target then Inl (fstab_error index ''mount target must be a canonical absolute path'')
          else if \<exists>entry \<in> set entries. fe_target entry = target then Inl (fstab_error index ''duplicate mount target'')
          else if \<not> source_ok (parts ! 2) source then Inl (fstab_error index ''unsupported filesystem or source'')
          else (case parse_options index (parts ! 2) [] False tmpfs_default (split_on 44 (parts ! 3)) of
                 Inl e \<Rightarrow> Inl e
               | Inr (noauto, opts) \<Rightarrow>
                   if parts ! 4 \<noteq> lit ''0'' \<or> parts ! 5 \<noteq> lit ''0''
                   then Inl (fstab_error index ''dump/fsck are not implemented; final fields must be 0 0'')
                   else if target = [slash] \<and> (noauto \<or> parts ! 2 \<notin> {lit ''ext4'', lit ''fat'', lit ''ramfs''})
                   then Inl (fstab_error index ''invalid root entry'')
                   else if length entries \<ge> 64 then Inl (fstab_error index ''too many mount entries (maximum 64)'')
                   else Inr \<lparr>fe_source = source, fe_target = target, fe_filesystem = parts ! 2, fe_noauto = noauto, fe_tmpfs = opts\<rparr>))))"

fun parse_fstab_lines :: "fstab_entry list \<Rightarrow> nat \<Rightarrow> rstr list \<Rightarrow> rstr + fstab_entry list" where
  "parse_fstab_lines entries index [] = Inr entries"
| "parse_fstab_lines entries index (full # rest) =
     (let line = str_trim full
      in if line = [] \<or> starts_with [hash] line then parse_fstab_lines entries (index + 1) rest
         else case parse_entry_fields index entries (takeWhile (\<lambda>f. \<not> starts_with [hash] f) (split_whitespace line)) of
                Inl e \<Rightarrow> Inl e
              | Inr entry \<Rightarrow> parse_fstab_lines (entries @ [entry]) (index + 1) rest)"

definition depth :: "fstab_entry \<Rightarrow> nat" where
  "depth e = count_list (fe_target e) slash"

definition parse_fstab :: "rstr \<Rightarrow> rstr + fstab_entry list" where
  "parse_fstab contents =
     (if str_len contents > MAX_CONFIG_BYTES then Inl (lit ''fstab exceeds 16 KiB'')
      else case parse_fstab_lines [] 0 (str_lines contents) of Inl e \<Rightarrow> Inl e | Inr entries \<Rightarrow> Inr (sort_key depth entries))"

definition validate_fstab_root :: "fstab_entry list \<Rightarrow> boot_settings \<Rightarrow> rstr + unit" where
  "validate_fstab_root entries s =
     (case List.find (\<lambda>e. fe_target e = [slash]) entries of
        None \<Rightarrow> Inr ()
      | Some root \<Rightarrow>
          let expected_source = (if root_fs s = lit ''ramfs'' then lit ''none'' else root_device s)
          in if fe_filesystem root \<noteq> root_fs s \<or> fe_source root \<noteq> expected_source \<and> \<not> (root_fs s = lit ''ramfs'' \<and> fe_source root = lit ''ramfs'')
             then Inl (lit ''fstab root entry disagrees with early boot root settings'') else Inr ())"

section \<open>Lines and trimming\<close>

lemma lit_eq [simp]: "lit a = lit b \<longleftrightarrow> a = b"
  unfolding lit_def by (rule inj_map_eq_map) (rule injI, simp)

lemma dropWhile_id: "xs = [] \<or> \<not> Q (hd xs) \<Longrightarrow> dropWhile Q xs = xs"
  by (cases xs) auto

lemma trim_id: "s = [] \<or> \<not> is_whitespace (hd s) \<and> \<not> is_whitespace (last s) \<Longrightarrow> str_trim s = s"
  by (auto simp: str_trim_def trim_start_def trim_end_def dropWhile_id hd_rev)

lemma trim_blank_end: "s \<noteq> [] \<Longrightarrow> \<not> is_whitespace (hd s) \<Longrightarrow> \<not> is_whitespace (last s) \<Longrightarrow> str_trim (s @ [32]) = s"
  using dropWhile_id [of "s @ [32]" is_whitespace] dropWhile_id [of "rev s" is_whitespace]
  by (simp add: str_trim_def trim_start_def trim_end_def hd_rev hd_append is_whitespace_def [of 32])

lemma trim_blank_start: "s \<noteq> [] \<Longrightarrow> \<not> is_whitespace (hd s) \<Longrightarrow> \<not> is_whitespace (last s) \<Longrightarrow> str_trim (32 # s) = s"
  using trim_id [of s] by (simp add: str_trim_def trim_start_def is_whitespace_def [of 32])

lemma split_on_lines: "(\<And>l. l \<in> set ls \<Longrightarrow> 10 \<notin> set l) \<Longrightarrow> split_on 10 (concat (map (\<lambda>l. l @ [10]) ls)) = ls @ [[]]"
  by (induction ls) (simp_all add: split_on_append)

lemma str_lines_concat:
  assumes "\<And>l. l \<in> set ls \<Longrightarrow> 10 \<notin> set l \<and> (l = [] \<or> last l \<noteq> 13)"
  shows "str_lines (concat (map (\<lambda>l. l @ [10]) ls)) = ls"
proof -
  have "map strip_cr ls = map id ls" using assms by (intro map_cong) (auto simp: strip_cr_def)
  then show ?thesis using split_on_lines [of ls] assms by (simp add: str_lines_def)
qed

section \<open>Printed settings\<close>

text \<open>A key has no blanks.\<close>

definition key_ok :: "rstr \<Rightarrow> bool" where
  "key_ok k \<longleftrightarrow> k \<noteq> [] \<and> (\<forall>c \<in> set k. \<not> is_whitespace c \<and> c \<noteq> 61 \<and> c \<noteq> hash)"

lemma parse_line_step:
  assumes k: "key_ok k" "k \<notin> set keys" and raw: "raw \<noteq> []" "\<not> is_whitespace (hd raw)" "\<not> is_whitespace (last raw)"
    and v: "parse_value index raw = Inr v" "apply_setting index s k v = Inr s'"
  shows "parse_lines keys s index ((k @ lit '' = '' @ raw) # rest) = parse_lines (keys @ [k]) s' (index + 1) rest"
proof -
  let ?line = "k @ 32 # 61 # 32 # raw"
  have kk: "k \<noteq> []" "\<not> is_whitespace (hd k)" "\<not> is_whitespace (last k)" "hd k \<noteq> hash" "61 \<notin> set (k @ [32])"
    using k(1) by (auto simp: key_ok_def)
  have l: "k @ lit '' = '' @ raw = ?line" by (simp add: lit_def)
  have "str_trim ?line = ?line" using kk raw by (intro trim_id) simp
  moreover have "\<not> starts_with [hash] ?line" using kk(1,4) by (cases k) (auto simp: starts_with_def)
  moreover have "split_once 61 ?line = Some (k @ [32], 32 # raw)" unfolding split_once_Some using kk(5) by simp
  ultimately show ?thesis unfolding l using trim_blank_end [OF kk(1-3)] trim_blank_start [OF raw] k(2) v by simp
qed

lemma parse_quoted:
  "quote \<notin> set v \<Longrightarrow> backslash \<notin> set v \<Longrightarrow> parse_value index (quote # v @ [quote]) = Inr v"
proof -
  assume a: "quote \<notin> set v" "backslash \<notin> set v"
  then have "split_once quote (v @ [quote]) = Some (v, [])" by (simp add: split_once_Some)
  then show ?thesis using a by (simp add: parse_value_def str_trim_def trim_start_def trim_end_def)
qed

lemma quoted_step:
  assumes "key_ok (lit k)" "lit k \<notin> set keys" "quote \<notin> set v" "backslash \<notin> set v" "apply_setting index s (lit k) v = Inr s'"
  shows "parse_lines keys s index (quoted_line k v # rest) = parse_lines (keys @ [lit k]) s' (index + 1) rest"
  using parse_line_step [OF assms(1,2) _ _ _ parse_quoted [OF assms(3,4)] assms(5), of rest]
  by (simp add: quoted_line_def is_whitespace_def)

lemma plain_step:
  assumes "key_ok (lit k)" "lit k \<notin> set keys" "v \<noteq> []" "\<And>c. c \<in> set v \<Longrightarrow> \<not> is_whitespace c \<and> c \<noteq> quote \<and> c \<noteq> hash"
    and "apply_setting index s (lit k) v = Inr s'"
  shows "parse_lines keys s index (plain_line k v # rest) = parse_lines (keys @ [lit k]) s' (index + 1) rest"
proof -
  have "split_on hash v = [v]" using assms(4) by (intro split_on_atom) auto
  moreover have "str_trim v = v" using assms(3,4) by (intro trim_id) auto
  moreover have "hd v \<noteq> quote" using assms(3,4) by simp
  ultimately have "parse_value index v = Inr v" using assms(3) by (cases v) (simp_all add: parse_value_def del: split_on.simps)
  then show ?thesis using parse_line_step [OF assms(1,2,3) _ _ _ assms(5), of rest] assms(3,4) by (simp add: plain_line_def)
qed

text \<open>Settings that the parser produces.\<close>

definition settings_ok :: "boot_settings \<Rightarrow> bool" where
  "settings_ok s \<longleftrightarrow> log_level s \<in> LOG_LEVELS \<and> shell_port s \<in> {1, 2} \<and> shell_console s \<in> {lit ''auto'', lit ''serial'', lit ''framebuffer''}
     \<and> 1 \<le> virtual_consoles s \<and> virtual_consoles s \<le> MAX_VIRTUAL_CONSOLES \<and> validate s = Inr ()"

lemma parse_port: "v \<in> {lit ''1'', lit ''2''} \<Longrightarrow> \<exists>n \<in> {1, 2}. from_str_radix 10 255 v = Some n"
  by (auto simp: lit_def from_str_radix_def digit_val_def)

text \<open>Without the fields that are checked together at the end.\<close>

abbreviation early :: "boot_settings \<Rightarrow> boot_settings" where
  "early s \<equiv> s\<lparr>root_fs := lit ''ramfs'', root_device := [], bs_init := None\<rparr>"

lemma validate_early [simp]: "validate (early s) = Inr ()"
  by (simp add: validate_def)

lemma apply_setting_ok:
  assumes a: "apply_setting index s key v = Inr s'" and s: "settings_ok (early s)"
  shows "settings_ok (early s')"
proof -
  have w: "lit ''warn'' \<in> LOG_LEVELS" by (simp add: LOG_LEVELS_def)
  let ?c1 = "key = lit ''log_level'' \<and> (v = lit ''warning'' \<or> v \<in> LOG_LEVELS)"
  let ?c2 = "key = lit ''shell_port'' \<and> v \<in> {lit ''1'', lit ''2''}"
  let ?c3 = "key = lit ''shell_console'' \<and> v \<in> {lit ''auto'', lit ''serial'', lit ''framebuffer''}"
  let ?c4 = "key = lit ''virtual_consoles''"
  consider (c1) ?c1 | (c2) "\<not> ?c1" ?c2 | (c3) "\<not> ?c1" "\<not> ?c2" ?c3 | (c4) "\<not> ?c1" "\<not> ?c2" "\<not> ?c3" ?c4
    | (c5) "\<not> ?c1" "\<not> ?c2" "\<not> ?c3" "\<not> ?c4" by blast
  then show ?thesis
  proof cases
    case c1
    then have "s' = s\<lparr>log_level := if v = lit ''warning'' then lit ''warn'' else v\<rparr>" using a unfolding apply_setting_def by (simp only: if_P sum.inject)
    then show ?thesis using s c1 w by (auto simp: settings_ok_def)
  next
    case c2
    obtain n where n: "n \<in> {1, 2}" "from_str_radix 10 255 v = Some n" using parse_port c2(2) by blast
    then have "s' = s\<lparr>shell_port := n\<rparr>" using a c2 unfolding apply_setting_def by (simp only: if_P if_not_P if_False if_True option.case sum.inject)
    then show ?thesis using s n(1) by (auto simp: settings_ok_def)
  next
    case c3
    then have "s' = s\<lparr>shell_console := v\<rparr>" using a unfolding apply_setting_def by (simp only: if_P if_not_P if_False if_True sum.inject)
    then show ?thesis using s c3(3) by (auto simp: settings_ok_def)
  next
    case c4
    then obtain n where "s' = s\<lparr>virtual_consoles := min (max n 1) MAX_VIRTUAL_CONSOLES\<rparr>"
      using a unfolding apply_setting_def by (simp only: if_P if_not_P split: option.split_asm) auto
    then show ?thesis using s by (auto simp: settings_ok_def MAX_VIRTUAL_CONSOLES_def)
  next
    case c5
    have "\<exists>b. s' = s\<lparr>syscall_trace := b\<rparr> \<or> s' = s\<lparr>root_fs := v\<rparr> \<or> s' = s\<lparr>root_device := v\<rparr> \<or> s' = s\<lparr>bs_init := Some v\<rparr>"
      using a unfolding apply_setting_def if_not_P [OF c5(1)] if_not_P [OF c5(2)] if_not_P [OF c5(3)] if_not_P [OF c5(4)] Let_def
      by (simp only: split: if_split_asm) auto
    then show ?thesis using s by (auto simp: settings_ok_def)
  qed
qed

lemma parse_lines_ok: "parse_lines keys s index ls = Inr s' \<Longrightarrow> settings_ok (early s) \<Longrightarrow> settings_ok (early s')"
proof (induction ls arbitrary: keys s index)
  case (Cons full ls)
  show ?case using Cons.prems Cons.IH apply_setting_ok
    by (auto simp: Let_def split: if_split_asm option.split_asm sum.split_asm)
qed simp

lemma default_device: "starts_with (lit ''/dev/'') (lit ''/dev/sda'')" "canonical_path (lit ''/dev/sda'')"
  by (simp_all add: starts_with_def canonical_path_def ends_with_def lit_def str_trim_def trim_start_def trim_end_def is_whitespace_def is_control_def)

lemma default_ok: "settings_ok boot_default"
  by (simp add: settings_ok_def boot_default_def LOG_LEVELS_def MAX_VIRTUAL_CONSOLES_def DEFAULT_VIRTUAL_CONSOLES_def validate_def default_device)

lemma settings_ok_early: "settings_ok s \<longleftrightarrow> settings_ok (early s) \<and> validate s = Inr ()"
  by (auto simp: settings_ok_def)

text \<open>Settings that are accepted are in range, whatever the text and whatever defaults that are in range it starts from: the
  log level, port and console are known ones, there are between one and twelve virtual consoles, the root device fits the root file system
  and the initial program is an absolute path without dots, quotes or control characters.\<close>

lemma accepted_settings_ok:
  assumes "parse_with_defaults contents d = Inr s" "settings_ok d"
  shows "settings_ok s"
proof -
  from assms(1) have p: "parse_lines [] d 0 (str_lines contents) = Inr s" "validate s = Inr ()"
    by (auto simp: parse_with_defaults_def split: if_splits sum.splits)
  with parse_lines_ok [OF p(1)] assms(2) show ?thesis unfolding settings_ok_early [of s] settings_ok_early [of d] by simp
qed

lemma keys_ok:
  "key_ok (lit ''log_level'')" "key_ok (lit ''shell_port'')" "key_ok (lit ''shell_console'')" "key_ok (lit ''virtual_consoles'')"
  "key_ok (lit ''syscall_trace'')" "key_ok (lit ''root_fs'')" "key_ok (lit ''root_device'')" "key_ok (lit ''init'')"
  by (simp_all add: key_ok_def lit_def is_whitespace_def)

text \<open>Characters of the values that are printed.\<close>

definition clean :: "rstr \<Rightarrow> bool" where
  "clean v \<longleftrightarrow> quote \<notin> set v \<and> backslash \<notin> set v \<and> 10 \<notin> set v"

lemma clean_lits:
  "clean (lit ''off'')" "clean (lit ''error'')" "clean (lit ''warn'')" "clean (lit ''info'')" "clean (lit ''debug'')" "clean (lit ''trace'')" "clean (lit ''auto'')" "clean (lit ''serial'')" "clean (lit ''framebuffer'')" "clean (lit ''ext4'')" "clean (lit ''fat'')" "clean (lit ''ramfs'')"
  by (simp_all add: clean_def lit_def)

lemma clean_words:
  "v \<in> LOG_LEVELS \<Longrightarrow> clean v" "v \<in> {lit ''auto'', lit ''serial'', lit ''framebuffer''} \<Longrightarrow> clean v" "v \<in> {lit ''ext4'', lit ''fat'', lit ''ramfs''} \<Longrightarrow> clean v"
  by (auto simp: LOG_LEVELS_def clean_lits)

lemma clean_path: "canonical_path v \<Longrightarrow> clean v"
proof (cases "v = [slash]")
  case False
  assume "canonical_path v"
  with False have "\<not> (\<exists>c \<in> set v. is_control c \<or> c = quote \<or> c = backslash)" unfolding canonical_path_def by blast
  moreover have "is_control 10" by (simp add: is_control_def)
  ultimately show ?thesis unfolding clean_def by blast
qed (simp add: clean_def)

lemma validate_parts:
  assumes "validate s = Inr ()"
  shows "root_fs s \<in> {lit ''ext4'', lit ''fat'', lit ''ramfs''}" "clean (root_device s)" "\<And>path. bs_init s = Some path \<Longrightarrow> clean path"
proof -
  have n: "clean []" "clean (lit ''none'')" by (simp_all add: clean_def lit_def)
  show "root_fs s \<in> {lit ''ext4'', lit ''fat'', lit ''ramfs''}" using assms by (auto simp: validate_def split: if_splits)
  show "clean (root_device s)" using assms n clean_path by (auto simp: validate_def split: if_splits)
  show "\<And>path. bs_init s = Some path \<Longrightarrow> clean path" using assms clean_path by (auto simp: validate_def split: if_splits)
qed

lemma lowercase_bool: "to_ascii_lowercase (lit (if b then ''true'' else ''false'')) = lit (if b then ''true'' else ''false'')"
  by (simp add: to_ascii_lowercase_def lit_def)

lemma printed_fields:
  assumes s: "settings_ok s"
  shows "apply_setting i d (lit ''log_level'') (log_level s) = Inr (d\<lparr>log_level := log_level s\<rparr>)"
    "apply_setting i d (lit ''shell_port'') (decimal (shell_port s)) = Inr (d\<lparr>shell_port := shell_port s\<rparr>)"
    "apply_setting i d (lit ''shell_console'') (shell_console s) = Inr (d\<lparr>shell_console := shell_console s\<rparr>)"
    "apply_setting i d (lit ''virtual_consoles'') (decimal (virtual_consoles s)) = Inr (d\<lparr>virtual_consoles := virtual_consoles s\<rparr>)"
    "apply_setting i d (lit ''syscall_trace'') (lit (if syscall_trace s then ''true'' else ''false'')) = Inr (d\<lparr>syscall_trace := syscall_trace s\<rparr>)"
    "apply_setting i d (lit ''root_fs'') (root_fs s) = Inr (d\<lparr>root_fs := root_fs s\<rparr>)"
    "apply_setting i d (lit ''root_device'') (root_device s) = Inr (d\<lparr>root_device := root_device s\<rparr>)"
    "apply_setting i d (lit ''init'') path = Inr (d\<lparr>bs_init := Some path\<rparr>)"
proof -
  have "lit ''warning'' \<notin> LOG_LEVELS" by (simp add: LOG_LEVELS_def)
  then show "apply_setting i d (lit ''log_level'') (log_level s) = Inr (d\<lparr>log_level := log_level s\<rparr>)"
    using s by (auto simp: apply_setting_def settings_ok_def)
  have n: "shell_port s \<in> {1, 2}" "virtual_consoles s \<le> MAX_VIRTUAL_CONSOLES" "1 \<le> virtual_consoles s" using s by (simp_all add: settings_ok_def)
  have d: "decimal (shell_port s) \<in> {lit ''1'', lit ''2''}" using n(1) by (auto simp: decimal.simps [of 1] decimal.simps [of 2] decimal.simps [of "Suc 0"] lit_def)
  then show "apply_setting i d (lit ''shell_port'') (decimal (shell_port s)) = Inr (d\<lparr>shell_port := shell_port s\<rparr>)"
    using n(1) parse_decimal [of "shell_port s" 255] unfolding apply_setting_def by auto
  show "apply_setting i d (lit ''shell_console'') (shell_console s) = Inr (d\<lparr>shell_console := shell_console s\<rparr>)"
    using s unfolding apply_setting_def settings_ok_def by auto
  show "apply_setting i d (lit ''virtual_consoles'') (decimal (virtual_consoles s)) = Inr (d\<lparr>virtual_consoles := virtual_consoles s\<rparr>)"
    using n(2,3) parse_decimal [of "virtual_consoles s" usize_max] by (simp add: apply_setting_def MAX_VIRTUAL_CONSOLES_def usize_max_def min_def max_def)
  show "apply_setting i d (lit ''syscall_trace'') (lit (if syscall_trace s then ''true'' else ''false'')) = Inr (d\<lparr>syscall_trace := syscall_trace s\<rparr>)"
    unfolding apply_setting_def lowercase_bool Let_def by simp
  show "apply_setting i d (lit ''root_fs'') (root_fs s) = Inr (d\<lparr>root_fs := root_fs s\<rparr>)"
    using validate_parts(1) [of s] s unfolding apply_setting_def settings_ok_def by auto
  show "apply_setting i d (lit ''root_device'') (root_device s) = Inr (d\<lparr>root_device := root_device s\<rparr>)"
    "apply_setting i d (lit ''init'') path = Inr (d\<lparr>bs_init := Some path\<rparr>)" by (simp_all add: apply_setting_def)
qed

definition toml_lines :: "boot_settings \<Rightarrow> rstr list" where
  "toml_lines s =
     [quoted_line ''log_level'' (log_level s), plain_line ''shell_port'' (decimal (shell_port s)),
      quoted_line ''shell_console'' (shell_console s), plain_line ''virtual_consoles'' (decimal (virtual_consoles s)),
      plain_line ''syscall_trace'' (lit (if syscall_trace s then ''true'' else ''false'')),
      quoted_line ''root_fs'' (root_fs s), quoted_line ''root_device'' (root_device s)]
     @ (case bs_init s of None \<Rightarrow> [] | Some path \<Rightarrow> [quoted_line ''init'' path])"

lemma quoted_line_plain: "10 \<notin> set (lit k) \<Longrightarrow> clean v \<Longrightarrow> 10 \<notin> set (quoted_line k v) \<and> (quoted_line k v = [] \<or> last (quoted_line k v) \<noteq> 13)"
  by (simp add: quoted_line_def clean_def lit_def)

lemma plain_line_plain:
  "10 \<notin> set (lit k) \<Longrightarrow> v \<noteq> [] \<Longrightarrow> (\<And>c. c \<in> set v \<Longrightarrow> 48 \<le> c) \<Longrightarrow> 10 \<notin> set (plain_line k v) \<and> (plain_line k v = [] \<or> last (plain_line k v) \<noteq> 13)"
proof -
  assume a: "10 \<notin> set (lit k)" "v \<noteq> []" "\<And>c. c \<in> set v \<Longrightarrow> 48 \<le> c"
  have "48 \<le> last v" using a(2,3) by simp
  moreover have "10 \<notin> set v" using a(3) by force
  ultimately show ?thesis using a(1,2) by (auto simp: plain_line_def lit_def)
qed

lemma keys_one_line:
  "10 \<notin> set (lit ''log_level'')" "10 \<notin> set (lit ''shell_port'')" "10 \<notin> set (lit ''shell_console'')" "10 \<notin> set (lit ''virtual_consoles'')"
  "10 \<notin> set (lit ''syscall_trace'')" "10 \<notin> set (lit ''root_fs'')" "10 \<notin> set (lit ''root_device'')" "10 \<notin> set (lit ''init'')"
  by (simp_all add: lit_def)

lemma bool_word: "lit (if b then ''true'' else ''false'') \<noteq> []" "c \<in> set (lit (if b then ''true'' else ''false'')) \<Longrightarrow> 97 \<le> c \<and> c \<le> 122"
  by (auto simp: lit_def split: if_splits)

lemma toml_lines_plain:
  assumes s: "settings_ok s" and l: "l \<in> set (toml_lines s)"
  shows "10 \<notin> set l \<and> (l = [] \<or> last l \<noteq> 13)"
proof -
  have v: "validate s = Inr ()" "log_level s \<in> LOG_LEVELS" "shell_console s \<in> {lit ''auto'', lit ''serial'', lit ''framebuffer''}"
    using s by (simp_all add: settings_ok_def)
  note c = clean_words(1) [OF v(2)] clean_words(2) [OF v(3)] clean_words(3) [OF validate_parts(1) [OF v(1)]] validate_parts(2,3) [OF v(1)]
  have d: "\<And>c n. c \<in> set (decimal n) \<Longrightarrow> 48 \<le> c" using decimal_digits by blast
  have b: "\<And>c b. c \<in> set (lit (if b then ''true'' else ''false'')) \<Longrightarrow> 48 \<le> c" using bool_word(2) by force
  note q = quoted_line_plain [OF keys_one_line(1) c(1)] quoted_line_plain [OF keys_one_line(3) c(2)] quoted_line_plain [OF keys_one_line(6) c(3)]
    quoted_line_plain [OF keys_one_line(7) c(4)] quoted_line_plain [OF keys_one_line(8) c(5)]
    plain_line_plain [OF keys_one_line(2) decimal_not_Nil d] plain_line_plain [OF keys_one_line(4) decimal_not_Nil d] plain_line_plain [OF keys_one_line(5) bool_word(1) b]
  from l consider "l = quoted_line ''log_level'' (log_level s)" | "l = plain_line ''shell_port'' (decimal (shell_port s))"
    | "l = quoted_line ''shell_console'' (shell_console s)" | "l = plain_line ''virtual_consoles'' (decimal (virtual_consoles s))"
    | "l = plain_line ''syscall_trace'' (lit (if syscall_trace s then ''true'' else ''false''))"
    | "l = quoted_line ''root_fs'' (root_fs s)" | "l = quoted_line ''root_device'' (root_device s)"
    | path where "bs_init s = Some path" "l = quoted_line ''init'' path"
    unfolding toml_lines_def by (cases "bs_init s") (simp_all only: set_append list.set option.case Un_iff insert_iff empty_iff, blast+)
  then show ?thesis by cases (use q in \<open>simp_all only: simp_thms\<close>)
qed

lemma parse_toml_lines:
  assumes s: "settings_ok s"
  shows "parse_lines [] boot_default 0 (toml_lines s) = Inr s"
proof -
  have v: "validate s = Inr ()" "log_level s \<in> LOG_LEVELS" "shell_console s \<in> {lit ''auto'', lit ''serial'', lit ''framebuffer''}"
    using s by (simp_all add: settings_ok_def)
  note c = clean_words(1) [OF v(2)] clean_words(2) [OF v(3)] clean_words(3) [OF validate_parts(1) [OF v(1)]] validate_parts(2) [OF v(1)]
  have dg: "\<And>c n. c \<in> set (decimal n) \<Longrightarrow> \<not> is_whitespace c \<and> c \<noteq> quote \<and> c \<noteq> hash"
    using decimal_digits by (fastforce simp: is_whitespace_def)
  have bw: "\<And>c b. c \<in> set (lit (if b then ''true'' else ''false'')) \<Longrightarrow> \<not> is_whitespace c \<and> c \<noteq> quote \<and> c \<noteq> hash"
    using bool_word(2) by (fastforce simp: is_whitespace_def)
  let ?ini = "case bs_init s of None \<Rightarrow> [] | Some path \<Rightarrow> [quoted_line ''init'' path]"
  note st = printed_fields [OF s]
  have "parse_lines [] boot_default 0 (toml_lines s) =
      parse_lines [lit ''log_level'', lit ''shell_port'', lit ''shell_console'', lit ''virtual_consoles'', lit ''syscall_trace'', lit ''root_fs'', lit ''root_device'']
        (boot_default\<lparr>log_level := log_level s, shell_port := shell_port s, shell_console := shell_console s, virtual_consoles := virtual_consoles s,
           syscall_trace := syscall_trace s, root_fs := root_fs s, root_device := root_device s\<rparr>) (0 + 1 + 1 + 1 + 1 + 1 + 1 + 1) ?ini"
    unfolding toml_lines_def append_Cons append_Nil
    using c
    by (simp add: clean_def quoted_step [OF keys_ok(1) _ _ _ st(1)] plain_step [OF keys_ok(2) _ decimal_not_Nil dg st(2)]
        quoted_step [OF keys_ok(3) _ _ _ st(3)] plain_step [OF keys_ok(4) _ decimal_not_Nil dg st(4)] plain_step [OF keys_ok(5) _ bool_word(1) bw st(5)]
        quoted_step [OF keys_ok(6) _ _ _ st(6)] quoted_step [OF keys_ok(7) _ _ _ st(7)] del: parse_lines.simps)
  also have "\<dots> = Inr s"
  proof (cases "bs_init s")
    case None
    then show ?thesis by (cases s) (simp add: boot_default_def)
  next
    case (Some path)
    then have "clean path" using validate_parts(3) [OF v(1)] by simp
    then show ?thesis using Some quoted_step [OF keys_ok(8) _ _ _ st(8)]
      by (cases s) (simp add: boot_default_def clean_def del: parse_lines.simps(2))
  qed
  finally show ?thesis .
qed

text \<open>Printed settings are read back: for all settings in range whose text is short enough to be read, parsing the text
  gives the same settings, with or without an initial program.\<close>

lemma boot_settings_roundtrip:
  assumes "settings_ok s" "str_len (to_toml s) \<le> MAX_CONFIG_BYTES"
  shows "boot_parse (to_toml s) = Inr s"
proof -
  have "to_toml s = concat (map (\<lambda>l. l @ [10]) (toml_lines s))" by (simp add: to_toml_def toml_lines_def)
  then have "str_lines (to_toml s) = toml_lines s" using str_lines_concat [of "toml_lines s"] toml_lines_plain [OF assms(1)] by simp
  then show ?thesis using assms parse_toml_lines [OF assms(1)] by (simp add: boot_parse_def parse_with_defaults_def settings_ok_def)
qed

lemma accepted_settings_ok_example:
  "\<exists>s. parse_with_defaults (plain_line ''virtual_consoles'' (lit ''99'')) boot_default = Inr s \<and> virtual_consoles s = 12 \<and> settings_ok s"
proof -
  let ?t = "plain_line ''virtual_consoles'' (lit ''99'')" and ?s = "boot_default\<lparr>virtual_consoles := 12\<rparr>"
  have "split_on 10 ?t = [?t]" by (intro split_on_atom) (simp add: plain_line_def lit_def)
  then have l: "str_lines ?t = [?t]" by (simp add: str_lines_def plain_line_def lit_def)
  have "from_str_radix 10 usize_max (lit ''99'') = Some 99" by (simp add: from_str_radix_def lit_def digit_val_def usize_max_def)
  then have a: "apply_setting 0 boot_default (lit ''virtual_consoles'') (lit ''99'') = Inr ?s"
    by (simp add: apply_setting_def MAX_VIRTUAL_CONSOLES_def)
  have w: "\<And>c. c \<in> set (lit ''99'') \<Longrightarrow> \<not> is_whitespace c \<and> c \<noteq> quote \<and> c \<noteq> hash" by (auto simp: lit_def is_whitespace_def)
  have "parse_lines [] boot_default 0 [?t] = Inr ?s"
    using plain_step [OF keys_ok(4) _ _ w a, of "[]" "[]"] by (simp add: lit_def)
  moreover have "validate ?s = Inr ()" by (simp add: validate_def boot_default_def default_device)
  moreover have "str_len ?t \<le> MAX_CONFIG_BYTES" by (simp add: str_len_def plain_line_def lit_def utf8_width_def MAX_CONFIG_BYTES_def)
  ultimately have run: "parse_with_defaults ?t boot_default = Inr ?s" using l by (simp add: parse_with_defaults_def)
  show ?thesis using accepted_settings_ok [OF run default_ok] run by auto
qed

lemma bin_sh_ok: "settings_ok (boot_default\<lparr>bs_init := Some (lit ''/bin/sh'')\<rparr>)"
proof -
  have "canonical_path (lit ''/bin/sh'')" "\<forall>c \<in> set (lit ''/bin/sh''). \<not> (is_control c \<or> c = quote \<or> c = backslash)" "lit ''/bin/sh'' \<noteq> [slash]"
    by (simp_all add: starts_with_def canonical_path_def ends_with_def lit_def str_trim_def trim_start_def trim_end_def is_whitespace_def is_control_def)
  then show ?thesis using default_ok by (auto simp: settings_ok_def validate_def boot_default_def)
qed

lemma boot_settings_roundtrip_example:
  "boot_parse (to_toml (boot_default\<lparr>bs_init := Some (lit ''/bin/sh'')\<rparr>)) = Inr (boot_default\<lparr>bs_init := Some (lit ''/bin/sh'')\<rparr>)"
proof (rule boot_settings_roundtrip [OF bin_sh_ok])
  show "str_len (to_toml (boot_default\<lparr>bs_init := Some (lit ''/bin/sh'')\<rparr>)) \<le> MAX_CONFIG_BYTES"
    by (simp add: to_toml_def boot_default_def quoted_line_def plain_line_def lit_def decimal.simps DEFAULT_VIRTUAL_CONSOLES_def
        str_len_def utf8_width_def MAX_CONFIG_BYTES_def)
qed

section \<open>Accepted tables\<close>

definition tmpfs_ok :: "tmpfs_options \<Rightarrow> bool" where
  "tmpfs_ok opts \<longleftrightarrow> to_size opts \<noteq> 0 \<and> to_size opts mod 4096 = 0 \<and> to_nr_inodes opts \<noteq> 0 \<and> to_mode opts \<le> 4095"

lemma tmpfs_set_ok: "tmpfs_set opts key v = Inr opts' \<Longrightarrow> tmpfs_ok opts \<Longrightarrow> tmpfs_ok opts'"
proof -
  have up: "0 < a \<Longrightarrow> 0 < b \<Longrightarrow> 0 < (a * b + 4095) div 4096" for a b :: nat
    using mult_pos_pos [of a b] by (simp add: div_greater_zero_iff)
  show "tmpfs_set opts key v = Inr opts' \<Longrightarrow> tmpfs_ok opts \<Longrightarrow> tmpfs_ok opts'"
    by (auto simp: tmpfs_set_def tmpfs_ok_def Let_def P_def up split: if_split_asm option.split_asm prod.split_asm)
qed

lemma parse_options_ok: "parse_options index fs keys na opts os = Inr (na', opts') \<Longrightarrow> tmpfs_ok opts \<Longrightarrow> tmpfs_ok opts'"
proof (induction os arbitrary: keys na opts)
  case (Cons opt os)
  show ?case using Cons.prems Cons.IH tmpfs_set_ok by (auto split: if_split_asm option.split_asm sum.split_asm)
qed simp

definition entry_accepted :: "fstab_entry \<Rightarrow> bool" where
  "entry_accepted e \<longleftrightarrow> canonical_path (fe_target e) \<and> source_ok (fe_filesystem e) (fe_source e) \<and> tmpfs_ok (fe_tmpfs e)
     \<and> (fe_target e = [slash] \<longrightarrow> \<not> fe_noauto e \<and> fe_filesystem e \<in> {lit ''ext4'', lit ''fat'', lit ''ramfs''})"

lemma parse_entry_accepted:
  assumes "parse_entry_fields index es parts = Inr e"
  shows "entry_accepted e \<and> length es < 64 \<and> fe_target e \<notin> fe_target ` set es"
proof -
  have t: "tmpfs_ok tmpfs_default" by (simp add: tmpfs_ok_def tmpfs_default_def)
  show ?thesis using assms parse_options_ok [OF _ t, of index "parts ! 2" "[]" False "split_on 44 (parts ! 3)"]
    by (auto simp: parse_entry_fields_def entry_accepted_def split: if_split_asm sum.split_asm prod.split_asm)
qed

lemma parse_fstab_lines_ok:
  "parse_fstab_lines es index ls = Inr es' \<Longrightarrow> length es \<le> 64 \<Longrightarrow> distinct (map fe_target es) \<Longrightarrow> (\<forall>e \<in> set es. entry_accepted e)
    \<Longrightarrow> length es' \<le> 64 \<and> distinct (map fe_target es') \<and> (\<forall>e \<in> set es'. entry_accepted e)"
proof (induction ls arbitrary: es index)
  case (Cons full ls)
  show ?case
  proof (cases "str_trim full = [] \<or> starts_with [hash] (str_trim full)")
    case True
    then show ?thesis using Cons by (simp add: Let_def)
  next
    case False
    then obtain e where e: "parse_entry_fields index es (takeWhile (\<lambda>f. \<not> starts_with [hash] f) (split_whitespace (str_trim full))) = Inr e"
      "parse_fstab_lines (es @ [e]) (index + 1) ls = Inr es'"
      using Cons.prems(1) by (auto simp: Let_def split: sum.split_asm)
    show ?thesis using Cons.IH [OF e(2)] Cons.prems parse_entry_accepted [OF e(1)] by auto
  qed
qed simp

text \<open>An accepted table of file systems is safe to mount in order: it has at most 64 entries with different, absolute and
  normalized targets, every source fits its file system, the limits of every tmpfs are ones that tmpfs accepts, the root is not optional,
  and no target lies below one that is mounted later (the root, which is mounted before the table is read, apart).\<close>

lemma fstab_accepted:
  assumes "parse_fstab contents = Inr es"
  shows "length es \<le> 64 \<and> distinct (map fe_target es) \<and> (\<forall>e \<in> set es. entry_accepted e)
    \<and> (\<forall>i j. i < j \<and> j < length es \<longrightarrow> \<not> starts_with (fe_target (es ! j) @ [slash]) (fe_target (es ! i)))"
proof -
  obtain es0 where es0: "parse_fstab_lines [] 0 (str_lines contents) = Inr es0" "es = sort_key depth es0"
    using assms by (auto simp: parse_fstab_def split: if_split_asm sum.split_asm)
  have ok: "length es0 \<le> 64" "distinct (map fe_target es0)" "\<forall>e \<in> set es0. entry_accepted e"
    using parse_fstab_lines_ok [OF es0(1)] by simp_all
  have "distinct (map fe_target es)" using ok(2) unfolding es0(2) distinct_map by simp
  moreover have "\<not> starts_with (fe_target (es ! j) @ [slash]) (fe_target (es ! i))" if "i < j" "j < length es" for i j
  proof
    assume "starts_with (fe_target (es ! j) @ [slash]) (fe_target (es ! i))"
    then obtain r where "fe_target (es ! i) = fe_target (es ! j) @ [slash] @ r" by (auto simp: starts_with_iff prefix_def)
    then have "depth (es ! j) < depth (es ! i)" by (simp add: depth_def)
    moreover have "sorted (map depth es)" unfolding es0(2) by (rule sorted_sort_key)
    then have "depth (es ! i) \<le> depth (es ! j)" using that sorted_nth_mono [of "map depth es" i j] by simp
    ultimately show False by simp
  qed
  ultimately show ?thesis using ok es0(2) by auto
qed

end
