(* ===== verification/Spec2Isabelle.thy ===== *)
theory Spec2Isabelle
  imports Load_Image Heap Process_Props Vfs_Props Frame_Alloc User_Memory Binfmt Line_Disc Fd_Table Cpu_Accounting User_Paging Mem_Fs Initrd Boot_Settings
begin

text \<open>
  Verification of the krust kernel (\<^verbatim>\<open>kernel/src\<close>), a monolithic kernel for x86-64 in Rust.

  \<^bold>\<open>The program.\<close> A system call enters with user pointers, which the checked user-memory layer
  (\<^verbatim>\<open>syscall/user_memory.rs\<close>) translates through the address space of the calling task
  (\<^verbatim>\<open>mm/address_space.rs\<close>). An address space owns a root page table, private page tables and
  mapped frames, all of which come from the frame allocator (\<^verbatim>\<open>mm/frame_allocator.rs\<close>).
  Paths go to the virtual file system (\<^verbatim>\<open>fs/vfs.rs\<close>), which picks a mounted file system; the
  memory file systems (\<^verbatim>\<open>fs/memfs.rs\<close>) are one kind of them. Open files are kept in the
  descriptor table of the task (\<^verbatim>\<open>process/fd_table.rs\<close>). A task (\<^verbatim>\<open>process/task.rs\<close>) has saved
  registers (\<^verbatim>\<open>arch/x86_64/context.rs\<close>), an address space, descriptors, processor times and pending
  signals; the scheduler (\<^verbatim>\<open>process/scheduler.rs\<close>) chooses the one that runs, and \<^verbatim>\<open>process/mod.rs\<close>
  forks, waits, puts to sleep and wakes. The implementations of the system calls (\<^verbatim>\<open>syscall/impls.rs\<close>) execute
  programs and move the end of the heap. Device files lead through the device
  registry (\<^verbatim>\<open>drivers/registry.rs\<close>) to drivers such as the terminals, whose input passes the
  line discipline (\<^verbatim>\<open>drivers/char/ldisc.rs\<close>, \<^verbatim>\<open>pty.rs\<close>). At boot the settings and the table of file systems
  (\<^verbatim>\<open>boot_settings.rs\<close>) are parsed, and the initial RAM disk (\<^verbatim>\<open>fs/initrd.rs\<close>) is unpacked.

  \<^bold>\<open>Conventions.\<close>
  \<^item> \<open>u8\<close>, \<open>u32\<close>, \<open>u64\<close> are machine words where wrap-around, saturation or bit operations matter;
    a \<open>usize\<close> that only indexes or counts is a \<open>nat\<close>, and the overflow checks of the code are written out.
  \<^item> \<open>Result<T, isize>\<close> is \<open>int + 'a\<close> with the negative error number; \<open>Result<T, FsError>\<close> and the like
    have the source's error enumeration on the left. Where a function can panic the result is an \<open>option\<close>,
    with \<open>None\<close> for the panic.
  \<^item> A string is the list of its Unicode scalar values (\<^verbatim>\<open>Rust_Str\<close>), with its bytes given by \<^verbatim>\<open>Utf8\<close>.
    A \<open>BTreeMap\<close> is the list of its entries in the order of the keys (\<^verbatim>\<open>Btree_Map\<close>).
  \<^item> Global variables behind a lock are explicit state. A method that takes \<open>&mut self\<close> returns the new state.
  \<^item> Trait objects and third-party crates are parameters: the record \<open>objects\<close> for inodes, file systems and
    devices, \<open>paging_crate\<close> for the page-table types of the x86_64 crate, the ELF fields that xmas_elf parses.
    What is relied on is a named hypothesis, shown to hold for a concrete instance: \<open>crate_ok\<close> says how the entries of
    a table are read and written, that \<open>map_to\<close> adds the parent flags to the entries on its path and sets an unused leaf, and
    that \<open>unmap\<close> takes a leaf out; the instance \<open>x86_crate\<close> has the bit layout of the processor.

  \<^bold>\<open>The theories.\<close>
  \<^item> \<^verbatim>\<open>Prelude\<close>, \<^verbatim>\<open>Rust_Str\<close>, \<^verbatim>\<open>Utf8\<close>, \<^verbatim>\<open>Rust_Num\<close>, \<^verbatim>\<open>Le_Bytes\<close>, \<^verbatim>\<open>Btree_Map\<close>: integers, strings, byte order and
    maps of the standard library, with the lemmas that the components share.
  \<^item> \<^verbatim>\<open>Byte_File\<close>, \<^verbatim>\<open>Mem_File\<close>: the contract of a regular file as a locale, and the two storage forms of
    \<^verbatim>\<open>memfs.rs\<close> (contiguous and sparse pages). Reads, writes and truncation refine the byte-file
    contract, and the page quota is exact.
  \<^item> \<^verbatim>\<open>Mem_Tree\<close>, \<^verbatim>\<open>Mem_Dir\<close>, \<^verbatim>\<open>Mem_Inv\<close>, \<^verbatim>\<open>Mem_Fs\<close>: the namespace of \<^verbatim>\<open>memfs.rs\<close>. The invariant says that the
    directories form a tree, that link counts and quotas are exact and that every unlinked inode is still
    held; every sequence of operations keeps it. The walk from a directory to the root that \<open>rename\<close> makes is a
    \<open>partial_function\<close>; it ends on every consistent file system. A lock taken twice is the outcome \<open>Hang\<close>, and
    the one call that has it is characterised. The effect of the operations on names is stated in full.
  \<^item> \<^verbatim>\<open>Frame_Alloc\<close>: the boot frame allocator, the global allocator with its recycled list, owned pages. No
    frame is handed out twice while it is in use.
  \<^item> \<^verbatim>\<open>User_Paging\<close>: user layout, \<open>mmap\<close> ranges and flags, and the walk that finds supervisor pages
    (\<^verbatim>\<open>arch/x86_64/user_layout.rs\<close>, \<^verbatim>\<open>user_protection.rs\<close>, \<^verbatim>\<open>supervisor_overlap.rs\<close>, \<^verbatim>\<open>syscall/mmap.rs\<close>).
  \<^item> \<^verbatim>\<open>Address_Space\<close>, \<^verbatim>\<open>Space_Inv\<close>, \<^verbatim>\<open>Space_Props\<close>: address spaces over physical memory. An address space never
    writes to page tables of others, fork copies each page, dropping returns exactly the frames owned. \<open>tree_ok\<close> says that the
    private tables of an address space form a tree, from which follows what a walk by the processor finds (\<open>shows_page\<close>): after a
    fork every page leads to the frame of its mapping, with its flags. The code appends a second mapping when a
    page is mapped again; the page tables then show the last one (\<open>shown\<close>), lookups in the list the first.
  \<^item> \<^verbatim>\<open>User_Memory\<close>: checked copies. A copy to user memory happens completely or not at all; strings and
    argument vectors are read exactly, within their budgets.
  \<^item> \<^verbatim>\<open>Vfs_Path\<close>, \<^verbatim>\<open>Vfs\<close>, \<^verbatim>\<open>Vfs_Props\<close>: path normalization against a stack machine, mounts, lookup with symbolic
    links, open files. A path belongs to the longest mount above it; a resolution succeeds exactly when at most ten
    replacements of the first link lead to a path without links (\<open>link_step\<close>);
    a mount can be removed exactly when no file opened through it is open, in every reachable state.
  \<^item> \<^verbatim>\<open>Device_Registry\<close>: registration and lookup by name and by number.
  \<^item> \<^verbatim>\<open>Fd_Table\<close>, \<^verbatim>\<open>Cpu_Accounting\<close>, \<^verbatim>\<open>Binfmt\<close>: descriptors (lowest free number, close-on-exec, duplication),
    processor time against a specification on timed histories, and the search for a binary format with the
    bounded chain of interpreters.
  \<^item> \<^verbatim>\<open>Cpu_Context\<close>: the saved registers, saving to and loading from a stack, and the switch. Loading returns what was saved;
    the lemma \<open>stack_roundtrip\<close> also shows the word that \<open>save_to_stack\<close> overwrites.
  \<^item> \<^verbatim>\<open>Wait_Queue\<close>: the queue of waiting processes as an instance of a first-in first-out contract.
  \<^item> \<^verbatim>\<open>Task\<close>: \<open>Task\<close> with construction, cloning, standard files, exit and signals; the record \<open>task\<close> has the fields of the
    struct. The order in which pending signals are handled and which are discarded is stated exactly, in a lemma.
  \<^item> \<^verbatim>\<open>Scheduler\<close>, \<^verbatim>\<open>Scheduler_Props\<close>: \<open>Scheduler\<close> with every operation; the record \<open>procs\<close> joins its fields with the process-id
    counters and the registers that a switch loads. Scheduling is fair: a task that can run is chosen within
    one round, as long as only the calls of \<open>schedule_on\<close> move the scheduler's position (\<open>turn_kept\<close>).
  \<^item> \<^verbatim>\<open>Process\<close>, \<^verbatim>\<open>Process_Props\<close>: the record \<open>kernel\<close> is the global state; boot, fork, wait, exit, faults, kill, terminals, sleep and
    wake act on it. The relation \<open>kstep\<close> takes one of these steps; every state reached from boot has distinct process
    ids, a valid position and at most one running task. A wait, blocking or not, reports an ended child exactly once.
  \<^item> \<^verbatim>\<open>User_Stack\<close>: the initial stack of a program (\<^verbatim>\<open>arch/x86_64/userspace.rs\<close>) against one list of bytes. The
    property assumes that the stack lies in consecutive frames, which \<open>write_bytes\<close> needs and nothing ensures.
  \<^item> \<^verbatim>\<open>Heap\<close>: \<open>brk\<close> and anonymous mappings; everything below the break is mapped, always.
  \<^item> \<^verbatim>\<open>Probe\<close>: paths relative to the current directory, \<open>open\<close> with its flags, and the probing of a program file through a descriptor of
    the caller. \<open>undisturbed\<close> says what opening and closing again leaves as it was: the other tasks, the descriptors, the
    open files and all counts.
  \<^item> \<^verbatim>\<open>Exec\<close>, \<^verbatim>\<open>Load_Image\<close>: \<open>execve\<close>, from the path to the new image. The
    predicate \<open>holding\<close> says which frames the image under construction owns; a failed \<open>execve\<close> gives all of them
    back and leaves the kernel undisturbed, and a loaded segment holds the bytes of the file where the page tables lead.
  \<^item> \<^verbatim>\<open>Initrd\<close>: the loader of cpio archives, against a writer of archives; the loaded tree has exactly the members.
  \<^item> \<^verbatim>\<open>Boot_Settings\<close>: the boot configuration and the table of file systems. Printed settings are parsed back
    (\<open>boot_settings_roundtrip\<close>), and an accepted table can be mounted in order (\<open>fstab_accepted\<close>).
  \<^item> \<^verbatim>\<open>Line_Disc\<close>: canonical editing, echo and signals of the line discipline, and the queues of a
    pseudo-terminal. Editing is specified from the end of a line (\<open>survivors\<close>); the queue towards the application is unbounded.

  \<^bold>\<open>Bounds and fuel.\<close> Recursions follow the data or have a termination proof. The links followed by a lookup
  are counted by the code itself (\<open>DEFAULT_SYMLINK_RESOLUTION_LIMIT\<close>), as are interpreters (\<open>MAX_INTERPRETER_REDIRECTS\<close>); the
  models use the same counters, so no bound is added. Page walks have four levels, as the hardware has.
  The boot frame allocator looks only at frames of a finite memory map. The parent walk of \<open>rename\<close> has no
  bound in the code and none in the model. \<open>wait_for_child_with_options\<close> waits for interrupts: its model takes the list of
  interrupts that occur and says when it still waits after the last. Process ids are 64-bit and never reused; the
  invariant of the scheduler is stated for fewer than \<open>2 ^ 64 - 3\<close> steps, before the counter can wrap.

  \<^bold>\<open>Not modelled.\<close> Hardware programming (descriptor tables, interrupts, AHCI, PCI, PS/2, serial ports and
  frame buffers) is inline assembly or memory-mapped I/O. The FAT and ext4 file systems are adapters over
  crates outside the sources; procfs and devfs format text. The system-call handlers other than exit and kill
  decode arguments and mostly dereference user pointers directly. Of \<^verbatim>\<open>impls.rs\<close> the directory listing, status and
  metadata calls, renaming and unlinking by path are not modelled. Neither are the
  contents of kernel stacks and of interrupt handlers other than the three that end a faulting task; their effect is a step of the relation \<open>kstep\<close>. The shell, the loader and the disk-image tools print and do I/O.
  Locks are not modelled: each operation runs while its lock is held.
\<close>

end
